(* ===== verification/Prelude.thy ===== *)
theory Prelude
  imports Main "HOL-Library.Word"
begin

text \<open>
  Shared vocabulary of the development: the machine types of the C code (LP64, as on
  64-bit iOS), flat byte memory, little-endian words, and the generic facts on words
  and lists that the component theories use.
\<close>

unbundle bit_operations_syntax

section \<open>Machine types\<close>

type_synonym byte = "8 word"
type_synonym u32 = "32 word"
type_synonym u64 = "64 word"

text \<open>\<open>size_t\<close> and \<open>uintptr_t\<close> are 64 bits wide. A pointer is an \<open>int\<close>: pointer arithmetic
  that leaves an object is undefined in C, so it never wraps in the model; 0 is \<open>NULL\<close>.\<close>

type_synonym size_t = "64 word"
type_synonym addr = int

text \<open>Memory maps every address to a byte; an object of \<open>n\<close> bytes at \<open>p\<close> occupies
  \<open>{p ..< p + n}\<close>.\<close>

type_synonym mem = "addr \<Rightarrow> byte"

named_theorems c_defs "definitions of the C operations, unfolded on demand"
named_theorems frame_simps "what an operation leaves unchanged"

section \<open>Words and bytes\<close>

primrec le_bytes :: "nat \<Rightarrow> 'a::len word \<Rightarrow> byte list" where
  "le_bytes 0 w = []"
| "le_bytes (Suc n) w = ucast w # le_bytes n (drop_bit 8 w)"

primrec le_val :: "byte list \<Rightarrow> 'a::len word" where
  "le_val [] = 0"
| "le_val (b # bs) = ucast b OR push_bit 8 (le_val bs)"

lemma length_le_bytes [simp]: "length (le_bytes n w) = n"
  by (induction n arbitrary: w) auto

lemma le_val_le_bytes: "le_val (le_bytes n w) = take_bit (8 * n) w"
proof (induction n arbitrary: w)
  case 0
  then show ?case by simp
next
  case (Suc n)
  show ?case
    by (rule bit_word_eqI) (auto simp: Suc bit_simps)
qed

lemma le_val_le_bytes_full:
  "LENGTH('a) \<le> 8 * n \<Longrightarrow> le_val (le_bytes n w) = (w :: 'a::len word)"
  by (simp add: le_val_le_bytes take_bit_word_eq_self)

lemma nth_le_bytes: "i < n \<Longrightarrow> le_bytes n w ! i = ucast (drop_bit (8 * i) w)"
proof (induction n arbitrary: w i)
  case 0
  then show ?case by simp
next
  case (Suc n)
  then show ?case by (cases i) (simp_all add: add.commute)
qed

lemma bit_le_val:
  "bit (le_val bs :: 'a::len word) k \<longleftrightarrow>
     k < LENGTH('a) \<and> k < 8 * length bs \<and> bit (bs ! (k div 8)) (k mod 8)"
proof (induction bs arbitrary: k)
  case Nil
  then show ?case by simp
next
  case (Cons b bs)
  show ?case
  proof (cases "k < 8")
    case True
    then show ?thesis by (auto simp: bit_simps)
  next
    case False
    then obtain j where k: "k = 8 + j" by (metis add_diff_inverse_nat)
    have "\<not> bit b k" using False by (auto dest: bit_imp_le_length)
    moreover have "(8 + j) div 8 = Suc (j div 8)" by simp
    ultimately show ?thesis by (auto simp: bit_simps Cons k)
  qed
qed

lemma le_bytes_le_val:
  assumes "length bs = n" "8 * n \<le> LENGTH('a)"
  shows "le_bytes n (le_val bs :: 'a::len word) = bs"
proof (rule nth_equalityI)
  fix i
  assume "i < length (le_bytes n (le_val bs :: 'a word))"
  then have i: "i < n" by simp
  show "le_bytes n (le_val bs :: 'a word) ! i = bs ! i"
    by (rule bit_word_eqI) (use i assms in \<open>auto simp: nth_le_bytes bit_simps bit_le_val\<close>)
qed (simp add: assms)

text \<open>The masks of the source, as \<open>mask\<close>, so that bitwise reasoning sees them.\<close>

lemma word_masks:
  "(1 :: 'a::len word) = mask 1"
  "(3 :: 'a::len word) = mask 2"
  "(7 :: 'a::len word) = mask 3"
  "(15 :: 'a::len word) = mask 4"
  "(63 :: 'a::len word) = mask 6"
  "(127 :: 'a::len word) = mask 7"
  "(255 :: 'a::len word) = mask 8"
  by (simp_all add: mask_eq_exp_minus_1)

lemma ucast_and_255 [simp]: "(ucast (w AND 255) :: byte) = ucast w"
  by (rule bit_word_eqI) (auto simp: word_masks(7) bit_simps dest: bit_imp_le_length)

lemma bit_128 [bit_simps]: "bit (128 :: 'a::len word) n \<longleftrightarrow> n = 7 \<and> 7 < LENGTH('a)"
proof -
  have "(128 :: 'a word) = 2 ^ 7" by simp
  then show ?thesis by (simp only: bit_exp_iff) auto
qed

lemma bit_128_int [bit_simps]: "bit (128 :: int) n \<longleftrightarrow> n = 7"
proof -
  have "(128 :: int) = 2 ^ 7" by simp
  then show ?thesis by (simp only: bit_exp_iff) auto
qed

lemma drop_bit_0_bit:
  fixes v :: "'a::len word"
  assumes "drop_bit k v = 0" "bit v n"
  shows "n < k"
proof (rule ccontr)
  assume n: "\<not> n < k"
  have "bit (drop_bit k v) (n - k) = bit v n"
    using n by (simp add: bit_simps)
  with assms show False by simp
qed

lemma word_xor_eq_0_iff: "v XOR w = 0 \<longleftrightarrow> v = (w :: 'a::len word)"
proof
  assume "v XOR w = 0"
  then have "(v XOR w) XOR w = w" by simp
  then show "v = w" by (simp only: xor.assoc xor_self_eq xor.right_neutral)
qed simp

lemma unat_div_128_less: "v \<noteq> 0 \<Longrightarrow> unat (v div 128) < unat (v :: u64)"
proof -
  assume "v \<noteq> 0"
  then have "0 < unat v" by (simp add: unat_gt_0)
  then show ?thesis by (simp add: unat_div_distrib)
qed

lemma unat_ucast_up:
  "LENGTH('a) \<le> LENGTH('b) \<Longrightarrow> unat (ucast (w :: 'a::len word) :: 'b::len word) = unat w"
proof -
  assume le: "LENGTH('a) \<le> LENGTH('b)"
  have "unat w < 2 ^ LENGTH('a)" by simp
  also have "\<dots> \<le> (2 :: nat) ^ LENGTH('b)" using le by simp
  finally show ?thesis by (simp add: unsigned_ucast_eq take_bit_nat_eq_self)
qed

lemma unat_Suc_less: "unat x < unat (y :: 'a::len word) \<Longrightarrow> unat (x + 1) = Suc (unat (x :: 'a::len word))"
proof -
  assume "unat x < unat y"
  moreover have "unat y < 2 ^ LENGTH('a)" by simp
  ultimately have "Suc (unat x) < 2 ^ LENGTH('a)" by linarith
  then show ?thesis by (simp add: unat_word_ariths)
qed

lemma unat_u32_less: "unat (w :: u32) < 2 ^ 32"
  by (rule less_le_trans [OF unsigned_less]) simp

lemma unat_byte_less: "unat (b :: byte) < 256"
  by (rule less_le_trans [OF unsigned_less]) simp

text \<open>A subtraction in modular arithmetic, with and without a borrow.\<close>

lemma mod_sub_borrow: "0 \<le> x \<Longrightarrow> x < y \<Longrightarrow> y \<le> m \<Longrightarrow> (x - y) mod m = x - y + (m :: int)"
  by (subst mod_add_self2 [symmetric], intro mod_pos_pos_trivial) linarith+

lemma mod_sub_no_borrow: "0 \<le> y \<Longrightarrow> y \<le> x \<Longrightarrow> x < m \<Longrightarrow> (x - y) mod m = x - (y :: int)"
  by (intro mod_pos_pos_trivial) linarith+

lemma unat_u64_less: "unat (w :: u64) < 2 ^ 64"
  by (rule less_le_trans [OF unsigned_less]) simp

section \<open>Memory\<close>

definition mem_read :: "mem \<Rightarrow> addr \<Rightarrow> nat \<Rightarrow> byte list" where
  "mem_read m p n = map (\<lambda>i. m (p + int i)) [0..<n]"

definition mem_write :: "mem \<Rightarrow> addr \<Rightarrow> byte list \<Rightarrow> mem" where
  "mem_write m p bs =
     (\<lambda>a. if p \<le> a \<and> a < p + int (length bs) then bs ! nat (a - p) else m a)"

definition read_u32 :: "mem \<Rightarrow> addr \<Rightarrow> u32" where
  "read_u32 m p = le_val (mem_read m p 4)"

definition read_u64 :: "mem \<Rightarrow> addr \<Rightarrow> u64" where
  "read_u64 m p = le_val (mem_read m p 8)"

definition read_ptr :: "mem \<Rightarrow> addr \<Rightarrow> addr" where
  "read_ptr m p = uint (read_u64 m p)"

lemma length_mem_read [simp]: "length (mem_read m p n) = n"
  by (simp add: mem_read_def)

lemma mem_read_0 [simp]: "mem_read m p 0 = []"
  by (simp add: mem_read_def)

lemma mem_read_Suc: "mem_read m p (Suc n) = m p # mem_read m (p + 1) n"
  by (rule nth_equalityI) (auto simp: mem_read_def nth_Cons' nth_append less_Suc_eq_0_disj algebra_simps)

lemma mem_read_add: "mem_read m p (n + k) = mem_read m p n @ mem_read m (p + int n) k"
  by (rule nth_equalityI) (auto simp: mem_read_def nth_append algebra_simps of_nat_diff)

lemma mem_write_Nil [simp]: "mem_write m p [] = m"
  by (rule ext) (auto simp: mem_write_def)

lemma mem_write_other: "a < p \<or> p + int (length bs) \<le> a \<Longrightarrow> mem_write m p bs a = m a"
  by (auto simp: mem_write_def)

lemma mem_read_write_same [simp]:
  "length bs = n \<Longrightarrow> mem_read (mem_write m p bs) p n = bs"
  by (rule nth_equalityI) (auto simp: mem_read_def mem_write_def)

lemma mem_read_write_disjoint:
  "p + int n \<le> q \<or> q + int (length bs) \<le> p \<Longrightarrow> mem_read (mem_write m q bs) p n = mem_read m p n"
  by (rule nth_equalityI) (auto simp: mem_read_def mem_write_def)

lemma mem_read_cong:
  "(\<And>a. p \<le> a \<Longrightarrow> a < p + int n \<Longrightarrow> m a = m' a) \<Longrightarrow> mem_read m p n = mem_read m' p n"
  by (rule nth_equalityI) (auto simp: mem_read_def)

lemma mem_write_append:
  "mem_write m p (xs @ ys) = mem_write (mem_write m p xs) (p + int (length xs)) ys"
proof (rule ext)
  fix a
  have "nat (a - p) - length xs = nat (a - (p + int (length xs)))"
    by simp
  then show "mem_write m p (xs @ ys) a = mem_write (mem_write m p xs) (p + int (length xs)) ys a"
    by (auto simp: mem_write_def nth_append)
qed

text \<open>\<open>memcmp\<close> of the C library: only the sign of its result is specified.\<close>

fun memcmp :: "byte list \<Rightarrow> byte list \<Rightarrow> int" where
  "memcmp (a # as) (b # bs) = (if a = b then memcmp as bs else if a < b then -1 else 1)"
| "memcmp _ _ = 0"

lemma memcmp_0: "length as = length bs \<Longrightarrow> memcmp as bs = 0 \<longleftrightarrow> as = bs"
  by (induction as bs rule: list_induct2) auto

end
