(* ===== verification/Pb_Types.thy ===== *)
theory Pb_Types
  imports Prelude "HOL-Library.More_List"
begin

text \<open>
  Data of nanopb (\<^verbatim>\<open>ios/Pods/nanopb/pb.h\<close>), built as the pod builds it: \<^verbatim>\<open>PB_FIELD_32BIT\<close>,
  \<^verbatim>\<open>PB_NO_PACKED_STRUCTS\<close> and \<^verbatim>\<open>PB_ENABLE_MALLOC\<close> set. A field descriptor is a record; its
  \<^verbatim>\<open>type\<close> byte keeps the three packed sub-fds the source masks out. A descriptor array is
  the list of its entries before \<^verbatim>\<open>PB_LAST_FIELD\<close>; reading the entry after the last one gives
  the terminator.
\<close>

section \<open>Field type byte\<close>

definition PB_LTYPE_BOOL :: byte where "PB_LTYPE_BOOL = 0x00"
definition PB_LTYPE_VARINT :: byte where "PB_LTYPE_VARINT = 0x01"
definition PB_LTYPE_UVARINT :: byte where "PB_LTYPE_UVARINT = 0x02"
definition PB_LTYPE_SVARINT :: byte where "PB_LTYPE_SVARINT = 0x03"
definition PB_LTYPE_FIXED32 :: byte where "PB_LTYPE_FIXED32 = 0x04"
definition PB_LTYPE_FIXED64 :: byte where "PB_LTYPE_FIXED64 = 0x05"
definition PB_LTYPE_LAST_PACKABLE :: byte where "PB_LTYPE_LAST_PACKABLE = 0x05"
definition PB_LTYPE_BYTES :: byte where "PB_LTYPE_BYTES = 0x06"
definition PB_LTYPE_STRING :: byte where "PB_LTYPE_STRING = 0x07"
definition PB_LTYPE_SUBMESSAGE :: byte where "PB_LTYPE_SUBMESSAGE = 0x08"
definition PB_LTYPE_EXTENSION :: byte where "PB_LTYPE_EXTENSION = 0x09"
definition PB_LTYPE_FIXED_LENGTH_BYTES :: byte where "PB_LTYPE_FIXED_LENGTH_BYTES = 0x0A"

definition PB_HTYPE_REQUIRED :: byte where "PB_HTYPE_REQUIRED = 0x00"
definition PB_HTYPE_OPTIONAL :: byte where "PB_HTYPE_OPTIONAL = 0x10"
definition PB_HTYPE_REPEATED :: byte where "PB_HTYPE_REPEATED = 0x20"
definition PB_HTYPE_ONEOF :: byte where "PB_HTYPE_ONEOF = 0x30"

definition PB_ATYPE_STATIC :: byte where "PB_ATYPE_STATIC = 0x00"
definition PB_ATYPE_POINTER :: byte where "PB_ATYPE_POINTER = 0x80"
definition PB_ATYPE_CALLBACK :: byte where "PB_ATYPE_CALLBACK = 0x40"

definition PB_ATYPE :: "byte \<Rightarrow> byte" where "PB_ATYPE x = x AND 0xC0"
definition PB_HTYPE :: "byte \<Rightarrow> byte" where "PB_HTYPE x = x AND 0x30"
definition PB_LTYPE :: "byte \<Rightarrow> byte" where "PB_LTYPE x = x AND 0x0F"

lemmas pb_type_defs =
  PB_LTYPE_BOOL_def PB_LTYPE_VARINT_def PB_LTYPE_UVARINT_def PB_LTYPE_SVARINT_def
  PB_LTYPE_FIXED32_def PB_LTYPE_FIXED64_def PB_LTYPE_LAST_PACKABLE_def PB_LTYPE_BYTES_def
  PB_LTYPE_STRING_def PB_LTYPE_SUBMESSAGE_def PB_LTYPE_EXTENSION_def
  PB_LTYPE_FIXED_LENGTH_BYTES_def PB_HTYPE_REQUIRED_def PB_HTYPE_OPTIONAL_def
  PB_HTYPE_REPEATED_def PB_HTYPE_ONEOF_def PB_ATYPE_STATIC_def PB_ATYPE_POINTER_def
  PB_ATYPE_CALLBACK_def PB_ATYPE_def PB_HTYPE_def PB_LTYPE_def

lemma htype_cases:
  "PB_HTYPE x = PB_HTYPE_REQUIRED \<or> PB_HTYPE x = PB_HTYPE_OPTIONAL
     \<or> PB_HTYPE x = PB_HTYPE_REPEATED \<or> PB_HTYPE x = PB_HTYPE_ONEOF"
proof -
  have p: "(16 :: byte) = 2 ^ 4" "(32 :: byte) = 2 ^ 5" by simp_all
  have b: "bit (16 :: byte) n \<longleftrightarrow> n = 4" "bit (32 :: byte) n \<longleftrightarrow> n = 5" for n
    unfolding p by (auto simp only: bit_exp_iff) simp_all
  have c: "(48 :: byte) = 16 OR 32" by simp
  have "x AND (16 OR 32) = (if bit x 4 then 16 else 0) OR (if bit x 5 then 32 else (0 :: byte))"
    by (rule bit_word_eqI) (auto simp only: bit_and_iff bit_or_iff b bit_0_eq split: if_splits)
  then have "x AND 48 = 0 \<or> x AND 48 = 16 \<or> x AND 48 = 32 \<or> x AND 48 = 48"
    unfolding c by (cases "bit x 4"; cases "bit x 5") simp_all
  then show ?thesis by (auto simp: pb_type_defs)
qed

lemma htype_distinct:
  "PB_HTYPE_REQUIRED \<noteq> PB_HTYPE_OPTIONAL" "PB_HTYPE_REQUIRED \<noteq> PB_HTYPE_REPEATED"
  "PB_HTYPE_REQUIRED \<noteq> PB_HTYPE_ONEOF" "PB_HTYPE_OPTIONAL \<noteq> PB_HTYPE_REQUIRED"
  "PB_HTYPE_OPTIONAL \<noteq> PB_HTYPE_REPEATED" "PB_HTYPE_OPTIONAL \<noteq> PB_HTYPE_ONEOF"
  "PB_HTYPE_REPEATED \<noteq> PB_HTYPE_REQUIRED" "PB_HTYPE_REPEATED \<noteq> PB_HTYPE_OPTIONAL"
  "PB_HTYPE_REPEATED \<noteq> PB_HTYPE_ONEOF" "PB_HTYPE_ONEOF \<noteq> PB_HTYPE_REQUIRED"
  "PB_HTYPE_ONEOF \<noteq> PB_HTYPE_OPTIONAL" "PB_HTYPE_ONEOF \<noteq> PB_HTYPE_REPEATED"
  by (simp_all add: pb_type_defs)

section \<open>Field descriptors\<close>

text \<open>\<open>pb_size_t\<close> is \<^verbatim>\<open>uint32_t\<close>; \<^verbatim>\<open>size_offset\<close> is a \<open>pb_ssize_t\<close>, read with \<open>sint\<close>.\<close>

type_synonym pb_size_t = "32 word"

definition PB_SIZE_MAX :: pb_size_t where "PB_SIZE_MAX = - 1"

record pb_field =
  tag :: u32
  ftype :: byte
  data_offset :: pb_size_t
  size_offset :: pb_size_t
  data_size :: pb_size_t
  array_size :: pb_size_t
  fptr :: addr

definition PB_LAST_FIELD :: pb_field where
  "PB_LAST_FIELD = \<lparr>tag = 0, ftype = 0, data_offset = 0, size_offset = 0, data_size = 0,
     array_size = 0, fptr = 0\<rparr>"

abbreviation field_at :: "pb_field list \<Rightarrow> nat \<Rightarrow> pb_field" where
  "field_at fds i \<equiv> nth_default PB_LAST_FIELD fds i"

text \<open>The arrays the generator emits hold no tag 0 before the terminator.\<close>

definition fields_wf :: "pb_field list \<Rightarrow> bool" where
  "fields_wf fds \<longleftrightarrow> (\<forall>f \<in> set fds. tag f \<noteq> 0)"

lemma tag_field_at: "fields_wf fds \<Longrightarrow> tag (field_at fds i) = 0 \<longleftrightarrow> length fds \<le> i"
  by (auto simp: fields_wf_def nth_default_def PB_LAST_FIELD_def)

section \<open>Structures in memory\<close>

text \<open>Sizes and offsets on LP64: \<^verbatim>\<open>sizeof(bool)\<close>, \<^verbatim>\<open>sizeof(void*)\<close>, the offset of \<^verbatim>\<open>bytes\<close> in
  \<^verbatim>\<open>pb_bytes_array_t\<close> and of the members of \<^verbatim>\<open>pb_callback_t\<close>, \<^verbatim>\<open>pb_extension_t\<close> and
  \<^verbatim>\<open>pb_extension_type_t\<close>.\<close>

definition PB_BYTES_ARRAY_T_ALLOCSIZE :: "u32 \<Rightarrow> size_t" where
  "PB_BYTES_ARRAY_T_ALLOCSIZE n = ucast n + 4"

definition bytes_size :: "mem \<Rightarrow> addr \<Rightarrow> pb_size_t" where "bytes_size m p = read_u32 m p"
definition bytes_data :: "addr \<Rightarrow> addr" where "bytes_data p = p + 4"

definition callback_func :: "mem \<Rightarrow> addr \<Rightarrow> addr" where "callback_func m p = read_ptr m p"
definition callback_arg :: "addr \<Rightarrow> addr" where "callback_arg p = p + 8"

definition ext_type :: "mem \<Rightarrow> addr \<Rightarrow> addr" where "ext_type m p = read_ptr m p"
definition ext_dest :: "mem \<Rightarrow> addr \<Rightarrow> addr" where "ext_dest m p = read_ptr m (p + 8)"
definition ext_dest_addr :: "addr \<Rightarrow> addr" where "ext_dest_addr p = p + 8"
definition ext_next :: "mem \<Rightarrow> addr \<Rightarrow> addr" where "ext_next m p = read_ptr m (p + 16)"
definition ext_found_addr :: "addr \<Rightarrow> addr" where "ext_found_addr p = p + 24"
definition ext_type_decode :: "mem \<Rightarrow> addr \<Rightarrow> addr" where "ext_type_decode m t = read_ptr m t"
definition ext_type_encode :: "mem \<Rightarrow> addr \<Rightarrow> addr" where "ext_type_encode m t = read_ptr m (t + 8)"
definition ext_type_arg :: "mem \<Rightarrow> addr \<Rightarrow> addr" where "ext_type_arg m t = read_ptr m (t + 16)"

section \<open>Wire types\<close>

definition PB_WT_VARINT :: u32 where "PB_WT_VARINT = 0"
definition PB_WT_64BIT :: u32 where "PB_WT_64BIT = 1"
definition PB_WT_STRING :: u32 where "PB_WT_STRING = 2"
definition PB_WT_32BIT :: u32 where "PB_WT_32BIT = 5"

lemmas pb_wt_defs = PB_WT_VARINT_def PB_WT_64BIT_def PB_WT_STRING_def PB_WT_32BIT_def

text \<open>\<^verbatim>\<open>PB_SET_ERROR\<close>: the first message set on a stream stays.\<close>

definition pb_set_error :: "string option \<Rightarrow> string \<Rightarrow> string option" where
  "pb_set_error old msg = (case old of Some e \<Rightarrow> Some e | None \<Rightarrow> Some msg)"

lemma pb_set_error_simps [simp]:
  "pb_set_error None msg = Some msg" "pb_set_error (Some e) msg = Some e"
  "pb_set_error old msg \<noteq> None"
  by (auto simp: pb_set_error_def split: option.splits)

end
