(* ===== verification/Pb_Common.thy ===== *)
theory Pb_Common
  imports Pb_Types
begin

text \<open>
  The field iterator of \<^verbatim>\<open>ios/Pods/nanopb/pb_common.c\<close>: it walks a descriptor array and keeps
  the address of the current field (\<open>pData\<close>) and of its count or \<^verbatim>\<open>has_\<close> member (\<open>pSize\<close>).
  The lemmas show that every state it can reach from \<open>pb_field_iter_begin\<close> is determined by
  the position (\<open>iter_at\<close>), that a full walk visits every field once and wraps, and that
  \<open>pb_field_iter_find\<close> terminates and decides whether the array has the tag.
\<close>

record pb_field_iter =
  start :: "pb_field list"
  pos :: nat
  required_field_index :: u32
  dest_struct :: addr
  pData :: addr
  pSize :: addr

definition cur :: "pb_field_iter \<Rightarrow> pb_field" where
  "cur it = field_at (start it) (pos it)"

definition pb_field_iter_begin :: "pb_field list \<Rightarrow> addr \<Rightarrow> bool \<times> pb_field_iter" where
  "pb_field_iter_begin fds dest =
     (let f = field_at fds 0;
          d = dest + uint (data_offset f)
      in (tag f \<noteq> 0,
          \<lparr>start = fds, pos = 0, required_field_index = 0, dest_struct = dest,
           pData = d, pSize = d + sint (size_offset f)\<rparr>))"

definition pb_field_iter_next :: "pb_field_iter \<Rightarrow> bool \<times> pb_field_iter" where
  "pb_field_iter_next it =
     (let prev_field = cur it in
      if tag prev_field = 0 then (False, it)
      else
        let it1 = it\<lparr>pos := pos it + 1\<rparr>;
            f = cur it1
        in if tag f = 0 then (False, snd (pb_field_iter_begin (start it) (dest_struct it)))
           else if PB_HTYPE (ftype prev_field) = PB_HTYPE_ONEOF
                   \<and> PB_HTYPE (ftype f) = PB_HTYPE_ONEOF
                   \<and> data_offset f = PB_SIZE_MAX
           then (True, it1)
           else
             let prev_size =
                   (if PB_ATYPE (ftype prev_field) = PB_ATYPE_STATIC
                       \<and> PB_HTYPE (ftype prev_field) = PB_HTYPE_REPEATED
                    then uint (data_size prev_field) * uint (array_size prev_field)
                    else if PB_ATYPE (ftype prev_field) = PB_ATYPE_POINTER then 8
                    else uint (data_size prev_field));
                 it2 = (if PB_HTYPE (ftype prev_field) = PB_HTYPE_REQUIRED
                        then it1\<lparr>required_field_index := required_field_index it1 + 1\<rparr>
                        else it1);
                 d = pData it + prev_size + uint (data_offset f)
             in (True, it2\<lparr>pData := d, pSize := d + sint (size_offset f)\<rparr>))"

text \<open>\<open>None\<close> is a search that never comes back to its starting position.\<close>

partial_function (option) pb_field_iter_find_loop ::
    "nat \<Rightarrow> u32 \<Rightarrow> pb_field_iter \<Rightarrow> (bool \<times> pb_field_iter) option" where
  "pb_field_iter_find_loop st t it =
     (if tag (cur it) = t \<and> PB_LTYPE (ftype (cur it)) \<noteq> PB_LTYPE_EXTENSION
      then Some (True, it)
      else
        let it' = snd (pb_field_iter_next it) in
        if pos it' \<noteq> st then pb_field_iter_find_loop st t it' else Some (False, it'))"

declare pb_field_iter_find_loop.simps [code]

definition pb_field_iter_find :: "pb_field_iter \<Rightarrow> u32 \<Rightarrow> (bool \<times> pb_field_iter) option" where
  "pb_field_iter_find it t = pb_field_iter_find_loop (pos it) t it"

text \<open>The bytes a field takes in the structure.\<close>

definition stored_size :: "pb_field \<Rightarrow> int" where
  "stored_size f =
     (if PB_ATYPE (ftype f) = PB_ATYPE_STATIC \<and> PB_HTYPE (ftype f) = PB_HTYPE_REPEATED
      then uint (data_size f) * uint (array_size f)
      else if PB_ATYPE (ftype f) = PB_ATYPE_POINTER then 8
      else uint (data_size f))"

section \<open>The states of an iterator\<close>

primrec iter_at :: "pb_field list \<Rightarrow> addr \<Rightarrow> nat \<Rightarrow> pb_field_iter" where
  "iter_at fds dest 0 = snd (pb_field_iter_begin fds dest)"
| "iter_at fds dest (Suc i) = snd (pb_field_iter_next (iter_at fds dest i))"

lemma iter_begin_iter_at: "snd (pb_field_iter_begin fds dest) = iter_at fds dest 0"
  by simp

lemma begin_simps [simp]:
  "start (snd (pb_field_iter_begin fds dest)) = fds"
  "pos (snd (pb_field_iter_begin fds dest)) = 0"
  "dest_struct (snd (pb_field_iter_begin fds dest)) = dest"
  "fst (pb_field_iter_begin fds dest) \<longleftrightarrow> tag (field_at fds 0) \<noteq> 0"
  by (simp_all add: pb_field_iter_begin_def Let_def)

lemma next_start [simp]: "start (snd (pb_field_iter_next it)) = start it"
  by (simp add: pb_field_iter_next_def Let_def)

lemma next_dest [simp]: "dest_struct (snd (pb_field_iter_next it)) = dest_struct it"
  by (simp add: pb_field_iter_next_def Let_def)

lemma next_more:
  "fst (pb_field_iter_next it) \<longleftrightarrow>
     tag (cur it) \<noteq> 0 \<and> tag (field_at (start it) (Suc (pos it))) \<noteq> 0"
  by (simp add: pb_field_iter_next_def Let_def cur_def)

lemma next_pos:
  "tag (cur it) \<noteq> 0 \<Longrightarrow> tag (field_at (start it) (Suc (pos it))) \<noteq> 0 \<Longrightarrow>
     pos (snd (pb_field_iter_next it)) = Suc (pos it)"
  by (simp add: pb_field_iter_next_def Let_def cur_def)

lemma next_wrap:
  "tag (cur it) \<noteq> 0 \<Longrightarrow> tag (field_at (start it) (Suc (pos it))) = 0 \<Longrightarrow>
     snd (pb_field_iter_next it) = iter_at (start it) (dest_struct it) 0"
  by (simp add: pb_field_iter_next_def Let_def cur_def)

lemma iter_at_start [simp]: "start (iter_at fds dest i) = fds"
  by (induction i) auto

lemma iter_at_dest [simp]: "dest_struct (iter_at fds dest i) = dest"
  by (induction i) auto

lemma iter_at_pos: "fields_wf fds \<Longrightarrow> i < length fds \<Longrightarrow> pos (iter_at fds dest i) = i"
proof (induction i)
  case 0
  then show ?case by simp
next
  case (Suc i)
  then have "pos (iter_at fds dest i) = i" by simp
  with Suc.prems show ?case by (simp add: next_pos cur_def tag_field_at)
qed

lemma iter_at_cur: "fields_wf fds \<Longrightarrow> i < length fds \<Longrightarrow> cur (iter_at fds dest i) = fds ! i"
  by (simp add: cur_def iter_at_pos nth_default_nth)

lemma iter_at_next:
  assumes "fields_wf fds" "i < length fds"
  shows "pb_field_iter_next (iter_at fds dest i) =
    (if Suc i < length fds then (True, iter_at fds dest (Suc i)) else (False, iter_at fds dest 0))"
proof -
  have c: "tag (cur (iter_at fds dest i)) \<noteq> 0"
    using assms by (simp add: cur_def iter_at_pos tag_field_at)
  show ?thesis
  proof (cases "Suc i < length fds")
    case True
    then have "fst (pb_field_iter_next (iter_at fds dest i))"
      using assms c by (simp add: next_more iter_at_pos tag_field_at)
    then show ?thesis using True by (simp add: prod_eq_iff)
  next
    case False
    then have "\<not> fst (pb_field_iter_next (iter_at fds dest i))"
      using assms by (simp add: next_more iter_at_pos tag_field_at)
    moreover have "snd (pb_field_iter_next (iter_at fds dest i)) = iter_at fds dest 0"
      using assms c False by (subst next_wrap) (simp_all add: iter_at_pos tag_field_at)
    ultimately show ?thesis using False by (simp add: prod_eq_iff)
  qed
qed

declare iter_at.simps(2) [simp del]

section \<open>Search\<close>

text \<open>The entry a search for tag \<open>t\<close> accepts.\<close>

definition field_matches :: "u32 \<Rightarrow> pb_field \<Rightarrow> bool" where
  "field_matches t f \<longleftrightarrow> tag f = t \<and> PB_LTYPE (ftype f) \<noteq> PB_LTYPE_EXTENSION"

text \<open>Positions in the order the search visits them, from \<open>i\<close> round to the one before \<open>i\<close>.\<close>

definition ring :: "nat \<Rightarrow> nat \<Rightarrow> nat list" where
  "ring n i = [i ..< n] @ [0 ..< i]"

definition next_pos_of :: "nat \<Rightarrow> nat \<Rightarrow> nat" where
  "next_pos_of n i = (if Suc i < n then Suc i else 0)"

lemma ring_next:
  assumes wf: "fields_wf fds" and st: "st < length fds"
    and ring: "ring (length fds) st = vis @ i # k # rest"
  shows "i < length fds" "k < length fds" "k \<noteq> st"
    "snd (pb_field_iter_next (iter_at fds dest i)) = iter_at fds dest k"
proof -
  let ?n = "length fds"
  have len: "length (ring ?n st) = ?n" using st by (simp add: ring_def)
  have el: "ring ?n st ! j = (if j < ?n - st then st + j else j - (?n - st))" if "j < ?n" for j
    using that st by (auto simp: ring_def nth_append)
  define a where "a = length vis"
  have "length (ring ?n st) = Suc (Suc (a + length rest))"
    by (simp add: ring a_def)
  then have a: "Suc a < ?n" using len by simp
  have i: "i = ring ?n st ! a" and k: "k = ring ?n st ! Suc a"
    by (simp_all add: ring a_def nth_append)
  show il: "i < ?n" and "k < ?n" and "k \<noteq> st"
    using i k a st by (auto simp: el split: if_splits)
  have "next_pos_of ?n i = k"
    using i k a st by (auto simp: el next_pos_of_def split: if_splits)
  then show "snd (pb_field_iter_next (iter_at fds dest i)) = iter_at fds dest k"
    using il wf by (auto simp: iter_at_next next_pos_of_def split: if_splits)
qed

lemma ring_last:
  assumes wf: "fields_wf fds" and st: "st < length fds" and ring: "ring (length fds) st = vis @ [i]"
  shows "i < length fds" "snd (pb_field_iter_next (iter_at fds dest i)) = iter_at fds dest st"
proof -
  have "i = last (ring (length fds) st)" by (simp add: ring)
  also have "\<dots> = (if st = 0 then length fds - 1 else st - 1)"
    using st by (auto simp: ring_def last_append last_conv_nth)
  finally have i: "i < length fds" "next_pos_of (length fds) i = st"
    using st by (auto simp: next_pos_of_def)
  then show "i < length fds" by simp
  show "snd (pb_field_iter_next (iter_at fds dest i)) = iter_at fds dest st"
    using i wf by (auto simp: iter_at_next next_pos_of_def split: if_splits)
qed

text \<open>Any loop of this shape searches the ring; both searches of the source are instances.\<close>

lemma ring_search:
  assumes L: "\<And>it. L it =
      (if Q (cur it) then Some (True, it)
       else let it' = snd (pb_field_iter_next it) in
         if pos it' \<noteq> st then L it' else Some (False, it'))"
    and wf: "fields_wf fds" and st: "st < length fds"
    and ring: "ring (length fds) st = vis @ i # rest"
  shows "L (iter_at fds dest i) =
    (case List.find (\<lambda>j. Q (fds ! j)) (i # rest) of
       Some j \<Rightarrow> Some (True, iter_at fds dest j)
     | None \<Rightarrow> Some (False, iter_at fds dest st))"
  using ring
proof (induction rest arbitrary: i vis)
  case Nil
  note nx = ring_last [OF wf st Nil]
  show ?case
    using wf st nx by (subst L) (simp add: Let_def iter_at_cur iter_at_pos)
next
  case (Cons k rest)
  note nx = ring_next [OF wf st Cons.prems]
  have "L (iter_at fds dest k) =
    (case List.find (\<lambda>j. Q (fds ! j)) (k # rest) of
       Some j \<Rightarrow> Some (True, iter_at fds dest j)
     | None \<Rightarrow> Some (False, iter_at fds dest st))"
    by (rule Cons.IH [of "vis @ [i]"]) (simp add: Cons.prems)
  then show ?case
    using wf nx by (subst L) (simp add: Let_def iter_at_cur iter_at_pos)
qed

theorem find_iter_at:
  assumes "fields_wf fds" "i < length fds"
  shows "pb_field_iter_find (iter_at fds dest i) t =
    (case List.find (\<lambda>j. field_matches t (fds ! j)) (ring (length fds) i) of
       Some j \<Rightarrow> Some (True, iter_at fds dest j)
     | None \<Rightarrow> Some (False, iter_at fds dest i))"
proof -
  have r: "ring (length fds) i = [] @ i # ([Suc i ..< length fds] @ [0 ..< i])"
    using assms(2) by (simp add: ring_def upt_conv_Cons)
  show ?thesis
    unfolding pb_field_iter_find_def iter_at_pos [OF assms]
    by (subst ring_search [where L = "pb_field_iter_find_loop i t" and Q = "field_matches t" and st = i,
          OF _ assms r])
      (subst pb_field_iter_find_loop.simps, simp_all add: field_matches_def r)
qed

section \<open>Properties\<close>

lemma find_Some_ring:
  assumes "List.find P (ring n i) = Some j"
  shows "P j \<and> j \<in> set (ring n i)"
  using assms by (auto simp: find_Some_iff in_set_conv_nth)

lemma set_ring: "i < n \<Longrightarrow> set (ring n i) = {..< n}"
  by (auto simp: ring_def)

text \<open>C32: From any field of a well-formed descriptor array, \<open>pb_field_iter_find\<close> returns, it finds a
  field with the tag exactly when the array has one that is no extension range, it stops on such
  a field, and a failed search ends where it began.\<close>

theorem pb_field_iter_find_decides:
  assumes "fields_wf fds" "i < length fds"
  shows "\<exists>found it. pb_field_iter_find (iter_at fds dest i) t = Some (found, it) \<and>
    (found \<longleftrightarrow> (\<exists>f \<in> set fds. field_matches t f)) \<and>
    (if found then field_matches t (cur it) else it = iter_at fds dest i)"
proof (cases "List.find (\<lambda>j. field_matches t (fds ! j)) (ring (length fds) i)")
  case None
  then have "\<not> (\<exists>f \<in> set fds. field_matches t f)"
    using assms(2) by (auto simp: find_None_iff set_ring in_set_conv_nth)
  then show ?thesis using None by (intro exI [of _ False]) (simp add: find_iter_at [OF assms])
next
  case (Some j)
  then have "field_matches t (fds ! j)" "j < length fds"
    using find_Some_ring [OF Some] assms(2) by (auto simp: set_ring)
  then show ?thesis
    using Some by (auto simp: find_iter_at [OF assms] iter_at_cur [OF assms(1)])
qed

definition two_fields :: "pb_field list" where
  "two_fields =
     [\<lparr>tag = 5, ftype = 0x01, data_offset = 0, size_offset = 0, data_size = 4, array_size = 0, fptr = 0\<rparr>,
      \<lparr>tag = 9, ftype = 0x02, data_offset = 0, size_offset = 0, data_size = 4, array_size = 0, fptr = 0\<rparr>]"

theorem pb_field_iter_find_decides_witness:
  "\<exists>it. pb_field_iter_find (iter_at two_fields 64 1) 5 = Some (True, it) \<and> field_matches 5 (cur it)"
proof -
  have "fields_wf two_fields" "1 < length two_fields"
    by (simp_all add: fields_wf_def two_fields_def)
  moreover have "\<exists>f \<in> set two_fields. field_matches 5 f"
    by (simp add: two_fields_def field_matches_def pb_type_defs)
  ultimately show ?thesis
    using pb_field_iter_find_decides [of two_fields 1 64 5] by auto
qed

end
