(* ===== verification/Pb_Ostream.thy ===== *)
theory Pb_Ostream
  imports Pb_Types
begin

text \<open>
  Output streams and wire-level encoders of \<^verbatim>\<open>ios/Pods/nanopb/pb_encode.c\<close>. A stream's
  callback and state are one value, its sink: no callback (the sizing stream), \<open>buf_write\<close>
  with the pointer it writes at, or a user callback with its state. The lemmas give every
  operation's effect on the bytes behind the stream (\<open>out_append\<close>) and show that no operation
  writes outside the buffer it was given (\<open>out_inv\<close>).
\<close>

section \<open>Streams\<close>

datatype 'u osink =
    is_NullSink: NullSink
  | BufSink mem addr
  | UserSink "'u \<Rightarrow> byte list \<Rightarrow> bool \<times> 'u" 'u

record 'u pb_ostream =
  sink :: "'u osink"
  max_size :: size_t
  bytes_written :: size_t
  o_errmsg :: "string option"

definition PB_OSTREAM_SIZING :: "'u pb_ostream" where
  "PB_OSTREAM_SIZING = \<lparr>sink = NullSink, max_size = 0, bytes_written = 0, o_errmsg = None\<rparr>"

definition buf_write :: "mem \<Rightarrow> addr \<Rightarrow> byte list \<Rightarrow> mem \<times> addr" where
  "buf_write m dest buf = (mem_write m dest buf, dest + int (length buf))"

definition pb_ostream_from_buffer :: "mem \<Rightarrow> addr \<Rightarrow> size_t \<Rightarrow> 'u pb_ostream" where
  "pb_ostream_from_buffer m buf bufsize =
     \<lparr>sink = BufSink m buf, max_size = bufsize, bytes_written = 0, o_errmsg = None\<rparr>"

definition sink_write :: "'u osink \<Rightarrow> byte list \<Rightarrow> bool \<times> 'u osink" where
  "sink_write k bs =
     (case k of
        NullSink \<Rightarrow> (True, NullSink)
      | BufSink m p \<Rightarrow> (case buf_write m p bs of (m', p') \<Rightarrow> (True, BufSink m' p'))
      | UserSink f u \<Rightarrow> (case f u bs of (ok, u') \<Rightarrow> (ok, UserSink f u')))"

definition o_error :: "'u pb_ostream \<Rightarrow> string \<Rightarrow> bool \<times> 'u pb_ostream" where
  "o_error s msg = (False, s\<lparr>o_errmsg := pb_set_error (o_errmsg s) msg\<rparr>)"

definition pb_write :: "'u pb_ostream \<Rightarrow> byte list \<Rightarrow> size_t \<Rightarrow> bool \<times> 'u pb_ostream" where
  "pb_write s buf count =
     (if count > 0 \<and> \<not> is_NullSink (sink s) then
        if bytes_written s + count < bytes_written s \<or> bytes_written s + count > max_size s
        then o_error s ''stream full''
        else
          (case sink_write (sink s) (take (unat count) buf) of
             (ok, k) \<Rightarrow>
               if \<not> ok then o_error (s\<lparr>sink := k\<rparr>) ''io error''
               else (True, s\<lparr>sink := k, bytes_written := bytes_written s + count\<rparr>))
      else (True, s\<lparr>bytes_written := bytes_written s + count\<rparr>))"

section \<open>Wire encoders\<close>

text \<open>The loop of \<open>pb_encode_varint\<close>: the bytes it stores into its ten-byte buffer.\<close>

function varint_loop :: "u64 \<Rightarrow> byte list" where
  "varint_loop value =
     (if value = 0 then []
      else ((ucast (value AND 0x7F) OR 0x80) :: byte) # varint_loop (drop_bit 7 value))"
  by pat_completeness auto
termination
proof (relation "measure unat", simp)
  fix v :: u64
  assume "v \<noteq> 0"
  then show "(drop_bit 7 v, v) \<in> measure unat"
    by (simp add: drop_bit_eq_div unat_div_128_less)
qed

declare varint_loop.simps [simp del]

definition pb_encode_varint :: "'u pb_ostream \<Rightarrow> u64 \<Rightarrow> bool \<times> 'u pb_ostream" where
  "pb_encode_varint s value =
     (if value \<le> 0x7F then pb_write s [ucast value] 1
      else
        let buffer = varint_loop value;
            i = length buffer
        in pb_write s (buffer[i - 1 := buffer ! (i - 1) AND 0x7F]) (of_nat i))"

definition pb_encode_svarint :: "'u pb_ostream \<Rightarrow> u64 \<Rightarrow> bool \<times> 'u pb_ostream" where
  "pb_encode_svarint s value =
     (let zigzagged = (if value <s 0 then NOT (push_bit 1 value) else push_bit 1 value)
      in pb_encode_varint s zigzagged)"

definition pb_encode_fixed32 :: "'u pb_ostream \<Rightarrow> u32 \<Rightarrow> bool \<times> 'u pb_ostream" where
  "pb_encode_fixed32 s val =
     pb_write s [ucast (val AND 0xFF), ucast (drop_bit 8 val AND 0xFF),
       ucast (drop_bit 16 val AND 0xFF), ucast (drop_bit 24 val AND 0xFF)] 4"

definition pb_encode_fixed64 :: "'u pb_ostream \<Rightarrow> u64 \<Rightarrow> bool \<times> 'u pb_ostream" where
  "pb_encode_fixed64 s val =
     pb_write s [ucast (val AND 0xFF), ucast (drop_bit 8 val AND 0xFF),
       ucast (drop_bit 16 val AND 0xFF), ucast (drop_bit 24 val AND 0xFF),
       ucast (drop_bit 32 val AND 0xFF), ucast (drop_bit 40 val AND 0xFF),
       ucast (drop_bit 48 val AND 0xFF), ucast (drop_bit 56 val AND 0xFF)] 8"

definition pb_encode_tag :: "'u pb_ostream \<Rightarrow> u32 \<Rightarrow> u32 \<Rightarrow> bool \<times> 'u pb_ostream" where
  "pb_encode_tag s wiretype field_number =
     pb_encode_varint s (push_bit 3 (ucast field_number) OR ucast wiretype)"

definition pb_encode_tag_for_field :: "'u pb_ostream \<Rightarrow> pb_field \<Rightarrow> bool \<times> 'u pb_ostream" where
  "pb_encode_tag_for_field s field =
     (let lt = PB_LTYPE (ftype field) in
      if lt = PB_LTYPE_BOOL \<or> lt = PB_LTYPE_VARINT \<or> lt = PB_LTYPE_UVARINT \<or> lt = PB_LTYPE_SVARINT
      then pb_encode_tag s PB_WT_VARINT (tag field)
      else if lt = PB_LTYPE_FIXED32 then pb_encode_tag s PB_WT_32BIT (tag field)
      else if lt = PB_LTYPE_FIXED64 then pb_encode_tag s PB_WT_64BIT (tag field)
      else if lt = PB_LTYPE_BYTES \<or> lt = PB_LTYPE_STRING \<or> lt = PB_LTYPE_SUBMESSAGE
              \<or> lt = PB_LTYPE_FIXED_LENGTH_BYTES
      then pb_encode_tag s PB_WT_STRING (tag field)
      else o_error s ''invalid field type'')"

definition pb_encode_string :: "'u pb_ostream \<Rightarrow> byte list \<Rightarrow> size_t \<Rightarrow> bool \<times> 'u pb_ostream" where
  "pb_encode_string s buffer sz =
     (case pb_encode_varint s sz of
        (False, s1) \<Rightarrow> (False, s1)
      | (True, s1) \<Rightarrow> pb_write s1 buffer sz)"

section \<open>The bytes of the wire format\<close>

definition varint_bytes :: "u64 \<Rightarrow> byte list" where
  "varint_bytes value =
     (if value \<le> 0x7F then [ucast value]
      else let b = varint_loop value in b[length b - 1 := b ! (length b - 1) AND 0x7F])"

definition zigzag :: "u64 \<Rightarrow> u64" where
  "zigzag v = (if v <s 0 then NOT (push_bit 1 v) else push_bit 1 v)"

definition tag_word :: "u32 \<Rightarrow> u32 \<Rightarrow> u64" where
  "tag_word wt num = push_bit 3 (ucast num) OR ucast wt"

lemma varint_loop_0 [simp]: "varint_loop 0 = []"
  by (simp add: varint_loop.simps)

lemma varint_loop_Nil [simp]: "varint_loop v = [] \<longleftrightarrow> v = 0"
  by (simp add: varint_loop.simps [of v])

lemma length_varint_loop: "unat v < 2 ^ (7 * n) \<Longrightarrow> length (varint_loop v) \<le> n"
proof (induction n arbitrary: v)
  case 0
  then have "v = 0" by (simp add: unat_eq_zero)
  then show ?case by simp
next
  case (Suc n)
  have "unat (drop_bit 7 v) < 2 ^ (7 * n)"
    using Suc.prems
    by (simp add: drop_bit_eq_div unat_div_distrib less_mult_imp_div_less power_add mult.commute)
  then have "length (varint_loop (drop_bit 7 v)) \<le> n" by (rule Suc.IH)
  then show ?case by (simp add: varint_loop.simps [of v])
qed

text \<open>The ten-byte buffer of \<open>pb_encode_varint\<close> is never overrun.\<close>

lemma varint_loop_le_10: "length (varint_loop v) \<le> 10"
  by (rule length_varint_loop) (rule less_le_trans [OF unsigned_less], simp)

lemma varint_bytes_le_10: "length (varint_bytes v) \<le> 10"
  by (simp add: varint_bytes_def Let_def varint_loop_le_10)

lemma varint_bytes_pos [simp]: "varint_bytes v \<noteq> []"
  by (auto simp: varint_bytes_def Let_def list_update_nonempty)

lemma pb_encode_varint_write:
  "pb_encode_varint s v = pb_write s (varint_bytes v) (of_nat (length (varint_bytes v)))"
  by (simp add: pb_encode_varint_def varint_bytes_def Let_def)

lemma pb_encode_svarint_varint: "pb_encode_svarint s v = pb_encode_varint s (zigzag v)"
  by (simp add: pb_encode_svarint_def zigzag_def Let_def)

lemma pb_encode_fixed32_write: "pb_encode_fixed32 s v = pb_write s (le_bytes 4 v) 4"
  by (simp add: pb_encode_fixed32_def numeral_eq_Suc)

lemma pb_encode_fixed64_write: "pb_encode_fixed64 s v = pb_write s (le_bytes 8 v) 8"
  by (simp add: pb_encode_fixed64_def numeral_eq_Suc)

section \<open>Effect on the bytes behind a stream\<close>

definition out_append :: "'u pb_ostream \<Rightarrow> byte list \<Rightarrow> 'u pb_ostream" where
  "out_append s bs =
     s\<lparr>sink := (case sink s of
                 NullSink \<Rightarrow> NullSink
               | BufSink m p \<Rightarrow> BufSink (mem_write m p bs) (p + int (length bs))
               | UserSink f u \<Rightarrow> UserSink f u),
       bytes_written := bytes_written s + of_nat (length bs)\<rparr>"

text \<open>Streams without a user callback and without an error so far.\<close>

definition plain_out :: "'u pb_ostream \<Rightarrow> bool" where
  "plain_out s \<longleftrightarrow> o_errmsg s = None \<and> (case sink s of UserSink f u \<Rightarrow> False | _ \<Rightarrow> True)"

definition room :: "'u pb_ostream \<Rightarrow> nat \<Rightarrow> bool" where
  "room s n \<longleftrightarrow> n = 0 \<or> is_NullSink (sink s) \<or> unat (bytes_written s) + n \<le> unat (max_size s)"

lemma out_append_Nil [simp]: "out_append s [] = s"
  by (cases "sink s") (simp_all add: out_append_def)

lemma out_append_append: "out_append (out_append s xs) ys = out_append s (xs @ ys)"
  by (cases "sink s") (simp_all add: out_append_def mem_write_append algebra_simps)

lemma out_append_simps [simp]:
  "max_size (out_append s bs) = max_size s"
  "o_errmsg (out_append s bs) = o_errmsg s"
  "is_NullSink (sink (out_append s bs)) = is_NullSink (sink s)"
  "bytes_written (out_append s bs) = bytes_written s + of_nat (length bs)"
  by (simp_all add: out_append_def split: osink.splits)

lemma plain_out_append [simp]: "plain_out (out_append s bs) = plain_out s"
  by (simp add: plain_out_def out_append_def split: osink.splits)

lemma plain_out_sizing [simp]: "plain_out PB_OSTREAM_SIZING"
  by (simp add: plain_out_def PB_OSTREAM_SIZING_def)

lemma sizing_simps [simp]:
  "is_NullSink (sink PB_OSTREAM_SIZING)" "bytes_written PB_OSTREAM_SIZING = 0"
  "room PB_OSTREAM_SIZING n"
  by (simp_all add: PB_OSTREAM_SIZING_def room_def)

lemma unat_add_max:
  "unat w + n \<le> unat v \<Longrightarrow> unat (w + of_nat n) = unat w + n" for w v :: "'a::len word"
proof -
  assume a: "unat w + n \<le> unat v"
  have "unat v < 2 ^ LENGTH('a)" by simp
  with a have "unat w + n < 2 ^ LENGTH('a)" by linarith
  then show ?thesis by (simp add: unat_word_ariths unat_of_nat mod_simps)
qed

lemma room_add: "room s (length bs + b) \<longleftrightarrow> room s (length bs) \<and> room (out_append s bs) b"
  using unat_add_max [of "bytes_written s" "length bs" "max_size s"]
  by (cases bs) (auto simp: room_def)

lemma pb_write_room:
  assumes "plain_out s" "room s (length bs)" "length bs < 2 ^ 64"
  shows "pb_write s bs (of_nat (length bs)) = (True, out_append s bs)"
proof (cases "bs = [] \<or> is_NullSink (sink s)")
  case True
  then show ?thesis
    by (cases "sink s") (auto simp: pb_write_def out_append_def)
next
  case False
  then obtain m p where k: "sink s = BufSink m p"
    using assms(1) by (cases "sink s") (auto simp: plain_out_def)
  have le: "unat (bytes_written s) + length bs \<le> unat (max_size s)"
    using assms(2) False by (simp add: room_def)
  have c: "unat (of_nat (length bs) :: size_t) = length bs"
    using assms(3) by (simp add: unat_of_nat)
  have u: "unat (bytes_written s + of_nat (length bs)) = unat (bytes_written s) + length bs"
    by (rule unat_add_max [OF le])
  have "(of_nat (length bs) :: size_t) \<noteq> 0"
    using c False by (metis length_0_conv unat_0)
  then show ?thesis
    using le u c k
    by (simp add: pb_write_def out_append_def sink_write_def buf_write_def word_less_nat_alt
        word_gt_0)
qed

lemma pb_write_full:
  assumes "plain_out s" "\<not> room s (length bs)" "length bs < 2 ^ 64"
  shows "pb_write s bs (of_nat (length bs)) = (False, s\<lparr>o_errmsg := Some ''stream full''\<rparr>)"
proof -
  have n: "\<not> is_NullSink (sink s)" and gt: "unat (max_size s) < unat (bytes_written s) + length bs"
    using assms(2) by (auto simp: room_def)
  have c: "unat (of_nat (length bs) :: size_t) = length bs"
    using assms(3) by (simp add: unat_of_nat)
  define w where "w = bytes_written s + of_nat (length bs)"
  have "w < bytes_written s \<or> w > max_size s"
  proof (rule ccontr)
    assume "\<not> ?thesis"
    then have le: "unat (bytes_written s) \<le> unat w" "unat w \<le> unat (max_size s)"
      by (auto simp: word_less_nat_alt)
    have "unat w = (unat (bytes_written s) + length bs) mod 2 ^ 64"
      unfolding w_def by (simp add: unat_word_ariths c)
    moreover have "unat (bytes_written s) + length bs < 2 ^ 64 + 2 ^ 64"
    proof -
      have "unat (bytes_written s) < 2 ^ LENGTH(64)" by (rule unsigned_less)
      then show ?thesis using assms(3) by simp
    qed
    ultimately have "unat w = unat (bytes_written s) + length bs
        \<or> unat w + 2 ^ 64 = unat (bytes_written s) + length bs"
      by (cases "unat (bytes_written s) + length bs < 2 ^ 64")
        (auto simp: mod_if le_mod_geq)
    then show False using le gt assms(3) by auto
  qed
  moreover have "(of_nat (length bs) :: size_t) \<noteq> 0"
  proof
    assume "(of_nat (length bs) :: size_t) = 0"
    then have "length bs = 0" using c by (metis unat_0)
    then show False using assms(2) by (simp add: room_def)
  qed
  ultimately show ?thesis
    using n assms(1) by (auto simp: pb_write_def w_def o_error_def plain_out_def word_gt_0)
qed

section \<open>No write outside the buffer\<close>

text \<open>\<open>s\<close> writes into a buffer at \<open>base\<close> of \<open>max_size s\<close> bytes; \<open>m0\<close> is the memory before. This
  is what every encoder keeps, also when it fails.\<close>

definition out_inv :: "mem \<Rightarrow> addr \<Rightarrow> 'u pb_ostream \<Rightarrow> bool" where
  "out_inv m0 base s \<longleftrightarrow>
     bytes_written s \<le> max_size s \<and>
     (\<exists>m. sink s = BufSink m (base + uint (bytes_written s)) \<and>
          (\<forall>a. a < base \<or> base + uint (bytes_written s) \<le> a \<longrightarrow> m a = m0 a))"

definition keeps_out :: "('u pb_ostream \<Rightarrow> bool \<times> 'u pb_ostream) \<Rightarrow> bool" where
  "keeps_out f \<longleftrightarrow>
     (\<forall>s m0 base. out_inv m0 base s \<longrightarrow>
        out_inv m0 base (snd (f s)) \<and> max_size (snd (f s)) = max_size s)"

lemma out_inv_from_buffer: "out_inv m buf (pb_ostream_from_buffer m buf n)"
  by (simp add: out_inv_def pb_ostream_from_buffer_def)

lemma out_inv_errmsg [simp]: "out_inv m0 base (s\<lparr>o_errmsg := e\<rparr>) = out_inv m0 base s"
  by (simp add: out_inv_def)

lemma keeps_out_if:
  "keeps_out f \<Longrightarrow> keeps_out g \<Longrightarrow> keeps_out (\<lambda>s. if c then f s else g s)"
  by (cases c) simp_all

lemma keeps_outD:
  "keeps_out f \<Longrightarrow> out_inv m0 base s \<Longrightarrow> f s = (r, s') \<Longrightarrow> out_inv m0 base s' \<and> max_size s' = max_size s"
  by (metis keeps_out_def snd_conv)

lemma keeps_out_error [intro]: "keeps_out (\<lambda>s. o_error s msg)"
  by (simp add: keeps_out_def out_inv_def o_error_def)

lemma keeps_out_write:
  assumes "length bs = unat count"
  shows "keeps_out (\<lambda>s. pb_write s bs count)"
  unfolding keeps_out_def
proof (intro allI impI)
  fix s :: "'a pb_ostream" and m0 base
  assume inv: "out_inv m0 base s"
  then obtain m where k: "sink s = BufSink m (base + uint (bytes_written s))"
    and m: "\<And>a. a < base \<or> base + uint (bytes_written s) \<le> a \<Longrightarrow> m a = m0 a"
    by (auto simp: out_inv_def)
  let ?w = "bytes_written s + count"
  show "out_inv m0 base (snd (pb_write s bs count)) \<and> max_size (snd (pb_write s bs count)) = max_size s"
  proof (cases "count = 0 \<or> ?w < bytes_written s \<or> ?w > max_size s")
    case True
    then show ?thesis
      using inv k by (auto simp: pb_write_def word_gt_0 o_error_def)
  next
    case False
    then have le: "bytes_written s \<le> ?w" "?w \<le> max_size s" and c: "count > 0"
      by (auto simp: word_gt_0)
    have u: "uint ?w = uint (bytes_written s) + uint count"
      using le(1) by (simp only: uint_plus_simple_iff)
    have l: "int (length bs) = uint count" by (simp add: assms)
    have nn: "0 \<le> uint (bytes_written s)" "0 \<le> uint count" by simp_all
    have "mem_write m (base + uint (bytes_written s)) bs a = m0 a" if "a < base \<or> base + uint ?w \<le> a" for a
    proof -
      have "a < base + uint (bytes_written s) \<or> base + uint (bytes_written s) + int (length bs) \<le> a"
        using that u l nn by linarith
      then have "mem_write m (base + uint (bytes_written s)) bs a = m a" by (rule mem_write_other)
      also have "m a = m0 a" using that u nn by (intro m) linarith
      finally show ?thesis .
    qed
    then show ?thesis
      using c le u l k assms by (auto simp: pb_write_def sink_write_def buf_write_def out_inv_def)
  qed
qed

lemma keeps_out_varint: "keeps_out (\<lambda>s. pb_encode_varint s v)"
proof -
  have "length (varint_bytes v) < 2 ^ 64" using varint_bytes_le_10 [of v] by simp
  then show ?thesis
    unfolding pb_encode_varint_write by (intro keeps_out_write) (simp add: unat_of_nat)
qed

lemma keeps_out_svarint: "keeps_out (\<lambda>s. pb_encode_svarint s v)"
  by (simp add: pb_encode_svarint_varint keeps_out_varint)

lemma keeps_out_fixed32: "keeps_out (\<lambda>s. pb_encode_fixed32 s v)"
  by (simp add: pb_encode_fixed32_write keeps_out_write)

lemma keeps_out_fixed64: "keeps_out (\<lambda>s. pb_encode_fixed64 s v)"
  by (simp add: pb_encode_fixed64_write keeps_out_write)

lemma keeps_out_tag: "keeps_out (\<lambda>s. pb_encode_tag s wt n)"
  by (simp add: pb_encode_tag_def keeps_out_varint)

lemma keeps_out_tag_for_field: "keeps_out (\<lambda>s. pb_encode_tag_for_field s field)"
  unfolding pb_encode_tag_for_field_def Let_def
  by (intro keeps_out_if keeps_out_tag keeps_out_error)

lemma keeps_out_string:
  assumes "length bs = unat sz"
  shows "keeps_out (\<lambda>s. pb_encode_string s bs sz)"
  unfolding keeps_out_def
proof (intro allI impI)
  fix s :: "'a pb_ostream" and m0 base
  assume inv: "out_inv m0 base s"
  obtain ok s1 where v: "pb_encode_varint s sz = (ok, s1)" by fastforce
  obtain ok2 s2 where w: "pb_write s1 bs sz = (ok2, s2)" by fastforce
  have 1: "out_inv m0 base s1" "max_size s1 = max_size s"
    using keeps_outD [OF keeps_out_varint inv v] by auto
  have "out_inv m0 base s2" "max_size s2 = max_size s1"
    using keeps_outD [OF keeps_out_write [OF assms] 1(1) w] by auto
  with 1 v w show "out_inv m0 base (snd (pb_encode_string s bs sz)) \<and>
      max_size (snd (pb_encode_string s bs sz)) = max_size s"
    by (simp add: pb_encode_string_def split: bool.splits)
qed

lemmas keeps_out_intros =
  keeps_out_error keeps_out_varint keeps_out_svarint keeps_out_fixed32 keeps_out_fixed64
  keeps_out_tag keeps_out_tag_for_field keeps_out_string

end
