(* ===== verification/Pb_Istream.thy ===== *)
theory Pb_Istream
  imports Pb_Types
begin

text \<open>
  Input streams and wire-level decoders of \<^verbatim>\<open>ios/Pods/nanopb/pb_decode.c\<close>. A stream's
  callback and state are one value, its source: \<open>buf_read\<close> with the pointer it reads at, or a
  user callback with its state. A C function that stores a result through a pointer and
  returns whether it did gives an option; the stream it leaves comes with it. The lemmas show
  that no operation reads past the end of its buffer (\<open>in_step\<close>) and what each returns for
  the bytes left (\<open>in_bytes\<close>).
\<close>

section \<open>Streams\<close>

text \<open>A user callback is given a count and returns whether it succeeded, its new state and the
  bytes it stored.\<close>

datatype 'u isource =
    is_BufSource: BufSource mem addr
  | UserSource "'u \<Rightarrow> size_t \<Rightarrow> bool \<times> 'u \<times> (nat \<Rightarrow> byte)" 'u

record 'u pb_istream =
  source :: "'u isource"
  bytes_left :: size_t
  i_errmsg :: "string option"

definition pb_istream_from_buffer :: "mem \<Rightarrow> addr \<Rightarrow> size_t \<Rightarrow> 'u pb_istream" where
  "pb_istream_from_buffer m buf bufsize =
     \<lparr>source = BufSource m buf, bytes_left = bufsize, i_errmsg = None\<rparr>"

definition i_error :: "'u pb_istream \<Rightarrow> string \<Rightarrow> 'u pb_istream" where
  "i_error s msg = s\<lparr>i_errmsg := pb_set_error (i_errmsg s) msg\<rparr>"

text \<open>\<open>buf_read\<close> copies unless \<^verbatim>\<open>buf\<close> is \<open>NULL\<close>; the bytes stored come first.\<close>

definition buf_read :: "mem \<Rightarrow> addr \<Rightarrow> bool \<Rightarrow> size_t \<Rightarrow> byte list \<times> addr" where
  "buf_read m src null count =
     (if null then [] else mem_read m src (unat count), src + uint count)"

definition source_read :: "'u isource \<Rightarrow> bool \<Rightarrow> size_t \<Rightarrow> bool \<times> byte list \<times> 'u isource" where
  "source_read k null count =
     (case k of
        BufSource m p \<Rightarrow> (case buf_read m p null count of (bs, p') \<Rightarrow> (True, bs, BufSource m p'))
      | UserSource f u \<Rightarrow>
          (case f u count of
             (ok, u', bs) \<Rightarrow> (ok, map bs [0 ..< unat count], UserSource f u')))"

text \<open>The part of \<open>pb_read\<close> after the skip of a custom stream: the result, the bytes stored
  into \<^verbatim>\<open>buf\<close> and the stream.\<close>

definition pb_read_some :: "'u pb_istream \<Rightarrow> bool \<Rightarrow> size_t \<Rightarrow> bool \<times> byte list \<times> 'u pb_istream" where
  "pb_read_some s null count =
     (if count = 0 then (True, [], s)
      else if bytes_left s < count then (False, [], i_error s ''end-of-stream'')
      else
        (case source_read (source s) null count of
           (ok, bs, k) \<Rightarrow>
             if \<not> ok then (False, bs, i_error (s\<lparr>source := k\<rparr>) ''io error'')
             else (True, bs, s\<lparr>source := k, bytes_left := bytes_left s - count\<rparr>)))"

function pb_skip_chunks :: "'u pb_istream \<Rightarrow> size_t \<Rightarrow> bool \<times> 'u pb_istream" where
  "pb_skip_chunks s count =
     (if count > 16 then
        (case pb_read_some s False 16 of
           (ok, _, s1) \<Rightarrow> if \<not> ok then (False, s1) else pb_skip_chunks s1 (count - 16))
      else (case pb_read_some s False count of (ok, _, s1) \<Rightarrow> (ok, s1)))"
  by pat_completeness auto
termination
  by (relation "measure (\<lambda>(s, count). unat count)") (auto simp: word_less_nat_alt unat_sub_if_size word_le_nat_alt)

declare pb_skip_chunks.simps [simp del]

definition pb_read :: "'u pb_istream \<Rightarrow> bool \<Rightarrow> size_t \<Rightarrow> bool \<times> byte list \<times> 'u pb_istream" where
  "pb_read s null count =
     (if count = 0 then (True, [], s)
      else if null \<and> \<not> is_BufSource (source s)
      then (case pb_skip_chunks s count of (ok, s1) \<Rightarrow> (ok, [], s1))
      else pb_read_some s null count)"

definition pb_readbyte :: "'u pb_istream \<Rightarrow> byte option \<times> 'u pb_istream" where
  "pb_readbyte s =
     (if bytes_left s = 0 then (None, i_error s ''end-of-stream'')
      else
        (case source_read (source s) False 1 of
           (ok, bs, k) \<Rightarrow>
             if \<not> ok then (None, i_error (s\<lparr>source := k\<rparr>) ''io error'')
             else (Some (hd bs), s\<lparr>source := k, bytes_left := bytes_left s - 1\<rparr>)))"

section \<open>Varints\<close>

lemma readbyte_bytes_left:
  "pb_readbyte s = (Some b, s') \<Longrightarrow> unat (bytes_left s') < unat (bytes_left s)"
  by (auto simp: pb_readbyte_def unat_gt_0 unat_minus_one split: if_splits prod.splits)

text \<open>The \<^verbatim>\<open>do\<close> loop of \<open>pb_decode_varint32_eof\<close>: the result, the final \<^verbatim>\<open>bitpos\<close>
  (a \<^verbatim>\<open>uint_fast8_t\<close>, eight bits here) and the last byte.\<close>

function varint32_loop ::
    "'u pb_istream \<Rightarrow> byte \<Rightarrow> u32 \<Rightarrow> (u32 \<times> byte \<times> byte) option \<times> 'u pb_istream" where
  "varint32_loop s bitpos result =
     (case pb_readbyte s of
        (None, s1) \<Rightarrow> (None, s1)
      | (Some b, s1) \<Rightarrow>
          let sign_extension = (if bitpos < 63 then 0xFF else 0x01) :: byte in
          if bitpos \<ge> 32 \<and> b AND 0x7F \<noteq> 0 \<and> (drop_bit 31 result = 0 \<or> b \<noteq> sign_extension)
          then (None, i_error s1 ''varint overflow'')
          else
            let result1 = (if bitpos \<ge> 32 then result
                           else result OR push_bit (unat bitpos) (ucast (b AND 0x7F)));
                bitpos1 = bitpos + 7
            in if b AND 0x80 \<noteq> 0 then varint32_loop s1 bitpos1 result1
               else (Some (result1, bitpos1, b), s1))"
  by pat_completeness auto
termination
  by (relation "measure (\<lambda>(s, bitpos, result). unat (bytes_left s))") (auto dest: readbyte_bytes_left [OF sym])

declare varint32_loop.simps [simp del]

text \<open>The third component tells whether \<^verbatim>\<open>*eof\<close> was set.\<close>

definition pb_decode_varint32_eof :: "'u pb_istream \<Rightarrow> u32 option \<times> bool \<times> 'u pb_istream" where
  "pb_decode_varint32_eof s =
     (case pb_readbyte s of
        (None, s1) \<Rightarrow> (None, bytes_left s1 = 0, s1)
      | (Some b, s1) \<Rightarrow>
          if b AND 0x80 = 0 then (Some (ucast b), False, s1)
          else
            (case varint32_loop s1 7 (ucast (b AND 0x7F)) of
               (None, s2) \<Rightarrow> (None, False, s2)
             | (Some (result, bitpos, b2), s2) \<Rightarrow>
                 if bitpos = 35 \<and> b2 AND 0x70 \<noteq> 0
                 then (None, False, i_error s2 ''varint overflow'')
                 else (Some result, False, s2)))"

definition pb_decode_varint32 :: "'u pb_istream \<Rightarrow> u32 option \<times> 'u pb_istream" where
  "pb_decode_varint32 s = (case pb_decode_varint32_eof s of (r, _, s1) \<Rightarrow> (r, s1))"

function varint_dec_loop :: "'u pb_istream \<Rightarrow> byte \<Rightarrow> u64 \<Rightarrow> u64 option \<times> 'u pb_istream" where
  "varint_dec_loop s bitpos result =
     (if bitpos \<ge> 64 then (None, i_error s ''varint overflow'')
      else
        (case pb_readbyte s of
           (None, s1) \<Rightarrow> (None, s1)
         | (Some b, s1) \<Rightarrow>
             let result1 = result OR push_bit (unat bitpos) (ucast (b AND 0x7F));
                 bitpos1 = bitpos + 7
             in if b AND 0x80 \<noteq> 0 then varint_dec_loop s1 bitpos1 result1
                else (Some result1, s1)))"
  by pat_completeness auto
termination
  by (relation "measure (\<lambda>(s, bitpos, result). unat (bytes_left s))") (auto dest: readbyte_bytes_left [OF sym])

declare varint_dec_loop.simps [simp del]

definition pb_decode_varint :: "'u pb_istream \<Rightarrow> u64 option \<times> 'u pb_istream" where
  "pb_decode_varint s = varint_dec_loop s 0 0"

definition pb_decode_svarint :: "'u pb_istream \<Rightarrow> u64 option \<times> 'u pb_istream" where
  "pb_decode_svarint s =
     (case pb_decode_varint s of
        (None, s1) \<Rightarrow> (None, s1)
      | (Some v, s1) \<Rightarrow>
          (Some (if v AND 1 \<noteq> 0 then NOT (drop_bit 1 v) else drop_bit 1 v), s1))"

section \<open>Fixed-width values\<close>

definition pb_decode_fixed32 :: "'u pb_istream \<Rightarrow> u32 option \<times> 'u pb_istream" where
  "pb_decode_fixed32 s =
     (case pb_read s False 4 of
        (False, _, s1) \<Rightarrow> (None, s1)
      | (True, b, s1) \<Rightarrow>
          (Some (ucast (b ! 0) OR push_bit 8 (ucast (b ! 1)) OR push_bit 16 (ucast (b ! 2))
                 OR push_bit 24 (ucast (b ! 3))), s1))"

definition pb_decode_fixed64 :: "'u pb_istream \<Rightarrow> u64 option \<times> 'u pb_istream" where
  "pb_decode_fixed64 s =
     (case pb_read s False 8 of
        (False, _, s1) \<Rightarrow> (None, s1)
      | (True, b, s1) \<Rightarrow>
          (Some (ucast (b ! 0) OR push_bit 8 (ucast (b ! 1)) OR push_bit 16 (ucast (b ! 2))
                 OR push_bit 24 (ucast (b ! 3)) OR push_bit 32 (ucast (b ! 4))
                 OR push_bit 40 (ucast (b ! 5)) OR push_bit 48 (ucast (b ! 6))
                 OR push_bit 56 (ucast (b ! 7))), s1))"

section \<open>Tags and skipping\<close>

text \<open>Wire type and tag; the boolean is \<^verbatim>\<open>*eof\<close>.\<close>

definition pb_decode_tag :: "'u pb_istream \<Rightarrow> (u32 \<times> u32) option \<times> bool \<times> 'u pb_istream" where
  "pb_decode_tag s =
     (case pb_decode_varint32_eof s of
        (None, eof, s1) \<Rightarrow> (None, eof, s1)
      | (Some temp, eof, s1) \<Rightarrow>
          if temp = 0 then (None, True, s1)
          else (Some (temp AND 7, drop_bit 3 temp), eof, s1))"

function pb_skip_varint :: "'u pb_istream \<Rightarrow> bool \<times> 'u pb_istream" where
  "pb_skip_varint s =
     (case pb_read s False 1 of
        (ok, bs, s1) \<Rightarrow>
          if \<not> ok then (False, s1)
          else if hd bs AND 0x80 \<noteq> 0 then pb_skip_varint s1
          else (True, s1))"
  by pat_completeness auto
termination
  by (relation "measure (\<lambda>s. unat (bytes_left s))")
    (auto simp: pb_read_def pb_read_some_def word_less_nat_alt unat_gt_0 unat_minus_one
       split: if_splits prod.splits)

declare pb_skip_varint.simps [simp del]

definition pb_skip_string :: "'u pb_istream \<Rightarrow> bool \<times> 'u pb_istream" where
  "pb_skip_string s =
     (case pb_decode_varint32 s of
        (None, s1) \<Rightarrow> (False, s1)
      | (Some len, s1) \<Rightarrow> (case pb_read s1 True (ucast len) of (ok, _, s2) \<Rightarrow> (ok, s2)))"

definition pb_skip_field :: "'u pb_istream \<Rightarrow> u32 \<Rightarrow> bool \<times> 'u pb_istream" where
  "pb_skip_field s wire_type =
     (if wire_type = PB_WT_VARINT then pb_skip_varint s
      else if wire_type = PB_WT_64BIT then (case pb_read s True 8 of (ok, _, s1) \<Rightarrow> (ok, s1))
      else if wire_type = PB_WT_STRING then pb_skip_string s
      else if wire_type = PB_WT_32BIT then (case pb_read s True 4 of (ok, _, s1) \<Rightarrow> (ok, s1))
      else (False, i_error s ''invalid wire_type''))"

text \<open>The \<^verbatim>\<open>PB_WT_VARINT\<close> loop of \<open>read_raw_value\<close>: \<open>acc\<close> holds the bytes stored so far, newest
  first; it stops without an error message when the buffer is full.\<close>

function read_raw_varint ::
    "'u pb_istream \<Rightarrow> size_t \<Rightarrow> byte list \<Rightarrow> byte list option \<times> 'u pb_istream" where
  "read_raw_varint s max_sz acc =
     (if of_nat (length acc) + 1 > max_sz then (None, s)
      else
        (case pb_read s False 1 of
           (ok, bs, s1) \<Rightarrow>
             if \<not> ok then (None, s1)
             else if hd bs AND 0x80 \<noteq> 0 then read_raw_varint s1 max_sz (hd bs # acc)
             else (Some (rev (hd bs # acc)), s1)))"
  by pat_completeness auto
termination
  by (relation "measure (\<lambda>(s, max_sz, acc). unat (bytes_left s))")
    (auto simp: pb_read_def pb_read_some_def word_less_nat_alt unat_gt_0 unat_minus_one
       split: if_splits prod.splits)

declare read_raw_varint.simps [simp del]

definition read_raw_value ::
    "'u pb_istream \<Rightarrow> u32 \<Rightarrow> size_t \<Rightarrow> byte list option \<times> 'u pb_istream" where
  "read_raw_value s wire_type max_sz =
     (if wire_type = PB_WT_VARINT then read_raw_varint s max_sz []
      else if wire_type = PB_WT_64BIT then
        (case pb_read s False 8 of (ok, bs, s1) \<Rightarrow> (if ok then Some bs else None, s1))
      else if wire_type = PB_WT_32BIT then
        (case pb_read s False 4 of (ok, bs, s1) \<Rightarrow> (if ok then Some bs else None, s1))
      else (None, i_error s ''invalid wire_type''))"

section \<open>Substreams\<close>

definition pb_make_string_substream ::
    "'u pb_istream \<Rightarrow> 'u pb_istream option \<times> 'u pb_istream" where
  "pb_make_string_substream s =
     (case pb_decode_varint32 s of
        (None, s1) \<Rightarrow> (None, s1)
      | (Some sz, s1) \<Rightarrow>
          if bytes_left s1 < ucast sz then (None, i_error s1 ''parent stream too short'')
          else (Some (s1\<lparr>bytes_left := ucast sz\<rparr>), s1\<lparr>bytes_left := bytes_left s1 - ucast sz\<rparr>))"

definition pb_close_string_substream ::
    "'u pb_istream \<Rightarrow> 'u pb_istream \<Rightarrow> bool \<times> 'u pb_istream" where
  "pb_close_string_substream s sub =
     (let r = (if bytes_left sub \<noteq> 0
               then (case pb_read sub True (bytes_left sub) of (ok, _, sub1) \<Rightarrow> (ok, sub1))
               else (True, sub))
      in if \<not> fst r then (False, s)
         else (True, s\<lparr>source := source (snd r), i_errmsg := i_errmsg (snd r)\<rparr>))"

end
