(* ===== verification/Pb_Wire.thy ===== *)
theory Pb_Wire
  imports Pb_Ostream Pb_Istream
begin

text \<open>
  The wire format: what the encoders of \<open>Pb_Ostream\<close> write, the decoders of \<open>Pb_Istream\<close> read
  back. Each pair is an instance of the locale \<open>wire_codec\<close>, whose clients get unique
  decodability. \<open>in_step\<close> is the contract every reader keeps: it moves forward by some number
  of bytes that were left, so the end of the input never moves.
\<close>

section \<open>Views of an input stream\<close>

definition in_bytes :: "'u pb_istream \<Rightarrow> byte list" where
  "in_bytes s = (case source s of BufSource m p \<Rightarrow> mem_read m p (unat (bytes_left s)) | UserSource f u \<Rightarrow> [])"

definition in_adv :: "'u pb_istream \<Rightarrow> nat \<Rightarrow> 'u pb_istream" where
  "in_adv s n =
     s\<lparr>source := (case source s of BufSource m p \<Rightarrow> BufSource m (p + int n) | UserSource f u \<Rightarrow> UserSource f u),
       bytes_left := bytes_left s - of_nat n\<rparr>"

definition in_step :: "'u pb_istream \<Rightarrow> 'u pb_istream \<Rightarrow> bool" where
  "in_step s s' \<longleftrightarrow>
     (is_BufSource (source s) \<longrightarrow>
       (\<exists>k \<le> unat (bytes_left s). source s' = source (in_adv s k) \<and> bytes_left s' = bytes_left (in_adv s k)))"

definition in_end :: "'u pb_istream \<Rightarrow> addr" where
  "in_end s = (case source s of BufSource m p \<Rightarrow> p + uint (bytes_left s) | UserSource f u \<Rightarrow> 0)"

lemma is_BufSource_in_adv [simp]: "is_BufSource (source (in_adv s n)) = is_BufSource (source s)"
  by (simp add: in_adv_def split: isource.splits)

lemma in_bytes_BufSource: "in_bytes s = b # bs \<Longrightarrow> is_BufSource (source s)"
  by (simp add: in_bytes_def split: isource.splits)

lemma in_adv_0 [simp]: "in_adv s 0 = s"
  by (simp add: in_adv_def split: isource.splits)

lemma in_adv_in_adv [simp]: "in_adv (in_adv s a) b = in_adv s (a + b)"
  by (simp add: in_adv_def algebra_simps split: isource.splits)

lemma in_adv_errmsg [simp]: "i_errmsg (in_adv s n) = i_errmsg s"
  by (simp add: in_adv_def)

lemma in_adv_mem: "source s = BufSource m p \<Longrightarrow> source (in_adv s n) = BufSource m (p + int n)"
  by (simp add: in_adv_def)

lemma length_in_bytes: "is_BufSource (source s) \<Longrightarrow> length (in_bytes s) = unat (bytes_left s)"
  by (cases "source s") (simp_all add: in_bytes_def)

lemma unat_minus_of_nat: "n \<le> unat w \<Longrightarrow> unat (w - of_nat n) = unat (w :: 'a::len word) - n"
proof -
  assume n: "n \<le> unat w"
  then have "n < 2 ^ LENGTH('a)" by (rule le_less_trans) simp
  then have u: "unat (of_nat n :: 'a word) = n" by (simp add: unat_of_nat)
  then show ?thesis using n by (simp add: unat_sub word_le_nat_alt)
qed

lemma in_bytes_in_adv:
  assumes "in_bytes s = xs @ ys" "is_BufSource (source s)"
  shows "in_bytes (in_adv s (length xs)) = ys"
proof -
  obtain m p where k: "source s = BufSource m p" using assms(2) by (cases "source s") auto
  have len: "unat (bytes_left s) = length xs + length ys"
    using length_in_bytes [OF assms(2)] assms(1) by simp
  then have "mem_read m p (length xs + length ys) = xs @ ys"
    using assms(1) k by (simp add: in_bytes_def)
  then have "mem_read m (p + int (length xs)) (length ys) = ys"
    by (simp add: mem_read_add)
  then show ?thesis
    using len k by (simp add: in_bytes_def in_adv_def unat_minus_of_nat)
qed

lemma in_bytes_step:
  "in_bytes s = b # ys \<Longrightarrow> in_bytes (in_adv s (Suc 0)) = ys"
  using in_bytes_in_adv [of s "[b]" ys] in_bytes_BufSource by simp blast

lemma pb_readbyte_Cons:
  assumes "in_bytes s = b # bs"
  shows "pb_readbyte s = (Some b, in_adv s 1)"
proof -
  obtain m p where k: "source s = BufSource m p"
    using in_bytes_BufSource [OF assms] by (cases "source s") auto
  have len: "unat (bytes_left s) = Suc (length bs)"
    using length_in_bytes [OF in_bytes_BufSource [OF assms]] assms by simp
  then have "m p = b" using assms k by (simp add: in_bytes_def mem_read_Suc)
  moreover have "bytes_left s \<noteq> 0" using len by auto
  ultimately show ?thesis
    by (simp add: pb_readbyte_def source_read_def k buf_read_def in_adv_def mem_read_def)
qed

lemma pb_read_append:
  assumes "in_bytes s = xs @ ys" "is_BufSource (source s)" "unat count = length xs"
  shows "pb_read s null count = (True, if null then [] else xs, in_adv s (length xs))"
proof -
  obtain m p where k: "source s = BufSource m p" using assms(2) by (cases "source s") auto
  have len: "unat (bytes_left s) = length xs + length ys"
    using length_in_bytes [OF assms(2)] assms(1) by simp
  have c: "count = of_nat (length xs)" by (simp flip: assms(3))
  have "mem_read m p (length xs + length ys) = xs @ ys"
    using assms(1) k len by (simp add: in_bytes_def)
  then have r: "mem_read m p (unat count) = xs" by (simp add: mem_read_add assms(3))
  have "\<not> bytes_left s < count" using len assms(3) by (simp add: word_less_nat_alt)
  moreover have "uint count = int (length xs)" by (simp flip: assms(3))
  moreover have "count = 0 \<Longrightarrow> xs = []" using assms(3) by simp
  ultimately show ?thesis
    using r c by (auto simp: pb_read_def pb_read_some_def source_read_def k buf_read_def in_adv_def)
qed

section \<open>Varints\<close>

text \<open>One byte of a varint that is not its last.\<close>

definition more_byte :: "'a::len word \<Rightarrow> byte" where
  "more_byte v = ucast (v AND 0x7F) OR 0x80"

lemma more_byte_high [simp]: "more_byte v AND 0x80 \<noteq> 0"
proof -
  have "bit (more_byte v AND 0x80) 7" by (simp add: more_byte_def bit_simps)
  then show ?thesis by auto
qed

lemma more_byte_low: "8 \<le> LENGTH('b) \<Longrightarrow> ucast (more_byte v AND 0x7F) = (ucast v AND 0x7F :: 'b::len word)"
  unfolding more_byte_def word_masks
  by (rule bit_word_eqI) (auto simp: bit_simps dest: bit_imp_le_length)

lemma more_byte_low7: "more_byte v AND 0x7F = ucast v AND 0x7F"
  unfolding more_byte_def word_masks
  by (rule bit_word_eqI) (auto simp: bit_simps dest: bit_imp_le_length)

lemma varint_bytes_small: "v \<le> 0x7F \<Longrightarrow> varint_bytes v = [ucast v]"
  by (simp add: varint_bytes_def)

lemma varint_loop_last:
  assumes "v \<noteq> 0"
  shows "(let b = varint_loop v in b[length b - 1 := b ! (length b - 1) AND 0x7F]) = varint_bytes v"
proof (cases "v \<le> 0x7F")
  case True
  then have d: "drop_bit 7 v = 0"
    by (simp add: drop_bit_eq_div word_le_nat_alt unat_div_distrib flip: unat_0_iff)
  have "ucast v AND 0x7F = (ucast v :: byte)"
    using d unfolding word_masks
    by (intro bit_word_eqI) (auto simp: bit_simps dest: drop_bit_0_bit)
  then show ?thesis using True assms d more_byte_low7 [of v]
    by (simp add: varint_bytes_def varint_loop.simps [of v] Let_def more_byte_def)
next
  case False
  then show ?thesis by (simp add: varint_bytes_def)
qed

lemma varint_bytes_more:
  assumes "\<not> v \<le> 0x7F"
  shows "varint_bytes v = more_byte v # varint_bytes (drop_bit 7 v)"
proof -
  have "unat v div 128 \<noteq> 0" using assms by (simp add: word_le_nat_alt)
  then have d: "drop_bit 7 v \<noteq> 0"
    by (simp add: drop_bit_eq_div unat_div_distrib flip: unat_0_iff)
  have v: "v \<noteq> 0" using assms by auto
  obtain c cs where "varint_loop (drop_bit 7 v) = c # cs"
    using d by (metis varint_loop_Nil neq_Nil_conv)
  then show ?thesis
    using assms v varint_loop_last [OF d]
    by (subst varint_bytes_def) (simp add: varint_loop.simps [of v] Let_def more_byte_def)
qed

lemma split_7bits:
  "push_bit k (v AND 0x7F) OR push_bit (k + 7) (drop_bit 7 v) = push_bit k (v :: 'a::len word)"
proof (rule bit_word_eqI)
  fix n
  have "k + 7 \<le> n \<Longrightarrow> 7 + (n - (k + 7)) = n - k" by simp
  then show "bit (push_bit k (v AND 0x7F) OR push_bit (k + 7) (drop_bit 7 v)) n = bit (push_bit k v) n"
    unfolding word_masks by (cases "k + 7 \<le> n") (auto simp: bit_simps)
qed

lemma last_byte:
  assumes "v \<le> (0x7F :: u64)"
  shows "(ucast v :: byte) AND 0x80 = 0" "ucast ((ucast v :: byte) AND 0x7F) = v"
proof -
  have d: "drop_bit 7 v = 0"
    using assms by (simp add: drop_bit_eq_div word_le_nat_alt unat_div_distrib flip: unat_0_iff)
  show "(ucast v :: byte) AND 0x80 = 0"
    using d by (intro bit_word_eqI) (auto simp: bit_simps dest: drop_bit_0_bit)
  show "ucast ((ucast v :: byte) AND 0x7F) = v"
    using d unfolding word_masks
    by (intro bit_word_eqI) (auto simp: bit_simps dest: drop_bit_0_bit)
qed

lemma unat_add7: "unat (b :: byte) = 7 * k \<Longrightarrow> k \<le> 10 \<Longrightarrow> unat (b + 7) = 7 * Suc k"
  by (simp add: unat_word_ariths)

lemma varint_dec_loop_bytes:
  assumes "in_bytes s = varint_bytes v @ rest" "unat bitpos = 7 * k" "k \<le> 9"
    "unat v < 2 ^ (64 - 7 * k)"
  shows "varint_dec_loop s bitpos r = (Some (r OR push_bit (7 * k) v), in_adv s (length (varint_bytes v)))"
  using assms
proof (induction "length (varint_bytes v)" arbitrary: s v bitpos k r)
  case 0
  then show ?case by simp
next
  case (Suc n)
  have bp: "\<not> bitpos \<ge> 64" using Suc.prems(2,3) by (simp add: word_le_nat_alt)
  show ?case
  proof (cases "v \<le> 0x7F")
    case True
    have "in_bytes s = ucast v # rest"
      using Suc.prems(1) by (simp add: varint_bytes_small [OF True])
    from pb_readbyte_Cons [OF this] show ?thesis
      using bp Suc.prems(2) True
      by (subst varint_dec_loop.simps) (simp add: last_byte Let_def varint_bytes_small)
  next
    case False
    note more = varint_bytes_more [OF False]
    have b: "in_bytes s = more_byte v # varint_bytes (drop_bit 7 v) @ rest"
      using Suc.prems(1) by (simp add: more)
    have k: "k < 9"
    proof (rule ccontr)
      assume "\<not> k < 9"
      then have "k = 9" using Suc.prems(3) by simp
      then show False using Suc.prems(4) False by (simp add: word_le_nat_alt)
    qed
    define j where "j = 64 - 7 * Suc k"
    have "64 - 7 * k = j + 7" using k by (simp add: j_def)
    then have "unat v < 2 ^ j * 128" using Suc.prems(4) by (simp add: power_add)
    then have v: "unat (drop_bit 7 v) < 2 ^ (64 - 7 * Suc k)"
      unfolding j_def [symmetric]
      by (simp add: drop_bit_eq_div unat_div_distrib less_mult_imp_div_less)
    have bp7: "unat (bitpos + 7) = 7 * Suc k"
      using Suc.prems(2) by (rule unat_add7) (use Suc.prems(3) in simp)
    have len: "n = length (varint_bytes (drop_bit 7 v))"
      using Suc.hyps(2) by (simp add: more)
    have "varint_dec_loop (in_adv s 1) (bitpos + 7) (r OR push_bit (7 * k) (v AND 0x7F)) =
       (Some ((r OR push_bit (7 * k) (v AND 0x7F)) OR push_bit (7 * Suc k) (drop_bit 7 v)),
        in_adv (in_adv s 1) (length (varint_bytes (drop_bit 7 v))))"
      by (rule Suc.hyps(1) [OF len _ bp7 _ v]) (use k in_bytes_step [OF b] in simp_all)
    moreover have "push_bit (7 * k) (v AND 0x7F) OR push_bit (7 * Suc k) (drop_bit 7 v) = push_bit (7 * k) v"
      using split_7bits [of "7 * k" v] by (simp add: add.commute)
    ultimately show ?thesis
      using bp Suc.prems(2) pb_readbyte_Cons [OF b]
      by (subst varint_dec_loop.simps) (simp add: more_byte_low Let_def more or.assoc)
  qed
qed

lemma pb_decode_varint_bytes:
  "in_bytes s = varint_bytes v @ rest \<Longrightarrow>
     pb_decode_varint s = (Some v, in_adv s (length (varint_bytes v)))"
  using varint_dec_loop_bytes [of s v rest 0 0 0] unsigned_less [of v]
  by (simp add: pb_decode_varint_def)

section \<open>32-bit varints\<close>

definition varint32_bytes :: "u32 \<Rightarrow> byte list" where
  "varint32_bytes w = varint_bytes (ucast w)"

lemma ucast_le_127: "(ucast w :: u64) \<le> 0x7F \<longleftrightarrow> (w :: u32) \<le> 0x7F"
  by (simp add: word_le_nat_alt unat_ucast_up)

lemma varint32_small: "w \<le> 0x7F \<Longrightarrow> varint32_bytes w = [ucast w]"
  by (simp add: varint32_bytes_def varint_bytes_small ucast_le_127)
    (rule bit_word_eqI, auto simp: bit_simps)

lemma varint32_more:
  assumes "\<not> w \<le> 0x7F"
  shows "varint32_bytes w = more_byte w # varint32_bytes (drop_bit 7 w)"
proof -
  have "more_byte (ucast w :: u64) = more_byte w"
    unfolding more_byte_def word_masks
    by (rule bit_word_eqI) (auto simp: bit_simps dest: bit_imp_le_length)
  moreover have "drop_bit 7 (ucast w :: u64) = ucast (drop_bit 7 w)"
    by (rule bit_word_eqI) (auto simp: bit_simps dest: bit_imp_le_length)
  ultimately show ?thesis
    using assms by (simp add: varint32_bytes_def varint_bytes_more ucast_le_127)
qed

lemma last_byte32:
  assumes "w \<le> (0x7F :: u32)"
  shows "(ucast w :: byte) AND 0x80 = 0" "ucast ((ucast w :: byte) AND 0x7F) = w"
    "(ucast (ucast w :: byte) :: u32) = w"
proof -
  have d: "drop_bit 7 w = 0"
    using assms by (simp add: drop_bit_eq_div word_le_nat_alt unat_div_distrib flip: unat_0_iff)
  show "(ucast w :: byte) AND 0x80 = 0"
    using d by (intro bit_word_eqI) (auto simp: bit_simps dest: drop_bit_0_bit)
  show "ucast ((ucast w :: byte) AND 0x7F) = w"
    using d unfolding word_masks
    by (intro bit_word_eqI) (auto simp: bit_simps dest: drop_bit_0_bit)
  show "(ucast (ucast w :: byte) :: u32) = w"
    using d by (intro bit_word_eqI) (auto simp: bit_simps dest: drop_bit_0_bit)
qed

lemma small_nibble:
  assumes "unat (w :: u32) < 16"
  shows "(ucast w :: byte) AND 0x70 = 0"
proof -
  have d: "drop_bit 4 w = 0"
    using assms by (simp add: drop_bit_eq_div unat_div_distrib flip: unat_0_iff)
  have "(ucast w :: byte) AND push_bit 4 (mask 3) = 0"
    using d by (intro bit_word_eqI) (auto simp: bit_simps dest: drop_bit_0_bit)
  then show ?thesis by (simp add: mask_eq_exp_minus_1)
qed

lemma varint32_loop_bytes:
  assumes "in_bytes s = varint32_bytes w @ rest" "unat bitpos = 7 * k" "k \<le> 4"
    "unat w < 2 ^ (32 - 7 * k)"
  shows "\<exists>bp b. varint32_loop s bitpos r =
      (Some (r OR push_bit (7 * k) w, bp, b), in_adv s (length (varint32_bytes w)))
      \<and> (bp = 35 \<longrightarrow> b AND 0x70 = 0)"
  using assms
proof (induction "length (varint32_bytes w)" arbitrary: s w bitpos k r)
  case 0
  then show ?case by (simp add: varint32_bytes_def)
next
  case (Suc n)
  have bp: "\<not> bitpos \<ge> 32" using Suc.prems(2,3) by (simp add: word_le_nat_alt)
  have bp7: "unat (bitpos + 7) = 7 * Suc k"
    using Suc.prems(2) by (rule unat_add7) (use Suc.prems(3) in simp)
  show ?case
  proof (cases "w \<le> 0x7F")
    case True
    have "in_bytes s = ucast w # rest"
      using Suc.prems(1) by (simp add: varint32_small [OF True])
    note rd = pb_readbyte_Cons [OF this]
    have "(ucast w :: byte) AND 0x70 = 0" if "bitpos + 7 = 35"
    proof -
      have "k = 4" using that bp7 by simp
      then show ?thesis using Suc.prems(4) by (intro small_nibble) simp
    qed
    then show ?thesis
      using rd bp Suc.prems(2) True
      by (subst varint32_loop.simps) (simp add: last_byte32 Let_def varint32_small)
  next
    case False
    note more = varint32_more [OF False]
    have b: "in_bytes s = more_byte w # varint32_bytes (drop_bit 7 w) @ rest"
      using Suc.prems(1) by (simp add: more)
    have k: "k < 4"
    proof (rule ccontr)
      assume "\<not> k < 4"
      then have "k = 4" using Suc.prems(3) by simp
      then show False using Suc.prems(4) False by (simp add: word_le_nat_alt)
    qed
    define j where "j = 32 - 7 * Suc k"
    have "32 - 7 * k = j + 7" using k by (simp add: j_def)
    then have "unat w < 2 ^ j * 128" using Suc.prems(4) by (simp add: power_add)
    then have w: "unat (drop_bit 7 w) < 2 ^ (32 - 7 * Suc k)"
      unfolding j_def [symmetric]
      by (simp add: drop_bit_eq_div unat_div_distrib less_mult_imp_div_less)
    have len: "n = length (varint32_bytes (drop_bit 7 w))"
      using Suc.hyps(2) by (simp add: more)
    have "\<exists>bq c. varint32_loop (in_adv s 1) (bitpos + 7) (r OR push_bit (7 * k) (w AND 0x7F)) =
       (Some ((r OR push_bit (7 * k) (w AND 0x7F)) OR push_bit (7 * Suc k) (drop_bit 7 w), bq, c),
        in_adv (in_adv s 1) (length (varint32_bytes (drop_bit 7 w)))) \<and> (bq = 35 \<longrightarrow> c AND 0x70 = 0)"
      by (rule Suc.hyps(1) [OF len _ bp7 _ w]) (use k in_bytes_step [OF b] in simp_all)
    then obtain bq c where IH: "varint32_loop (in_adv s 1) (bitpos + 7) (r OR push_bit (7 * k) (w AND 0x7F)) =
       (Some ((r OR push_bit (7 * k) (w AND 0x7F)) OR push_bit (7 * Suc k) (drop_bit 7 w), bq, c),
        in_adv (in_adv s 1) (length (varint32_bytes (drop_bit 7 w))))" "bq = 35 \<longrightarrow> c AND 0x70 = 0"
      by blast
    have "push_bit (7 * k) (w AND 0x7F) OR push_bit (7 * Suc k) (drop_bit 7 w) = push_bit (7 * k) w"
      using split_7bits [of "7 * k" w] by (simp add: add.commute)
    then show ?thesis
      using IH bp Suc.prems(2) pb_readbyte_Cons [OF b]
      by (subst varint32_loop.simps) (simp add: more_byte_low Let_def more or.assoc)
  qed
qed

lemma pb_decode_varint32_eof_bytes:
  assumes "in_bytes s = varint32_bytes w @ rest"
  shows "pb_decode_varint32_eof s = (Some w, False, in_adv s (length (varint32_bytes w)))"
proof (cases "w \<le> 0x7F")
  case True
  have "in_bytes s = ucast w # rest"
    using assms by (simp add: varint32_small [OF True])
  from pb_readbyte_Cons [OF this] show ?thesis
    using True by (simp add: pb_decode_varint32_eof_def last_byte32 varint32_small)
next
  case False
  note more = varint32_more [OF False]
  have b: "in_bytes s = more_byte w # varint32_bytes (drop_bit 7 w) @ rest"
    using assms by (simp add: more)
  have "unat w < 2 ^ 25 * 128" using unsigned_less [of w] by simp
  then have w: "unat (drop_bit 7 w) < 2 ^ (32 - 7 * 1)"
    by (simp add: drop_bit_eq_div unat_div_distrib less_mult_imp_div_less)
  obtain bq c where IH: "varint32_loop (in_adv s 1) 7 (w AND 0x7F) =
       (Some ((w AND 0x7F) OR push_bit (7 * 1) (drop_bit 7 w), bq, c),
        in_adv (in_adv s 1) (length (varint32_bytes (drop_bit 7 w))))" "bq = 35 \<longrightarrow> c AND 0x70 = 0"
    using varint32_loop_bytes [of "in_adv s 1" "drop_bit 7 w" rest 7 1 "w AND 0x7F"] w in_bytes_step [OF b]
    by auto
  have "(w AND 0x7F) OR push_bit 7 (drop_bit 7 w) = w"
    using split_7bits [of 0 w] by simp
  then show ?thesis
    using IH pb_readbyte_Cons [OF b]
    by (simp add: pb_decode_varint32_eof_def more_byte_low more)
qed

lemma pb_decode_varint32_bytes:
  "in_bytes s = varint32_bytes w @ rest \<Longrightarrow>
     pb_decode_varint32 s = (Some w, in_adv s (length (varint32_bytes w)))"
  by (simp add: pb_decode_varint32_def pb_decode_varint32_eof_bytes)

section \<open>Signed and fixed-width values\<close>

definition unzigzag :: "u64 \<Rightarrow> u64" where
  "unzigzag v = (if v AND 1 \<noteq> 0 then NOT (drop_bit 1 v) else drop_bit 1 v)"

lemma sless_0_bit: "x <s 0 \<longleftrightarrow> bit x 63" for x :: u64
  using bit_last_iff [of x] by (simp add: word_sless_alt)

lemma bit_mul2: "bit (x * 2) n \<longleftrightarrow> 0 < n \<and> n < LENGTH('a) \<and> bit x (n - 1)" for x :: "'a::len word"
proof -
  have "x * 2 = push_bit 1 x" by (simp add: push_bit_eq_mult)
  then show ?thesis by (simp only: bit_push_bit_iff possible_bit_word) auto
qed

lemma unzigzag_zigzag: "unzigzag (zigzag x) = x"
proof -
  have low: "push_bit 1 x AND 1 = 0" "NOT (push_bit 1 x) AND 1 \<noteq> (0 :: u64)"
  proof -
    show "push_bit 1 x AND 1 = 0"
      by (rule bit_word_eqI) (simp only: bit_simps, auto)
    have b: "bit (NOT (push_bit 1 x) AND 1) 0" by (simp only: bit_simps) simp
    show "NOT (push_bit 1 x) AND 1 \<noteq> 0"
    proof
      assume e: "NOT (push_bit 1 x) AND 1 = 0"
      from b show False unfolding e by simp
    qed
  qed
  show ?thesis
  proof (cases "x <s 0")
    case True
    then have b: "bit x 63" by (simp add: sless_0_bit)
    have "NOT (drop_bit 1 (NOT (push_bit 1 x))) = x"
    proof (rule bit_word_eqI)
      fix n assume n: "n < LENGTH(64)"
      show "bit (NOT (drop_bit 1 (NOT (push_bit 1 x)))) n = bit x n"
        using n b by (cases "n = 63") (auto simp: bit_simps bit_mul2)
    qed
    then show ?thesis using True low by (simp add: zigzag_def unzigzag_def)
  next
    case False
    then have b: "\<not> bit x 63" by (simp add: sless_0_bit)
    have "drop_bit 1 (push_bit 1 x) = x"
    proof (rule bit_word_eqI)
      fix n assume n: "n < LENGTH(64)"
      show "bit (drop_bit 1 (push_bit 1 x)) n = bit x n"
        using n b by (cases "n = 63") (auto simp: bit_simps bit_mul2)
    qed
    then show ?thesis using False low by (simp add: zigzag_def unzigzag_def)
  qed
qed

lemma pb_decode_svarint_bytes:
  "in_bytes s = varint_bytes (zigzag x) @ rest \<Longrightarrow>
     pb_decode_svarint s = (Some x, in_adv s (length (varint_bytes (zigzag x))))"
  using unzigzag_zigzag [of x]
  by (simp add: pb_decode_svarint_def pb_decode_varint_bytes unzigzag_def)

lemma pb_decode_fixed32_bytes:
  assumes "in_bytes s = le_bytes 4 w @ rest"
  shows "pb_decode_fixed32 s = (Some w, in_adv s 4)"
proof -
  have k: "is_BufSource (source s)"
    using assms by (intro in_bytes_BufSource [of s "hd (in_bytes s)" "tl (in_bytes s)"])
      (simp add: numeral_eq_Suc)
  have rd: "pb_read s False 4 = (True, le_bytes 4 w, in_adv s 4)"
    using pb_read_append [OF assms k, of 4 False] by simp
  have e: "le_bytes 4 w ! 0 = ucast w" "le_bytes 4 w ! Suc 0 = ucast (drop_bit 8 w)"
    "le_bytes 4 w ! 2 = ucast (drop_bit 16 w)" "le_bytes 4 w ! 3 = ucast (drop_bit 24 w)"
    by (simp_all add: numeral_eq_Suc)
  have "(le_val (le_bytes 4 w) :: u32) = w"
    by (rule le_val_le_bytes_full) simp
  then have "ucast (ucast w :: byte) OR push_bit 8 (ucast (ucast (drop_bit 8 w) :: byte))
      OR push_bit 16 (ucast (ucast (drop_bit 16 w) :: byte))
      OR push_bit 24 (ucast (ucast (drop_bit 24 w) :: byte)) = w"
    by (simp add: numeral_eq_Suc push_bit_or)
  then show ?thesis
    by (simp add: pb_decode_fixed32_def rd e)
qed

lemma pb_decode_fixed64_bytes:
  assumes "in_bytes s = le_bytes 8 w @ rest"
  shows "pb_decode_fixed64 s = (Some w, in_adv s 8)"
proof -
  have k: "is_BufSource (source s)"
    using assms by (intro in_bytes_BufSource [of s "hd (in_bytes s)" "tl (in_bytes s)"])
      (simp add: numeral_eq_Suc)
  have rd: "pb_read s False 8 = (True, le_bytes 8 w, in_adv s 8)"
    using pb_read_append [OF assms k, of 8 False] by simp
  have e: "le_bytes 8 w ! 0 = ucast w" "le_bytes 8 w ! Suc 0 = ucast (drop_bit 8 w)"
    "le_bytes 8 w ! 2 = ucast (drop_bit 16 w)" "le_bytes 8 w ! 3 = ucast (drop_bit 24 w)"
    "le_bytes 8 w ! 4 = ucast (drop_bit 32 w)" "le_bytes 8 w ! 5 = ucast (drop_bit 40 w)"
    "le_bytes 8 w ! 6 = ucast (drop_bit 48 w)" "le_bytes 8 w ! 7 = ucast (drop_bit 56 w)"
    by (simp_all add: numeral_eq_Suc)
  have "(le_val (le_bytes 8 w) :: u64) = w"
    by (rule le_val_le_bytes_full) simp
  then have "ucast (ucast w :: byte) OR push_bit 8 (ucast (ucast (drop_bit 8 w) :: byte))
      OR push_bit 16 (ucast (ucast (drop_bit 16 w) :: byte))
      OR push_bit 24 (ucast (ucast (drop_bit 24 w) :: byte))
      OR push_bit 32 (ucast (ucast (drop_bit 32 w) :: byte))
      OR push_bit 40 (ucast (ucast (drop_bit 40 w) :: byte))
      OR push_bit 48 (ucast (ucast (drop_bit 48 w) :: byte))
      OR push_bit 56 (ucast (ucast (drop_bit 56 w) :: byte)) = w"
    by (simp add: numeral_eq_Suc push_bit_or)
  then show ?thesis
    by (simp add: pb_decode_fixed64_def rd e)
qed

section \<open>Tags\<close>

definition tag_valid :: "u32 \<times> u32 \<Rightarrow> bool" where
  "tag_valid x \<longleftrightarrow> unat (fst x) < 8 \<and> unat (snd x) < 2 ^ 29 \<and> x \<noteq> (0, 0)"

definition tag_bytes :: "u32 \<times> u32 \<Rightarrow> byte list" where
  "tag_bytes x = varint_bytes (tag_word (fst x) (snd x))"

definition get_tag :: "'u pb_istream \<Rightarrow> (u32 \<times> u32) option \<times> 'u pb_istream" where
  "get_tag s = (case pb_decode_tag s of (r, eof, s1) \<Rightarrow> (r, s1))"

lemma drop_bit_0I:
  fixes w :: "'a::len word"
  assumes "unat w < 2 ^ k"
  shows "drop_bit k w = 0"
proof -
  have "unat (drop_bit k w) = 0"
    unfolding unsigned_drop_bit_eq using assms
    by (simp add: drop_bit_eq_div take_bit_nat_eq_self)
  then show ?thesis by (simp only: unat_0_iff)
qed

lemma tag_word_u32:
  assumes "unat n < 2 ^ 29"
  shows "tag_word wt n = ucast (push_bit 3 n OR wt)"
proof -
  have "drop_bit 29 n = 0" using assms by (intro drop_bit_0I) simp
  then show ?thesis
    unfolding tag_word_def
    by (intro bit_word_eqI) (auto simp: bit_simps dest: drop_bit_0_bit bit_imp_le_length)
qed

lemma tag_parts:
  fixes wt n :: u32
  assumes "unat wt < 8" "unat n < 2 ^ 29"
  shows "(push_bit 3 n OR wt) AND 7 = wt" "drop_bit 3 (push_bit 3 n OR wt) = n"
proof -
  have d: "drop_bit 3 wt = 0" "drop_bit 29 n = 0" using assms by (intro drop_bit_0I, simp)+
  show "(push_bit 3 n OR wt) AND 7 = wt"
    using d unfolding word_masks
    by (intro bit_word_eqI) (auto simp: bit_simps dest: drop_bit_0_bit)
  show "drop_bit 3 (push_bit 3 n OR wt) = n"
    using d by (intro bit_word_eqI) (auto simp: bit_simps dest: drop_bit_0_bit)
qed

lemma pb_decode_tag_bytes:
  assumes "tag_valid x" "in_bytes s = tag_bytes x @ rest"
  shows "pb_decode_tag s = (Some x, False, in_adv s (length (tag_bytes x)))"
proof -
  define w where "w = push_bit 3 (snd x) OR fst x"
  have v: "unat (fst x) < 8" "unat (snd x) < 2 ^ 29" "x \<noteq> (0, 0)"
    using assms(1) by (auto simp: tag_valid_def)
  have p: "w AND 7 = fst x" "drop_bit 3 w = snd x"
    unfolding w_def by (rule tag_parts [OF v(1,2)])+
  have b: "tag_bytes x = varint32_bytes w"
    unfolding tag_bytes_def varint32_bytes_def w_def tag_word_u32 [OF v(2)] ..
  have "w \<noteq> 0"
    using p v(3) by (metis and_zero_eq drop_bit_of_0 prod.collapse zero_and_eq)
  moreover have "(w AND 7, drop_bit 3 w) = x" by (simp add: p)
  ultimately show ?thesis
    using assms(2) by (simp add: pb_decode_tag_def b pb_decode_varint32_eof_bytes)
qed

lemma get_tag_bytes:
  "tag_valid x \<Longrightarrow> in_bytes s = tag_bytes x @ rest \<Longrightarrow> get_tag s = (Some x, in_adv s (length (tag_bytes x)))"
  by (simp add: get_tag_def pb_decode_tag_bytes)

section \<open>The contract of a wire encoding\<close>

text \<open>\<open>put\<close> gives the bytes an encoder writes for a valid value and \<open>get\<close> is the decoder: it returns
  the value and moves the stream just past those bytes, whatever follows. Clients get decoding
  of sequences and unique decodability.\<close>

lemma in_bytes_from_buffer:
  "length bs < 2 ^ 64 \<Longrightarrow>
     in_bytes (pb_istream_from_buffer (mem_write m p bs) p (of_nat (length bs)) :: 'u pb_istream) = bs"
  by (simp add: in_bytes_def pb_istream_from_buffer_def unat_of_nat)

locale wire_codec =
  fixes put :: "'a \<Rightarrow> byte list"
    and get :: "'u pb_istream \<Rightarrow> 'a option \<times> 'u pb_istream"
    and valid :: "'a \<Rightarrow> bool"
  assumes get_put: "valid x \<Longrightarrow> in_bytes s = put x @ rest \<Longrightarrow> get s = (Some x, in_adv s (length (put x)))"
    and put_nonempty: "valid x \<Longrightarrow> put x \<noteq> []"
begin

primrec get_list :: "nat \<Rightarrow> 'u pb_istream \<Rightarrow> 'a list option \<times> 'u pb_istream" where
  "get_list 0 s = (Some [], s)"
| "get_list (Suc n) s =
     (case get s of
        (None, s1) \<Rightarrow> (None, s1)
      | (Some x, s1) \<Rightarrow> (case get_list n s1 of (r, s2) \<Rightarrow> (map_option ((#) x) r, s2)))"

lemma get_consumes:
  assumes "valid x" "in_bytes s = put x @ rest"
  shows "in_bytes (snd (get s)) = rest"
proof -
  obtain b bs where "put x = b # bs" using put_nonempty [OF assms(1)] by (cases "put x") auto
  then have "is_BufSource (source s)" using assms(2) by (auto intro: in_bytes_BufSource)
  with assms show ?thesis by (simp add: get_put in_bytes_in_adv)
qed

lemma get_list_put:
  "\<forall>x \<in> set xs. valid x \<Longrightarrow> in_bytes s = concat (map put xs) @ rest \<Longrightarrow>
     get_list (length xs) s = (Some xs, in_adv s (length (concat (map put xs))))"
proof (induction xs arbitrary: s)
  case Nil
  then show ?case by simp
next
  case (Cons x xs)
  have g: "get s = (Some x, in_adv s (length (put x)))"
    using Cons.prems by (intro get_put) auto
  have "in_bytes (in_adv s (length (put x))) = concat (map put xs) @ rest"
    using get_consumes [of x s "concat (map put xs) @ rest"] Cons.prems g by simp
  with Cons g show ?case by simp
qed

lemma unique_decode:
  assumes "valid x" "valid y" "put x @ r = put y @ r'" "length (put x @ r) < 2 ^ 64"
  shows "x = y \<and> r = r'"
proof -
  define s :: "'u pb_istream" where
    "s = pb_istream_from_buffer (mem_write (\<lambda>_. 0) 0 (put x @ r)) 0 (of_nat (length (put x @ r)))"
  have b: "in_bytes s = put x @ r" unfolding s_def by (rule in_bytes_from_buffer [OF assms(4)])
  have "get s = (Some x, in_adv s (length (put x)))" by (rule get_put [OF assms(1) b])
  moreover have "get s = (Some y, in_adv s (length (put y)))"
    by (rule get_put [OF assms(2)]) (simp add: b assms(3))
  ultimately have "x = y" by simp
  with assms(3) show ?thesis by simp
qed

lemma prefix_free:
  "valid x \<Longrightarrow> valid y \<Longrightarrow> put x = put y @ r \<Longrightarrow> length (put x) < 2 ^ 64 \<Longrightarrow> x = y"
  using unique_decode [of x y "[]" r] by simp

end

interpretation varint: wire_codec varint_bytes pb_decode_varint "\<lambda>_. True"
  by unfold_locales (simp_all add: pb_decode_varint_bytes)

interpretation varint32: wire_codec varint32_bytes pb_decode_varint32 "\<lambda>_. True"
  by unfold_locales (simp_all add: pb_decode_varint32_bytes, simp add: varint32_bytes_def)

interpretation svarint: wire_codec "\<lambda>v. varint_bytes (zigzag v)" pb_decode_svarint "\<lambda>_. True"
  by unfold_locales (simp_all add: pb_decode_svarint_bytes)

interpretation fixed32: wire_codec "le_bytes 4" pb_decode_fixed32 "\<lambda>_. True"
  by unfold_locales (simp_all add: pb_decode_fixed32_bytes, simp add: numeral_eq_Suc)

interpretation fixed64: wire_codec "le_bytes 8" pb_decode_fixed64 "\<lambda>_. True"
  by unfold_locales (simp_all add: pb_decode_fixed64_bytes, simp add: numeral_eq_Suc)

interpretation tags: wire_codec tag_bytes get_tag tag_valid
  by unfold_locales (simp_all add: get_tag_bytes, simp add: tag_bytes_def)

section \<open>Readers stay within their input\<close>

lemma in_step_BufSource: "in_step s s' \<Longrightarrow> is_BufSource (source s) \<Longrightarrow> is_BufSource (source s')"
  by (auto simp: in_step_def)

lemma in_step_refl [simp]: "in_step s s"
  by (auto simp: in_step_def intro: exI [of _ 0])

lemma in_step_error [simp]: "in_step s (i_error s' msg) = in_step s s'"
  by (simp add: in_step_def i_error_def)

lemma in_step_errmsg [simp]: "in_step s (s'\<lparr>i_errmsg := e\<rparr>) = in_step s s'"
  by (simp add: in_step_def)

lemma in_adv_source_cong:
  "source s = source t \<Longrightarrow> bytes_left s = bytes_left t \<Longrightarrow>
     source (in_adv s k) = source (in_adv t k) \<and> bytes_left (in_adv s k) = bytes_left (in_adv t k)"
  by (simp add: in_adv_def)

lemma in_step_trans:
  assumes "in_step s t" "in_step t u"
  shows "in_step s u"
  unfolding in_step_def
proof
  assume k: "is_BufSource (source s)"
  obtain i where i: "i \<le> unat (bytes_left s)" "source t = source (in_adv s i)"
      "bytes_left t = bytes_left (in_adv s i)"
    using assms(1) k by (auto simp: in_step_def)
  have "is_BufSource (source t)" using assms(1) k by (rule in_step_BufSource)
  then obtain j where j: "j \<le> unat (bytes_left t)" "source u = source (in_adv t j)"
      "bytes_left u = bytes_left (in_adv t j)"
    using assms(2) by (auto simp: in_step_def)
  have "unat (bytes_left t) = unat (bytes_left s) - i"
    using i by (simp add: in_adv_def unat_minus_of_nat)
  with i(1) j(1) have "i + j \<le> unat (bytes_left s)" by simp
  moreover have "source u = source (in_adv s (i + j)) \<and> bytes_left u = bytes_left (in_adv s (i + j))"
    using in_adv_source_cong [OF i(2,3)] j(2,3) by simp
  ultimately show "\<exists>k \<le> unat (bytes_left s). source u = source (in_adv s k) \<and> bytes_left u = bytes_left (in_adv s k)"
    by blast
qed

lemma in_step_end: "in_step s s' \<Longrightarrow> is_BufSource (source s) \<Longrightarrow> in_end s' = in_end s"
proof -
  assume st: "in_step s s'" and b: "is_BufSource (source s)"
  obtain m p where k: "source s = BufSource m p" using b by (cases "source s") auto
  obtain i where i: "i \<le> unat (bytes_left s)" "source s' = source (in_adv s i)"
      "bytes_left s' = bytes_left (in_adv s i)"
    using st b by (auto simp: in_step_def)
  have "unat (bytes_left s') = unat (bytes_left s) - i"
    using i by (simp add: in_adv_def unat_minus_of_nat)
  then have "uint (bytes_left s') = uint (bytes_left s) - int i"
    using i(1) by (metis of_nat_diff of_nat_unat)
  then show ?thesis using i k by (simp add: in_end_def in_adv_def)
qed

lemma in_step_left: "in_step s s' \<Longrightarrow> is_BufSource (source s) \<Longrightarrow> bytes_left s' \<le> bytes_left s"
  by (auto simp: in_step_def in_adv_def unat_minus_of_nat word_le_nat_alt)

lemma in_step_read_some: "in_step s (snd (snd (pb_read_some s null count)))"
proof (cases "is_BufSource (source s) \<and> \<not> bytes_left s < count")
  case True
  then obtain m p where k: "source s = BufSource m p" by (cases "source s") auto
  have "unat count \<le> unat (bytes_left s)" using True by (simp add: word_less_nat_alt)
  moreover have "source (snd (snd (pb_read_some s null count))) = source (in_adv s (unat count))
     \<and> bytes_left (snd (snd (pb_read_some s null count))) = bytes_left (in_adv s (unat count))"
    using True k by (auto simp: pb_read_some_def source_read_def buf_read_def in_adv_def)
  ultimately show ?thesis by (auto simp: in_step_def)
next
  case False
  then show ?thesis by (auto simp: in_step_def pb_read_some_def i_error_def intro: exI [of _ 0])
qed

lemma in_step_read: "in_step s (snd (snd (pb_read s null count)))"
proof (cases "null \<and> \<not> is_BufSource (source s)")
  case True
  then show ?thesis by (simp add: in_step_def)
next
  case False
  then have "pb_read s null count = pb_read_some s null count"
    by (auto simp: pb_read_def pb_read_some_def)
  then show ?thesis by (simp add: in_step_read_some)
qed

lemma in_step_readbyte: "in_step s (snd (pb_readbyte s))"
proof (cases "is_BufSource (source s) \<and> bytes_left s \<noteq> 0")
  case True
  then obtain m p where k: "source s = BufSource m p" by (cases "source s") auto
  have "1 \<le> unat (bytes_left s)" using True by (simp add: unat_gt_0 Suc_le_eq)
  moreover have "source (snd (pb_readbyte s)) = source (in_adv s 1) \<and>
      bytes_left (snd (pb_readbyte s)) = bytes_left (in_adv s 1)"
    using True k by (auto simp: pb_readbyte_def source_read_def buf_read_def in_adv_def)
  ultimately show ?thesis by (auto simp: in_step_def)
next
  case False
  then show ?thesis by (auto simp: in_step_def pb_readbyte_def i_error_def intro: exI [of _ 0])
qed

text \<open>In elimination form: a call's result gives the step.\<close>

lemma in_stepI_readbyte: "pb_readbyte s = (r, s') \<Longrightarrow> in_step s s'"
  using in_step_readbyte [of s] by simp

lemma in_stepI_read: "pb_read s null count = (ok, bs, s') \<Longrightarrow> in_step s s'"
  using in_step_read [of s null count] by simp

lemma in_step_varint32_loop: "in_step s (snd (varint32_loop s bitpos r))"
proof (induction s bitpos r rule: varint32_loop.induct)
  case (1 s bitpos r)
  obtain b s1 where rd: "pb_readbyte s = (b, s1)" by fastforce
  note st = in_stepI_readbyte [OF rd]
  show ?case
  proof (cases b)
    case None
    then show ?thesis using rd st by (subst varint32_loop.simps) simp
  next
    case (Some c)
    then show ?thesis
      using rd st "1.IH" [OF rd [symmetric] Some refl]
      by (subst varint32_loop.simps) (auto simp: Let_def intro: in_step_trans)
  qed
qed

lemma in_step_varint_dec_loop: "in_step s (snd (varint_dec_loop s bitpos r))"
proof (induction s bitpos r rule: varint_dec_loop.induct)
  case (1 s bitpos r)
  obtain b s1 where rd: "pb_readbyte s = (b, s1)" by fastforce
  note st = in_stepI_readbyte [OF rd]
  show ?case
  proof (cases b)
    case None
    then show ?thesis using rd st by (subst varint_dec_loop.simps) simp
  next
    case (Some c)
    then show ?thesis
      using rd st "1.IH" [OF _ rd [symmetric] Some refl refl]
      by (subst varint_dec_loop.simps) (auto simp: Let_def intro: in_step_trans)
  qed
qed

lemma in_step_varint32_eof: "in_step s (snd (snd (pb_decode_varint32_eof s)))"
proof -
  obtain b s1 where rd: "pb_readbyte s = (b, s1)" by fastforce
  note st = in_stepI_readbyte [OF rd]
  show ?thesis
  proof (cases b)
    case None
    then show ?thesis using rd st by (simp add: pb_decode_varint32_eof_def)
  next
    case (Some c)
    obtain r s2 where l: "varint32_loop s1 7 (ucast (c AND 0x7F)) = (r, s2)" by fastforce
    have "in_step s1 s2" using in_step_varint32_loop [of s1 7 "ucast (c AND 0x7F)"] l by simp
    with st have "in_step s s2" by (rule in_step_trans)
    then show ?thesis
      using rd st l Some
      by (auto simp: pb_decode_varint32_eof_def split: option.splits prod.splits)
  qed
qed

lemma in_step_varint32: "in_step s (snd (pb_decode_varint32 s))"
  using in_step_varint32_eof [of s] by (auto simp: pb_decode_varint32_def split: prod.splits)

lemma in_step_varint: "in_step s (snd (pb_decode_varint s))"
  by (simp add: pb_decode_varint_def in_step_varint_dec_loop)

lemma in_step_svarint: "in_step s (snd (pb_decode_svarint s))"
  using in_step_varint [of s] by (auto simp: pb_decode_svarint_def split: prod.splits option.splits)

lemma in_step_fixed32: "in_step s (snd (pb_decode_fixed32 s))"
  using in_step_read [of s False 4]
  by (auto simp: pb_decode_fixed32_def split: prod.splits bool.splits)

lemma in_step_fixed64: "in_step s (snd (pb_decode_fixed64 s))"
  using in_step_read [of s False 8]
  by (auto simp: pb_decode_fixed64_def split: prod.splits bool.splits)

lemma in_step_tag: "in_step s (snd (snd (pb_decode_tag s)))"
  using in_step_varint32_eof [of s]
  by (auto simp: pb_decode_tag_def split: prod.splits option.splits)

lemma in_step_skip_varint: "in_step s (snd (pb_skip_varint s))"
proof (induction s rule: pb_skip_varint.induct)
  case (1 s)
  obtain ok bs s1 where rd: "pb_read s False 1 = (ok, bs, s1)" by (metis prod_cases3)
  note st = in_stepI_read [OF rd]
  show ?case
    using rd st "1.IH" [OF rd [symmetric] refl]
    by (subst pb_skip_varint.simps) (auto intro: in_step_trans)
qed

lemma in_step_skip_string: "in_step s (snd (pb_skip_string s))"
  using in_step_varint32 [of s] in_step_read [of "snd (pb_decode_varint32 s)" True]
  by (auto simp: pb_skip_string_def split: prod.splits option.splits intro: in_step_trans)
    (metis in_step_trans snd_conv)

lemma in_step_skip_field: "in_step s (snd (pb_skip_field s wt))"
  using in_step_skip_varint [of s] in_step_skip_string [of s]
    in_step_read [of s True 8] in_step_read [of s True 4]
  by (auto simp: pb_skip_field_def split: prod.splits)

lemma in_step_read_raw_varint: "in_step s (snd (read_raw_varint s mx acc))"
proof (induction s mx acc rule: read_raw_varint.induct)
  case (1 s mx acc)
  obtain ok bs s1 where rd: "pb_read s False 1 = (ok, bs, s1)" by (metis prod_cases3)
  note st = in_stepI_read [OF rd]
  show ?case
    using rd st "1.IH" [OF _ rd [symmetric] refl]
    by (subst read_raw_varint.simps) (auto intro: in_step_trans)
qed

lemma in_step_read_raw_value: "in_step s (snd (read_raw_value s wt mx))"
  using in_step_read_raw_varint [of s mx "[]"] in_step_read [of s False 8] in_step_read [of s False 4]
  by (auto simp: read_raw_value_def split: prod.splits)

text \<open>A substream is opened on the bytes of a length-delimited field and closed at its end: the
  parent moves past the whole field, whatever the substream's user read of it.\<close>

lemma pb_close_BufSource:
  assumes "is_BufSource (source sub)"
  shows "pb_close_string_substream s sub =
    (True, s\<lparr>source := source (in_adv sub (unat (bytes_left sub))), i_errmsg := i_errmsg sub\<rparr>)"
proof -
  obtain m p where k: "source sub = BufSource m p" using assms by (cases "source sub") auto
  show ?thesis
    by (cases "bytes_left sub = 0")
      (simp_all add: pb_close_string_substream_def pb_read_def pb_read_some_def source_read_def
        buf_read_def k in_adv_def)
qed

lemma substream_step:
  assumes mk: "pb_make_string_substream s = (Some sub, s1)" and b: "is_BufSource (source s)"
    and st: "in_step sub sub'"
  shows "\<exists>s2. pb_close_string_substream s1 sub' = (True, s2) \<and> in_step s s2 \<and> bytes_left s2 = bytes_left s1"
proof -
  obtain sz t where v: "pb_decode_varint32 s = (Some sz, t)"
    and le: "(ucast sz :: size_t) \<le> bytes_left t"
    and sub: "sub = t\<lparr>bytes_left := ucast sz\<rparr>" and s1: "s1 = t\<lparr>bytes_left := bytes_left t - ucast sz\<rparr>"
    using mk by (auto simp: pb_make_string_substream_def not_less split: prod.splits option.splits if_splits)
  have t: "in_step s t" using in_step_varint32 [of s] v by simp
  then obtain m p where k: "source t = BufSource m p"
    using in_step_BufSource [OF t b] by (cases "source t") auto
  have subb: "is_BufSource (source sub)" using k by (simp add: sub)
  then obtain i where i: "i \<le> unat (bytes_left sub)" "source sub' = source (in_adv sub i)"
      "bytes_left sub' = bytes_left (in_adv sub i)"
    using st by (auto simp: in_step_def)
  have usz: "unat (ucast sz :: size_t) = unat sz" by (simp add: unat_ucast_up)
  have left: "unat (bytes_left sub') = unat sz - i"
    using i by (simp add: in_adv_def unat_minus_of_nat sub usz)
  have "source (in_adv sub' (unat (bytes_left sub'))) = BufSource m (p + int (unat sz))"
    using i left by (simp add: in_adv_def sub k usz of_nat_diff)
  moreover have "pb_close_string_substream s1 sub' =
      (True, s1\<lparr>source := source (in_adv sub' (unat (bytes_left sub'))), i_errmsg := i_errmsg sub'\<rparr>)"
    using i(2) subb by (intro pb_close_BufSource) simp
  moreover have "unat sz \<le> unat (bytes_left t)" using le usz by (simp add: word_le_nat_alt)
  then have "in_step t (s1\<lparr>source := BufSource m (p + int (unat sz)), i_errmsg := e\<rparr>)" for e
    by (auto simp: in_step_def in_adv_def k s1 intro!: exI [of _ "unat sz"])
  ultimately show ?thesis
    using in_step_trans [OF t] by (auto simp: s1)
qed

section \<open>Properties\<close>

lemma encode_to_buffer:
  assumes "pb_write (pb_ostream_from_buffer m p n) bs (of_nat (length bs)) = (True, s)" "length bs < 2 ^ 63"
  shows "sink s = BufSink (mem_write m p bs) (p + int (length bs)) \<and> bytes_written s = of_nat (length bs)"
proof -
  let ?s = "pb_ostream_from_buffer m p n :: 'a pb_ostream"
  have g: "plain_out ?s" by (simp add: plain_out_def pb_ostream_from_buffer_def)
  have l: "length bs < 2 ^ 64" using assms(2) by simp
  have "room ?s (length bs)" using pb_write_full [OF g _ l] assms(1) by force
  from pb_write_room [OF g this l] assms(1) show ?thesis
    by (auto simp: out_append_def pb_ostream_from_buffer_def)
qed

lemma varint_bytes_short: "length (varint_bytes v) < 2 ^ 63"
  using varint_bytes_le_10 [of v] by simp

lemma in_adv_all: "length bs < 2 ^ 64 \<Longrightarrow>
    bytes_left (in_adv (pb_istream_from_buffer m p (of_nat (length bs))) (length bs)) = 0"
  by (simp add: in_adv_def pb_istream_from_buffer_def)

text \<open>C11: Every 64-bit value that \<open>pb_encode_varint\<close> stores into a buffer is the value
  \<open>pb_decode_varint\<close> reads back from the bytes it counted, and it reads all of them.\<close>

theorem varint_round_trip:
  assumes "pb_encode_varint (pb_ostream_from_buffer m p n) v = (True, s)" "sink s = BufSink m' q"
  shows "\<exists>t. pb_decode_varint (pb_istream_from_buffer m' p (bytes_written s)) = (Some v, t) \<and> bytes_left t = 0"
  using encode_to_buffer [OF _ varint_bytes_short, of m p n v s] assms varint_bytes_short [of v]
  by (auto simp: pb_encode_varint_write in_adv_all
      pb_decode_varint_bytes [where rest = "[]"] in_bytes_from_buffer)

theorem varint_round_trip_witness:
  "\<exists>s m' q. pb_encode_varint (pb_ostream_from_buffer (\<lambda>a. 0) 100 10 :: unit pb_ostream) 300 = (True, s) \<and>
     sink s = BufSink m' q \<and>
     (\<exists>t. pb_decode_varint (pb_istream_from_buffer m' 100 (bytes_written s) :: unit pb_istream) = (Some 300, t) \<and> bytes_left t = 0)"
proof -
  let ?s = "pb_ostream_from_buffer (\<lambda>a. 0) 100 10 :: unit pb_ostream"
  have "room ?s (length (varint_bytes 300))"
    using varint_bytes_le_10 [of 300] by (simp add: room_def pb_ostream_from_buffer_def)
  then have e: "pb_encode_varint ?s 300 = (True, out_append ?s (varint_bytes 300))"
    unfolding pb_encode_varint_write using varint_bytes_short [of 300]
    by (intro pb_write_room) (simp_all add: plain_out_def pb_ostream_from_buffer_def)
  then obtain m' q where k: "sink (out_append ?s (varint_bytes 300)) = BufSink m' q"
    by (simp add: out_append_def pb_ostream_from_buffer_def)
  from varint_round_trip [OF e k, where ?'b = unit] e k show ?thesis by blast
qed

text \<open>The same for signed values, which travel zig-zag coded: \<open>pb_decode_svarint\<close> returns the
  value \<open>pb_encode_svarint\<close> was given, negative ones included.\<close>

lemma svarint_round_trip:
  assumes "pb_encode_svarint (pb_ostream_from_buffer m p n) v = (True, s)" "sink s = BufSink m' q"
  shows "\<exists>t. pb_decode_svarint (pb_istream_from_buffer m' p (bytes_written s)) = (Some v, t) \<and> bytes_left t = 0"
  using encode_to_buffer [OF _ varint_bytes_short, of m p n "zigzag v" s] assms
    varint_bytes_short [of "zigzag v"]
  by (auto simp: pb_encode_svarint_varint pb_encode_varint_write in_adv_all
      pb_decode_svarint_bytes [where rest = "[]"] in_bytes_from_buffer)

text \<open>Wire values are self-delimiting: from a stream that starts with the tags \<open>ts\<close> one after
  the other, \<open>pb_decode_tag\<close> returns exactly these, whatever follows, and ends where they end.\<close>

lemma tags_decode_in_sequence:
  assumes "\<forall>x \<in> set ts. tag_valid x" "in_bytes s = concat (map tag_bytes ts) @ rest"
  shows "tags.get_list (length ts) s = (Some ts, in_adv s (length (concat (map tag_bytes ts))))"
  by (rule tags.get_list_put [OF assms])

text \<open>Skipping a field never moves past the end of the input: whatever the bytes and the wire
  type, \<open>pb_skip_field\<close> moves forward by at most the bytes left and the end stays where it was.\<close>

lemma pb_skip_field_within_input:
  assumes "source s = BufSource m p"
  shows "\<exists>k \<le> unat (bytes_left s).
      source (snd (pb_skip_field s wt)) = BufSource m (p + int k) \<and>
      unat (bytes_left (snd (pb_skip_field s wt))) = unat (bytes_left s) - k"
  using in_step_skip_field [of s wt] assms
  by (auto simp: in_step_def in_adv_def unat_minus_of_nat)

text \<open>Continuation bytes that carry no bits.\<close>

lemma small_byte:
  assumes "b < (0x80 :: byte)"
  shows "b AND 0x7F = b" "b AND 0x80 = 0"
proof -
  have d: "drop_bit 7 b = 0"
    using assms by (simp add: drop_bit_eq_div word_less_nat_alt unat_div_distrib flip: unat_0_iff)
  show "b AND 0x7F = b" "b AND 0x80 = 0"
    using d unfolding word_masks by (intro bit_word_eqI; auto simp: bit_simps dest: drop_bit_0_bit)+
qed

lemma empty_byte: "(0x80 :: byte) AND 0x80 \<noteq> 0" "(0x80 :: byte) AND 0x7F = 0"
  by code_simp+

lemma varint32_loop_empty:
  "in_bytes s = replicate j 0x80 @ b # rest \<Longrightarrow> b < 0x80 \<Longrightarrow> bitpos = of_nat (7 * k) \<Longrightarrow> 7 * (k + j) mod 256 < 28 \<Longrightarrow>
   varint32_loop s bitpos 0 =
     (Some (push_bit (7 * (k + j) mod 256) (ucast b), of_nat (7 * (k + j) + 7), b), in_adv s (j + 1))"
proof (induction j arbitrary: s bitpos k)
  case 0
  have u: "unat bitpos = 7 * k mod 256" unfolding 0(3) by (simp add: unat_of_nat del: of_nat_mult)
  then have "\<not> bitpos \<ge> 32" using 0(4) by (simp add: word_le_nat_alt)
  moreover have "b AND 0x7F = b" "b AND 0x80 = 0" using 0(2) by (rule small_byte)+
  ultimately show ?case
    using pb_readbyte_Cons [of s b rest] 0(1,3) u by (subst varint32_loop.simps) (simp add: Let_def)
next
  case (Suc j)
  have i: "in_bytes s = 0x80 # replicate j 0x80 @ b # rest" using Suc.prems(1) by simp
  note rd = pb_readbyte_Cons [OF i] and step = in_bytes_step [OF i]
  have "bitpos + 7 = of_nat (7 * (k + 1))" unfolding Suc.prems(3) by simp
  from Suc.IH [OF step Suc.prems(2) this] Suc.prems(4)
  have "varint32_loop (in_adv s 1) (bitpos + 7) 0 =
      (Some (push_bit (7 * (k + Suc j) mod 256) (ucast b), of_nat (7 * (k + Suc j) + 7), b), in_adv (in_adv s 1) (j + 1))"
    by (simp add: add.assoc)
  then show ?case using rd by (subst varint32_loop.simps) (simp only: Let_def empty_byte prod.case option.case, simp)
qed

lemma varint_dec_loop_empty:
  "in_bytes s = replicate j 0x80 @ rest \<Longrightarrow> k + j = 10 \<Longrightarrow> fst (varint_dec_loop s (of_nat (7 * k)) 0) = None"
proof (induction j arbitrary: s k)
  case (Suc j)
  have i: "in_bytes s = 0x80 # replicate j 0x80 @ rest" using Suc.prems(1) by simp
  have "7 + (of_nat (7 * k) :: byte) = of_nat (7 * (k + 1))" by simp
  then have "fst (varint_dec_loop (in_adv s 1) (7 + of_nat (7 * k)) 0) = None"
    using Suc.IH [OF in_bytes_step [OF i], of "k + 1"] Suc.prems(2) by (simp del: of_nat_mult)
  then show ?case using pb_readbyte_Cons [OF i] by (subst varint_dec_loop.simps) (simp only: Let_def empty_byte prod.case option.case, simp add: add.commute)
qed (simp add: varint_dec_loop.simps)

text \<open>C38: The 32-bit decoder accepts overlong encodings that the 64-bit one rejects: its \<^verbatim>\<open>bitpos\<close> is eight
  bits wide and wraps. After any number \<open>n\<close> of continuation bytes that carry no bits, 10 or more, the last
  byte lands at bit \<open>7 n mod 256\<close> of the result whenever that is below 28; \<open>pb_decode_varint\<close> refuses
  all of them.\<close>

theorem varint32_accepts_overlong:
  assumes s: "in_bytes s = replicate n 0x80 @ b # rest" and n: "10 \<le> n" "7 * n mod 256 < 28" and b: "b < 0x80"
  shows "pb_decode_varint32 s = (Some (push_bit (7 * n mod 256) (ucast b)), in_adv s (n + 1)) \<and>
    fst (pb_decode_varint s) = None"
proof
  obtain j where j: "n = Suc j" using n(1) by (cases n) auto
  have i: "in_bytes s = 0x80 # replicate j 0x80 @ b # rest" using s j by simp
  let ?p = "of_nat (7 * n + 7) :: byte"
  have l: "varint32_loop (in_adv s 1) 7 0 = (Some (push_bit (7 * n mod 256) (ucast b), ?p, b), in_adv (in_adv s 1) (j + 1))"
    using varint32_loop_empty [OF in_bytes_step [OF i] b, of 7 1] n(2) j by simp
  have "unat ?p = (7 * n mod 256 + 7) mod 256" by (simp add: unat_of_nat mod_simps del: of_nat_add of_nat_mult)
  then have "?p \<noteq> 35" using n(2) by auto
  then show "pb_decode_varint32 s = (Some (push_bit (7 * n mod 256) (ucast b)), in_adv s (n + 1))"
    using l pb_readbyte_Cons [OF i] j by (simp add: pb_decode_varint32_def pb_decode_varint32_eof_def in_adv_in_adv del: of_nat_add of_nat_mult)
  have "in_bytes s = replicate 10 0x80 @ replicate (n - 10) 0x80 @ b # rest"
    using s n(1) by (metis append_assoc le_add_diff_inverse replicate_add)
  from varint_dec_loop_empty [OF this, of 0] show "fst (pb_decode_varint s) = None"
    by (simp add: pb_decode_varint_def)
qed

text \<open>37 continuation bytes and a 1 decode to 8.\<close>

definition overlong_mem :: mem where
  "overlong_mem a = (if a < 37 then 0x80 else 1)"

lemma varint32_accepts_overlong_witness:
  "fst (pb_decode_varint32 (pb_istream_from_buffer overlong_mem 0 38 :: unit pb_istream)) = Some 8 \<and>
   fst (pb_decode_varint (pb_istream_from_buffer overlong_mem 0 38 :: unit pb_istream)) = None"
proof -
  have s: "in_bytes (pb_istream_from_buffer overlong_mem 0 38 :: unit pb_istream) = replicate 37 0x80 @ 1 # []"
    by code_simp
  show ?thesis using varint32_accepts_overlong [OF s] by simp
qed

end
