(* ===== verification/Pb_Encode.thy ===== *)
theory Pb_Encode
  imports Pb_Ostream Pb_Common
begin

text \<open>
  The message encoder of \<^verbatim>\<open>ios/Pods/nanopb/pb_encode.c\<close>. An encoder maps a stream to the C
  function's boolean and the stream it leaves; \<open>None\<close> is a run the C code gives no meaning to
  (a call through a \<open>NULL\<close> or out-of-table encoder) or a recursion deeper than the fuel. The
  message is read from a memory that encoding does not write (\<open>const void *src_struct\<close>); the
  output buffer lives in the stream's sink.
\<close>

type_synonym 'u enc = "'u pb_ostream \<Rightarrow> (bool \<times> 'u pb_ostream) option"

text \<open>What the caller links in: the descriptor arrays by address, and the encode functions of
  callback fields and extensions by address.\<close>

record 'u pb_enc_env =
  enc_fields :: "addr \<Rightarrow> pb_field list"
  enc_callback :: "addr \<Rightarrow> 'u pb_ostream \<Rightarrow> pb_field \<Rightarrow> addr \<Rightarrow> bool \<times> 'u pb_ostream"
  enc_extension :: "addr \<Rightarrow> 'u pb_ostream \<Rightarrow> addr \<Rightarrow> bool \<times> 'u pb_ostream"

section \<open>Control flow\<close>

definition enc_seq :: "'u enc \<Rightarrow> 'u enc \<Rightarrow> 'u enc" where
  \<comment> \<open>\<^verbatim>\<open>if (!f(stream)) return false; g(stream)\<close>\<close>
  "enc_seq f g s =
     (case f s of
        None \<Rightarrow> None
      | Some (False, s1) \<Rightarrow> Some (False, s1)
      | Some (True, s1) \<Rightarrow> g s1)"

definition enc_ret :: "('u pb_ostream \<Rightarrow> bool \<times> 'u pb_ostream) \<Rightarrow> 'u enc" where
  "enc_ret f s = Some (f s)"

definition enc_true :: "'u enc" where
  "enc_true s = Some (True, s)"

definition enc_error :: "string \<Rightarrow> 'u enc" where
  "enc_error msg s = Some (o_error s msg)"

text \<open>\<^verbatim>\<open>do { if (!body) return false; } while (pb_field_iter_next(&iter)); return true;\<close>\<close>

function iter_do_while ::
    "(pb_field_iter \<Rightarrow> 's \<Rightarrow> (bool \<times> 's) option) \<Rightarrow> pb_field_iter \<Rightarrow> 's \<Rightarrow> (bool \<times> 's) option" where
  "iter_do_while body it s =
     (case body it s of
        None \<Rightarrow> None
      | Some (ok, s1) \<Rightarrow>
          if \<not> ok then Some (False, s1)
          else if fst (pb_field_iter_next it)
          then iter_do_while body (snd (pb_field_iter_next it)) s1
          else Some (True, s1))"
  by pat_completeness auto
termination
proof (relation "measure (\<lambda>(body, it, s). length (start it) - pos it)", simp, clarsimp)
  fix it :: pb_field_iter
  assume "fst (pb_field_iter_next it)"
  then have t: "tag (cur it) \<noteq> 0" "tag (field_at (start it) (Suc (pos it))) \<noteq> 0"
    by (auto simp: next_more)
  then have "Suc (pos it) < length (start it)"
    by (metis PB_LAST_FIELD_def not_less nth_default_beyond pb_field.select_convs(1))
  with next_pos [OF t]
  show "length (start it) - pos (snd (pb_field_iter_next it)) < length (start it) - pos it"
    by simp
qed

declare iter_do_while.simps [simp del]

text \<open>A loop over a list; the loops over the iterator are such loops.\<close>

primrec do_all :: "('x \<Rightarrow> 's \<Rightarrow> (bool \<times> 's) option) \<Rightarrow> 'x list \<Rightarrow> 's \<Rightarrow> (bool \<times> 's) option" where
  "do_all body [] s = Some (True, s)"
| "do_all body (x # xs) s =
     (case body x s of
        None \<Rightarrow> None
      | Some (ok, s1) \<Rightarrow> if ok then do_all body xs s1 else Some (False, s1))"

lemma iter_do_while_iter_at:
  assumes wf: "fields_wf fds"
  shows "i < length fds \<Longrightarrow>
    iter_do_while body (iter_at fds dest i) s = do_all (\<lambda>j. body (iter_at fds dest j)) [i ..< length fds] s"
proof (induction "length fds - i" arbitrary: i s)
  case 0
  then show ?case by simp
next
  case (Suc k)
  note nx = iter_at_next [OF wf Suc.prems, where dest = dest]
  show ?case
  proof (cases "Suc i < length fds")
    case True
    then have "iter_do_while body (iter_at fds dest (Suc i)) s1 =
        do_all (\<lambda>j. body (iter_at fds dest j)) [Suc i ..< length fds] s1" for s1
      using Suc.hyps by (intro Suc.hyps(1)) simp_all
    then show ?thesis
      using True Suc.prems
      by (subst iter_do_while.simps) (simp add: nx upt_conv_Cons split: option.split)
  next
    case False
    then have "[i ..< length fds] = [i]" using Suc.prems by (simp add: upt_conv_Cons)
    then show ?thesis
      using False by (subst iter_do_while.simps) (simp add: nx split: option.split)
  qed
qed

section \<open>Field encoders\<close>

definition safe_read_bool :: "mem \<Rightarrow> addr \<Rightarrow> bool" where
  "safe_read_bool m p = (m p \<noteq> 0)"

definition pb_enc_bool :: "mem \<Rightarrow> pb_field \<Rightarrow> addr \<Rightarrow> 'u enc" where
  "pb_enc_bool m field src s = Some (pb_encode_varint s (if safe_read_bool m src then 1 else 0))"

text \<open>The value read through a pointer of the width \<^verbatim>\<open>data_size\<close> names, sign- or
  zero-extended to 64 bits; \<open>None\<close> for a width the source rejects.\<close>

definition read_signed :: "mem \<Rightarrow> pb_size_t \<Rightarrow> addr \<Rightarrow> u64 option" where
  "read_signed m sz src =
     (if sz = 1 then Some (scast (le_val (mem_read m src 1) :: 8 word))
      else if sz = 2 then Some (scast (le_val (mem_read m src 2) :: 16 word))
      else if sz = 4 then Some (scast (le_val (mem_read m src 4) :: 32 word))
      else if sz = 8 then Some (le_val (mem_read m src 8))
      else None)"

definition read_unsigned :: "mem \<Rightarrow> pb_size_t \<Rightarrow> addr \<Rightarrow> u64 option" where
  "read_unsigned m sz src =
     (if sz = 1 then Some (ucast (le_val (mem_read m src 1) :: 8 word))
      else if sz = 2 then Some (ucast (le_val (mem_read m src 2) :: 16 word))
      else if sz = 4 then Some (ucast (le_val (mem_read m src 4) :: 32 word))
      else if sz = 8 then Some (le_val (mem_read m src 8))
      else None)"

definition pb_enc_varint :: "mem \<Rightarrow> pb_field \<Rightarrow> addr \<Rightarrow> 'u enc" where
  "pb_enc_varint m field src s =
     (case read_signed m (data_size field) src of
        None \<Rightarrow> enc_error ''invalid data_size'' s
      | Some v \<Rightarrow> Some (pb_encode_varint s v))"

definition pb_enc_uvarint :: "mem \<Rightarrow> pb_field \<Rightarrow> addr \<Rightarrow> 'u enc" where
  "pb_enc_uvarint m field src s =
     (case read_unsigned m (data_size field) src of
        None \<Rightarrow> enc_error ''invalid data_size'' s
      | Some v \<Rightarrow> Some (pb_encode_varint s v))"

definition pb_enc_svarint :: "mem \<Rightarrow> pb_field \<Rightarrow> addr \<Rightarrow> 'u enc" where
  "pb_enc_svarint m field src s =
     (case read_signed m (data_size field) src of
        None \<Rightarrow> enc_error ''invalid data_size'' s
      | Some v \<Rightarrow> Some (pb_encode_svarint s v))"

definition pb_enc_fixed64 :: "mem \<Rightarrow> pb_field \<Rightarrow> addr \<Rightarrow> 'u enc" where
  "pb_enc_fixed64 m field src s = Some (pb_encode_fixed64 s (read_u64 m src))"

definition pb_enc_fixed32 :: "mem \<Rightarrow> pb_field \<Rightarrow> addr \<Rightarrow> 'u enc" where
  "pb_enc_fixed32 m field src s = Some (pb_encode_fixed32 s (read_u32 m src))"

definition pb_enc_bytes :: "mem \<Rightarrow> pb_field \<Rightarrow> addr \<Rightarrow> 'u enc" where
  "pb_enc_bytes m field src s =
     (if src = 0 then Some (pb_encode_string s [] 0)
      else
        let sz = bytes_size m src;
            allocsize = PB_BYTES_ARRAY_T_ALLOCSIZE sz
        in if allocsize < ucast sz
              \<or> (PB_ATYPE (ftype field) = PB_ATYPE_STATIC \<and> allocsize > ucast (data_size field))
           then enc_error ''bytes size exceeded'' s
           else Some (pb_encode_string s (mem_read m (bytes_data src) (unat sz)) (ucast sz)))"

text \<open>\<^verbatim>\<open>while (size < max_size && *p != '\\0') { size++; p++; }\<close>\<close>

function string_length_loop :: "mem \<Rightarrow> size_t \<Rightarrow> size_t \<Rightarrow> addr \<Rightarrow> size_t" where
  "string_length_loop m max_sz sz p =
     (if sz < max_sz \<and> m p \<noteq> 0 then string_length_loop m max_sz (sz + 1) (p + 1) else sz)"
  by pat_completeness auto
termination
  by (relation "measure (\<lambda>(m, max_sz, sz, p). unat max_sz - unat sz)")
    (auto simp: word_less_nat_alt unat_Suc_less)

declare string_length_loop.simps [simp del]

definition pb_enc_string :: "mem \<Rightarrow> pb_field \<Rightarrow> addr \<Rightarrow> 'u enc" where
  "pb_enc_string m field src s =
     (let max_sz = (if PB_ATYPE (ftype field) = PB_ATYPE_POINTER then - 1 else ucast (data_size field));
          sz = (if src = 0 then 0 else string_length_loop m max_sz 0 src)
      in Some (pb_encode_string s (mem_read m src (unat sz)) sz))"

definition pb_enc_fixed_length_bytes :: "mem \<Rightarrow> pb_field \<Rightarrow> addr \<Rightarrow> 'u enc" where
  "pb_enc_fixed_length_bytes m field src s =
     Some (pb_encode_string s (mem_read m src (unat (data_size field))) (ucast (data_size field)))"

section \<open>Submessages\<close>

text \<open>\<open>enc\<close> is \<open>pb_encode\<close> on a descriptor array and a structure.\<close>

definition pb_encode_submessage ::
    "(pb_field list \<Rightarrow> addr \<Rightarrow> 'u enc) \<Rightarrow> pb_field list \<Rightarrow> addr \<Rightarrow> 'u enc" where
  "pb_encode_submessage enc fds src s =
     (case enc fds src PB_OSTREAM_SIZING of
        None \<Rightarrow> None
      | Some (False, sub) \<Rightarrow> Some (False, s\<lparr>o_errmsg := o_errmsg sub\<rparr>)
      | Some (True, sub) \<Rightarrow>
          let sz = bytes_written sub in
          (case pb_encode_varint s sz of
             (False, s1) \<Rightarrow> Some (False, s1)
           | (True, s1) \<Rightarrow>
               if is_NullSink (sink s1) then Some (pb_write s1 [] sz)
               else if bytes_written s1 + sz > max_size s1 then enc_error ''stream full'' s1
               else
                 (case enc fds src
                     \<lparr>sink = sink s1, max_size = sz, bytes_written = 0, o_errmsg = None\<rparr> of
                    None \<Rightarrow> None
                  | Some (status, sub2) \<Rightarrow>
                      let s2 = s1\<lparr>bytes_written := bytes_written s1 + bytes_written sub2,
                                  sink := sink sub2, o_errmsg := o_errmsg sub2\<rparr>
                      in if bytes_written sub2 \<noteq> sz then enc_error ''submsg size changed'' s2
                         else Some (status, s2))))"

definition pb_enc_submessage ::
    "'u pb_enc_env \<Rightarrow> (pb_field list \<Rightarrow> addr \<Rightarrow> 'u enc) \<Rightarrow> pb_field \<Rightarrow> addr \<Rightarrow> 'u enc" where
  "pb_enc_submessage env enc field src s =
     (if fptr field = 0 then enc_error ''invalid field descriptor'' s
      else pb_encode_submessage enc (enc_fields env (fptr field)) src s)"

text \<open>The table \<^verbatim>\<open>PB_ENCODERS\<close>; calling through its \<open>NULL\<close> entry has no meaning.\<close>

definition PB_ENCODERS ::
    "'u pb_enc_env \<Rightarrow> (pb_field list \<Rightarrow> addr \<Rightarrow> 'u enc) \<Rightarrow> mem \<Rightarrow> byte \<Rightarrow> pb_field \<Rightarrow> addr \<Rightarrow> 'u enc" where
  "PB_ENCODERS env enc m lt =
     (if lt = PB_LTYPE_BOOL then pb_enc_bool m
      else if lt = PB_LTYPE_VARINT then pb_enc_varint m
      else if lt = PB_LTYPE_UVARINT then pb_enc_uvarint m
      else if lt = PB_LTYPE_SVARINT then pb_enc_svarint m
      else if lt = PB_LTYPE_FIXED32 then pb_enc_fixed32 m
      else if lt = PB_LTYPE_FIXED64 then pb_enc_fixed64 m
      else if lt = PB_LTYPE_BYTES then pb_enc_bytes m
      else if lt = PB_LTYPE_STRING then pb_enc_string m
      else if lt = PB_LTYPE_SUBMESSAGE then pb_enc_submessage env enc
      else if lt = PB_LTYPE_FIXED_LENGTH_BYTES then pb_enc_fixed_length_bytes m
      else (\<lambda>field src s. None))"

section \<open>Arrays\<close>

primrec enc_items :: "(addr \<Rightarrow> 'u enc) \<Rightarrow> int \<Rightarrow> nat \<Rightarrow> addr \<Rightarrow> 'u enc" where
  "enc_items f step 0 p = enc_true"
| "enc_items f step (Suc n) p = enc_seq (f p) (enc_items f step n (p + step))"

definition packed_size ::
    "(pb_field \<Rightarrow> addr \<Rightarrow> 'u enc) \<Rightarrow> pb_field \<Rightarrow> addr \<Rightarrow> size_t \<Rightarrow> size_t option option" where
  \<comment> \<open>\<open>Some None\<close> is the source's \<^verbatim>\<open>return false\<close> while sizing\<close>
  "packed_size func field pd count =
     (if PB_LTYPE (ftype field) = PB_LTYPE_FIXED32 then Some (Some (4 * count))
      else if PB_LTYPE (ftype field) = PB_LTYPE_FIXED64 then Some (Some (8 * count))
      else
        (case enc_items (func field) (uint (data_size field)) (unat count) pd PB_OSTREAM_SIZING of
           None \<Rightarrow> None
         | Some (False, _) \<Rightarrow> Some None
         | Some (True, sz) \<Rightarrow> Some (Some (bytes_written sz))))"

definition encode_array ::
    "mem \<Rightarrow> pb_field \<Rightarrow> addr \<Rightarrow> size_t \<Rightarrow> (pb_field \<Rightarrow> addr \<Rightarrow> 'u enc) \<Rightarrow> 'u enc" where
  "encode_array m field pd count func s =
     (let step = uint (data_size field) in
      if count = 0 then Some (True, s)
      else if PB_ATYPE (ftype field) \<noteq> PB_ATYPE_POINTER \<and> count > ucast (array_size field)
      then enc_error ''array max size exceeded'' s
      else if PB_LTYPE (ftype field) \<le> PB_LTYPE_LAST_PACKABLE then
        enc_seq (enc_ret (\<lambda>s. pb_encode_tag s PB_WT_STRING (tag field)))
          (\<lambda>s. case packed_size func field pd count of
               None \<Rightarrow> None
             | Some None \<Rightarrow> Some (False, s)
             | Some (Some sz) \<Rightarrow>
                 enc_seq (enc_ret (\<lambda>s. pb_encode_varint s sz))
                   (\<lambda>s. if is_NullSink (sink s) then Some (pb_write s [] sz)
                        else enc_items (func field) step (unat count) pd s) s) s
      else
        enc_items
          (\<lambda>p. enc_seq (enc_ret (\<lambda>s. pb_encode_tag_for_field s field))
             (if PB_ATYPE (ftype field) = PB_ATYPE_POINTER
                 \<and> (PB_LTYPE (ftype field) = PB_LTYPE_STRING
                    \<or> PB_LTYPE (ftype field) = PB_LTYPE_BYTES)
              then func field (read_ptr m p) else func field p))
          step (unat count) pd s)"

section \<open>Fields\<close>

primrec pb_check_proto3_default_value ::
    "nat \<Rightarrow> (addr \<Rightarrow> pb_field list) \<Rightarrow> mem \<Rightarrow> pb_field \<Rightarrow> addr \<Rightarrow> bool option" where
  "pb_check_proto3_default_value 0 desc m field pd = None"
| "pb_check_proto3_default_value (Suc n) desc m field pd =
     (let ty = ftype field;
          psz = pd + sint (size_offset field)
      in
      if PB_HTYPE ty = PB_HTYPE_REQUIRED then Some False
      else if PB_HTYPE ty = PB_HTYPE_REPEATED \<and> size_offset field \<noteq> 0 then Some (read_u32 m psz = 0)
      else if PB_HTYPE ty = PB_HTYPE_REPEATED \<and> PB_ATYPE ty = PB_ATYPE_STATIC then Some False
      else if PB_HTYPE ty = PB_HTYPE_ONEOF then Some (read_u32 m psz = 0)
      else if PB_HTYPE ty = PB_HTYPE_OPTIONAL \<and> size_offset field \<noteq> 0
      then Some (safe_read_bool m psz = False)
      else if PB_ATYPE ty = PB_ATYPE_STATIC \<and> PB_LTYPE ty = PB_LTYPE_BYTES
      then Some (bytes_size m pd = 0)
      else if PB_ATYPE ty = PB_ATYPE_STATIC \<and> PB_LTYPE ty = PB_LTYPE_STRING then Some (m pd = 0)
      else if PB_ATYPE ty = PB_ATYPE_STATIC \<and> PB_LTYPE ty = PB_LTYPE_FIXED_LENGTH_BYTES
      then Some (data_size field = 0)
      else if PB_ATYPE ty = PB_ATYPE_STATIC \<and> PB_LTYPE ty = PB_LTYPE_SUBMESSAGE then
        (case pb_field_iter_begin (desc (fptr field)) pd of
           (False, it) \<Rightarrow> Some True
         | (True, it) \<Rightarrow>
             map_option fst
               (iter_do_while
                  (\<lambda>it u. map_option (\<lambda>b. (b, u))
                     (pb_check_proto3_default_value n desc m (cur it) (pData it)))
                  it ()))
      else if PB_ATYPE ty = PB_ATYPE_POINTER \<and> PB_LTYPE ty > PB_LTYPE_LAST_PACKABLE
      then Some (read_ptr m pd = 0)
      else Some (list_all (\<lambda>b. b = 0) (mem_read m pd (unat (data_size field)))))"

definition encode_basic_field ::
    "nat \<Rightarrow> 'u pb_enc_env \<Rightarrow> (pb_field list \<Rightarrow> addr \<Rightarrow> 'u enc) \<Rightarrow> mem \<Rightarrow> pb_field \<Rightarrow> addr \<Rightarrow> 'u enc" where
  "encode_basic_field n env enc m field pd s =
     (let ty = ftype field;
          func = PB_ENCODERS env enc m (PB_LTYPE ty);
          psz = pd + sint (size_offset field);
          has0 = (if size_offset field \<noteq> 0 then Some True
                  else if PB_HTYPE ty = PB_HTYPE_OPTIONAL
                  then map_option Not (pb_check_proto3_default_value n (enc_fields env) m field pd)
                  else Some True);
          pd' = (if PB_ATYPE ty = PB_ATYPE_POINTER then read_ptr m pd else pd)
      in
      if PB_LTYPE ty > PB_LTYPE_FIXED_LENGTH_BYTES then None
      else
      (case has0 of
         None \<Rightarrow> None
       | Some has1 \<Rightarrow>
           let implicit_has = (if PB_ATYPE ty = PB_ATYPE_POINTER then pd' \<noteq> 0 else has1) in
           if PB_HTYPE ty = PB_HTYPE_REQUIRED then
             (if pd' = 0 then enc_error ''missing required field'' s
              else enc_seq (enc_ret (\<lambda>s. pb_encode_tag_for_field s field)) (func field pd') s)
           else if PB_HTYPE ty = PB_HTYPE_OPTIONAL then
             (if (if size_offset field \<noteq> 0 then safe_read_bool m psz else implicit_has)
              then enc_seq (enc_ret (\<lambda>s. pb_encode_tag_for_field s field)) (func field pd') s
              else Some (True, s))
           else if PB_HTYPE ty = PB_HTYPE_REPEATED then
             (let count = (if size_offset field \<noteq> 0 then read_u32 m psz else array_size field)
              in encode_array m field pd' (ucast count) func s)
           else if PB_HTYPE ty = PB_HTYPE_ONEOF then
             (if size_offset field = 0 then None
              else if read_u32 m psz = tag field
              then enc_seq (enc_ret (\<lambda>s. pb_encode_tag_for_field s field)) (func field pd') s
              else Some (True, s))
           else enc_error ''invalid field type'' s))"

definition encode_callback_field :: "'u pb_enc_env \<Rightarrow> mem \<Rightarrow> pb_field \<Rightarrow> addr \<Rightarrow> 'u enc" where
  "encode_callback_field env m field pd s =
     (if callback_func m pd \<noteq> 0 then
        (case enc_callback env (callback_func m pd) s field (callback_arg pd) of
           (False, s1) \<Rightarrow> enc_error ''callback error'' s1
         | (True, s1) \<Rightarrow> Some (True, s1))
      else Some (True, s))"

definition encode_field ::
    "nat \<Rightarrow> 'u pb_enc_env \<Rightarrow> (pb_field list \<Rightarrow> addr \<Rightarrow> 'u enc) \<Rightarrow> mem \<Rightarrow> pb_field \<Rightarrow> addr \<Rightarrow> 'u enc" where
  "encode_field n env enc m field pd s =
     (let at = PB_ATYPE (ftype field) in
      if at = PB_ATYPE_STATIC \<or> at = PB_ATYPE_POINTER then encode_basic_field n env enc m field pd s
      else if at = PB_ATYPE_CALLBACK then encode_callback_field env m field pd s
      else enc_error ''invalid field type'' s)"

definition default_extension_encoder ::
    "nat \<Rightarrow> 'u pb_enc_env \<Rightarrow> (pb_field list \<Rightarrow> addr \<Rightarrow> 'u enc) \<Rightarrow> mem \<Rightarrow> addr \<Rightarrow> 'u enc" where
  "default_extension_encoder n env enc m ext s =
     (let field = field_at (enc_fields env (ext_type_arg m (ext_type m ext))) 0 in
      if PB_ATYPE (ftype field) = PB_ATYPE_POINTER
      then encode_field n env enc m field (ext_dest_addr ext) s
      else encode_field n env enc m field (ext_dest m ext) s)"

text \<open>The walk along the extensions a message is linked to; the fuel bounds its length.\<close>

primrec encode_extensions ::
    "nat \<Rightarrow> nat \<Rightarrow> 'u pb_enc_env \<Rightarrow> (pb_field list \<Rightarrow> addr \<Rightarrow> 'u enc) \<Rightarrow> mem \<Rightarrow> addr \<Rightarrow> 'u enc" where
  "encode_extensions 0 n env enc m ext s = None"
| "encode_extensions (Suc k) n env enc m ext s =
     (if ext = 0 then Some (True, s)
      else
        enc_seq
          (if ext_type_encode m (ext_type m ext) \<noteq> 0
           then enc_ret (\<lambda>s. enc_extension env (ext_type_encode m (ext_type m ext)) s ext)
           else default_extension_encoder n env enc m ext)
          (encode_extensions k n env enc m (ext_next m ext)) s)"

definition encode_extension_field ::
    "nat \<Rightarrow> 'u pb_enc_env \<Rightarrow> (pb_field list \<Rightarrow> addr \<Rightarrow> 'u enc) \<Rightarrow> mem \<Rightarrow> pb_field \<Rightarrow> addr \<Rightarrow> 'u enc" where
  "encode_extension_field n env enc m field pd s = encode_extensions n n env enc m (read_ptr m pd) s"

section \<open>Messages\<close>

primrec pb_encode :: "nat \<Rightarrow> 'u pb_enc_env \<Rightarrow> mem \<Rightarrow> pb_field list \<Rightarrow> addr \<Rightarrow> 'u enc" where
  "pb_encode 0 env m fds src s = None"
| "pb_encode (Suc n) env m fds src s =
     (case pb_field_iter_begin fds src of
        (False, it) \<Rightarrow> Some (True, s)
      | (True, it) \<Rightarrow>
          iter_do_while
            (\<lambda>it. if PB_LTYPE (ftype (cur it)) = PB_LTYPE_EXTENSION
                  then encode_extension_field n env (pb_encode n env m) m (cur it) (pData it)
                  else encode_field n env (pb_encode n env m) m (cur it) (pData it))
            it s)"

definition pb_encode_delimited ::
    "nat \<Rightarrow> 'u pb_enc_env \<Rightarrow> mem \<Rightarrow> pb_field list \<Rightarrow> addr \<Rightarrow> 'u enc" where
  "pb_encode_delimited n env m fds src s = pb_encode_submessage (pb_encode n env m) fds src s"

definition pb_encode_nullterminated ::
    "nat \<Rightarrow> 'u pb_enc_env \<Rightarrow> mem \<Rightarrow> pb_field list \<Rightarrow> addr \<Rightarrow> 'u enc" where
  "pb_encode_nullterminated n env m fds src =
     enc_seq (pb_encode n env m fds src) (enc_ret (\<lambda>s. pb_write s [0] 1))"

definition pb_get_encoded_size ::
    "nat \<Rightarrow> 'u pb_enc_env \<Rightarrow> mem \<Rightarrow> pb_field list \<Rightarrow> addr \<Rightarrow> size_t option option" where
  "pb_get_encoded_size n env m fds src =
     (case pb_encode n env m fds src PB_OSTREAM_SIZING of
        None \<Rightarrow> None
      | Some (False, s) \<Rightarrow> Some None
      | Some (True, s) \<Rightarrow> Some (Some (bytes_written s)))"

end
