(* ===== verification/Pb_Encode_Spec.thy ===== *)
theory Pb_Encode_Spec
  imports Pb_Encode "HOL-Library.Sublist"
begin

text \<open>
  What the message encoder promises, without streams: a \<open>den\<close> is the boolean an encoder returns
  and the bytes it writes when there is room for them. \<open>message_den\<close> gives it for a whole
  message. \<open>denotes f d\<close> says that the C encoder \<open>f\<close> implements \<open>d\<close> on every stream: with room
  it writes exactly those bytes; without, it fails and has written a prefix that fits.
\<close>

type_synonym den = "(bool \<times> byte list) option"

definition den_seq :: "den \<Rightarrow> den \<Rightarrow> den" where
  "den_seq a b =
     (case a of
        None \<Rightarrow> None
      | Some (False, xs) \<Rightarrow> Some (False, xs)
      | Some (True, xs) \<Rightarrow> map_option (\<lambda>(ok, ys). (ok, xs @ ys)) b)"

definition den_fail :: den where "den_fail = Some (False, [])"

text \<open>A run of bytes has to be smaller than half the address space to have a meaning here.\<close>

definition den_bytes :: "byte list \<Rightarrow> den" where
  "den_bytes bs = (if length bs < 2 ^ 63 then Some (True, bs) else None)"

definition delimited :: "byte list \<Rightarrow> byte list" where
  "delimited bs = varint_bytes (of_nat (length bs)) @ bs"

definition den_delimited :: "den \<Rightarrow> den" where
  "den_delimited d =
     (case d of
        None \<Rightarrow> None
      | Some (False, _) \<Rightarrow> den_fail
      | Some (True, bs) \<Rightarrow> if length bs < 2 ^ 63 then Some (True, delimited bs) else None)"

lemma den_bytes_code [code]:
  "den_bytes bs = (if int (length bs) < 2 ^ 63 then Some (True, bs) else None)"
  by (simp add: den_bytes_def)

lemma den_delimited_code [code]:
  "den_delimited d =
     (case d of
        None \<Rightarrow> None
      | Some (ok, bs) \<Rightarrow>
          if \<not> ok then den_fail
          else if int (length bs) < 2 ^ 63 then Some (True, delimited bs) else None)"
  by (simp add: den_delimited_def split: option.split bool.split)

primrec den_items :: "(addr \<Rightarrow> den) \<Rightarrow> int \<Rightarrow> nat \<Rightarrow> addr \<Rightarrow> den" where
  "den_items f step 0 p = Some (True, [])"
| "den_items f step (Suc n) p = den_seq (f p) (den_items f step n (p + step))"

primrec den_list :: "('x \<Rightarrow> den) \<Rightarrow> 'x list \<Rightarrow> den" where
  "den_list f [] = Some (True, [])"
| "den_list f (x # xs) = den_seq (f x) (den_list f xs)"

section \<open>Refinement\<close>

definition good_out :: "'u pb_ostream \<Rightarrow> bool" where
  "good_out s \<longleftrightarrow> plain_out s \<and>
     (is_NullSink (sink s) \<or>
      unat (bytes_written s) \<le> unat (max_size s) \<and> unat (max_size s) < 2 ^ 63)"

definition wrote :: "'u pb_ostream \<Rightarrow> byte list \<Rightarrow> string option \<Rightarrow> 'u pb_ostream" where
  "wrote s bs e = (out_append s bs)\<lparr>o_errmsg := e\<rparr>"

definition denotes :: "'u enc \<Rightarrow> den \<Rightarrow> bool" where
  "denotes f d \<longleftrightarrow>
     (\<forall>ok bs s. d = Some (ok, bs) \<longrightarrow> good_out s \<longrightarrow>
        (if room s (length bs)
         then \<exists>e. f s = Some (ok, wrote s bs e) \<and> (ok \<longrightarrow> e = None)
         else \<exists>bs' e. prefix bs' bs \<and> room s (length bs') \<and> f s = Some (False, wrote s bs' e)))"

lemma denotesI:
  assumes "\<And>ok bs s. d = Some (ok, bs) \<Longrightarrow> good_out s \<Longrightarrow> room s (length bs) \<Longrightarrow>
      \<exists>e. f s = Some (ok, wrote s bs e) \<and> (ok \<longrightarrow> e = None)"
    and "\<And>ok bs s. d = Some (ok, bs) \<Longrightarrow> good_out s \<Longrightarrow> \<not> room s (length bs) \<Longrightarrow>
      \<exists>bs' e. prefix bs' bs \<and> room s (length bs') \<and> f s = Some (False, wrote s bs' e)"
  shows "denotes f d"
  using assms by (simp add: denotes_def)

lemma denotes_room:
  "denotes f (Some (ok, bs)) \<Longrightarrow> good_out s \<Longrightarrow> room s (length bs) \<Longrightarrow>
     \<exists>e. f s = Some (ok, wrote s bs e) \<and> (ok \<longrightarrow> e = None)"
  by (simp add: denotes_def)

lemma denotes_full:
  "denotes f (Some (ok, bs)) \<Longrightarrow> good_out s \<Longrightarrow> \<not> room s (length bs) \<Longrightarrow>
     \<exists>bs' e. prefix bs' bs \<and> room s (length bs') \<and> f s = Some (False, wrote s bs' e)"
  unfolding denotes_def by (drule spec [of _ ok], drule spec [of _ bs], drule spec [of _ s]) simp

lemma denotes_None [simp]: "denotes f None"
  by (simp add: denotes_def)

lemma wrote_None: "good_out s \<Longrightarrow> wrote s bs None = out_append s bs"
  by (simp add: wrote_def good_out_def plain_out_def)

lemma wrote_out_append: "wrote (out_append s xs) ys e = wrote s (xs @ ys) e"
  by (simp add: wrote_def out_append_append)

lemma room_0 [simp]: "room s 0"
  by (simp add: room_def)

lemma good_out_append: "good_out s \<Longrightarrow> room s (length bs) \<Longrightarrow> good_out (out_append s bs)"
  using unat_add_max [of "bytes_written s" "length bs" "max_size s"]
  by (auto simp: good_out_def room_def)

lemma good_out_sizing [simp]: "good_out PB_OSTREAM_SIZING"
  by (simp add: good_out_def)

lemma denotes_enc_seq:
  assumes f: "denotes f d" and g: "denotes g e"
  shows "denotes (enc_seq f g) (den_seq d e)"
proof (cases d)
  case None
  then show ?thesis by (simp add: den_seq_def)
next
  case (Some r)
  then obtain ok1 xs where d: "d = Some (ok1, xs)" by (cases r) auto
  show ?thesis
  proof (cases "ok1 \<and> e \<noteq> None")
    case False
    show ?thesis
    proof (cases ok1)
      case True
      with False have "den_seq d e = None" by (cases e) (simp_all add: d den_seq_def)
      then show ?thesis by simp
    next
      case f1: False
      have de: "den_seq d e = Some (False, xs)" by (simp add: d den_seq_def f1)
      have f': "denotes f (Some (False, xs))" using f d f1 by simp
      show ?thesis
        unfolding de
      proof (rule denotesI; clarsimp)
        fix s :: "'a pb_ostream"
        assume "good_out s" "room s (length xs)"
        from denotes_room [OF f' this]
        show "\<exists>e. enc_seq f g s = Some (False, wrote s xs e)" by (auto simp: enc_seq_def)
      next
        fix s :: "'a pb_ostream"
        assume "good_out s" "\<not> room s (length xs)"
        from denotes_full [OF f' this] obtain bs' err where
          "prefix bs' xs" "room s (length bs')" "f s = Some (False, wrote s bs' err)" by blast
        then show "\<exists>bs'. prefix bs' xs \<and> room s (length bs') \<and>
            (\<exists>e. enc_seq f g s = Some (False, wrote s bs' e))"
          by (intro exI [of _ bs'] conjI exI [of _ err]) (simp_all add: enc_seq_def)
      qed
    qed
  next
    case True
    then obtain ok2 ys where e: "e = Some (ok2, ys)" by auto
    have de: "den_seq d e = Some (ok2, xs @ ys)" using True by (simp add: d e den_seq_def)
    have f': "denotes f (Some (True, xs))" using f d True by simp
    show ?thesis
    proof (rule denotesI)
      fix ok bs and s :: "'a pb_ostream"
      assume "den_seq d e = Some (ok, bs)" and s: "good_out s" and r: "room s (length bs)"
      then have bs: "ok = ok2" "bs = xs @ ys" by (simp_all add: de)
      then have rx: "room s (length xs)" and ry: "room (out_append s xs) (length ys)"
        using r by (simp_all add: room_add)
      have "f s = Some (True, out_append s xs)"
        using denotes_room [OF f' s rx] s by (auto simp: wrote_None)
      then show "\<exists>e. enc_seq f g s = Some (ok, wrote s bs e) \<and> (ok \<longrightarrow> e = None)"
        using denotes_room [OF g [unfolded e] good_out_append [OF s rx] ry]
        by (simp add: enc_seq_def bs wrote_out_append)
    next
      fix ok bs and s :: "'a pb_ostream"
      assume "den_seq d e = Some (ok, bs)" and s: "good_out s" and r: "\<not> room s (length bs)"
      then have bs: "bs = xs @ ys" by (simp add: de)
      show "\<exists>bs' e. prefix bs' bs \<and> room s (length bs') \<and> enc_seq f g s = Some (False, wrote s bs' e)"
      proof (cases "room s (length xs)")
        case False
        obtain bs' err where "prefix bs' xs" "room s (length bs')" "f s = Some (False, wrote s bs' err)"
          using denotes_full [OF f' s False] by blast
        then show ?thesis by (auto simp: enc_seq_def bs intro!: exI [of _ bs'] prefix_prefix)
      next
        case rx: True
        then have ry: "\<not> room (out_append s xs) (length ys)" using r by (simp add: bs room_add)
        have fs: "f s = Some (True, out_append s xs)"
          using denotes_room [OF f' s rx] s by (auto simp: wrote_None)
        obtain bs' err where "prefix bs' ys" "room (out_append s xs) (length bs')"
            "g (out_append s xs) = Some (False, wrote (out_append s xs) bs' err)"
          using denotes_full [OF g [unfolded e] good_out_append [OF s rx] ry] by blast
        then show ?thesis
          using rx by (auto simp: enc_seq_def bs fs wrote_out_append room_add intro!: exI [of _ "xs @ bs'"])
      qed
    qed
  qed
qed

lemma denotes_enc_true: "denotes enc_true (Some (True, []))"
  by (rule denotesI) (auto simp: enc_true_def wrote_def good_out_def plain_out_def)

lemma denotes_enc_error: "denotes (enc_error msg) den_fail"
  by (rule denotesI)
    (auto simp: den_fail_def enc_error_def o_error_def wrote_def good_out_def plain_out_def)

lemma denotes_write: "denotes (enc_ret (\<lambda>s. pb_write s bs (of_nat (length bs)))) (den_bytes bs)"
proof (rule denotesI)
  fix ok xs and s :: "'a pb_ostream"
  assume d: "den_bytes bs = Some (ok, xs)" and s: "good_out s" and r: "room s (length xs)"
  then have "xs = bs" "ok" "length bs < 2 ^ 64" by (auto simp: den_bytes_def split: if_splits)
  with s r show "\<exists>e. enc_ret (\<lambda>s. pb_write s bs (of_nat (length bs))) s = Some (ok, wrote s xs e)
      \<and> (ok \<longrightarrow> e = None)"
    by (auto simp: enc_ret_def pb_write_room good_out_def wrote_def plain_out_def)
next
  fix ok xs and s :: "'a pb_ostream"
  assume d: "den_bytes bs = Some (ok, xs)" and s: "good_out s" and r: "\<not> room s (length xs)"
  then have "xs = bs" "length bs < 2 ^ 64" by (auto simp: den_bytes_def split: if_splits)
  with s r show "\<exists>bs' e. prefix bs' xs \<and> room s (length bs') \<and>
      enc_ret (\<lambda>s. pb_write s bs (of_nat (length bs))) s = Some (False, wrote s bs' e)"
    by (intro exI [of _ "[]"]) (auto simp: enc_ret_def pb_write_full good_out_def wrote_def)
qed

lemma denotes_items:
  assumes "\<And>p. denotes (f p) (d p)"
  shows "denotes (enc_items f step n p) (den_items d step n p)"
  using assms by (induction n arbitrary: p) (simp_all add: denotes_enc_true denotes_enc_seq)


lemma denotes_cong_den: "denotes f d \<Longrightarrow> d = d' \<Longrightarrow> denotes f d'"
  by simp

lemma denotes_list:
  "(\<And>x. denotes (f x) (d x)) \<Longrightarrow> denotes (foldr (\<lambda>x. enc_seq (f x)) xs enc_true) (den_list d xs)"
  by (induction xs) (simp_all add: denotes_enc_true denotes_enc_seq)

section \<open>Wire values\<close>

lemma denotes_varint: "denotes (enc_ret (\<lambda>s. pb_encode_varint s v)) (Some (True, varint_bytes v))"
proof -
  have "length (varint_bytes v) < 2 ^ 63" using varint_bytes_le_10 [of v] by simp
  then show ?thesis
    using denotes_write [of "varint_bytes v"] by (simp add: den_bytes_def pb_encode_varint_write)
qed

lemma denotes_svarint:
  "denotes (enc_ret (\<lambda>s. pb_encode_svarint s v)) (Some (True, varint_bytes (zigzag v)))"
  by (simp add: pb_encode_svarint_varint denotes_varint)

lemma denotes_fixed32: "denotes (enc_ret (\<lambda>s. pb_encode_fixed32 s v)) (Some (True, le_bytes 4 v))"
  using denotes_write [of "le_bytes 4 v"] by (simp add: den_bytes_def pb_encode_fixed32_write)

lemma denotes_fixed64: "denotes (enc_ret (\<lambda>s. pb_encode_fixed64 s v)) (Some (True, le_bytes 8 v))"
  using denotes_write [of "le_bytes 8 v"] by (simp add: den_bytes_def pb_encode_fixed64_write)

lemma denotes_tag:
  "denotes (enc_ret (\<lambda>s. pb_encode_tag s wt n)) (Some (True, varint_bytes (tag_word wt n)))"
  using denotes_varint [of "tag_word wt n"] by (simp add: pb_encode_tag_def tag_word_def)

text \<open>The wire type a field's values are sent with; \<open>None\<close> for a type without one.\<close>

definition wire_type_of :: "pb_field \<Rightarrow> u32 option" where
  "wire_type_of field =
     (let lt = PB_LTYPE (ftype field) in
      if lt = PB_LTYPE_BOOL \<or> lt = PB_LTYPE_VARINT \<or> lt = PB_LTYPE_UVARINT \<or> lt = PB_LTYPE_SVARINT
      then Some PB_WT_VARINT
      else if lt = PB_LTYPE_FIXED32 then Some PB_WT_32BIT
      else if lt = PB_LTYPE_FIXED64 then Some PB_WT_64BIT
      else if lt = PB_LTYPE_BYTES \<or> lt = PB_LTYPE_STRING \<or> lt = PB_LTYPE_SUBMESSAGE
              \<or> lt = PB_LTYPE_FIXED_LENGTH_BYTES
      then Some PB_WT_STRING
      else None)"

definition field_tag_den :: "pb_field \<Rightarrow> den" where
  "field_tag_den field =
     (case wire_type_of field of
        None \<Rightarrow> den_fail
      | Some wt \<Rightarrow> Some (True, varint_bytes (tag_word wt (tag field))))"

lemma pb_encode_tag_for_field_wire_type:
  "pb_encode_tag_for_field s field =
     (case wire_type_of field of
        None \<Rightarrow> o_error s ''invalid field type''
      | Some wt \<Rightarrow> pb_encode_tag s wt (tag field))"
  by (simp add: pb_encode_tag_for_field_def wire_type_of_def Let_def split del: if_split split: if_splits)

lemma denotes_tag_for_field:
  "denotes (enc_ret (\<lambda>s. pb_encode_tag_for_field s field)) (field_tag_den field)"
  using denotes_tag [of _ "tag field"] denotes_enc_error [of "''invalid field type''"]
  by (cases "wire_type_of field")
    (simp_all add: pb_encode_tag_for_field_wire_type field_tag_den_def enc_ret_def [abs_def]
      enc_error_def [abs_def])

lemma denotes_string:
  assumes "unat sz = length bs" "length bs < 2 ^ 63"
  shows "denotes (enc_ret (\<lambda>s :: 'u pb_ostream. pb_encode_string s bs sz)) (Some (True, delimited bs))"
proof -
  have sz: "sz = of_nat (length bs)" by (simp flip: assms(1))
  have "enc_ret (\<lambda>s :: 'u pb_ostream. pb_encode_string s bs sz) =
    enc_seq (enc_ret (\<lambda>s. pb_encode_varint s sz)) (enc_ret (\<lambda>s. pb_write s bs (of_nat (length bs))))"
    by (rule ext) (simp add: enc_ret_def enc_seq_def pb_encode_string_def sz split: prod.splits bool.splits)
  moreover have "den_seq (Some (True, varint_bytes sz)) (den_bytes bs) = Some (True, delimited bs)"
    using assms(2) by (simp add: den_seq_def den_bytes_def delimited_def sz)
  ultimately show ?thesis
    using denotes_enc_seq [OF denotes_varint denotes_write, of sz bs] by simp
qed

section \<open>Submessages\<close>

lemma good_sub:
  "good_out s \<Longrightarrow> \<not> is_NullSink (sink s) \<Longrightarrow> n < 2 ^ 63 \<Longrightarrow>
     good_out \<lparr>sink = sink s, max_size = of_nat n, bytes_written = 0, o_errmsg = None\<rparr>"
  by (auto simp: good_out_def plain_out_def unat_of_nat)

lemma room_sum:
  assumes s: "good_out s" "\<not> is_NullSink (sink s)" and n: "n < 2 ^ 63"
  shows "\<not> bytes_written s + of_nat n > max_size s \<longleftrightarrow> room s n"
proof -
  have b: "unat (bytes_written s) \<le> unat (max_size s)" "unat (max_size s) < 2 ^ 63"
    using s by (auto simp: good_out_def)
  have "unat (bytes_written s + of_nat n) = unat (bytes_written s) + n"
    using b n by (simp add: unat_word_ariths unat_of_nat)
  then show ?thesis
    using b s by (auto simp: room_def word_less_nat_alt not_less)
qed

lemma denotes_submessage:
  assumes enc: "\<And>fds src. denotes (enc fds src) (md fds src)"
  shows "denotes (pb_encode_submessage enc fds src) (den_delimited (md fds src))"
proof (cases "md fds src")
  case None
  then show ?thesis by (simp add: den_delimited_def)
next
  case (Some r)
  then obtain ok bs where md: "md fds src = Some (ok, bs)" by (cases r) auto
  have e: "denotes (enc fds src) (Some (ok, bs))" using enc [of fds src] by (simp add: md)
  obtain err where z: "enc fds src PB_OSTREAM_SIZING = Some (ok, wrote PB_OSTREAM_SIZING bs err)"
    using denotes_room [OF e good_out_sizing] by auto
  show ?thesis
  proof (cases "ok \<and> length bs < 2 ^ 63")
    case False
    show ?thesis
    proof (cases ok)
      case True
      with False show ?thesis by (simp add: md den_delimited_def)
    next
      case f: False
      have "denotes (pb_encode_submessage enc fds src) den_fail"
        by (rule denotesI)
          (auto simp: den_fail_def pb_encode_submessage_def z f wrote_def)
      then show ?thesis by (simp add: md den_delimited_def f)
    qed
  next
    case True
    define sz :: size_t where "sz = of_nat (length bs)"
    have e': "denotes (enc fds src) (Some (True, bs))" using e True by simp
    have z': "enc fds src PB_OSTREAM_SIZING = Some (True, wrote PB_OSTREAM_SIZING bs err)"
      using z True by simp
    have b: "bytes_written (wrote PB_OSTREAM_SIZING bs err) = sz"
      by (simp add: wrote_def sz_def)
    let ?rest = "\<lambda>s1. if is_NullSink (sink s1) then Some (pb_write s1 [] sz)
       else if bytes_written s1 + sz > max_size s1 then enc_error ''stream full'' s1
       else (case enc fds src \<lparr>sink = sink s1, max_size = sz, bytes_written = 0, o_errmsg = None\<rparr> of
               None \<Rightarrow> None
             | Some (status, sub2) \<Rightarrow>
                 let s2 = s1\<lparr>bytes_written := bytes_written s1 + bytes_written sub2,
                             sink := sink sub2, o_errmsg := o_errmsg sub2\<rparr>
                 in if bytes_written sub2 \<noteq> sz then enc_error ''submsg size changed'' s2
                    else Some (status, s2))"
    have eq: "pb_encode_submessage enc fds src = enc_seq (enc_ret (\<lambda>s. pb_encode_varint s sz)) ?rest"
      by (rule ext)
        (simp only: pb_encode_submessage_def z' b enc_seq_def enc_ret_def Let_def
          option.case prod.case bool.case split: prod.splits bool.splits)
    have rest: "denotes ?rest (Some (True, bs))"
    proof (rule denotesI)
      fix ok xs and s :: "'a pb_ostream"
      assume x: "Some (True, bs) = Some (ok, xs)" and s: "good_out s" and rx: "room s (length xs)"
      then have r: "room s (length bs)" by simp
      have "?rest s = Some (True, wrote s bs None)"
      proof (cases "is_NullSink (sink s)")
        case True
        then show ?thesis
          using s by (auto simp: pb_write_def wrote_def out_append_def sz_def good_out_def plain_out_def
              split: osink.splits)
      next
        case False
        let ?sub = "\<lparr>sink = sink s, max_size = sz, bytes_written = 0, o_errmsg = None\<rparr> :: 'a pb_ostream"
        have g: "good_out ?sub" using good_sub [OF s False] True by (simp add: sz_def)
        have rr: "room ?sub (length bs)" using True by (simp add: room_def sz_def unat_of_nat)
        have "enc fds src ?sub = Some (True, wrote ?sub bs None)"
          using denotes_room [OF e' g rr] by auto
        moreover have "\<not> bytes_written s + sz > max_size s"
          using room_sum [OF s False conjunct2 [OF True]] r by (simp add: sz_def)
        ultimately show ?thesis
          using False by (cases "sink s") (simp_all add: Let_def wrote_def out_append_def sz_def)
      qed
      then show "\<exists>e. ?rest s = Some (ok, wrote s xs e) \<and> (ok \<longrightarrow> e = None)"
        using x by simp
    next
      fix ok xs and s :: "'a pb_ostream"
      assume x: "Some (True, bs) = Some (ok, xs)" and s: "good_out s" and rx: "\<not> room s (length xs)"
      then have r: "\<not> room s (length bs)" by simp
      then have n: "\<not> is_NullSink (sink s)" by (simp add: room_def)
      have "bytes_written s + sz > max_size s"
        using room_sum [OF s n conjunct2 [OF True]] r by (simp add: sz_def)
      then have "?rest s = Some (False, wrote s [] (Some ''stream full''))"
        using n s by (simp add: enc_error_def o_error_def wrote_def good_out_def plain_out_def)
      then show "\<exists>bs' e. prefix bs' xs \<and> room s (length bs') \<and> ?rest s = Some (False, wrote s bs' e)"
        by (intro exI [of _ "[]"] conjI exI [of _ "Some ''stream full''"]) simp_all
    qed
    have d: "den_seq (Some (True, varint_bytes sz)) (Some (True, bs)) = den_delimited (md fds src)"
      using True by (simp add: den_seq_def den_delimited_def delimited_def md sz_def)
    show ?thesis
      unfolding eq d [symmetric] by (rule denotes_enc_seq [OF denotes_varint rest])
  qed
qed

end
