(* ===== verification/Pb_Encode_Message.thy ===== *)
theory Pb_Encode_Message
  imports Pb_Encode_Spec
begin

text \<open>
  The bytes of a message, and the proof that \<open>pb_encode\<close> writes them: one \<open>den\<close> per field
  encoder, array, field, extension and message, over the list \<open>layout\<close> of a structure's fields
  and their addresses in place of the iterator.
\<close>

section \<open>Layout of a structure\<close>

definition union_member :: "pb_field \<Rightarrow> pb_field \<Rightarrow> bool" where
  "union_member prev f \<longleftrightarrow>
     PB_HTYPE (ftype prev) = PB_HTYPE_ONEOF \<and> PB_HTYPE (ftype f) = PB_HTYPE_ONEOF
     \<and> data_offset f = PB_SIZE_MAX"

definition next_addr :: "pb_field \<Rightarrow> addr \<Rightarrow> pb_field \<Rightarrow> addr" where
  "next_addr prev d f =
     (if union_member prev f then d else d + stored_size prev + uint (data_offset f))"

primrec layout_after :: "pb_field \<Rightarrow> addr \<Rightarrow> pb_field list \<Rightarrow> (pb_field \<times> addr) list" where
  "layout_after prev d [] = []"
| "layout_after prev d (f # fs) =
     (if tag f = 0 then []
      else (f, next_addr prev d f) # layout_after f (next_addr prev d f) fs)"

definition layout :: "pb_field list \<Rightarrow> addr \<Rightarrow> (pb_field \<times> addr) list" where
  "layout fds src =
     (case fds of
        [] \<Rightarrow> []
      | f # fs \<Rightarrow>
          if tag f = 0 then []
          else (f, src + uint (data_offset f)) # layout_after f (src + uint (data_offset f)) fs)"

lemma next_pData:
  assumes "tag (cur it) \<noteq> 0" "tag (field_at (start it) (Suc (pos it))) \<noteq> 0"
  shows "pData (snd (pb_field_iter_next it)) =
    next_addr (cur it) (pData it) (field_at (start it) (Suc (pos it)))"
  using assms
  by (auto simp: pb_field_iter_next_def cur_def next_addr_def union_member_def stored_size_def Let_def)

lemma iter_do_while_layout:
  assumes body: "\<And>it s. body it s = g (cur it, pData it) s"
  shows "start it = pre @ f # fs \<Longrightarrow> pos it = length pre \<Longrightarrow> tag f \<noteq> 0 \<Longrightarrow>
    iter_do_while body it s = do_all g ((f, pData it) # layout_after f (pData it) fs) s"
proof (induction fs arbitrary: it pre f s)
  case Nil
  then have "cur it = f" "\<not> fst (pb_field_iter_next it)"
    by (auto simp: cur_def next_more nth_default_append nth_default_def PB_LAST_FIELD_def)
  then show ?case
    by (subst iter_do_while.simps) (simp add: body split: option.split)
next
  case (Cons k fs)
  then have c: "cur it = f" and k: "field_at (start it) (Suc (pos it)) = k"
    by (auto simp: cur_def nth_default_def nth_append)
  show ?case
  proof (cases "tag k = 0")
    case True
    then have "\<not> fst (pb_field_iter_next it)" by (simp add: next_more k)
    then show ?thesis
      by (subst iter_do_while.simps) (simp add: body c True split: option.split)
  next
    case False
    let ?it = "snd (pb_field_iter_next it)"
    have t: "tag (cur it) \<noteq> 0" "tag (field_at (start it) (Suc (pos it))) \<noteq> 0"
      unfolding c k using Cons.prems(3) False by simp_all
    have "fst (pb_field_iter_next it)" using t by (simp add: next_more)
    moreover have "iter_do_while body ?it s1 =
        do_all g ((k, pData ?it) # layout_after k (pData ?it) fs) s1" for s1
      by (rule Cons.IH [of _ "pre @ [f]"]) (use Cons.prems t False in \<open>simp_all add: next_pos\<close>)
    moreover have "pData ?it = next_addr f (pData it) k"
      using next_pData [OF t] by (simp add: c k)
    ultimately show ?thesis
      using False
      by (subst iter_do_while.simps) (simp add: body c split: option.split)
  qed
qed

lemma iter_begin_layout:
  assumes body: "\<And>it s. body it s = g (cur it, pData it) s"
  shows "(case pb_field_iter_begin fds src of
      (False, it) \<Rightarrow> Some (True, s)
    | (True, it) \<Rightarrow> iter_do_while body it s) = do_all g (layout fds src) s"
proof (cases "fds = [] \<or> tag (field_at fds 0) = 0")
  case True
  then show ?thesis
    by (cases fds) (auto simp: pb_field_iter_begin_def layout_def PB_LAST_FIELD_def Let_def nth_default_def)
next
  case False
  then obtain f fs where fds: "fds = f # fs" and t: "tag f \<noteq> 0"
    by (cases fds) (auto simp: nth_default_def)
  let ?it = "snd (pb_field_iter_begin fds src)"
  have b: "pb_field_iter_begin fds src = (True, ?it)"
    using False by (simp add: prod_eq_iff)
  have "iter_do_while body ?it s = do_all g ((f, pData ?it) # layout_after f (pData ?it) fs) s"
    by (rule iter_do_while_layout [where pre = "[]"]) (simp_all add: body fds t)
  moreover have "pData ?it = src + uint (data_offset f)"
    by (simp add: pb_field_iter_begin_def fds Let_def nth_default_def)
  ultimately have "iter_do_while body ?it s = do_all g (layout fds src) s"
    by (simp only:) (simp add: layout_def fds t)
  then show ?thesis by (subst b) simp
qed

lemma denotes_do_all:
  assumes "\<And>x. denotes (f x) (d x)"
  shows "denotes (do_all f xs) (den_list d xs)"
proof (induction xs)
  case Nil
  then show ?case using denotes_enc_true by (simp add: enc_true_def [abs_def])
next
  case (Cons x xs)
  have "do_all f (x # xs) = enc_seq (f x) (do_all f xs)"
    by (rule ext) (auto simp: enc_seq_def split: option.splits bool.splits)
  then show ?case using denotes_enc_seq [OF assms Cons] by simp
qed

section \<open>The bytes of a message\<close>

text \<open>What the caller's descriptors, callbacks and extensions stand for.\<close>

record pb_den_env =
  den_fields :: "addr \<Rightarrow> pb_field list"
  den_callback :: "addr \<Rightarrow> pb_field \<Rightarrow> addr \<Rightarrow> bool \<times> byte list"
  den_extension :: "addr \<Rightarrow> addr \<Rightarrow> bool \<times> byte list"

definition opt_den :: "('v \<Rightarrow> byte list) \<Rightarrow> 'v option \<Rightarrow> den" where
  "opt_den f v = (case v of None \<Rightarrow> den_fail | Some x \<Rightarrow> Some (True, f x))"

definition bytes_den :: "mem \<Rightarrow> pb_field \<Rightarrow> addr \<Rightarrow> den" where
  "bytes_den m field src =
     (if src = 0 then Some (True, delimited [])
      else if PB_ATYPE (ftype field) = PB_ATYPE_STATIC
              \<and> unat (data_size field) < unat (bytes_size m src) + 4
      then den_fail
      else Some (True, delimited (mem_read m (src + 4) (unat (bytes_size m src)))))"

definition string_den :: "mem \<Rightarrow> pb_field \<Rightarrow> addr \<Rightarrow> den" where
  "string_den m field src =
     (if src = 0 then Some (True, delimited [])
      else den_delimited (Some (True, mem_read m src (unat (string_length_loop m
        (if PB_ATYPE (ftype field) = PB_ATYPE_POINTER then - 1 else ucast (data_size field)) 0 src)))))"

definition value_den ::
    "pb_den_env \<Rightarrow> (pb_field list \<Rightarrow> addr \<Rightarrow> den) \<Rightarrow> mem \<Rightarrow> pb_field \<Rightarrow> addr \<Rightarrow> den" where
  "value_den D md m field src =
     (let lt = PB_LTYPE (ftype field) in
      if lt = PB_LTYPE_BOOL then Some (True, varint_bytes (if m src \<noteq> 0 then 1 else 0))
      else if lt = PB_LTYPE_VARINT then opt_den varint_bytes (read_signed m (data_size field) src)
      else if lt = PB_LTYPE_UVARINT then opt_den varint_bytes (read_unsigned m (data_size field) src)
      else if lt = PB_LTYPE_SVARINT
      then opt_den (\<lambda>v. varint_bytes (zigzag v)) (read_signed m (data_size field) src)
      else if lt = PB_LTYPE_FIXED32 then Some (True, mem_read m src 4)
      else if lt = PB_LTYPE_FIXED64 then Some (True, mem_read m src 8)
      else if lt = PB_LTYPE_BYTES then bytes_den m field src
      else if lt = PB_LTYPE_STRING then string_den m field src
      else if lt = PB_LTYPE_SUBMESSAGE
      then (if fptr field = 0 then den_fail else den_delimited (md (den_fields D (fptr field)) src))
      else if lt = PB_LTYPE_FIXED_LENGTH_BYTES
      then Some (True, delimited (mem_read m src (unat (data_size field))))
      else None)"

definition array_den ::
    "mem \<Rightarrow> pb_field \<Rightarrow> addr \<Rightarrow> nat \<Rightarrow> (pb_field \<Rightarrow> addr \<Rightarrow> den) \<Rightarrow> den" where
  "array_den m field pd count val =
     (if count = 0 then Some (True, [])
      else if PB_ATYPE (ftype field) \<noteq> PB_ATYPE_POINTER \<and> unat (array_size field) < count then den_fail
      else if PB_LTYPE (ftype field) \<le> PB_LTYPE_LAST_PACKABLE
      then den_seq (Some (True, varint_bytes (tag_word PB_WT_STRING (tag field))))
        (den_delimited (den_items (val field) (uint (data_size field)) count pd))
      else den_items
        (\<lambda>p. den_seq (field_tag_den field)
          (val field
            (if PB_ATYPE (ftype field) = PB_ATYPE_POINTER
                \<and> (PB_LTYPE (ftype field) = PB_LTYPE_STRING
                   \<or> PB_LTYPE (ftype field) = PB_LTYPE_BYTES)
             then read_ptr m p else p)))
        (uint (data_size field)) count pd)"

definition basic_field_den ::
    "nat \<Rightarrow> pb_den_env \<Rightarrow> (pb_field list \<Rightarrow> addr \<Rightarrow> den) \<Rightarrow> mem \<Rightarrow> pb_field \<Rightarrow> addr \<Rightarrow> den" where
  "basic_field_den n D md m field pd =
     (let ty = ftype field;
          psz = pd + sint (size_offset field);
          pd' = (if PB_ATYPE ty = PB_ATYPE_POINTER then read_ptr m pd else pd);
          one = den_seq (field_tag_den field) (value_den D md m field pd')
      in
      if PB_LTYPE ty > PB_LTYPE_FIXED_LENGTH_BYTES then None
      else if PB_HTYPE ty = PB_HTYPE_REQUIRED then (if pd' = 0 then den_fail else one)
      else if PB_HTYPE ty = PB_HTYPE_OPTIONAL then
        (if size_offset field \<noteq> 0 then (if m psz \<noteq> 0 then one else Some (True, []))
         else
           (case pb_check_proto3_default_value n (den_fields D) m field pd of
              None \<Rightarrow> None
            | Some def \<Rightarrow>
                if (if PB_ATYPE ty = PB_ATYPE_POINTER then pd' \<noteq> 0 else \<not> def)
                then one else Some (True, [])))
      else if PB_HTYPE ty = PB_HTYPE_REPEATED then
        array_den m field pd'
          (unat (if size_offset field \<noteq> 0 then read_u32 m psz else array_size field)) (value_den D md m)
      else if size_offset field = 0 then None
      else if read_u32 m psz = tag field then one
      else Some (True, []))"

definition field_den ::
    "nat \<Rightarrow> pb_den_env \<Rightarrow> (pb_field list \<Rightarrow> addr \<Rightarrow> den) \<Rightarrow> mem \<Rightarrow> pb_field \<Rightarrow> addr \<Rightarrow> den" where
  "field_den n D md m field pd =
     (if PB_ATYPE (ftype field) = PB_ATYPE_STATIC \<or> PB_ATYPE (ftype field) = PB_ATYPE_POINTER
      then basic_field_den n D md m field pd
      else if PB_ATYPE (ftype field) = PB_ATYPE_CALLBACK then
        (if callback_func m pd \<noteq> 0
         then Some (den_callback D (callback_func m pd) field (callback_arg pd))
         else Some (True, []))
      else den_fail)"

definition default_extension_den ::
    "nat \<Rightarrow> pb_den_env \<Rightarrow> (pb_field list \<Rightarrow> addr \<Rightarrow> den) \<Rightarrow> mem \<Rightarrow> addr \<Rightarrow> den" where
  "default_extension_den n D md m ext =
     (let field = field_at (den_fields D (ext_type_arg m (ext_type m ext))) 0 in
      field_den n D md m field
        (if PB_ATYPE (ftype field) = PB_ATYPE_POINTER then ext_dest_addr ext else ext_dest m ext))"

primrec extensions_den ::
    "nat \<Rightarrow> nat \<Rightarrow> pb_den_env \<Rightarrow> (pb_field list \<Rightarrow> addr \<Rightarrow> den) \<Rightarrow> mem \<Rightarrow> addr \<Rightarrow> den" where
  "extensions_den 0 n D md m ext = None"
| "extensions_den (Suc k) n D md m ext =
     (if ext = 0 then Some (True, [])
      else den_seq
        (if ext_type_encode m (ext_type m ext) \<noteq> 0
         then Some (den_extension D (ext_type_encode m (ext_type m ext)) ext)
         else default_extension_den n D md m ext)
        (extensions_den k n D md m (ext_next m ext)))"

primrec message_den :: "nat \<Rightarrow> pb_den_env \<Rightarrow> mem \<Rightarrow> pb_field list \<Rightarrow> addr \<Rightarrow> den" where
  "message_den 0 D m fds src = None"
| "message_den (Suc n) D m fds src =
     den_list
       (\<lambda>(f, pd). if PB_LTYPE (ftype f) = PB_LTYPE_EXTENSION
                  then extensions_den n n D (message_den n D m) m (read_ptr m pd)
                  else field_den n D (message_den n D m) m f pd)
       (layout fds src)"

text \<open>An environment meets its description when its callbacks write what they are said to.\<close>

definition env_denotes :: "'u pb_enc_env \<Rightarrow> pb_den_env \<Rightarrow> bool" where
  "env_denotes env D \<longleftrightarrow>
     enc_fields env = den_fields D \<and>
     (\<forall>fn field arg. denotes (enc_ret (\<lambda>s. enc_callback env fn s field arg))
        (Some (den_callback D fn field arg))) \<and>
     (\<forall>fn ext. denotes (enc_ret (\<lambda>s. enc_extension env fn s ext)) (Some (den_extension D fn ext)))"

section \<open>Every encoder writes the bytes of its value\<close>

lemma denotes_callback:
  assumes "denotes (enc_ret f) d"
  shows "denotes (\<lambda>s. case f s of (False, s1) \<Rightarrow> enc_error msg s1 | (True, s1) \<Rightarrow> Some (True, s1)) d"
proof (rule denotesI)
  fix ok bs and s :: "'a pb_ostream"
  assume d: "d = Some (ok, bs)" and s: "good_out s" "room s (length bs)"
  obtain e where "f s = (ok, wrote s bs e)" "ok \<longrightarrow> e = None"
    using denotes_room [OF assms [unfolded d] s] by (auto simp: enc_ret_def)
  then show "\<exists>e. (case f s of (False, s1) \<Rightarrow> enc_error msg s1 | (True, s1) \<Rightarrow> Some (True, s1))
      = Some (ok, wrote s bs e) \<and> (ok \<longrightarrow> e = None)"
    by (cases ok) (auto simp: enc_error_def o_error_def wrote_def)
next
  fix ok bs and s :: "'a pb_ostream"
  assume d: "d = Some (ok, bs)" and s: "good_out s" "\<not> room s (length bs)"
  obtain bs' e where b: "prefix bs' bs" "room s (length bs')" "f s = (False, wrote s bs' e)"
    using denotes_full [OF assms [unfolded d] s] by (auto simp: enc_ret_def)
  then have "(case f s of (False, s1) \<Rightarrow> enc_error msg s1 | (True, s1) \<Rightarrow> Some (True, s1))
      = Some (False, wrote s bs' (pb_set_error e msg))"
    by (simp add: enc_error_def o_error_def wrote_def)
  with b show "\<exists>bs' e. prefix bs' bs \<and> room s (length bs') \<and>
      (case f s of (False, s1) \<Rightarrow> enc_error msg s1 | (True, s1) \<Rightarrow> Some (True, s1))
      = Some (False, wrote s bs' e)"
    by blast
qed

lemma denotes_if: "(c \<Longrightarrow> denotes f d) \<Longrightarrow> (\<not> c \<Longrightarrow> denotes g e) \<Longrightarrow>
    denotes (if c then f else g) (if c then d else e)"
  by simp

lemma denotes_ext: "denotes f d \<Longrightarrow> (\<And>s. f s = g s) \<Longrightarrow> denotes g d"
  using ext [of f g] by simp

lemma den_delimited_ok: "length bs < 2 ^ 63 \<Longrightarrow> den_delimited (Some (True, bs)) = Some (True, delimited bs)"
  by (simp add: den_delimited_def)

lemma denotes_opt_den:
  assumes "\<And>v. denotes (enc_ret (enc v)) (Some (True, f v))"
    and "\<And>s. g s = (case x of None \<Rightarrow> enc_error msg s | Some v \<Rightarrow> Some (enc v s))"
  shows "denotes g (opt_den f x)"
proof (cases x)
  case None
  then show ?thesis
    using assms(2) by (intro denotes_ext [OF denotes_enc_error [of msg, folded], THEN denotes_cong_den])
      (simp_all add: opt_den_def)
next
  case (Some v)
  then show ?thesis
    using assms(2) by (intro denotes_ext [OF assms(1) [of v], THEN denotes_cong_den])
      (simp_all add: opt_den_def enc_ret_def)
qed


lemma le_bytes_le_val4: "le_bytes 4 (le_val (mem_read m p 4) :: u32) = mem_read m p 4"
  by (simp add: le_bytes_le_val)

lemma denotes_bytes: "denotes (pb_enc_bytes m field src) (bytes_den m field src)"
proof (cases "src = 0")
  case True
  have "denotes (enc_ret (\<lambda>s. pb_encode_string s [] 0)) (Some (True, delimited []))"
    by (rule denotes_string) simp_all
  then show ?thesis
    by (rule denotes_ext [THEN denotes_cong_den])
      (simp_all add: True bytes_den_def pb_enc_bytes_def enc_ret_def)
next
  case False
  let ?n = "bytes_size m src"
  have n: "unat ?n < 2 ^ 32" by (rule less_le_trans [OF unsigned_less]) simp
  have a: "unat (PB_BYTES_ARRAY_T_ALLOCSIZE ?n) = unat ?n + 4"
    using n by (simp add: PB_BYTES_ARRAY_T_ALLOCSIZE_def unat_word_ariths unat_ucast_up)
  have c1: "\<not> PB_BYTES_ARRAY_T_ALLOCSIZE ?n < ucast ?n"
    by (simp add: word_less_nat_alt a unat_ucast_up)
  have c2: "PB_BYTES_ARRAY_T_ALLOCSIZE ?n > ucast (data_size field) \<longleftrightarrow>
      unat (data_size field) < unat ?n + 4"
    by (simp add: word_less_nat_alt a unat_ucast_up)
  have e: "pb_enc_bytes m field src =
     (if PB_ATYPE (ftype field) = PB_ATYPE_STATIC \<and> unat (data_size field) < unat ?n + 4
      then enc_error ''bytes size exceeded''
      else enc_ret (\<lambda>s. pb_encode_string s (mem_read m (bytes_data src) (unat ?n)) (ucast ?n)))"
    by (rule ext) (simp add: pb_enc_bytes_def False Let_def c1 c2 enc_ret_def)
  show ?thesis
    unfolding e bytes_den_def if_not_P [OF False] bytes_data_def
    using n by (intro denotes_if denotes_enc_error denotes_string) (simp_all add: unat_ucast_up)
qed

lemma denotes_string_field: "denotes (pb_enc_string m field src) (string_den m field src)"
proof (cases "src = 0")
  case True
  have "denotes (enc_ret (\<lambda>s. pb_encode_string s [] 0)) (Some (True, delimited []))"
    by (rule denotes_string) simp_all
  then show ?thesis
    by (rule denotes_ext [THEN denotes_cong_den])
      (simp_all add: True string_den_def pb_enc_string_def enc_ret_def)
next
  case False
  define sz where "sz = string_length_loop m
     (if PB_ATYPE (ftype field) = PB_ATYPE_POINTER then - 1 else ucast (data_size field)) 0 src"
  have e: "pb_enc_string m field src = enc_ret (\<lambda>s. pb_encode_string s (mem_read m src (unat sz)) sz)"
    by (rule ext) (simp add: pb_enc_string_def False Let_def sz_def enc_ret_def)
  have d: "string_den m field src = den_delimited (Some (True, mem_read m src (unat sz)))"
    by (simp add: string_den_def False sz_def)
  show ?thesis
  proof (cases "unat sz < 2 ^ 63")
    case True
    then show ?thesis unfolding e d by (simp add: den_delimited_def denotes_string)
  next
    case False
    then show ?thesis unfolding d by (simp add: den_delimited_def)
  qed
qed

lemma denotes_value:
  assumes env: "env_denotes env D" and md: "\<And>fds src. denotes (enc fds src) (md fds src)"
  shows "denotes (PB_ENCODERS env enc m (PB_LTYPE (ftype field)) field src) (value_den D md m field src)"
proof -
  have sub: "denotes (pb_enc_submessage env enc field src)
      (if fptr field = 0 then den_fail else den_delimited (md (den_fields D (fptr field)) src))"
    using denotes_submessage [where enc = enc, OF md] env
    by (cases "fptr field = 0")
      (auto simp: env_denotes_def pb_enc_submessage_def [abs_def] denotes_enc_error)
  have flb: "denotes (pb_enc_fixed_length_bytes m field src)
      (Some (True, delimited (mem_read m src (unat (data_size field)))))"
  proof -
    have "unat (data_size field) < 2 ^ 32" by (rule less_le_trans [OF unsigned_less]) simp
    then show ?thesis
      using denotes_string [of "ucast (data_size field)" "mem_read m src (unat (data_size field))"]
      by (simp add: pb_enc_fixed_length_bytes_def [abs_def] enc_ret_def [abs_def] unat_ucast_up)
  qed
  have i: "denotes (pb_enc_varint m field src) (opt_den varint_bytes (read_signed m (data_size field) src))"
    "denotes (pb_enc_uvarint m field src) (opt_den varint_bytes (read_unsigned m (data_size field) src))"
    "denotes (pb_enc_svarint m field src)
      (opt_den (\<lambda>v. varint_bytes (zigzag v)) (read_signed m (data_size field) src))"
    by (rule denotes_opt_den, rule denotes_varint denotes_svarint,
        simp add: pb_enc_varint_def pb_enc_uvarint_def pb_enc_svarint_def)+
  have b: "denotes (pb_enc_bool m field src) (Some (True, varint_bytes (if m src \<noteq> 0 then 1 else 0)))"
    using denotes_varint [of "if m src \<noteq> 0 then 1 else 0"]
    by (simp add: pb_enc_bool_def [abs_def] enc_ret_def [abs_def] safe_read_bool_def)
  have f32: "denotes (pb_enc_fixed32 m field src) (Some (True, mem_read m src 4))"
    using denotes_fixed32 [of "read_u32 m src"]
    by (simp add: pb_enc_fixed32_def [abs_def] enc_ret_def [abs_def] read_u32_def le_bytes_le_val)
  have f64: "denotes (pb_enc_fixed64 m field src) (Some (True, mem_read m src 8))"
    using denotes_fixed64 [of "read_u64 m src"]
    by (simp add: pb_enc_fixed64_def [abs_def] enc_ret_def [abs_def] read_u64_def le_bytes_le_val)
  show ?thesis
    unfolding PB_ENCODERS_def value_den_def Let_def
    by (simp add: b f32 f64 i sub flb denotes_bytes denotes_string_field)
qed

section \<open>Arrays, fields and messages\<close>

lemma den_seq_Some: "den_seq a b = Some (ok, bs) \<Longrightarrow> ok \<Longrightarrow>
    \<exists>xs ys. a = Some (True, xs) \<and> b = Some (True, ys) \<and> bs = xs @ ys"
  by (auto simp: den_seq_def split: option.splits bool.splits)

lemma den_items_const:
  assumes "\<And>p. \<exists>bs. f p = Some (True, bs) \<and> length bs = w"
  shows "\<exists>bs. den_items f step n p = Some (True, bs) \<and> length bs = n * w"
proof (induction n arbitrary: p)
  case 0
  then show ?case by simp
next
  case (Suc n)
  from assms [of p] Suc [of "p + step"] show ?case by (auto simp: den_seq_def)
qed

text \<open>The size the C code computes for a packed array is that of the bytes it then writes.\<close>

lemma packed_size_den:
  assumes f: "\<And>p. denotes (func field p) (value_den D md m field p)" and c: "unat count < 2 ^ 32"
    and d: "den_items (value_den D md m field) (uint (data_size field)) (unat count) pd = Some (ok, bs)"
  shows "packed_size func field pd count = Some (if ok then Some (of_nat (length bs)) else None)"
proof -
  have lt: "PB_LTYPE_FIXED32 \<noteq> PB_LTYPE_FIXED64" "PB_LTYPE_FIXED32 \<noteq> PB_LTYPE_BOOL"
      "PB_LTYPE_FIXED32 \<noteq> PB_LTYPE_VARINT" "PB_LTYPE_FIXED32 \<noteq> PB_LTYPE_UVARINT"
      "PB_LTYPE_FIXED32 \<noteq> PB_LTYPE_SVARINT" "PB_LTYPE_FIXED64 \<noteq> PB_LTYPE_BOOL"
      "PB_LTYPE_FIXED64 \<noteq> PB_LTYPE_VARINT" "PB_LTYPE_FIXED64 \<noteq> PB_LTYPE_UVARINT"
      "PB_LTYPE_FIXED64 \<noteq> PB_LTYPE_SVARINT"
    by (simp_all add: pb_type_defs)
  have cc: "(of_nat (unat count) :: size_t) = count" by simp
  consider "PB_LTYPE (ftype field) = PB_LTYPE_FIXED32" | "PB_LTYPE (ftype field) = PB_LTYPE_FIXED64"
    | "PB_LTYPE (ftype field) \<noteq> PB_LTYPE_FIXED32" "PB_LTYPE (ftype field) \<noteq> PB_LTYPE_FIXED64" by blast
  then show ?thesis
  proof cases
    case 1
    then have "\<exists>xs. value_den D md m field p = Some (True, xs) \<and> length xs = 4" for p
      using lt by (simp add: value_den_def Let_def)
    from den_items_const [where f = "value_den D md m field", OF this] d
    have "ok" "length bs = unat count * 4" by (metis Pair_inject option.inject)+
    then show ?thesis using 1 by (simp add: packed_size_def)
  next
    case 2
    then have "\<exists>xs. value_den D md m field p = Some (True, xs) \<and> length xs = 8" for p
      using lt by (simp add: value_den_def Let_def)
    from den_items_const [where f = "value_den D md m field", OF this] d
    have "ok" "length bs = unat count * 8" by (metis Pair_inject option.inject)+
    then show ?thesis using 2 lt by (simp add: packed_size_def)
  next
    case 3
    have "denotes (enc_items (func field) (uint (data_size field)) (unat count) pd) (Some (ok, bs))"
      using denotes_items [where f = "func field", OF f] d by metis
    from denotes_room [OF this good_out_sizing] 3 show ?thesis
      by (auto simp: packed_size_def wrote_def)
  qed
qed

lemma denotes_sized:
  assumes ok: "denotes f (Some (True, bs))"
  shows "denotes (\<lambda>s. if is_NullSink (sink s) then Some (pb_write s [] (of_nat (length bs))) else f s)
    (Some (True, bs))" (is "denotes ?rest _")
proof (rule denotesI)
  fix ok' xs and s :: "'a pb_ostream"
  assume x: "Some (True, bs) = Some (ok', xs)" and s: "good_out s" and r: "room s (length xs)"
  have "?rest s = Some (True, wrote s bs None)"
  proof (cases "is_NullSink (sink s)")
    case True
    then show ?thesis
      using s by (auto simp: pb_write_def wrote_def out_append_def good_out_def
          plain_out_def split: osink.splits)
  next
    case False
    then show ?thesis using denotes_room [OF ok s] r x by auto
  qed
  then show "\<exists>e. ?rest s = Some (ok', wrote s xs e) \<and> (ok' \<longrightarrow> e = None)" using x by simp
next
  fix ok' xs and s :: "'a pb_ostream"
  assume x: "Some (True, bs) = Some (ok', xs)" and s: "good_out s" and r: "\<not> room s (length xs)"
  then have "\<not> room s (length bs)" "\<not> is_NullSink (sink s)" by (auto simp: room_def)
  then show "\<exists>bs' e. prefix bs' xs \<and> room s (length bs') \<and> ?rest s = Some (False, wrote s bs' e)"
    using denotes_full [OF ok s] x by simp
qed

definition packed_body :: "(pb_field \<Rightarrow> addr \<Rightarrow> 'u enc) \<Rightarrow> pb_field \<Rightarrow> addr \<Rightarrow> size_t \<Rightarrow> 'u enc" where
  "packed_body func field pd count s =
     (case packed_size func field pd count of
        None \<Rightarrow> None
      | Some None \<Rightarrow> Some (False, s)
      | Some (Some sz) \<Rightarrow>
          enc_seq (enc_ret (\<lambda>s. pb_encode_varint s sz))
            (\<lambda>s. if is_NullSink (sink s) then Some (pb_write s [] sz)
                 else enc_items (func field) (uint (data_size field)) (unat count) pd s) s)"

lemma denotes_packed:
  assumes f: "\<And>p. denotes (func field p) (value_den D md m field p)" and c: "unat count < 2 ^ 32"
  shows "denotes (packed_body func field pd count)
    (den_delimited (den_items (value_den D md m field) (uint (data_size field)) (unat count) pd))"
    (is "denotes _ (den_delimited ?items)")
proof (cases ?items)
  case None
  then show ?thesis by (simp add: den_delimited_def)
next
  case (Some r)
  then obtain ok bs where i: "?items = Some (ok, bs)" by (cases r) auto
  note ps = packed_size_den [where func = func, OF f c i]
  show ?thesis
  proof (cases "ok \<and> length bs < 2 ^ 63")
    case False
    have "denotes (packed_body func field pd count) den_fail" if "\<not> ok"
      by (rule denotesI)
        (use that in \<open>auto simp: packed_body_def ps den_fail_def wrote_def good_out_def plain_out_def
          intro!: exI [of _ None]\<close>)
    with False show ?thesis by (cases ok) (auto simp: i den_delimited_def)
  next
    case True
    then have "denotes (enc_items (func field) (uint (data_size field)) (unat count) pd) (Some (True, bs))"
      using denotes_items [where f = "func field", OF f] i by metis
    from denotes_enc_seq [OF denotes_varint denotes_sized [OF this]]
    have "denotes (packed_body func field pd count)
        (den_seq (Some (True, varint_bytes (of_nat (length bs)))) (Some (True, bs)))"
      by (rule denotes_ext) (use True in \<open>simp add: packed_body_def ps\<close>)
    then show ?thesis using True by (simp add: i den_delimited_def delimited_def den_seq_def)
  qed
qed

lemma denotes_array:
  assumes f: "\<And>p. denotes (func field p) (value_den D md m field p)" and c: "unat count < 2 ^ 32"
  shows "denotes (encode_array m field pd count func)
    (array_den m field pd (unat count) (value_den D md m))"
proof -
  have u: "count > ucast (array_size field) \<longleftrightarrow> unat (array_size field) < unat count"
    by (simp add: word_less_nat_alt unat_ucast_up)
  have e: "encode_array m field pd count func =
    (if count = 0 then enc_true
     else if PB_ATYPE (ftype field) \<noteq> PB_ATYPE_POINTER \<and> unat (array_size field) < unat count
     then enc_error ''array max size exceeded''
     else if PB_LTYPE (ftype field) \<le> PB_LTYPE_LAST_PACKABLE
     then enc_seq (enc_ret (\<lambda>s. pb_encode_tag s PB_WT_STRING (tag field))) (packed_body func field pd count)
     else enc_items
        (\<lambda>p. enc_seq (enc_ret (\<lambda>s. pb_encode_tag_for_field s field))
           (func field
             (if PB_ATYPE (ftype field) = PB_ATYPE_POINTER
                 \<and> (PB_LTYPE (ftype field) = PB_LTYPE_STRING
                    \<or> PB_LTYPE (ftype field) = PB_LTYPE_BYTES)
              then read_ptr m p else p)))
        (uint (data_size field)) (unat count) pd)"
    by (rule ext)
      (simp add: encode_array_def Let_def u enc_true_def if_distrib [of "func field"]
        packed_body_def [abs_def])
  have z: "count = 0 \<longleftrightarrow> unat count = 0" by (simp add: unat_eq_zero)
  show ?thesis
    unfolding e array_den_def z
    by (intro denotes_if denotes_enc_true denotes_enc_error denotes_enc_seq denotes_tag
        denotes_packed [where func = func] denotes_items denotes_tag_for_field f c)
qed


lemma denotes_basic_field:
  assumes env: "env_denotes env D" and md: "\<And>fds src. denotes (enc fds src) (md fds src)"
  shows "denotes (encode_basic_field n env enc m field pd) (basic_field_den n D md m field pd)"
proof -
  let ?ty = "ftype field" and ?psz = "pd + sint (size_offset field)"
  let ?pd = "if PB_ATYPE ?ty = PB_ATYPE_POINTER then read_ptr m pd else pd"
  let ?func = "PB_ENCODERS env enc m (PB_LTYPE ?ty)"
  let ?one = "enc_seq (enc_ret (\<lambda>s. pb_encode_tag_for_field s field)) (?func field ?pd)"
  let ?oned = "den_seq (field_tag_den field) (value_den D md m field ?pd)"
  let ?def = "pb_check_proto3_default_value n (den_fields D) m field pd"
  have fds: "enc_fields env = den_fields D" using env by (simp add: env_denotes_def)
  have v: "denotes (?func field p) (value_den D md m field p)" for p
    using denotes_value [of env D enc md m field p, OF env md] by simp
  have one: "denotes ?one ?oned"
    by (intro denotes_enc_seq denotes_tag_for_field v)
  have arr: "denotes (encode_array m field ?pd (ucast c) ?func)
      (array_den m field ?pd (unat c) (value_den D md m))" for c :: u32
    using denotes_array [where func = ?func and count = "ucast c", OF v] unat_u32_less [of c]
    by (simp add: unat_ucast_up)
  have h: "PB_HTYPE ?ty = PB_HTYPE_REQUIRED \<or> PB_HTYPE ?ty = PB_HTYPE_OPTIONAL
      \<or> PB_HTYPE ?ty = PB_HTYPE_REPEATED \<or> PB_HTYPE ?ty = PB_HTYPE_ONEOF"
    by (rule htype_cases)
  consider "PB_LTYPE ?ty > PB_LTYPE_FIXED_LENGTH_BYTES"
    | "\<not> PB_LTYPE ?ty > PB_LTYPE_FIXED_LENGTH_BYTES" "PB_HTYPE ?ty = PB_HTYPE_REQUIRED"
    | "\<not> PB_LTYPE ?ty > PB_LTYPE_FIXED_LENGTH_BYTES" "PB_HTYPE ?ty = PB_HTYPE_OPTIONAL"
    | "\<not> PB_LTYPE ?ty > PB_LTYPE_FIXED_LENGTH_BYTES" "PB_HTYPE ?ty = PB_HTYPE_REPEATED"
    | "\<not> PB_LTYPE ?ty > PB_LTYPE_FIXED_LENGTH_BYTES" "PB_HTYPE ?ty = PB_HTYPE_ONEOF"
    using h by blast
  then show ?thesis
  proof cases
    case 1
    then show ?thesis by (simp add: basic_field_den_def Let_def)
  next
    case 2
    have d: "basic_field_den n D md m field pd = (if ?pd = 0 then den_fail else ?oned)"
      using 2 by (simp add: basic_field_den_def Let_def)
    have e: "encode_basic_field n env enc m field pd s =
        (if ?pd = 0 then enc_error ''missing required field'' else ?one) s" for s
      using 2 by (simp add: encode_basic_field_def Let_def htype_distinct)
    show ?thesis
      unfolding d by (rule denotes_ext [OF denotes_if e [symmetric]]) (simp_all add: one denotes_enc_error)
  next
    case 3
    show ?thesis
    proof (cases "size_offset field = 0")
      case True
      show ?thesis
      proof (cases ?def)
        case None
        then show ?thesis using 3 True by (simp add: basic_field_den_def Let_def htype_distinct)
      next
        case (Some def)
        let ?c = "if PB_ATYPE ?ty = PB_ATYPE_POINTER then ?pd \<noteq> 0 else \<not> def"
        have d: "basic_field_den n D md m field pd = (if ?c then ?oned else Some (True, []))"
          using 3 True Some by (simp add: basic_field_den_def Let_def htype_distinct)
        have e: "encode_basic_field n env enc m field pd s = (if ?c then ?one else enc_true) s" for s
          using 3 True Some
          by (simp add: encode_basic_field_def Let_def htype_distinct fds enc_true_def)
        show ?thesis
          unfolding d by (rule denotes_ext [OF denotes_if e [symmetric]]) (simp_all add: one denotes_enc_true)
      qed
    next
      case False
      have d: "basic_field_den n D md m field pd = (if m ?psz \<noteq> 0 then ?oned else Some (True, []))"
        using 3 False by (simp add: basic_field_den_def Let_def htype_distinct)
      have e: "encode_basic_field n env enc m field pd s = (if m ?psz \<noteq> 0 then ?one else enc_true) s" for s
        using 3 False
        by (simp add: encode_basic_field_def Let_def htype_distinct safe_read_bool_def enc_true_def)
      show ?thesis
        unfolding d by (rule denotes_ext [OF denotes_if e [symmetric]]) (simp_all add: one denotes_enc_true)
    qed
  next
    case 4
    let ?count = "if size_offset field \<noteq> 0 then read_u32 m ?psz else array_size field"
    have d: "basic_field_den n D md m field pd = array_den m field ?pd (unat ?count) (value_den D md m)"
      using 4 by (simp add: basic_field_den_def Let_def htype_distinct)
    have e: "encode_basic_field n env enc m field pd s = encode_array m field ?pd (ucast ?count) ?func s" for s
      using 4 by (simp add: encode_basic_field_def Let_def htype_distinct)
    show ?thesis
      unfolding d by (rule denotes_ext [OF arr e [symmetric]])
  next
    case 5
    have d: "basic_field_den n D md m field pd = (if size_offset field = 0 then None
        else if read_u32 m ?psz = tag field then ?oned else Some (True, []))"
      using 5 by (simp add: basic_field_den_def Let_def htype_distinct)
    have e: "encode_basic_field n env enc m field pd s = (if size_offset field = 0 then (\<lambda>s. None)
        else if read_u32 m ?psz = tag field then ?one else enc_true) s" for s
      using 5 by (simp add: encode_basic_field_def Let_def htype_distinct enc_true_def)
    show ?thesis
      unfolding d
      by (rule denotes_ext [OF denotes_if e [symmetric]]) (simp_all add: one denotes_enc_true)
  qed
qed

lemma denotes_field:
  assumes env: "env_denotes env D" and md: "\<And>fds src. denotes (enc fds src) (md fds src)"
  shows "denotes (encode_field n env enc m field pd) (field_den n D md m field pd)"
proof -
  let ?f = "callback_func m pd"
  let ?run = "\<lambda>s. case enc_callback env ?f s field (callback_arg pd) of
       (False, s1) \<Rightarrow> enc_error ''callback error'' s1 | (True, s1) \<Rightarrow> Some (True, s1)"
  have "denotes (enc_ret (\<lambda>s. enc_callback env ?f s field (callback_arg pd)))
      (Some (den_callback D ?f field (callback_arg pd)))"
    using env by (simp add: env_denotes_def)
  then have cb: "denotes ?run (Some (den_callback D ?f field (callback_arg pd)))"
    by (rule denotes_callback)
  have e: "encode_field n env enc m field pd s =
    (if PB_ATYPE (ftype field) = PB_ATYPE_STATIC \<or> PB_ATYPE (ftype field) = PB_ATYPE_POINTER
     then encode_basic_field n env enc m field pd
     else if PB_ATYPE (ftype field) = PB_ATYPE_CALLBACK
     then (if ?f \<noteq> 0 then ?run else enc_true)
     else enc_error ''invalid field type'') s" for s
    by (simp add: encode_field_def encode_callback_field_def Let_def enc_true_def)
  show ?thesis
    unfolding field_den_def
    by (rule denotes_ext [OF _ e [symmetric]])
      (intro denotes_if denotes_basic_field [OF env md] cb denotes_enc_true denotes_enc_error)
qed

lemma denotes_extensions:
  assumes env: "env_denotes env D" and md: "\<And>fds src. denotes (enc fds src) (md fds src)"
  shows "denotes (encode_extensions k n env enc m ext) (extensions_den k n D md m ext)"
proof (induction k arbitrary: ext)
  case 0
  then show ?case by simp
next
  case (Suc k)
  have d: "denotes (default_extension_encoder n env enc m ext) (default_extension_den n D md m ext)"
    using env denotes_field [where enc = enc, OF env md]
    by (auto simp: default_extension_encoder_def [abs_def] default_extension_den_def Let_def env_denotes_def)
  have x: "denotes (enc_ret (\<lambda>s. enc_extension env f s ext)) (Some (den_extension D f ext))" for f
    using env by (simp add: env_denotes_def)
  have e: "encode_extensions (Suc k) n env enc m ext s =
     (if ext = 0 then enc_true
      else enc_seq
          (if ext_type_encode m (ext_type m ext) \<noteq> 0
           then enc_ret (\<lambda>s. enc_extension env (ext_type_encode m (ext_type m ext)) s ext)
           else default_extension_encoder n env enc m ext)
          (encode_extensions k n env enc m (ext_next m ext))) s" for s
    by (simp add: enc_true_def)
  show ?case
    unfolding extensions_den.simps
    by (rule denotes_ext [OF _ e [symmetric]])
      (intro denotes_if denotes_enc_true denotes_enc_seq x d Suc)
qed

lemma denotes_message:
  assumes env: "env_denotes env D"
  shows "denotes (pb_encode n env m fds src) (message_den n D m fds src)"
proof (induction n arbitrary: fds src)
  case 0
  then show ?case by simp
next
  case (Suc n)
  let ?g = "\<lambda>(f, pd). if PB_LTYPE (ftype f) = PB_LTYPE_EXTENSION
      then encode_extension_field n env (pb_encode n env m) m f pd
      else encode_field n env (pb_encode n env m) m f pd"
  have e: "pb_encode (Suc n) env m fds src s = do_all ?g (layout fds src) s" for s
    unfolding pb_encode.simps by (rule iter_begin_layout) simp
  have g: "denotes (?g x) ((\<lambda>(f, pd). if PB_LTYPE (ftype f) = PB_LTYPE_EXTENSION
      then extensions_den n n D (message_den n D m) m (read_ptr m pd)
      else field_den n D (message_den n D m) m f pd) x)" for x
    using denotes_field [where enc = "pb_encode n env m", OF env Suc]
      denotes_extensions [where enc = "pb_encode n env m", OF env Suc]
    by (cases x) (simp add: encode_extension_field_def [abs_def])
  show ?case
    unfolding message_den.simps
    by (rule denotes_ext [OF denotes_do_all [OF g] e [symmetric]])
qed

section \<open>Properties\<close>

text \<open>A message of an int32, a string with its \<^verbatim>\<open>has_\<close> flag and a callback field whose function
  writes the tag and the value 7, at address 1000.\<close>

definition ex_mem :: mem where
  "ex_mem a =
     (if a = 1000 then 150 else if a = 1004 then 1 else if a = 1008 then 104
      else if a = 1009 then 105 else if a = 1016 then 1 else 0)"

definition ex_fields :: "pb_field list" where
  "ex_fields =
     [\<lparr>tag = 1, ftype = 0x01, data_offset = 0, size_offset = 0, data_size = 4, array_size = 0, fptr = 0\<rparr>,
      \<lparr>tag = 2, ftype = 0x17, data_offset = 4, size_offset = - 4, data_size = 8, array_size = 0, fptr = 0\<rparr>,
      \<lparr>tag = 3, ftype = 0x51, data_offset = 0, size_offset = 0, data_size = 16, array_size = 0, fptr = 0\<rparr>]"

definition ex_env :: "unit pb_enc_env" where
  "ex_env =
     \<lparr>enc_fields = (\<lambda>a. []),
      enc_callback = (\<lambda>fn s field arg.
        case pb_encode_tag_for_field s field of
          (False, s1) \<Rightarrow> (False, s1) | (True, s1) \<Rightarrow> pb_encode_varint s1 7),
      enc_extension = (\<lambda>fn s ext. (True, s))\<rparr>"

definition ex_den :: pb_den_env where
  "ex_den =
     \<lparr>den_fields = (\<lambda>a. []),
      den_callback = (\<lambda>fn field arg.
        case wire_type_of field of
          None \<Rightarrow> (False, [])
        | Some wt \<Rightarrow> (True, varint_bytes (tag_word wt (tag field)) @ varint_bytes 7)),
      den_extension = (\<lambda>fn ext. (True, []))\<rparr>"

lemma ex_env_denotes: "env_denotes ex_env ex_den"
proof -
  have "denotes (enc_ret (\<lambda>s. enc_callback ex_env fn s field arg)) (Some (den_callback ex_den fn field arg))"
    for fn field arg
  proof -
    have "denotes (enc_seq (enc_ret (\<lambda>s. pb_encode_tag_for_field s field)) (enc_ret (\<lambda>s. pb_encode_varint s 7)))
        (den_seq (field_tag_den field) (Some (True, varint_bytes 7)))"
      by (intro denotes_enc_seq denotes_tag_for_field denotes_varint)
    then show ?thesis
      by (rule denotes_ext [THEN denotes_cong_den])
        (auto simp: ex_env_def ex_den_def enc_seq_def enc_ret_def den_seq_def field_tag_den_def
          den_fail_def split: prod.split bool.split option.split)
  qed
  moreover have "denotes (enc_ret (\<lambda>s. enc_extension ex_env fn s ext)) (Some (den_extension ex_den fn ext))"
    for fn ext
    using denotes_enc_true by (simp add: ex_env_def ex_den_def enc_ret_def [abs_def] enc_true_def [abs_def])
  ultimately show ?thesis by (simp add: env_denotes_def) (simp add: ex_env_def ex_den_def)
qed

lemma ex_message: "message_den 3 ex_den ex_mem ex_fields 1000 = Some (True, [8, 150, 1, 18, 2, 104, 105, 24, 7])"
  by code_simp

lemma good_buffer: "unat n < 2 ^ 63 \<Longrightarrow> good_out (pb_ostream_from_buffer om buf n)"
  by (simp add: good_out_def plain_out_def pb_ostream_from_buffer_def)

lemma room_buffer: "room (pb_ostream_from_buffer om buf n) k \<longleftrightarrow> k \<le> unat n"
  by (auto simp: room_def pb_ostream_from_buffer_def)

lemma wrote_buffer:
  "wrote (pb_ostream_from_buffer om buf n) bs e =
     \<lparr>sink = BufSink (mem_write om buf bs) (buf + int (length bs)), max_size = n,
      bytes_written = of_nat (length bs), o_errmsg = e\<rparr>"
  by (simp add: wrote_def out_append_def pb_ostream_from_buffer_def)

text \<open>C1: When the buffer has room, \<open>pb_encode\<close> returns true, stores exactly the bytes the message
  stands for at the start of the buffer, changes nothing else, and counts them.\<close>

theorem pb_encode_writes_message:
  assumes "env_denotes env D" "message_den n D m fds src = Some (True, bs)"
    and "length bs \<le> unat bufsize" "unat bufsize < 2 ^ 63"
  shows "pb_encode n env m fds src (pb_ostream_from_buffer om buf bufsize) =
    Some (True, \<lparr>sink = BufSink (mem_write om buf bs) (buf + int (length bs)), max_size = bufsize,
      bytes_written = of_nat (length bs), o_errmsg = None\<rparr>)"
  using denotes_room [OF denotes_message [OF assms(1), of n m fds src, unfolded assms(2)]
      good_buffer [OF assms(4), of om buf]] assms(3)
  by (auto simp: room_buffer wrote_buffer)

theorem pb_encode_writes_message_witness:
  "pb_encode 3 ex_env ex_mem ex_fields 1000 (pb_ostream_from_buffer (\<lambda>a. 0) 5000 16) =
    Some (True, \<lparr>sink = BufSink (mem_write (\<lambda>a. 0) 5000 [8, 150, 1, 18, 2, 104, 105, 24, 7]) 5009,
      max_size = 16, bytes_written = 9, o_errmsg = None\<rparr>)"
  using pb_encode_writes_message [OF ex_env_denotes ex_message, of 16 "\<lambda>a. 0" 5000] by simp

text \<open>C3: Whatever the message and the size of the buffer, also when encoding fails half-way,
  \<open>pb_encode\<close> writes no byte outside the buffer; it returns true exactly when the message has no
  error and its bytes fit.\<close>

theorem pb_encode_within_buffer:
  assumes "env_denotes env D" "message_den n D m fds src = Some (ok, bs)" "unat bufsize < 2 ^ 63"
  shows "\<exists>r s. pb_encode n env m fds src (pb_ostream_from_buffer om buf bufsize) = Some (r, s) \<and>
    (r \<longleftrightarrow> ok \<and> length bs \<le> unat bufsize) \<and> bytes_written s \<le> bufsize \<and>
    (\<exists>m' p. sink s = BufSink m' p \<and> (\<forall>a. a < buf \<or> buf + uint bufsize \<le> a \<longrightarrow> m' a = om a))"
proof -
  let ?s = "pb_ostream_from_buffer om buf bufsize :: 'a pb_ostream"
  have den: "denotes (pb_encode n env m fds src) (Some (ok, bs))"
    using denotes_message [OF assms(1), of n m fds src] by (simp add: assms(2))
  have inside: "bytes_written (wrote ?s xs e) \<le> bufsize \<and>
      (\<exists>m' p. sink (wrote ?s xs e) = BufSink m' p \<and>
        (\<forall>a. a < buf \<or> buf + uint bufsize \<le> a \<longrightarrow> m' a = om a))"
    if "length xs \<le> unat bufsize" for xs e
  proof -
    have "int (length xs) \<le> uint bufsize" unfolding uint_nat using that by (simp only: of_nat_le_iff)
    then have "mem_write om buf xs a = om a" if "a < buf \<or> buf + uint bufsize \<le> a" for a
      using that by (intro mem_write_other) linarith
    then show ?thesis using that by (simp add: wrote_buffer word_le_nat_alt le_unat_uoi [OF that])
  qed
  show ?thesis
  proof (cases "length bs \<le> unat bufsize")
    case True
    then show ?thesis
      using denotes_room [OF den good_buffer [OF assms(3), of om buf]] inside [OF True]
      by (fastforce simp: room_buffer)
  next
    case False
    then obtain xs e where "length xs \<le> unat bufsize" "pb_encode n env m fds src ?s = Some (False, wrote ?s xs e)"
      using denotes_full [OF den good_buffer [OF assms(3), of om buf]] by (auto simp: room_buffer)
    then show ?thesis using inside False by fastforce
  qed
qed

theorem pb_encode_within_buffer_witness:
  "\<exists>r s. pb_encode 3 ex_env ex_mem ex_fields 1000 (pb_ostream_from_buffer (\<lambda>a. 0) 5000 4) = Some (r, s) \<and>
    \<not> r \<and> bytes_written s \<le> 4"
  using pb_encode_within_buffer [OF ex_env_denotes ex_message, of 4 "\<lambda>a. 0" 5000] by auto

text \<open>\<open>pb_get_encoded_size\<close> returns the number of bytes the message has, and reports failure
  exactly when the message has an error.\<close>

lemma pb_get_encoded_size_correct:
  assumes "env_denotes env D" "message_den n D m fds src = Some (ok, bs)"
  shows "pb_get_encoded_size n env m fds src = Some (if ok then Some (of_nat (length bs)) else None)"
proof -
  obtain e where "pb_encode n env m fds src PB_OSTREAM_SIZING = Some (ok, wrote PB_OSTREAM_SIZING bs e)"
    using denotes_room [OF denotes_message [OF assms(1), of n m fds src, unfolded assms(2)] good_out_sizing]
    by auto
  then show ?thesis by (simp add: pb_get_encoded_size_def wrote_def)
qed

text \<open>C27: \<open>pb_encode_delimited\<close> writes the length of the message as a varint and then the
  message.\<close>

theorem pb_encode_delimited_writes:
  assumes "env_denotes env D" "message_den n D m fds src = Some (True, bs)"
    and "length (delimited bs) \<le> unat bufsize" "unat bufsize < 2 ^ 63"
  shows "pb_encode_delimited n env m fds src (pb_ostream_from_buffer om buf bufsize) =
    Some (True, \<lparr>sink = BufSink (mem_write om buf (delimited bs)) (buf + int (length (delimited bs))),
      max_size = bufsize, bytes_written = of_nat (length (delimited bs)), o_errmsg = None\<rparr>)"
proof -
  have "length bs < 2 ^ 63" using assms(3,4) by (simp add: delimited_def)
  then have "denotes (pb_encode_delimited n env m fds src) (Some (True, delimited bs))"
    using denotes_submessage [where enc = "pb_encode n env m", OF denotes_message [OF assms(1)], of fds src]
    by (simp add: assms(2) den_delimited_ok pb_encode_delimited_def [abs_def])
  from denotes_room [OF this good_buffer [OF assms(4), of om buf]] assms(3) show ?thesis
    by (auto simp: room_buffer wrote_buffer)
qed

theorem pb_encode_delimited_writes_witness:
  "pb_encode_delimited 3 ex_env ex_mem ex_fields 1000 (pb_ostream_from_buffer (\<lambda>a. 0) 5000 16) =
    Some (True, \<lparr>sink = BufSink (mem_write (\<lambda>a. 0) 5000 [9, 8, 150, 1, 18, 2, 104, 105, 24, 7]) 5010,
      max_size = 16, bytes_written = 10, o_errmsg = None\<rparr>)"
  using pb_encode_delimited_writes [OF ex_env_denotes ex_message, of 16 "\<lambda>a. 0" 5000]
  by (simp add: delimited_def varint_bytes_def)

end
