(* ===== verification/Pb_Decode.thy ===== *)
theory Pb_Decode
  imports Pb_Istream Pb_Encode
begin

text \<open>
  The message decoder of \<^verbatim>\<open>ios/Pods/nanopb/pb_decode.c\<close>. A decoder maps a state (the input
  stream, the memory the message is stored in, the live heap blocks) to the C function's
  boolean and the state it leaves. \<open>None\<close> is a run the C code gives no meaning to: freeing or
  reallocating a pointer that is not a live block, a call through an entry that the table of
  decoders does not have, a dereferenced \<open>NULL\<close>; or a recursion deeper than the fuel. Addresses
  from 0 up are the program's objects; the stack slot of a call with fuel \<open>n\<close> is below 0.
\<close>

section \<open>State\<close>

record 'u dec_st =
  st_in :: "'u pb_istream"
  st_mem :: mem
  st_blocks :: "addr \<Rightarrow> nat option"

type_synonym 'u dec = "'u dec_st \<Rightarrow> (bool \<times> 'u dec_st) option"

text \<open>What the caller links in: the descriptor arrays by address, the allocator's choice of the
  address of a new block (0 when it has none), and the decode functions of callback fields and
  extensions by address.\<close>

record 'u pb_dec_env =
  dec_fields :: "addr \<Rightarrow> pb_field list"
  dec_alloc :: "(addr \<Rightarrow> nat option) \<Rightarrow> nat \<Rightarrow> addr"
  dec_callback :: "addr \<Rightarrow> pb_field \<Rightarrow> addr \<Rightarrow> 'u dec_st \<Rightarrow> bool \<times> 'u dec_st"
  dec_extension :: "addr \<Rightarrow> addr \<Rightarrow> u32 \<Rightarrow> u32 \<Rightarrow> 'u dec_st \<Rightarrow> bool \<times> 'u dec_st"

definition wr :: "addr \<Rightarrow> byte list \<Rightarrow> 'u dec_st \<Rightarrow> 'u dec_st" where
  "wr p bs st = st\<lparr>st_mem := mem_write (st_mem st) p bs\<rparr>"

definition wr_bool :: "addr \<Rightarrow> bool \<Rightarrow> 'u dec_st \<Rightarrow> 'u dec_st" where
  "wr_bool p b = wr p [if b then 1 else 0]"

definition wr32 :: "addr \<Rightarrow> u32 \<Rightarrow> 'u dec_st \<Rightarrow> 'u dec_st" where
  "wr32 p v = wr p (le_bytes 4 v)"

definition wr_ptr :: "addr \<Rightarrow> addr \<Rightarrow> 'u dec_st \<Rightarrow> 'u dec_st" where
  "wr_ptr p a = wr p (le_bytes 8 (word_of_int a :: u64))"

definition rd32 :: "addr \<Rightarrow> 'u dec_st \<Rightarrow> u32" where
  "rd32 p st = read_u32 (st_mem st) p"

definition rd_ptr :: "addr \<Rightarrow> 'u dec_st \<Rightarrow> addr" where
  "rd_ptr p st = read_ptr (st_mem st) p"

definition dec_seq :: "'u dec \<Rightarrow> 'u dec \<Rightarrow> 'u dec" where
  \<comment> \<open>\<^verbatim>\<open>if (!f(stream)) return false; g(stream)\<close>\<close>
  "dec_seq f g st =
     (case f st of
        None \<Rightarrow> None
      | Some (ok, st1) \<Rightarrow> if ok then g st1 else Some (False, st1))"

definition dec_do :: "('u dec_st \<Rightarrow> 'u dec_st) \<Rightarrow> 'u dec" where
  "dec_do f st = Some (True, f st)"

definition dec_error :: "string \<Rightarrow> 'u dec" where
  "dec_error msg st = Some (False, st\<lparr>st_in := i_error (st_in st) msg\<rparr>)"

definition dec_in :: "('u pb_istream \<Rightarrow> 'a option \<times> 'u pb_istream) \<Rightarrow> ('a \<Rightarrow> 'u dec) \<Rightarrow> 'u dec" where
  \<comment> \<open>\<^verbatim>\<open>if (!get(stream, &x)) return false; k(x)\<close>\<close>
  "dec_in get k st =
     (case get (st_in st) of
        (None, s) \<Rightarrow> Some (False, st\<lparr>st_in := s\<rparr>)
      | (Some x, s) \<Rightarrow> k x (st\<lparr>st_in := s\<rparr>))"

definition dec_stream :: "('u pb_istream \<Rightarrow> bool \<times> 'u pb_istream) \<Rightarrow> 'u dec" where
  "dec_stream f st = (case f (st_in st) of (ok, s) \<Rightarrow> Some (ok, st\<lparr>st_in := s\<rparr>))"

definition dec_read :: "addr \<Rightarrow> size_t \<Rightarrow> 'u dec" where
  \<comment> \<open>\<^verbatim>\<open>pb_read(stream, dest, count)\<close>\<close>
  "dec_read dest count st =
     (case pb_read (st_in st) False count of
        (ok, bs, s) \<Rightarrow> Some (ok, wr dest bs (st\<lparr>st_in := s\<rparr>)))"

text \<open>Opening a substream, decoding from it and closing it; \<open>after\<close> is what the source does between
  decoding and closing.\<close>

definition dec_close :: "'u pb_istream \<Rightarrow> bool \<Rightarrow> 'u dec" where
  "dec_close parent status st =
     (case pb_close_string_substream parent (st_in st) of
        (ok, s) \<Rightarrow> Some (ok \<and> status, st\<lparr>st_in := s\<rparr>))"

definition dec_sub :: "('u pb_istream \<Rightarrow> 'u dec) \<Rightarrow> 'u dec" where
  \<comment> \<open>\<open>body\<close> is given the parent as the opening leaves it\<close>
  "dec_sub body st =
     (case pb_make_string_substream (st_in st) of
        (None, s) \<Rightarrow> Some (False, st\<lparr>st_in := s\<rparr>)
      | (Some sub, s) \<Rightarrow> body s (st\<lparr>st_in := sub\<rparr>))"

section \<open>Heap\<close>

definition pb_free :: "addr \<Rightarrow> 'u dec_st \<Rightarrow> 'u dec_st option" where
  "pb_free p st =
     (if p = 0 then Some st
      else if st_blocks st p = None then None
      else Some (st\<lparr>st_blocks := (st_blocks st)(p := None)\<rparr>))"

definition pb_realloc :: "'u pb_dec_env \<Rightarrow> addr \<Rightarrow> size_t \<Rightarrow> 'u dec_st \<Rightarrow> (addr \<times> 'u dec_st) option" where
  "pb_realloc env p sz st =
     (if p \<noteq> 0 \<and> st_blocks st p = None then None
      else
        let rest = (if p = 0 then st_blocks st else (st_blocks st)(p := None));
            old = (if p = 0 then [] else mem_read (st_mem st) p (min (the (st_blocks st p)) (unat sz)));
            q = dec_alloc env rest (unat sz)
        in if q = 0 then Some (0, st)
           else Some (q, (wr q old st)\<lparr>st_blocks := rest(q := Some (unat sz))\<rparr>))"

definition allocate_field :: "'u pb_dec_env \<Rightarrow> addr \<Rightarrow> size_t \<Rightarrow> size_t \<Rightarrow> 'u dec" where
  "allocate_field env pd dsz asz st =
     (if dsz = 0 \<or> asz = 0 then dec_error ''invalid size'' st
      else if (dsz \<ge> 0x100000000 \<or> asz \<ge> 0x100000000) \<and> - 1 div asz < dsz
      then dec_error ''size too large'' st
      else
        (case pb_realloc env (rd_ptr pd st) (asz * dsz) st of
           None \<Rightarrow> None
         | Some (q, st1) \<Rightarrow>
             if q = 0 then dec_error ''realloc failed'' st1 else Some (True, wr_ptr pd q st1)))"

section \<open>Field decoders\<close>

definition pb_dec_bool :: "pb_field \<Rightarrow> addr \<Rightarrow> 'u dec" where
  "pb_dec_bool field dest = dec_in pb_decode_varint32 (\<lambda>v. dec_do (wr_bool dest (v \<noteq> 0)))"

text \<open>The assignments \<^verbatim>\<open>clamped = *(T*)dest = (T)value\<close> by field size, and the comparison that
  follows them.\<close>

definition store_checked :: "addr \<Rightarrow> byte list \<Rightarrow> u64 \<Rightarrow> u64 \<Rightarrow> 'u dec" where
  "store_checked dest bs clamped v =
     dec_seq (dec_do (wr dest bs)) (if clamped \<noteq> v then dec_error ''integer too large'' else dec_do id)"

definition store_signed :: "pb_size_t \<Rightarrow> addr \<Rightarrow> u64 \<Rightarrow> 'u dec" where
  "store_signed sz dest v =
     (if sz = 8 then store_checked dest (le_bytes 8 v) v v
      else if sz = 4 then store_checked dest (le_bytes 4 (ucast v :: 32 word)) (scast (ucast v :: 32 word)) v
      else if sz = 2 then store_checked dest (le_bytes 2 (ucast v :: 16 word)) (scast (ucast v :: 16 word)) v
      else if sz = 1 then store_checked dest (le_bytes 1 (ucast v :: 8 word)) (scast (ucast v :: 8 word)) v
      else dec_error ''invalid data_size'')"

definition store_unsigned :: "pb_size_t \<Rightarrow> addr \<Rightarrow> u64 \<Rightarrow> 'u dec" where
  "store_unsigned sz dest v =
     (if sz = 8 then store_checked dest (le_bytes 8 v) v v
      else if sz = 4 then store_checked dest (le_bytes 4 (ucast v :: 32 word)) (ucast (ucast v :: 32 word)) v
      else if sz = 2 then store_checked dest (le_bytes 2 (ucast v :: 16 word)) (ucast (ucast v :: 16 word)) v
      else if sz = 1 then store_checked dest (le_bytes 1 (ucast v :: 8 word)) (ucast (ucast v :: 8 word)) v
      else dec_error ''invalid data_size'')"

definition pb_dec_varint :: "pb_field \<Rightarrow> addr \<Rightarrow> 'u dec" where
  "pb_dec_varint field dest =
     dec_in pb_decode_varint
       (\<lambda>v. store_signed (data_size field) dest
              (if data_size field = 8 then v else scast (ucast v :: 32 word)))"

definition pb_dec_uvarint :: "pb_field \<Rightarrow> addr \<Rightarrow> 'u dec" where
  "pb_dec_uvarint field dest = dec_in pb_decode_varint (store_unsigned (data_size field) dest)"

definition pb_dec_svarint :: "pb_field \<Rightarrow> addr \<Rightarrow> 'u dec" where
  "pb_dec_svarint field dest = dec_in pb_decode_svarint (store_signed (data_size field) dest)"

definition pb_dec_fixed32 :: "pb_field \<Rightarrow> addr \<Rightarrow> 'u dec" where
  "pb_dec_fixed32 field dest = dec_in pb_decode_fixed32 (\<lambda>v. dec_do (wr dest (le_bytes 4 v)))"

definition pb_dec_fixed64 :: "pb_field \<Rightarrow> addr \<Rightarrow> 'u dec" where
  "pb_dec_fixed64 field dest = dec_in pb_decode_fixed64 (\<lambda>v. dec_do (wr dest (le_bytes 8 v)))"

definition pb_dec_bytes :: "'u pb_dec_env \<Rightarrow> pb_field \<Rightarrow> addr \<Rightarrow> 'u dec" where
  "pb_dec_bytes env field dest =
     dec_in pb_decode_varint32
       (\<lambda>sz.
          let alloc_size = PB_BYTES_ARRAY_T_ALLOCSIZE sz;
              store = (\<lambda>bdest. dec_seq (dec_do (wr32 bdest sz)) (dec_read (bytes_data bdest) (ucast sz)))
          in if sz > PB_SIZE_MAX then dec_error ''bytes overflow''
             else if ucast sz > alloc_size then dec_error ''size too large''
             else if PB_ATYPE (ftype field) = PB_ATYPE_POINTER
             then dec_seq (allocate_field env dest alloc_size 1) (\<lambda>st. store (rd_ptr dest st) st)
             else if alloc_size > ucast (data_size field) then dec_error ''bytes overflow''
             else store dest)"

definition pb_dec_string :: "'u pb_dec_env \<Rightarrow> pb_field \<Rightarrow> addr \<Rightarrow> 'u dec" where
  "pb_dec_string env field dest =
     dec_in pb_decode_varint32
       (\<lambda>sz.
          let alloc_size = ucast (sz + 1) :: size_t;
              store = (\<lambda>d st.
                case dec_read d (ucast sz) st of
                  None \<Rightarrow> None
                | Some (status, st1) \<Rightarrow> Some (status, wr (d + uint sz) [0] st1))
          in if alloc_size < ucast sz then dec_error ''size too large''
             else if PB_ATYPE (ftype field) = PB_ATYPE_POINTER
             then dec_seq (allocate_field env dest alloc_size 1) (\<lambda>st. store (rd_ptr dest st) st)
             else if alloc_size > ucast (data_size field) then dec_error ''string overflow''
             else store dest)"

definition pb_dec_fixed_length_bytes :: "pb_field \<Rightarrow> addr \<Rightarrow> 'u dec" where
  "pb_dec_fixed_length_bytes field dest =
     dec_in pb_decode_varint32
       (\<lambda>sz.
          if sz > PB_SIZE_MAX then dec_error ''bytes overflow''
          else if sz = 0 then dec_do (wr dest (replicate (unat (data_size field)) 0))
          else if sz \<noteq> data_size field then dec_error ''incorrect fixed length bytes size''
          else dec_read dest (ucast (data_size field)))"

text \<open>\<open>decode\<close> and \<open>noinit\<close> are \<open>pb_decode\<close> and \<open>pb_decode_noinit\<close> on a descriptor array and a
  structure.\<close>

definition pb_dec_submessage ::
    "'u pb_dec_env \<Rightarrow> (pb_field list \<Rightarrow> addr \<Rightarrow> 'u dec) \<Rightarrow> (pb_field list \<Rightarrow> addr \<Rightarrow> 'u dec)
      \<Rightarrow> pb_field \<Rightarrow> addr \<Rightarrow> 'u dec" where
  "pb_dec_submessage env decode noinit field dest =
     dec_sub
       (\<lambda>parent st.
          if fptr field = 0 then dec_error ''invalid field descriptor'' (st\<lparr>st_in := parent\<rparr>)
          else
            (case (if PB_HTYPE (ftype field) = PB_HTYPE_REPEATED then decode else noinit)
                    (dec_fields env (fptr field)) dest st of
               None \<Rightarrow> None
             | Some (status, st1) \<Rightarrow> dec_close parent status st1))"

definition PB_DECODERS ::
    "'u pb_dec_env \<Rightarrow> (pb_field list \<Rightarrow> addr \<Rightarrow> 'u dec) \<Rightarrow> (pb_field list \<Rightarrow> addr \<Rightarrow> 'u dec)
      \<Rightarrow> byte \<Rightarrow> pb_field \<Rightarrow> addr \<Rightarrow> 'u dec" where
  "PB_DECODERS env decode noinit lt =
     (if lt = PB_LTYPE_BOOL then pb_dec_bool
      else if lt = PB_LTYPE_VARINT then pb_dec_varint
      else if lt = PB_LTYPE_UVARINT then pb_dec_uvarint
      else if lt = PB_LTYPE_SVARINT then pb_dec_svarint
      else if lt = PB_LTYPE_FIXED32 then pb_dec_fixed32
      else if lt = PB_LTYPE_FIXED64 then pb_dec_fixed64
      else if lt = PB_LTYPE_BYTES then pb_dec_bytes env
      else if lt = PB_LTYPE_STRING then pb_dec_string env
      else if lt = PB_LTYPE_SUBMESSAGE then pb_dec_submessage env decode noinit
      else if lt = PB_LTYPE_FIXED_LENGTH_BYTES then pb_dec_fixed_length_bytes
      else (\<lambda>field dest st. None))"

end
