(* ===== verification/Pb_Decode_Message.thy ===== *)
theory Pb_Decode_Message
  imports Pb_Decode
begin

text \<open>
  Fields and messages of \<^verbatim>\<open>ios/Pods/nanopb/pb_decode.c\<close>: defaults, release, the decoders of
  static, pointer, callback and extension fields, and the loop of \<open>pb_decode_noinit\<close>. The
  recursion through submessages is closed by fuel; loops that a corrupted extension list or a
  callback can keep from ending take fuel as well.
\<close>

text \<open>A \<^verbatim>\<open>void\<close> function on the state inside an iterator loop.\<close>

definition void_do_while ::
    "(pb_field_iter \<Rightarrow> 'u dec_st \<Rightarrow> 'u dec_st option) \<Rightarrow> pb_field_iter \<Rightarrow> 'u dec_st \<Rightarrow> 'u dec_st option" where
  "void_do_while f it st = map_option snd (iter_do_while (\<lambda>it st. map_option (Pair True) (f it st)) it st)"

section \<open>Extensions and defaults\<close>

definition iter_from_extension :: "'u pb_dec_env \<Rightarrow> mem \<Rightarrow> addr \<Rightarrow> pb_field_iter" where
  "iter_from_extension env m ext =
     (let fds = dec_fields env (ext_type_arg m (ext_type m ext));
          it = snd (pb_field_iter_begin fds (ext_dest m ext))
      in it\<lparr>pData := (if PB_ATYPE (ftype (field_at fds 0)) = PB_ATYPE_POINTER
                      then ext_dest_addr ext else ext_dest m ext),
            pSize := ext_found_addr ext\<rparr>)"

text \<open>A walk along an extension list with an action on each entry.\<close>

primrec each_extension :: "nat \<Rightarrow> (addr \<Rightarrow> 'u dec_st \<Rightarrow> 'u dec_st option) \<Rightarrow> addr \<Rightarrow> 'u dec_st \<Rightarrow> 'u dec_st option" where
  "each_extension 0 f ext st = None"
| "each_extension (Suc k) f ext st =
     (if ext = 0 then Some st
      else
        (case f ext st of
           None \<Rightarrow> None
         | Some st1 \<Rightarrow> each_extension k f (ext_next (st_mem st1) ext) st1))"

definition message_defaults ::
    "(pb_field_iter \<Rightarrow> 'u dec_st \<Rightarrow> 'u dec_st option) \<Rightarrow> pb_field list \<Rightarrow> addr \<Rightarrow> 'u dec_st \<Rightarrow> 'u dec_st option" where
  "message_defaults set_field fds dest st =
     (case pb_field_iter_begin fds dest of
        (False, it) \<Rightarrow> Some st
      | (True, it) \<Rightarrow> void_do_while set_field it st)"

primrec pb_field_set_to_default ::
    "nat \<Rightarrow> 'u pb_dec_env \<Rightarrow> pb_field_iter \<Rightarrow> 'u dec_st \<Rightarrow> 'u dec_st option" where
  "pb_field_set_to_default 0 env it st = None"
| "pb_field_set_to_default (Suc n) env it st =
     (let f = cur it; ty = ftype f in
      if PB_LTYPE ty = PB_LTYPE_EXTENSION then
        each_extension n
          (\<lambda>ext st. let st1 = wr_bool (ext_found_addr ext) False st
                   in pb_field_set_to_default n env (iter_from_extension env (st_mem st1) ext) st1)
          (rd_ptr (pData it) st) st
      else if PB_ATYPE ty = PB_ATYPE_STATIC then
        (let init_data = (\<lambda>st.
           if PB_LTYPE ty = PB_LTYPE_SUBMESSAGE
           then message_defaults (pb_field_set_to_default n env) (dec_fields env (fptr f)) (pData it) st
           else if fptr f \<noteq> 0
           then Some (wr (pData it) (mem_read (st_mem st) (fptr f) (unat (data_size f))) st)
           else Some (wr (pData it) (replicate (unat (data_size f)) 0) st))
         in if PB_HTYPE ty = PB_HTYPE_OPTIONAL \<and> pSize it \<noteq> pData it
            then init_data (wr_bool (pSize it) False st)
            else if PB_HTYPE ty = PB_HTYPE_REPEATED \<or> PB_HTYPE ty = PB_HTYPE_ONEOF
            then Some (wr32 (pSize it) 0 st)
            else init_data st)
      else if PB_ATYPE ty = PB_ATYPE_POINTER then
        (let st1 = wr_ptr (pData it) 0 st in
         if PB_HTYPE ty = PB_HTYPE_REPEATED \<or> PB_HTYPE ty = PB_HTYPE_ONEOF
         then Some (wr32 (pSize it) 0 st1) else Some st1)
      else Some st)"

definition pb_message_set_to_defaults ::
    "nat \<Rightarrow> 'u pb_dec_env \<Rightarrow> pb_field list \<Rightarrow> addr \<Rightarrow> 'u dec_st \<Rightarrow> 'u dec_st option" where
  "pb_message_set_to_defaults n env = message_defaults (pb_field_set_to_default n env)"

section \<open>Release\<close>

definition release_message ::
    "(pb_field_iter \<Rightarrow> 'u dec_st \<Rightarrow> 'u dec_st option) \<Rightarrow> pb_field list \<Rightarrow> addr \<Rightarrow> 'u dec_st \<Rightarrow> 'u dec_st option" where
  "release_message release_field fds dest st =
     (if dest = 0 then Some st
      else
        (case pb_field_iter_begin fds dest of
           (False, it) \<Rightarrow> Some st
         | (True, it) \<Rightarrow> void_do_while release_field it st))"

primrec release_items ::
    "nat \<Rightarrow> (addr \<Rightarrow> 'u dec_st \<Rightarrow> 'u dec_st option) \<Rightarrow> int \<Rightarrow> addr \<Rightarrow> 'u dec_st \<Rightarrow> 'u dec_st option" where
  "release_items 0 f step p st = Some st"
| "release_items (Suc k) f step p st =
     (case f p st of None \<Rightarrow> None | Some st1 \<Rightarrow> release_items k f step (p + step) st1)"

definition free_entry :: "addr \<Rightarrow> 'u dec_st \<Rightarrow> 'u dec_st option" where
  "free_entry p st = map_option (wr_ptr p 0) (pb_free (rd_ptr p st) st)"

text \<open>The three parts of \<open>pb_release_single_field\<close> after its guard: what is inside the field, the
  entries of a pointer array, the field's own block.\<close>

definition release_pointer :: "pb_field_iter \<Rightarrow> 'u dec_st \<Rightarrow> 'u dec_st option" where
  "release_pointer it st =
     (let ty = ftype (cur it);
          entries =
            (if PB_HTYPE ty = PB_HTYPE_REPEATED
                \<and> (PB_LTYPE ty = PB_LTYPE_STRING \<or> PB_LTYPE ty = PB_LTYPE_BYTES)
             then (let count = unat (rd32 (pSize it) st); arr = rd_ptr (pData it) st
                   in if arr = 0 \<and> count > 0 then None else release_items count free_entry 8 arr st)
             else Some st)
      in case entries of
           None \<Rightarrow> None
         | Some st1 \<Rightarrow>
             let st2 = (if PB_HTYPE ty = PB_HTYPE_REPEATED then wr32 (pSize it) 0 st1 else st1)
             in free_entry (pData it) st2)"

definition release_count :: "pb_field_iter \<Rightarrow> 'u dec_st \<Rightarrow> u32" where
  "release_count it st =
     (let ty = ftype (cur it) in
      if PB_HTYPE ty = PB_HTYPE_REPEATED then
        (let count = (if PB_ATYPE ty = PB_ATYPE_STATIC \<and> pSize it = pData it
                      then array_size (cur it) else rd32 (pSize it) st)
         in if PB_ATYPE ty = PB_ATYPE_STATIC \<and> count > array_size (cur it)
            then array_size (cur it) else count)
      else 1)"

primrec pb_release_single_field ::
    "nat \<Rightarrow> 'u pb_dec_env \<Rightarrow> pb_field_iter \<Rightarrow> 'u dec_st \<Rightarrow> 'u dec_st option" where
  "pb_release_single_field 0 env it st = None"
| "pb_release_single_field (Suc n) env it st =
     (let f = cur it; ty = ftype f in
      if PB_HTYPE ty = PB_HTYPE_ONEOF \<and> rd32 (pSize it) st \<noteq> tag f then Some st
      else
        (case
           (if PB_LTYPE ty = PB_LTYPE_EXTENSION then
              each_extension n
                (\<lambda>ext st. pb_release_single_field n env (iter_from_extension env (st_mem st) ext) st)
                (rd_ptr (pData it) st) st
            else if PB_LTYPE ty = PB_LTYPE_SUBMESSAGE \<and> PB_ATYPE ty \<noteq> PB_ATYPE_CALLBACK then
              (let item = (if PB_ATYPE ty = PB_ATYPE_POINTER then rd_ptr (pData it) st else pData it)
               in if item = 0 then Some st
                  else release_items (unat (release_count it st))
                    (release_message (pb_release_single_field n env) (dec_fields env (fptr f)))
                    (uint (data_size f)) item st)
            else Some st) of
           None \<Rightarrow> None
         | Some st1 \<Rightarrow>
             if PB_ATYPE ty = PB_ATYPE_POINTER then release_pointer it st1 else Some st1))"

definition pb_release :: "nat \<Rightarrow> 'u pb_dec_env \<Rightarrow> pb_field list \<Rightarrow> addr \<Rightarrow> 'u dec_st \<Rightarrow> 'u dec_st option" where
  "pb_release n env = release_message (pb_release_single_field n env)"

definition pb_release_union_field ::
    "nat \<Rightarrow> 'u pb_dec_env \<Rightarrow> pb_field_iter \<Rightarrow> 'u dec_st \<Rightarrow> ((bool \<times> pb_field_iter) \<times> 'u dec_st) option" where
  "pb_release_union_field n env it st =
     (let old_tag = rd32 (pSize it) st; new_tag = tag (cur it);
          fail = (\<lambda>msg it st. Some ((False, it), st\<lparr>st_in := i_error (st_in st) msg\<rparr>))
      in
      if old_tag = 0 \<or> old_tag = new_tag then Some ((True, it), st)
      else
        (case pb_field_iter_find it old_tag of
           None \<Rightarrow> None
         | Some (False, it1) \<Rightarrow> fail ''invalid union tag'' it1 st
         | Some (True, it1) \<Rightarrow>
             (case pb_release_single_field n env it1 st of
                None \<Rightarrow> None
              | Some st1 \<Rightarrow>
                  (case pb_field_iter_find it1 new_tag of
                     None \<Rightarrow> None
                   | Some (False, it2) \<Rightarrow> fail ''iterator error'' it2 st1
                   | Some (True, it2) \<Rightarrow> Some ((True, it2), st1)))))"

section \<open>Static fields\<close>

text \<open>A table of decoders and the defaults of a message, as the enclosing fuel gives them.\<close>

record 'u dec_rec =
  r_func :: "byte \<Rightarrow> pb_field \<Rightarrow> addr \<Rightarrow> 'u dec"
  r_defaults :: "pb_field list \<Rightarrow> addr \<Rightarrow> 'u dec_st \<Rightarrow> 'u dec_st option"
  r_release :: "pb_field_iter \<Rightarrow> 'u dec_st \<Rightarrow> 'u dec_st option"
  r_union :: "pb_field_iter \<Rightarrow> 'u dec_st \<Rightarrow> ((bool \<times> pb_field_iter) \<times> 'u dec_st) option"

definition item_addr :: "pb_field_iter \<Rightarrow> addr \<Rightarrow> u32 \<Rightarrow> addr" where
  \<comment> \<open>\<^verbatim>\<open>base + data_size * size\<close>, the product in \<^verbatim>\<open>pb_size_t\<close>\<close>
  "item_addr it base sz = base + uint (data_size (cur it) * sz)"

text \<open>\<^verbatim>\<open>while (substream.bytes_left > 0 && *size < array_size)\<close>; the boolean is \<^verbatim>\<open>status\<close>.\<close>

primrec static_packed_loop :: "nat \<Rightarrow> (addr \<Rightarrow> 'u dec) \<Rightarrow> pb_field_iter \<Rightarrow> 'u dec" where
  "static_packed_loop 0 func it st = None"
| "static_packed_loop (Suc k) func it st =
     (if bytes_left (st_in st) > 0 \<and> rd32 (pSize it) st < array_size (cur it) then
        (case func (item_addr it (pData it) (rd32 (pSize it) st)) st of
           None \<Rightarrow> None
         | Some (ok, st1) \<Rightarrow>
             if \<not> ok then Some (False, st1)
             else static_packed_loop k func it (wr32 (pSize it) (rd32 (pSize it) st1 + 1) st1))
      else Some (True, st))"

definition clear_submessage :: "'u pb_dec_env \<Rightarrow> 'u dec_rec \<Rightarrow> pb_field \<Rightarrow> addr \<Rightarrow> 'u dec" where
  \<comment> \<open>\<^verbatim>\<open>memset(p, 0, data_size); pb_message_set_to_defaults(ptr, p)\<close>\<close>
  "clear_submessage env r field p st =
     map_option (Pair True)
       (r_defaults r (dec_fields env (fptr field)) p (wr p (replicate (unat (data_size field)) 0) st))"

definition decode_static_field :: "'u pb_dec_env \<Rightarrow> 'u dec_rec \<Rightarrow> u32 \<Rightarrow> pb_field_iter \<Rightarrow> 'u dec" where
  "decode_static_field env r wire_type it =
     (let f = cur it; ty = ftype f; func = r_func r (PB_LTYPE ty) f in
      if PB_HTYPE ty = PB_HTYPE_REQUIRED then func (pData it)
      else if PB_HTYPE ty = PB_HTYPE_OPTIONAL then
        dec_seq (if pSize it \<noteq> pData it then dec_do (wr_bool (pSize it) True) else dec_do id)
          (func (pData it))
      else if PB_HTYPE ty = PB_HTYPE_REPEATED then
        (if wire_type = PB_WT_STRING \<and> PB_LTYPE ty \<le> PB_LTYPE_LAST_PACKABLE then
           dec_sub
             (\<lambda>parent st.
                case static_packed_loop (Suc (unat (bytes_left (st_in st)))) func it st of
                  None \<Rightarrow> None
                | Some (status, st1) \<Rightarrow>
                    if bytes_left (st_in st1) \<noteq> 0
                    then dec_error ''array overflow'' (st1\<lparr>st_in := parent\<rparr>)
                    else dec_close parent status st1)
         else
           (\<lambda>st.
              let sz = rd32 (pSize it) st; st1 = wr32 (pSize it) (sz + 1) st in
              if sz \<ge> array_size f then dec_error ''array overflow'' st1
              else func (item_addr it (pData it) sz) st1))
      else if PB_HTYPE ty = PB_HTYPE_ONEOF then
        dec_seq (dec_do (wr32 (pSize it) (tag f)))
          (dec_seq
             (if PB_LTYPE ty = PB_LTYPE_SUBMESSAGE then clear_submessage env r f (pData it) else dec_do id)
             (func (pData it)))
      else dec_error ''invalid field type'')"

section \<open>Pointer fields\<close>

definition initialize_pointer_field :: "'u pb_dec_env \<Rightarrow> 'u dec_rec \<Rightarrow> pb_field \<Rightarrow> addr \<Rightarrow> 'u dec" where
  "initialize_pointer_field env r field p =
     (if PB_LTYPE (ftype field) = PB_LTYPE_STRING \<or> PB_LTYPE (ftype field) = PB_LTYPE_BYTES
      then dec_do (wr_ptr p 0)
      else if PB_LTYPE (ftype field) = PB_LTYPE_SUBMESSAGE then clear_submessage env r field p
      else dec_do id)"

text \<open>The packed loop; it also returns the parent stream, whose message it may set.\<close>

primrec pointer_packed_loop ::
    "nat \<Rightarrow> 'u pb_dec_env \<Rightarrow> 'u dec_rec \<Rightarrow> pb_field_iter \<Rightarrow> size_t \<Rightarrow> 'u pb_istream \<Rightarrow> 'u dec_st
      \<Rightarrow> ((bool \<times> 'u pb_istream) \<times> 'u dec_st) option" where
  "pointer_packed_loop 0 env r it allocated parent st = None"
| "pointer_packed_loop (Suc k) env r it allocated parent st =
     (let f = cur it; sz = rd32 (pSize it) st in
      if bytes_left (st_in st) = 0 then Some ((True, parent), st)
      else if sz = PB_SIZE_MAX
      then Some ((False, parent\<lparr>i_errmsg := Some ''too many array entries''\<rparr>), st)
      else if ucast sz + 1 > allocated \<and> data_size f = 0 then None
      else
        let grow = ucast sz + 1 > allocated;
            remain = (bytes_left (st_in st) - 1) div ucast (data_size f) + 1;
            allocated1 =
              (if grow then (if remain < ucast PB_SIZE_MAX - allocated then allocated + remain else allocated + 1)
               else allocated)
        in
        (case (if grow then allocate_field env (pData it) (ucast (data_size f)) allocated1 st else Some (True, st)) of
           None \<Rightarrow> None
         | Some (False, st1) \<Rightarrow> Some ((False, parent), st1)
         | Some (True, st1) \<Rightarrow>
             (let item = item_addr it (rd_ptr (pData it) st1) sz in
              case dec_seq (initialize_pointer_field env r f item) (r_func r (PB_LTYPE (ftype f)) f item) st1 of
                None \<Rightarrow> None
              | Some (False, st2) \<Rightarrow> Some ((False, parent), st2)
              | Some (True, st2) \<Rightarrow>
                  pointer_packed_loop k env r it allocated1 parent
                    (wr32 (pSize it) (rd32 (pSize it) st2 + 1) st2))))"

definition decode_pointer_field :: "'u pb_dec_env \<Rightarrow> 'u dec_rec \<Rightarrow> u32 \<Rightarrow> pb_field_iter \<Rightarrow> 'u dec" where
  "decode_pointer_field env r wire_type it =
     (let f = cur it; ty = ftype f; func = r_func r (PB_LTYPE ty) f in
      if PB_HTYPE ty = PB_HTYPE_REQUIRED \<or> PB_HTYPE ty = PB_HTYPE_OPTIONAL \<or> PB_HTYPE ty = PB_HTYPE_ONEOF then
        dec_seq
          (\<lambda>st. if PB_LTYPE ty = PB_LTYPE_SUBMESSAGE \<and> rd_ptr (pData it) st \<noteq> 0
                then map_option (Pair True) (r_release r it st) else Some (True, st))
          (dec_seq
             (if PB_HTYPE ty = PB_HTYPE_ONEOF then dec_do (wr32 (pSize it) (tag f)) else dec_do id)
             (if PB_LTYPE ty = PB_LTYPE_STRING \<or> PB_LTYPE ty = PB_LTYPE_BYTES then func (pData it)
              else
                dec_seq (allocate_field env (pData it) (ucast (data_size f)) 1)
                  (\<lambda>st. dec_seq (initialize_pointer_field env r f (rd_ptr (pData it) st))
                         (\<lambda>st. func (rd_ptr (pData it) st) st) st)))
      else if PB_HTYPE ty = PB_HTYPE_REPEATED then
        (if wire_type = PB_WT_STRING \<and> PB_LTYPE ty \<le> PB_LTYPE_LAST_PACKABLE then
           (\<lambda>st0. dec_sub
             (\<lambda>parent st.
                case pointer_packed_loop (Suc (unat (bytes_left (st_in st)))) env r it
                       (ucast (rd32 (pSize it) st0)) parent st of
                  None \<Rightarrow> None
                | Some ((status, parent1), st1) \<Rightarrow> dec_close parent1 status st1) st0)
         else
           (\<lambda>st.
              let sz = rd32 (pSize it) st in
              if sz = PB_SIZE_MAX then dec_error ''too many array entries'' st
              else
                dec_seq (allocate_field env (pData it) (ucast (data_size f)) (ucast (sz + 1)))
                  (\<lambda>st.
                     let item = item_addr it (rd_ptr (pData it) st) sz in
                     dec_seq (dec_do (wr32 (pSize it) (rd32 (pSize it) st + 1)))
                       (dec_seq (initialize_pointer_field env r f item) (func item)) st) st))
      else dec_error ''invalid field type'')"

section \<open>Callback fields\<close>

text \<open>\<^verbatim>\<open>do { if (!decode(...)) error; } while (substream.bytes_left)\<close>; a callback that reads nothing
  keeps it going for ever.\<close>

primrec callback_loop :: "nat \<Rightarrow> ('u dec_st \<Rightarrow> bool \<times> 'u dec_st) \<Rightarrow> 'u dec" where
  "callback_loop 0 call st = None"
| "callback_loop (Suc k) call st =
     (case call st of
        (False, st1) \<Rightarrow> Some (False, st1)
      | (True, st1) \<Rightarrow> if bytes_left (st_in st1) \<noteq> 0 then callback_loop k call st1 else Some (True, st1))"

definition decode_callback_field :: "'u pb_dec_env \<Rightarrow> u32 \<Rightarrow> pb_field_iter \<Rightarrow> 'u dec" where
  "decode_callback_field env wire_type it st =
     (let fn = callback_func (st_mem st) (pData it); arg = callback_arg (pData it) in
      if pData it = 0 \<or> fn = 0 then dec_stream (\<lambda>s. pb_skip_field s wire_type) st
      else if wire_type = PB_WT_STRING then
        dec_sub
          (\<lambda>parent st.
             case callback_loop (Suc (unat (bytes_left (st_in st)))) (dec_callback env fn (cur it) arg) st of
               None \<Rightarrow> None
             | Some (False, st1) \<Rightarrow> dec_error ''callback failed'' (st1\<lparr>st_in := parent\<rparr>)
             | Some (True, st1) \<Rightarrow> dec_close parent True st1) st
      else
        dec_in (\<lambda>s. read_raw_value s wire_type 10)
          (\<lambda>buffer st.
             let sub = pb_istream_from_buffer (mem_write (\<lambda>_. 0) 0 buffer) 0 (of_nat (length buffer)) in
             case dec_callback env fn (cur it) arg (st\<lparr>st_in := sub\<rparr>) of
               (ok, st1) \<Rightarrow> Some (ok, st1\<lparr>st_in := st_in st\<rparr>)) st)"

section \<open>Any field\<close>

text \<open>The iterator comes back as the release of the old union member leaves it.\<close>

definition decode_field ::
    "'u pb_dec_env \<Rightarrow> 'u dec_rec \<Rightarrow> u32 \<Rightarrow> pb_field_iter \<Rightarrow> 'u dec_st \<Rightarrow> ((bool \<times> pb_field_iter) \<times> 'u dec_st) option" where
  "decode_field env r wire_type it st =
     (case (if PB_HTYPE (ftype (cur it)) = PB_HTYPE_ONEOF then r_union r it st else Some ((True, it), st)) of
        None \<Rightarrow> None
      | Some ((False, it1), st1) \<Rightarrow> Some ((False, it1), st1)
      | Some ((True, it1), st1) \<Rightarrow>
          map_option (\<lambda>(ok, st2). ((ok, it1), st2))
            (let at = PB_ATYPE (ftype (cur it1)) in
             if at = PB_ATYPE_STATIC then decode_static_field env r wire_type it1 st1
             else if at = PB_ATYPE_POINTER then decode_pointer_field env r wire_type it1 st1
             else if at = PB_ATYPE_CALLBACK then decode_callback_field env wire_type it1 st1
             else dec_error ''invalid field type'' st1))"

definition default_extension_decoder ::
    "'u pb_dec_env \<Rightarrow> 'u dec_rec \<Rightarrow> addr \<Rightarrow> u32 \<Rightarrow> u32 \<Rightarrow> 'u dec" where
  "default_extension_decoder env r ext t wire_type st =
     (if tag (field_at (dec_fields env (ext_type_arg (st_mem st) (ext_type (st_mem st) ext))) 0) \<noteq> t
      then Some (True, st)
      else map_option (\<lambda>((ok, it), st1). (ok, st1))
             (decode_field env r wire_type (iter_from_extension env (st_mem st) ext)
               (wr_bool (ext_found_addr ext) True st)))"

primrec extension_loop ::
    "nat \<Rightarrow> 'u pb_dec_env \<Rightarrow> 'u dec_rec \<Rightarrow> u32 \<Rightarrow> u32 \<Rightarrow> size_t \<Rightarrow> addr \<Rightarrow> 'u dec" where
  "extension_loop 0 env r t wire_type left ext st = None"
| "extension_loop (Suc k) env r t wire_type left ext st =
     (if ext = 0 \<or> bytes_left (st_in st) \<noteq> left then Some (True, st)
      else
        dec_seq
          (\<lambda>st. let fn = ext_type_decode (st_mem st) (ext_type (st_mem st) ext) in
                if fn \<noteq> 0 then Some (dec_extension env fn ext t wire_type st)
                else default_extension_decoder env r ext t wire_type st)
          (\<lambda>st. extension_loop k env r t wire_type left (ext_next (st_mem st) ext) st) st)"

definition decode_extension :: "nat \<Rightarrow> 'u pb_dec_env \<Rightarrow> 'u dec_rec \<Rightarrow> u32 \<Rightarrow> u32 \<Rightarrow> pb_field_iter \<Rightarrow> 'u dec" where
  "decode_extension k env r t wire_type it st =
     extension_loop k env r t wire_type (bytes_left (st_in st)) (rd_ptr (pData it) st) st"

partial_function (option) find_extension_loop :: "nat \<Rightarrow> pb_field_iter \<Rightarrow> (bool \<times> pb_field_iter) option" where
  "find_extension_loop st it =
     (if PB_LTYPE (ftype (cur it)) = PB_LTYPE_EXTENSION then Some (True, it)
      else
        let it' = snd (pb_field_iter_next it) in
        if pos it' \<noteq> st then find_extension_loop st it' else Some (False, it'))"

declare find_extension_loop.simps [code]

definition find_extension_field :: "pb_field_iter \<Rightarrow> (bool \<times> pb_field_iter) option" where
  "find_extension_field it = find_extension_loop (pos it) it"

section \<open>Messages\<close>

definition PB_MAX_REQUIRED_FIELDS :: u32 where "PB_MAX_REQUIRED_FIELDS = 64"

text \<open>The locals of \<open>pb_decode_noinit\<close> across the loop; \<^verbatim>\<open>fixed_count_size\<close> lives in its stack
  slot, as its address is taken.\<close>

record dec_locals =
  l_iter :: pb_field_iter
  fields_seen :: "u32 list"
  extension_range_start :: u32
  fixed_count_field :: "nat option"

definition stack_slot :: "nat \<Rightarrow> addr" where
  "stack_slot n = - 8 * (int n + 1)"

datatype loop_step = Break | Return_false | Next dec_locals

definition mark_required :: "pb_field_iter \<Rightarrow> u32 list \<Rightarrow> u32 list" where
  "mark_required it seen =
     (let i = required_field_index it; w = unat (drop_bit 5 i) in
      if PB_HTYPE (ftype (cur it)) = PB_HTYPE_REQUIRED \<and> i < PB_MAX_REQUIRED_FIELDS
      then seen[w := seen ! w OR push_bit (unat (i AND 31)) 1] else seen)"

text \<open>The \<^verbatim>\<open>else\<close> part of a failed search: \<open>Inl\<close> says how the iteration ends, \<open>Inr\<close> that the field
  is still to be skipped.\<close>

definition try_extension ::
    "nat \<Rightarrow> 'u pb_dec_env \<Rightarrow> 'u dec_rec \<Rightarrow> u32 \<Rightarrow> u32 \<Rightarrow> dec_locals \<Rightarrow> 'u dec_st
      \<Rightarrow> ((loop_step + dec_locals) \<times> 'u dec_st) option" where
  "try_extension n env r t wire_type ls st =
     (if t < extension_range_start ls then Some (Inr ls, st)
      else
        (case find_extension_field (l_iter ls) of
           None \<Rightarrow> None
         | Some (found, it) \<Rightarrow>
             let ls1 = ls\<lparr>l_iter := it, extension_range_start := (if found then tag (cur it) else - 1)\<rparr> in
             if t < extension_range_start ls1 then Some (Inr ls1, st)
             else
               (case decode_extension n env r t wire_type it st of
                  None \<Rightarrow> None
                | Some (False, st1) \<Rightarrow> Some (Inl Return_false, st1)
                | Some (True, st1) \<Rightarrow>
                    if bytes_left (st_in st) \<noteq> bytes_left (st_in st1) then Some (Inl (Next ls1), st1)
                    else Some (Inr ls1, st1))))"

definition decode_found ::
    "addr \<Rightarrow> 'u pb_dec_env \<Rightarrow> 'u dec_rec \<Rightarrow> u32 \<Rightarrow> dec_locals \<Rightarrow> 'u dec_st \<Rightarrow> (loop_step \<times> 'u dec_st) option" where
  "decode_found slot env r wire_type ls st =
     (let it = l_iter ls;
          fixed = PB_HTYPE (ftype (cur it)) = PB_HTYPE_REPEATED \<and> pSize it = pData it;
          changed = fixed_count_field ls \<noteq> Some (pos it);
          st1 = (if fixed \<and> changed then wr32 slot 0 st else st);
          it1 = (if fixed then it\<lparr>pSize := slot\<rparr> else it);
          ls1 = ls\<lparr>fields_seen := mark_required it (fields_seen ls),
                   fixed_count_field := (if fixed then Some (pos it) else fixed_count_field ls)\<rparr>
      in
      if fixed \<and> changed
          \<and> (case fixed_count_field ls of
               None \<Rightarrow> False
             | Some j \<Rightarrow> rd32 slot st \<noteq> array_size (field_at (start it) j))
      then Some (Return_false, st\<lparr>st_in := i_error (st_in st) ''wrong size for fixed count field''\<rparr>)
      else
        (case decode_field env r wire_type it1 st1 of
           None \<Rightarrow> None
         | Some ((False, it2), st2) \<Rightarrow> Some (Return_false, st2)
         | Some ((True, it2), st2) \<Rightarrow> Some (Next (ls1\<lparr>l_iter := it2\<rparr>), st2)))"

definition noinit_step ::
    "nat \<Rightarrow> addr \<Rightarrow> 'u pb_dec_env \<Rightarrow> 'u dec_rec \<Rightarrow> dec_locals \<Rightarrow> 'u dec_st \<Rightarrow> (loop_step \<times> 'u dec_st) option" where
  "noinit_step n slot env r ls st =
     (case pb_decode_tag (st_in st) of
        (None, eof, s1) \<Rightarrow> Some (if eof then Break else Return_false, st\<lparr>st_in := s1\<rparr>)
      | (Some (wire_type, t), eof, s1) \<Rightarrow>
          let st1 = st\<lparr>st_in := s1\<rparr> in
          (case pb_field_iter_find (l_iter ls) t of
             None \<Rightarrow> None
           | Some (True, it) \<Rightarrow> decode_found slot env r wire_type (ls\<lparr>l_iter := it\<rparr>) st1
           | Some (False, it) \<Rightarrow>
               (case try_extension n env r t wire_type (ls\<lparr>l_iter := it\<rparr>) st1 of
                  None \<Rightarrow> None
                | Some (Inl res, st2) \<Rightarrow> Some (res, st2)
                | Some (Inr ls2, st2) \<Rightarrow>
                    (case pb_skip_field (st_in st2) wire_type of
                       (ok, s3) \<Rightarrow>
                         Some (if ok then Next ls2 else Return_false, st2\<lparr>st_in := s3\<rparr>)))))"

text \<open>The loop \<^verbatim>\<open>while (stream->bytes_left)\<close>: \<open>None\<close> inside is a \<^verbatim>\<open>return false\<close>.\<close>

primrec noinit_loop ::
    "nat \<Rightarrow> (dec_locals \<Rightarrow> 'u dec_st \<Rightarrow> (loop_step \<times> 'u dec_st) option) \<Rightarrow> dec_locals \<Rightarrow> 'u dec_st
      \<Rightarrow> (dec_locals option \<times> 'u dec_st) option" where
  "noinit_loop 0 step ls st = None"
| "noinit_loop (Suc k) step ls st =
     (if bytes_left (st_in st) = 0 then Some (Some ls, st)
      else
        (case step ls st of
           None \<Rightarrow> None
         | Some (Break, st1) \<Rightarrow> Some (Some ls, st1)
         | Some (Return_false, st1) \<Rightarrow> Some (None, st1)
         | Some (Next ls1, st1) \<Rightarrow> noinit_loop k step ls1 st1))"

text \<open>The number of required fields, found by running the iterator to its end.\<close>

definition required_count :: "pb_field_iter \<Rightarrow> u32" where
  "required_count it =
     (case iter_do_while
             (\<lambda>it _. Some (True, (required_field_index it, ftype (cur it), snd (pb_field_iter_next it)))) it
             (0, 0, it) of
        None \<Rightarrow> 0
      | Some (_, (req, last_type, it1)) \<Rightarrow>
          let req1 = (if PB_HTYPE last_type = PB_HTYPE_REQUIRED \<and> tag (cur it1) \<noteq> 0 then req + 1 else req)
          in if req1 > PB_MAX_REQUIRED_FIELDS then PB_MAX_REQUIRED_FIELDS else req1)"

definition required_seen :: "u32 \<Rightarrow> u32 list \<Rightarrow> bool" where
  "required_seen req seen =
     (list_all (\<lambda>i. seen ! i = - 1) [0 ..< unat (drop_bit 5 req)] \<and>
      (req AND 31 \<noteq> 0 \<longrightarrow>
        seen ! unat (drop_bit 5 req) = drop_bit (32 - unat (req AND 31)) (- 1)))"

definition noinit_finish :: "addr \<Rightarrow> dec_locals \<Rightarrow> 'u dec" where
  "noinit_finish slot ls st =
     (let it = l_iter ls; req = required_count it in
      if (case fixed_count_field ls of
            None \<Rightarrow> False
          | Some j \<Rightarrow> rd32 slot st \<noteq> array_size (field_at (start it) j))
      then dec_error ''wrong size for fixed count field'' st
      else if req > 0 \<and> \<not> required_seen req (fields_seen ls)
      then dec_error ''missing required field'' st
      else Some (True, st))"

definition noinit_message :: "nat \<Rightarrow> 'u pb_dec_env \<Rightarrow> 'u dec_rec \<Rightarrow> pb_field list \<Rightarrow> addr \<Rightarrow> 'u dec" where
  "noinit_message n env r fds dest st =
     (let slot = stack_slot n;
          ls = \<lparr>l_iter = snd (pb_field_iter_begin fds dest), fields_seen = [0, 0],
                extension_range_start = 0, fixed_count_field = None\<rparr>
      in
      case noinit_loop (Suc (unat (bytes_left (st_in st)))) (noinit_step n slot env r) ls (wr32 slot 0 st) of
        None \<Rightarrow> None
      | Some (None, st1) \<Rightarrow> Some (False, st1)
      | Some (Some ls1, st1) \<Rightarrow> noinit_finish slot ls1 st1)"

definition decode_message ::
    "nat \<Rightarrow> 'u pb_dec_env \<Rightarrow> (pb_field list \<Rightarrow> addr \<Rightarrow> 'u dec) \<Rightarrow> pb_field list \<Rightarrow> addr \<Rightarrow> 'u dec" where
  "decode_message n env noinit fds dest st =
     (case pb_message_set_to_defaults n env fds dest st of
        None \<Rightarrow> None
      | Some st1 \<Rightarrow>
          (case noinit fds dest st1 of
             None \<Rightarrow> None
           | Some (status, st2) \<Rightarrow>
               if status then Some (True, st2)
               else map_option (Pair False) (pb_release n env fds dest st2)))"

primrec pb_decode_noinit :: "nat \<Rightarrow> 'u pb_dec_env \<Rightarrow> pb_field list \<Rightarrow> addr \<Rightarrow> 'u dec" where
  "pb_decode_noinit 0 env fds dest st = None"
| "pb_decode_noinit (Suc n) env fds dest st =
     noinit_message n env
       \<lparr>r_func = PB_DECODERS env (decode_message n env (pb_decode_noinit n env)) (pb_decode_noinit n env),
        r_defaults = pb_message_set_to_defaults n env,
        r_release = pb_release_single_field n env,
        r_union = pb_release_union_field n env\<rparr> fds dest st"

definition pb_decode :: "nat \<Rightarrow> 'u pb_dec_env \<Rightarrow> pb_field list \<Rightarrow> addr \<Rightarrow> 'u dec" where
  "pb_decode n env = decode_message n env (pb_decode_noinit n env)"

definition pb_decode_delimited_noinit :: "nat \<Rightarrow> 'u pb_dec_env \<Rightarrow> pb_field list \<Rightarrow> addr \<Rightarrow> 'u dec" where
  "pb_decode_delimited_noinit n env fds dest =
     dec_sub
       (\<lambda>parent st.
          case pb_decode_noinit n env fds dest st of
            None \<Rightarrow> None
          | Some (status, st1) \<Rightarrow> dec_close parent status st1)"

definition pb_decode_delimited :: "nat \<Rightarrow> 'u pb_dec_env \<Rightarrow> pb_field list \<Rightarrow> addr \<Rightarrow> 'u dec" where
  "pb_decode_delimited n env fds dest =
     dec_sub
       (\<lambda>parent st.
          case pb_decode n env fds dest st of
            None \<Rightarrow> None
          | Some (status, st1) \<Rightarrow> dec_close parent status st1)"

definition pb_decode_nullterminated :: "nat \<Rightarrow> 'u pb_dec_env \<Rightarrow> pb_field list \<Rightarrow> addr \<Rightarrow> 'u dec" where
  "pb_decode_nullterminated n env fds dest = pb_decode n env fds dest"

end
