(* ===== verification/Pb_Decode_Safe.thy ===== *)
theory Pb_Decode_Safe
  imports Pb_Decode_Message Pb_Wire
begin

text \<open>
  Memory safety of the decoder on any input. A run is \<open>safe_run A\<close> when it has a meaning, stays
  inside the input it was given, writes only addresses of \<open>A\<close> and leaves the heap's blocks alone.
  The lemmas compose such runs; the last ones show it for every field decoder of a statically
  allocated field.
\<close>

section \<open>Frames\<close>

text \<open>\<open>s'\<close> reads from a part of what was left in \<open>s\<close>.\<close>

definition in_within :: "'u pb_istream \<Rightarrow> 'u pb_istream \<Rightarrow> bool" where
  "in_within s s' \<longleftrightarrow>
     (\<exists>m p p'. source s = BufSource m p \<and> source s' = BufSource m p' \<and> p \<le> p' \<and>
        p' + uint (bytes_left s') \<le> p + uint (bytes_left s))"

definition frame :: "addr set \<Rightarrow> 'u dec_st \<Rightarrow> 'u dec_st \<Rightarrow> bool" where
  "frame A st st' \<longleftrightarrow>
     in_within (st_in st) (st_in st') \<and> (\<forall>a. a \<notin> A \<longrightarrow> st_mem st' a = st_mem st a) \<and>
     st_blocks st' = st_blocks st"

definition safe_run :: "addr set \<Rightarrow> 'u dec_st \<Rightarrow> (bool \<times> 'u dec_st) option \<Rightarrow> bool" where
  "safe_run A st r \<longleftrightarrow> (\<exists>ok st'. r = Some (ok, st') \<and> frame A st st')"

abbreviation buf_st :: "'u dec_st \<Rightarrow> bool" where
  "buf_st st \<equiv> is_BufSource (source (st_in st))"

lemma in_within_refl: "is_BufSource (source s) \<Longrightarrow> in_within s s"
  by (cases "source s") (auto simp: in_within_def)

lemma in_within_trans: "in_within s t \<Longrightarrow> in_within t u \<Longrightarrow> in_within s u"
  by (force simp: in_within_def)

lemma in_within_BufSource:
  "in_within s s' \<Longrightarrow> is_BufSource (source s')" "in_within s s' \<Longrightarrow> is_BufSource (source s)"
  by (auto simp: in_within_def)

lemma in_within_errmsg [simp]:
  "in_within s (s'\<lparr>i_errmsg := e\<rparr>) = in_within s s'" "in_within s (i_error s' msg) = in_within s s'"
  by (simp_all add: in_within_def i_error_def)

lemma in_within_step: "in_step s s' \<Longrightarrow> is_BufSource (source s) \<Longrightarrow> in_within s s'"
proof -
  assume st: "in_step s s'" and b: "is_BufSource (source s)"
  obtain m p where k: "source s = BufSource m p" using b by (cases "source s") auto
  obtain i where "source s' = source (in_adv s i)" using st b by (auto simp: in_step_def)
  then have "source s' = BufSource m (p + int i)" by (simp add: k in_adv_def)
  moreover have "in_end s' = in_end s" using st b by (rule in_step_end)
  ultimately show ?thesis using k by (auto simp: in_within_def in_end_def)
qed

lemma in_within_left: "in_within s s' \<Longrightarrow> bytes_left s' \<le> bytes_left s"
  by (auto simp: in_within_def word_le_def)

lemma frame_refl: "buf_st st \<Longrightarrow> frame A st st"
  by (simp add: frame_def in_within_refl)

lemma frame_trans: "frame A st st1 \<Longrightarrow> frame A st1 st2 \<Longrightarrow> frame A st st2"
  by (auto simp: frame_def intro: in_within_trans)

lemma frame_mono: "frame A st st' \<Longrightarrow> A \<subseteq> B \<Longrightarrow> frame B st st'"
  by (auto simp: frame_def)

lemma frame_buf: "frame A st st' \<Longrightarrow> buf_st st'"
  by (auto simp: frame_def dest: in_within_BufSource)

lemma frame_error [simp]: "frame A st (st'\<lparr>st_in := i_error (st_in st') msg\<rparr>) = frame A st st'"
  by (simp add: frame_def)

lemma frame_in: "in_within (st_in st) s \<Longrightarrow> frame A st (st\<lparr>st_in := s\<rparr>)"
  by (simp add: frame_def)

lemma frame_wr:
  assumes "buf_st st" "{p ..< p + int (length bs)} \<subseteq> A"
  shows "frame A st (wr p bs st)"
proof -
  have "mem_write (st_mem st) p bs a = st_mem st a" if "a \<notin> A" for a
    using assms(2) that by (intro mem_write_other) (force simp: not_le)
  then show ?thesis using assms(1) by (simp add: frame_def wr_def in_within_refl)
qed

lemma frame_wr_bool: "buf_st st \<Longrightarrow> p \<in> A \<Longrightarrow> frame A st (wr_bool p b st)"
  unfolding wr_bool_def by (rule frame_wr) auto

lemma frame_wr32: "buf_st st \<Longrightarrow> {p ..< p + 4} \<subseteq> A \<Longrightarrow> frame A st (wr32 p v st)"
  unfolding wr32_def by (rule frame_wr) auto

lemma safe_runI: "r = Some (ok, st') \<Longrightarrow> frame A st st' \<Longrightarrow> safe_run A st r"
  by (auto simp: safe_run_def)

lemma safe_run_mono: "safe_run A st r \<Longrightarrow> A \<subseteq> B \<Longrightarrow> safe_run B st r"
  by (auto simp: safe_run_def intro: frame_mono)

lemma safe_run_trans: "frame A st st1 \<Longrightarrow> safe_run A st1 r \<Longrightarrow> safe_run A st r"
  by (auto simp: safe_run_def intro: frame_trans)

lemma safe_error: "buf_st st \<Longrightarrow> safe_run A st (dec_error msg st)"
  by (auto simp: safe_run_def dec_error_def frame_refl)

lemma safe_do: "frame A st (f st) \<Longrightarrow> safe_run A st (dec_do f st)"
  by (auto simp: safe_run_def dec_do_def)

lemma safe_seq:
  assumes "safe_run A st (f st)"
    and "\<And>st'. f st = Some (True, st') \<Longrightarrow> frame A st st' \<Longrightarrow> safe_run A st' (g st')"
  shows "safe_run A st (dec_seq f g st)"
  using assms by (fastforce simp: safe_run_def dec_seq_def intro: frame_trans)

lemma safe_in:
  assumes b: "buf_st st" and get: "in_step (st_in st) (snd (get (st_in st)))"
    and k: "\<And>x s. get (st_in st) = (Some x, s) \<Longrightarrow> frame A st (st\<lparr>st_in := s\<rparr>) \<Longrightarrow>
      safe_run A (st\<lparr>st_in := s\<rparr>) (k x (st\<lparr>st_in := s\<rparr>))"
  shows "safe_run A st (dec_in get k st)"
proof -
  obtain r s where g: "get (st_in st) = (r, s)" by fastforce
  then have w: "in_within (st_in st) s" using in_within_step [OF get b] by simp
  show ?thesis
  proof (cases r)
    case None
    then show ?thesis by (auto simp: dec_in_def g safe_run_def intro: frame_in [OF w])
  next
    case (Some x)
    have f: "frame A st (st\<lparr>st_in := s\<rparr>)" by (rule frame_in [OF w])
    from k [OF _ f, of x] g Some show ?thesis
      by (auto simp: dec_in_def intro: safe_run_trans [OF f])
  qed
qed

lemma pb_read_BufSource:
  assumes "is_BufSource (source s)" "pb_read s False count = (ok, bs, s')"
  shows "in_within s s'" "length bs \<le> unat count"
proof -
  have "in_step s s'" using assms(2) by (rule in_stepI_read)
  then show "in_within s s'" using assms(1) by (rule in_within_step)
  show "length bs \<le> unat count"
    using assms by (cases "source s")
      (auto simp: pb_read_def pb_read_some_def source_read_def buf_read_def split: if_splits)
qed

lemma safe_read:
  assumes "buf_st st" "{p ..< p + uint count} \<subseteq> A"
  shows "safe_run A st (dec_read p count st)"
proof -
  obtain ok bs s where r: "pb_read (st_in st) False count = (ok, bs, s)" by (cases "pb_read (st_in st) False count")
  note b = pb_read_BufSource [OF assms(1) r]
  let ?st = "st\<lparr>st_in := s\<rparr>"
  have 1: "frame A st ?st" by (rule frame_in [OF b(1)])
  have "int (length bs) \<le> uint count" unfolding uint_nat using b(2) by (simp only: of_nat_le_iff)
  then have "{p ..< p + int (length bs)} \<subseteq> A" using assms(2) by (auto simp: subset_iff)
  then have 2: "frame A ?st (wr p bs ?st)" by (rule frame_wr [OF frame_buf [OF 1]])
  show ?thesis using frame_trans [OF 1 2] by (auto simp: dec_read_def r safe_run_def)
qed

section \<open>Substreams\<close>

text \<open>The parent of a substream, as long as the substream is open: closing after any reads of it
  is within what the parent had.\<close>

definition sub_of :: "'u pb_istream \<Rightarrow> 'u pb_istream \<Rightarrow> 'u pb_istream \<Rightarrow> bool" where
  "sub_of s parent sub \<longleftrightarrow>
     in_within s sub \<and> in_within s parent \<and>
     (\<forall>sub'. in_within sub sub' \<longrightarrow>
        (\<exists>s'. pb_close_string_substream parent sub' = (True, s') \<and> in_within s s'))"

lemma make_sub_of:
  assumes mk: "pb_make_string_substream s = (Some sub, parent)" and b: "is_BufSource (source s)"
  shows "sub_of s parent sub"
proof -
  obtain sz t where v: "pb_decode_varint32 s = (Some sz, t)"
    and le: "(ucast sz :: size_t) \<le> bytes_left t"
    and sub: "sub = t\<lparr>bytes_left := ucast sz\<rparr>" and par: "parent = t\<lparr>bytes_left := bytes_left t - ucast sz\<rparr>"
    using mk by (auto simp: pb_make_string_substream_def not_less split: prod.splits option.splits if_splits)
  have t: "in_within s t" using in_step_varint32 [of s] v b by (intro in_within_step) auto
  then obtain m p where k: "source t = BufSource m p" by (auto simp: in_within_def)
  have z: "uint (bytes_left t - ucast sz) = uint (bytes_left t) - uint (ucast sz :: size_t)"
    using le by (rule uint_minus_simple_alt [THEN iffD1])
  have "in_within t sub" "in_within t parent"
    using le z by (auto simp: in_within_def k sub par word_le_def)
  moreover have "\<exists>s'. pb_close_string_substream parent sub' = (True, s') \<and> in_within t s'"
    if w: "in_within sub sub'" for sub'
  proof -
    obtain p' where p': "source sub' = BufSource m p'" "p \<le> p'" "p' + uint (bytes_left sub') \<le> p + uint (ucast sz :: size_t)"
      using w by (auto simp: in_within_def sub k)
    have nn: "p \<le> p' + uint (bytes_left sub')" using p'(2) by (simp add: add_increasing2)
    have "pb_close_string_substream parent sub' =
        (True, parent\<lparr>source := source (in_adv sub' (unat (bytes_left sub'))), i_errmsg := i_errmsg sub'\<rparr>)"
      by (rule pb_close_BufSource) (simp add: p'(1))
    moreover have "source (in_adv sub' (unat (bytes_left sub'))) = BufSource m (p' + uint (bytes_left sub'))"
      by (simp add: in_adv_def p'(1))
    ultimately show ?thesis
      using p' z nn by (auto simp: in_within_def k par)
  qed
  ultimately show ?thesis
    using in_within_trans [OF t] by (fastforce simp: sub_of_def)
qed

lemma safe_sub:
  assumes b: "buf_st st"
    and body: "\<And>parent sub. sub_of (st_in st) parent sub \<Longrightarrow>
      pb_make_string_substream (st_in st) = (Some sub, parent) \<Longrightarrow>
      safe_run A st (body parent (st\<lparr>st_in := sub\<rparr>))"
  shows "safe_run A st (dec_sub body st)"
proof -
  obtain r parent where mk: "pb_make_string_substream (st_in st) = (r, parent)" by fastforce
  show ?thesis
  proof (cases r)
    case None
    have "in_step (st_in st) parent"
      using mk None in_step_varint32 [of "st_in st"]
      by (auto simp: pb_make_string_substream_def split: prod.splits option.splits if_splits)
    then show ?thesis
      using b mk None by (auto simp: dec_sub_def safe_run_def intro!: frame_in in_within_step)
  next
    case (Some sub)
    then show ?thesis using body [OF make_sub_of, of sub parent] mk b by (simp add: dec_sub_def)
  qed
qed

lemma safe_close:
  assumes s: "sub_of (st_in st) parent sub" and f: "frame A (st\<lparr>st_in := sub\<rparr>) st1"
  shows "safe_run A st (dec_close parent status st1)"
proof -
  have "in_within sub (st_in st1)" using f by (simp add: frame_def)
  then obtain s' where "pb_close_string_substream parent (st_in st1) = (True, s')" "in_within (st_in st) s'"
    using s by (auto simp: sub_of_def)
  then show ?thesis using f by (auto simp: dec_close_def safe_run_def frame_def)
qed

lemma safe_parent_error:
  assumes "sub_of (st_in st) parent sub" "frame A (st\<lparr>st_in := sub\<rparr>) st1"
  shows "safe_run A st (dec_error msg (st1\<lparr>st_in := parent\<rparr>))"
  using assms by (auto simp: dec_error_def safe_run_def frame_def sub_of_def)

section \<open>Field decoders\<close>

abbreviation span :: "addr \<Rightarrow> int \<Rightarrow> addr set" where
  "span p n \<equiv> {p ..< p + n}"

lemma span_subset: "span p n \<subseteq> A \<Longrightarrow> p \<le> q \<Longrightarrow> q + k \<le> p + n \<Longrightarrow> span q k \<subseteq> A"
  by (auto simp: subset_iff)

definition stack_area :: "addr set" where "stack_area = {a. a < 0}"

text \<open>What a descriptor of a statically stored value has to say for its decoder to stay inside
  \<^verbatim>\<open>data_size\<close> bytes; \<open>sub\<close> judges the descriptors of a submessage.\<close>

definition static_value :: "(pb_field list \<Rightarrow> int \<Rightarrow> bool) \<Rightarrow> (addr \<Rightarrow> pb_field list) \<Rightarrow> pb_field \<Rightarrow> bool" where
  "static_value sub desc f =
     (let lt = PB_LTYPE (ftype f); n = uint (data_size f) in
      PB_ATYPE (ftype f) = PB_ATYPE_STATIC \<and>
      (if lt = PB_LTYPE_BOOL then 1 \<le> n
       else if lt = PB_LTYPE_FIXED32 then 4 \<le> n
       else if lt = PB_LTYPE_FIXED64 then 8 \<le> n
       else if lt = PB_LTYPE_SUBMESSAGE then fptr f \<noteq> 0 \<and> sub (desc (fptr f)) n
       else lt = PB_LTYPE_VARINT \<or> lt = PB_LTYPE_UVARINT \<or> lt = PB_LTYPE_SVARINT
         \<or> lt = PB_LTYPE_BYTES \<or> lt = PB_LTYPE_STRING \<or> lt = PB_LTYPE_FIXED_LENGTH_BYTES))"

lemma safe_store_checked:
  "buf_st st \<Longrightarrow> span p (int (length bs)) \<subseteq> A \<Longrightarrow> safe_run A st (store_checked p bs c v st)"
  unfolding store_checked_def
  by (rule safe_seq) (auto intro!: safe_do frame_wr safe_error frame_refl dest: frame_buf)

lemma safe_store_signed:
  "buf_st st \<Longrightarrow> span p (uint sz) \<subseteq> A \<Longrightarrow> safe_run A st (store_signed sz p v st)"
  unfolding store_signed_def by (auto intro!: safe_store_checked safe_error)

lemma safe_store_unsigned:
  "buf_st st \<Longrightarrow> span p (uint sz) \<subseteq> A \<Longrightarrow> safe_run A st (store_unsigned sz p v st)"
  unfolding store_unsigned_def by (auto intro!: safe_store_checked safe_error)

lemma uint_ucast_size: "uint (ucast (w :: u32) :: size_t) = uint w"
  by (simp add: uint_up_ucast is_up)

lemma safe_dec_bytes:
  assumes b: "buf_st st" and a: "span p (uint (data_size f)) \<subseteq> A"
    and static: "PB_ATYPE (ftype f) \<noteq> PB_ATYPE_POINTER"
  shows "safe_run A st (pb_dec_bytes env f p st)"
  unfolding pb_dec_bytes_def
proof (rule safe_in [where get = pb_decode_varint32, OF b in_step_varint32])
  fix sz :: u32 and s
  let ?st = "st\<lparr>st_in := s\<rparr>"
  assume f: "frame A st ?st"
  then have bs: "buf_st ?st" by (rule frame_buf)
  have al: "uint (PB_BYTES_ARRAY_T_ALLOCSIZE sz) = uint sz + 4"
  proof -
    have "uint sz < 2 ^ 32" by (rule less_le_trans [OF uint_bounded]) simp
    then show ?thesis
      by (simp add: PB_BYTES_ARRAY_T_ALLOCSIZE_def uint_word_ariths uint_ucast_size)
  qed
  show "safe_run A ?st
     ((let alloc_size = PB_BYTES_ARRAY_T_ALLOCSIZE sz;
           store = \<lambda>bdest. dec_seq (dec_do (wr32 bdest sz)) (dec_read (bytes_data bdest) (ucast sz))
       in if PB_SIZE_MAX < sz then dec_error ''bytes overflow''
          else if alloc_size < ucast sz then dec_error ''size too large''
          else if PB_ATYPE (ftype f) = PB_ATYPE_POINTER
          then dec_seq (allocate_field env p alloc_size 1) (\<lambda>st. store (rd_ptr p st) st)
          else if ucast (data_size f) < alloc_size then dec_error ''bytes overflow'' else store p) ?st)"
  proof (cases "ucast (data_size f) < PB_BYTES_ARRAY_T_ALLOCSIZE sz")
    case True
    then show ?thesis using static bs by (auto simp: Let_def intro: safe_error)
  next
    case False
    then have le: "uint sz + 4 \<le> uint (data_size f)"
      by (simp add: word_less_def al uint_ucast_size)
    then have "4 \<le> uint (data_size f)" using uint_ge_0 [of sz] by linarith
    then have "span p 4 \<subseteq> A" by (intro span_subset [OF a]) simp_all
    moreover have "span (p + 4) (uint (ucast sz :: size_t)) \<subseteq> A"
      using le by (intro span_subset [OF a]) (simp_all add: uint_ucast_size)
    ultimately have "safe_run A ?st (dec_seq (dec_do (wr32 p sz)) (dec_read (bytes_data p) (ucast sz)) ?st)"
      using bs by (intro safe_seq safe_do frame_wr32 safe_read) (auto simp: bytes_data_def dest: frame_buf)
    then show ?thesis using False static bs by (auto simp: Let_def intro: safe_error)
  qed
qed

lemma safe_dec_string:
  assumes b: "buf_st st" and a: "span p (uint (data_size f)) \<subseteq> A"
    and static: "PB_ATYPE (ftype f) \<noteq> PB_ATYPE_POINTER"
  shows "safe_run A st (pb_dec_string env f p st)"
  unfolding pb_dec_string_def
proof (rule safe_in [where get = pb_decode_varint32, OF b in_step_varint32])
  fix sz :: u32 and s
  let ?st = "st\<lparr>st_in := s\<rparr>"
  let ?store = "\<lambda>d st. case dec_read d (ucast sz) st of
        None \<Rightarrow> None | Some (status, st1) \<Rightarrow> Some (status, wr (d + uint sz) [0] st1)"
  assume f: "frame A st ?st"
  then have bs: "buf_st ?st" by (rule frame_buf)
  show "safe_run A ?st
     ((let alloc_size = ucast (sz + 1); store = ?store
       in if alloc_size < ucast sz then dec_error ''size too large''
          else if PB_ATYPE (ftype f) = PB_ATYPE_POINTER
          then dec_seq (allocate_field env p alloc_size 1) (\<lambda>st. store (rd_ptr p st) st)
          else if ucast (data_size f) < alloc_size then dec_error ''string overflow'' else store p) ?st)"
  proof (cases "(ucast (sz + 1) :: size_t) < ucast sz \<or> (ucast (data_size f) :: size_t) < ucast (sz + 1)")
    case True
    then show ?thesis using static bs by (auto simp: Let_def intro: safe_error)
  next
    case False
    then have le: "uint sz \<le> uint (sz + 1)" "uint (sz + 1) \<le> uint (data_size f)"
      by (auto simp: word_less_def uint_ucast_size)
    have "uint (sz + 1) = uint sz + 1"
      using uint_plus_simple [of sz 1] le(1) by (simp add: word_le_def)
    then have a2: "span p (uint (ucast sz :: size_t)) \<subseteq> A" "span (p + uint sz) 1 \<subseteq> A"
      using le by (intro span_subset [OF a], simp_all add: uint_ucast_size)+
    obtain ok st1 where r: "dec_read p (ucast sz) ?st = Some (ok, st1)" and f1: "frame A ?st st1"
      using safe_read [OF bs a2(1)] by (auto simp: safe_run_def)
    have "frame A st1 (wr (p + uint sz) [0] st1)"
      using a2(2) by (intro frame_wr frame_buf [OF f1]) simp
    then have "safe_run A ?st (?store p ?st)"
      using frame_trans [OF f1] by (auto simp: r safe_run_def)
    then show ?thesis using False static by (simp add: Let_def)
  qed
qed

lemma safe_dec_fixed_length_bytes:
  assumes b: "buf_st st" and a: "span p (uint (data_size f)) \<subseteq> A"
  shows "safe_run A st (pb_dec_fixed_length_bytes f p st)"
  unfolding pb_dec_fixed_length_bytes_def
proof (rule safe_in [where get = pb_decode_varint32, OF b in_step_varint32])
  fix sz :: u32 and s
  let ?st = "st\<lparr>st_in := s\<rparr>"
  assume "frame A st ?st"
  then have "buf_st ?st" by (rule frame_buf)
  then show "safe_run A ?st
     ((if PB_SIZE_MAX < sz then dec_error ''bytes overflow''
       else if sz = 0 then dec_do (wr p (replicate (unat (data_size f)) 0))
       else if sz \<noteq> data_size f then dec_error ''incorrect fixed length bytes size''
       else dec_read p (ucast (data_size f))) ?st)"
    using a by (auto intro!: safe_error safe_do frame_wr safe_read simp: uint_ucast_size)
qed

lemma safe_dec_submessage:
  assumes b: "buf_st st" and ptr: "fptr f \<noteq> 0"
    and dec: "\<And>st. buf_st st \<Longrightarrow> safe_run A st (dec (dec_fields env (fptr f)) p st)"
    and noinit: "\<And>st. buf_st st \<Longrightarrow> safe_run A st (noinit (dec_fields env (fptr f)) p st)"
  shows "safe_run A st (pb_dec_submessage env dec noinit f p st)"
  unfolding pb_dec_submessage_def
proof (rule safe_sub [OF b])
  fix parent sub
  assume s: "sub_of (st_in st) parent sub"
  let ?st = "st\<lparr>st_in := sub\<rparr>"
  have "buf_st ?st" using s by (auto simp: sub_of_def dest: in_within_BufSource)
  then have "safe_run A ?st ((if PB_HTYPE (ftype f) = PB_HTYPE_REPEATED then dec else noinit)
      (dec_fields env (fptr f)) p ?st)"
    using dec noinit by simp
  then obtain ok st1 where
    r: "(if PB_HTYPE (ftype f) = PB_HTYPE_REPEATED then dec else noinit)
      (dec_fields env (fptr f)) p ?st = Some (ok, st1)" and f: "frame A ?st st1"
    by (auto simp: safe_run_def)
  show "safe_run A st
     (if fptr f = 0 then dec_error ''invalid field descriptor'' (?st\<lparr>st_in := parent\<rparr>)
      else case (if PB_HTYPE (ftype f) = PB_HTYPE_REPEATED then dec else noinit)
             (dec_fields env (fptr f)) p ?st of
           None \<Rightarrow> None
         | Some (status, st1) \<Rightarrow> dec_close parent status st1)"
    using ptr safe_close [OF s f] by (simp add: r)
qed

text \<open>Every decoder of a statically stored value stays in its \<^verbatim>\<open>data_size\<close> bytes.\<close>

lemma safe_static_value:
  assumes f: "static_value sub (dec_fields env) f" and b: "buf_st st"
    and a: "span p (uint (data_size f)) \<subseteq> A"
    and dec: "\<And>fds n st. sub fds n \<Longrightarrow> span p n \<subseteq> A \<Longrightarrow> buf_st st \<Longrightarrow> safe_run A st (dec fds p st)"
    and noinit: "\<And>fds n st. sub fds n \<Longrightarrow> span p n \<subseteq> A \<Longrightarrow> buf_st st \<Longrightarrow> safe_run A st (noinit fds p st)"
  shows "safe_run A st (PB_DECODERS env dec noinit (PB_LTYPE (ftype f)) f p st)"
proof -
  let ?lt = "PB_LTYPE (ftype f)"
  have st: "PB_ATYPE (ftype f) \<noteq> PB_ATYPE_POINTER"
    using f by (simp add: static_value_def Let_def pb_type_defs)
  have wr: "span p k \<subseteq> A" if "k \<le> uint (data_size f)" for k
    using a that by (auto simp: subset_iff)
  have bool: "safe_run A st (pb_dec_bool f p st)" if "1 \<le> uint (data_size f)"
    unfolding pb_dec_bool_def using wr [OF that]
    by (intro safe_in [where get = pb_decode_varint32, OF b in_step_varint32] safe_do frame_wr_bool)
      (auto dest: frame_buf)
  have varint: "safe_run A st (pb_dec_varint f p st)" "safe_run A st (pb_dec_uvarint f p st)"
    unfolding pb_dec_varint_def pb_dec_uvarint_def
    by (intro safe_in [where get = pb_decode_varint, OF b in_step_varint] safe_store_signed
        safe_store_unsigned a; auto dest: frame_buf)+
  have svarint: "safe_run A st (pb_dec_svarint f p st)"
    unfolding pb_dec_svarint_def
    by (intro safe_in [where get = pb_decode_svarint, OF b in_step_svarint] safe_store_signed a)
      (auto dest: frame_buf)
  have fixed32: "safe_run A st (pb_dec_fixed32 f p st)" if "4 \<le> uint (data_size f)"
    unfolding pb_dec_fixed32_def using wr [OF that]
    by (intro safe_in [where get = pb_decode_fixed32, OF b in_step_fixed32] safe_do frame_wr)
      (auto dest: frame_buf)
  have fixed64: "safe_run A st (pb_dec_fixed64 f p st)" if "8 \<le> uint (data_size f)"
    unfolding pb_dec_fixed64_def using wr [OF that]
    by (intro safe_in [where get = pb_decode_fixed64, OF b in_step_fixed64] safe_do frame_wr)
      (auto dest: frame_buf)
  have submsg: "safe_run A st (pb_dec_submessage env dec noinit f p st)"
    if "fptr f \<noteq> 0" "sub (dec_fields env (fptr f)) (uint (data_size f))"
    by (intro safe_dec_submessage b that(1) dec [OF that(2) a] noinit [OF that(2) a])
  note rest = safe_dec_bytes [OF b a st] safe_dec_string [OF b a st] safe_dec_fixed_length_bytes [OF b a]
  note f = f [unfolded static_value_def Let_def, THEN conjunct2]
  show ?thesis
    unfolding PB_DECODERS_def
    using f by (simp add: varint svarint rest bool fixed32 fixed64 submsg split: if_split_asm) blast
qed

section \<open>Progress\<close>

text \<open>A packable value takes at least one byte.\<close>

lemma readbyte_less: "pb_readbyte s = (Some b, s') \<Longrightarrow> bytes_left s' < bytes_left s"
  by (drule readbyte_bytes_left) (simp add: word_less_nat_alt)

lemma readbyte_progress:
  assumes "is_BufSource (source s)" "pb_readbyte s = (Some b, s1)" "in_step s1 s2"
  shows "bytes_left s2 < bytes_left s"
proof -
  have "is_BufSource (source s1)" using in_stepI_readbyte [OF assms(2)] assms(1) by (rule in_step_BufSource)
  from in_step_left [OF assms(3) this] readbyte_less [OF assms(2)] show ?thesis by simp
qed

definition progress :: "('u pb_istream \<Rightarrow> 'a option \<times> 'u pb_istream) \<Rightarrow> bool" where
  "progress get \<longleftrightarrow>
     (\<forall>s x s'. is_BufSource (source s) \<longrightarrow> get s = (Some x, s') \<longrightarrow> bytes_left s' < bytes_left s)"

lemma progress_varint: "progress pb_decode_varint"
  unfolding progress_def
proof (intro allI impI)
  fix s s' :: "'a pb_istream" and x
  assume b: "is_BufSource (source s)" and v: "pb_decode_varint s = (Some x, s')"
  obtain r s1 where r: "pb_readbyte s = (r, s1)" by fastforce
  obtain c where c: "r = Some c"
    using v r by (cases r) (auto simp: pb_decode_varint_def varint_dec_loop.simps [of s])
  have "in_step s1 s'"
    using v r c in_step_varint_dec_loop [of s1 7 "ucast (c AND 0x7F)"]
    by (auto simp: pb_decode_varint_def varint_dec_loop.simps [of s] Let_def split: if_splits)
  with b r c show "bytes_left s' < bytes_left s" by (auto intro: readbyte_progress)
qed

lemma progress_svarint: "progress pb_decode_svarint"
  using progress_varint
  by (auto simp: progress_def pb_decode_svarint_def split: prod.splits option.splits)

lemma progress_varint32_eof:
  assumes b: "is_BufSource (source s)" and v: "pb_decode_varint32_eof s = (Some x, e, s')"
  shows "bytes_left s' < bytes_left s"
proof -
  obtain r s1 where r: "pb_readbyte s = (r, s1)" by fastforce
  obtain c where c: "r = Some c"
    using v r by (cases r) (auto simp: pb_decode_varint32_eof_def)
  have "in_step s1 s'"
    using v r c in_step_varint32_loop [of s1 7 "ucast (c AND 0x7F)"]
    by (auto simp: pb_decode_varint32_eof_def split: if_splits prod.splits option.splits)
  with b r c show "bytes_left s' < bytes_left s" by (auto intro: readbyte_progress)
qed

lemma progress_varint32: "progress pb_decode_varint32"
  using progress_varint32_eof
  by (fastforce simp: progress_def pb_decode_varint32_def split: prod.splits)

lemma progress_tag: "is_BufSource (source s) \<Longrightarrow> pb_decode_tag s = (Some x, e, s') \<Longrightarrow> bytes_left s' < bytes_left s"
  using progress_varint32_eof [of s]
  by (auto simp: pb_decode_tag_def split: prod.splits option.splits if_splits)

lemma pb_read_less:
  assumes "pb_read s False count = (True, bs, s')" "count \<noteq> 0"
  shows "bytes_left s' < bytes_left s"
proof -
  have e: "bytes_left s' = bytes_left s - count" "count \<le> bytes_left s"
    using assms by (auto simp: pb_read_def pb_read_some_def split: if_splits prod.splits)
  moreover have "0 < unat count" using assms(2) by (simp add: unat_gt_0)
  ultimately show ?thesis by (simp add: word_less_nat_alt word_le_nat_alt unat_sub)
qed

lemma progress_fixed32: "progress pb_decode_fixed32"
  by (auto simp: progress_def pb_decode_fixed32_def intro: pb_read_less split: prod.splits bool.splits)

lemma progress_fixed64: "progress pb_decode_fixed64"
  by (auto simp: progress_def pb_decode_fixed64_def intro: pb_read_less split: prod.splits bool.splits)

end
