(* ===== verification/Pb_Decode_Static.thy ===== *)
theory Pb_Decode_Static
  imports Pb_Decode_Safe
begin

text \<open>
  Decoding into a statically allocated message. \<open>static_desc\<close> is what the generator guarantees
  of such a message's descriptors: every field, its count or \<^verbatim>\<open>has_\<close> member and its submessages
  lie inside the structure. For any input whatever, \<open>pb_decode\<close> then returns, writes inside the
  structure only and never touches the heap. Two theorems at the end show what goes wrong outside of that: in a union
  of a scalar and a pointer, and in an array whose fixed count is smaller than a \<open>pb_size_t\<close>.
\<close>

definition static_field ::
    "(pb_field list \<Rightarrow> int \<Rightarrow> bool) \<Rightarrow> (addr \<Rightarrow> pb_field list) \<Rightarrow> pb_field_iter \<Rightarrow> int \<Rightarrow> bool" where
  "static_field sub desc it sz =
     (let f = cur it; h = PB_HTYPE (ftype f); count_inside = (0 \<le> pSize it \<and> pSize it + 4 \<le> sz) in
      static_value sub desc f \<and> 0 \<le> pData it \<and> pData it + stored_size f \<le> sz \<and>
      (h = PB_HTYPE_OPTIONAL \<longrightarrow> pSize it = pData it \<or> 0 \<le> pSize it \<and> pSize it < sz) \<and>
      (h = PB_HTYPE_REPEATED \<longrightarrow> count_inside \<and> uint (data_size f) * uint (array_size f) < 2 ^ 32) \<and>
      (h = PB_HTYPE_ONEOF \<longrightarrow> count_inside))"

primrec static_desc :: "nat \<Rightarrow> (addr \<Rightarrow> pb_field list) \<Rightarrow> pb_field list \<Rightarrow> int \<Rightarrow> bool" where
  "static_desc 0 desc fds sz = False"
| "static_desc (Suc d) desc fds sz =
     (fds \<noteq> [] \<and> fields_wf fds \<and>
      list_all (\<lambda>i. static_field (static_desc d desc) desc (iter_at fds 0 i) sz) [0 ..< length fds])"

section \<open>Iterators on a structure at another address\<close>

lemma next_shift:
  assumes "start it' = start it" "pos it' = pos it" "required_field_index it' = required_field_index it"
    "pData it' = pData it + d" "pSize it' = pSize it + d" "dest_struct it' = dest_struct it + d"
  shows "start (snd (pb_field_iter_next it')) = start (snd (pb_field_iter_next it))"
    "pos (snd (pb_field_iter_next it')) = pos (snd (pb_field_iter_next it))"
    "required_field_index (snd (pb_field_iter_next it')) = required_field_index (snd (pb_field_iter_next it))"
    "pData (snd (pb_field_iter_next it')) = pData (snd (pb_field_iter_next it)) + d"
    "pSize (snd (pb_field_iter_next it')) = pSize (snd (pb_field_iter_next it)) + d"
    "dest_struct (snd (pb_field_iter_next it')) = dest_struct (snd (pb_field_iter_next it)) + d"
  using assms by (auto simp: pb_field_iter_next_def pb_field_iter_begin_def cur_def Let_def)

lemma iter_at_shift:
  "pos (iter_at fds d i) = pos (iter_at fds 0 i) \<and>
   required_field_index (iter_at fds d i) = required_field_index (iter_at fds 0 i) \<and>
   pData (iter_at fds d i) = pData (iter_at fds 0 i) + d \<and>
   pSize (iter_at fds d i) = pSize (iter_at fds 0 i) + d"
proof (induction i)
  case 0
  then show ?case by (simp add: pb_field_iter_begin_def Let_def)
next
  case (Suc i)
  have "start (iter_at fds d i) = start (iter_at fds 0 i)" "dest_struct (iter_at fds d i) = dest_struct (iter_at fds 0 i) + d"
    by simp_all
  from next_shift [OF this(1) _ _ _ _ this(2)] Suc show ?case
    by (simp add: iter_at.simps(2))
qed

text \<open>Where the iterator points, for field \<open>i\<close> of a structure at \<open>dest\<close>.\<close>

lemma static_field_at:
  assumes "static_desc (Suc d) desc fds sz" "i < length fds"
  shows "static_field (static_desc d desc) desc (iter_at fds 0 i) sz" "fields_wf fds" "fds \<noteq> []"
    "cur (iter_at fds 0 i) = fds ! i"
  using assms by (auto simp: list_all_iff iter_at_cur)

lemma stored_size_ge:
  "PB_ATYPE (ftype f) = PB_ATYPE_STATIC \<Longrightarrow> PB_HTYPE (ftype f) \<noteq> PB_HTYPE_REPEATED \<Longrightarrow>
     stored_size f = uint (data_size f)"
  "PB_ATYPE (ftype f) = PB_ATYPE_STATIC \<Longrightarrow> PB_HTYPE (ftype f) = PB_HTYPE_REPEATED \<Longrightarrow>
     stored_size f = uint (data_size f) * uint (array_size f)"
  by (auto simp: stored_size_def pb_type_defs)

text \<open>The addresses a field may write, once its structure is placed.\<close>

definition field_area :: "addr set \<Rightarrow> pb_field_iter \<Rightarrow> bool" where
  "field_area A it \<longleftrightarrow>
     (let f = cur it; h = PB_HTYPE (ftype f) in
      span (pData it) (stored_size f) \<subseteq> A \<and>
      (h = PB_HTYPE_OPTIONAL \<longrightarrow> pSize it = pData it \<or> pSize it \<in> A) \<and>
      (h = PB_HTYPE_REPEATED \<longrightarrow>
         span (pSize it) 4 \<subseteq> A \<and> uint (data_size f) * uint (array_size f) < 2 ^ 32) \<and>
      (h = PB_HTYPE_ONEOF \<longrightarrow> span (pSize it) 4 \<subseteq> A))"

lemma static_field_area:
  assumes "static_desc (Suc d) desc fds sz" "i < length fds" "span dest sz \<subseteq> A"
  shows "field_area A (iter_at fds dest i)" "static_value (static_desc d desc) desc (fds ! i)"
proof -
  note s = static_field_at [OF assms(1,2)]
  have c: "cur (iter_at fds dest i) = fds ! i" using assms(2) s(2) by (rule iter_at_cur [rotated])
  note sh = iter_at_shift [of fds dest i]
  note st = s(1) [unfolded static_field_def s(4) Let_def]
  have sub: "span q k \<subseteq> A" if "dest \<le> q" "q + k \<le> dest + sz" for q k
    using assms(3) that by (rule span_subset)
  have one: "q \<in> A" if "dest \<le> q" "q < dest + sz" for q
    using assms(3) that by (auto simp: subset_iff)
  show "field_area A (iter_at fds dest i)"
    unfolding field_area_def c Let_def using st sh
    by (auto intro!: sub one)
  show "static_value (static_desc d desc) desc (fds ! i)" using st by blast
qed

section \<open>One field\<close>

lemma item_addr_span:
  assumes "uint (data_size (cur it)) * uint (array_size (cur it)) < 2 ^ 32" "n < array_size (cur it)"
    "span p (uint (data_size (cur it)) * uint (array_size (cur it))) \<subseteq> A"
  shows "span (item_addr it p n) (uint (data_size (cur it))) \<subseteq> A"
proof -
  let ?d = "uint (data_size (cur it))"
  have n: "uint n + 1 \<le> uint (array_size (cur it))" using assms(2) by (simp add: word_less_def)
  have le: "?d * (uint n + 1) \<le> ?d * uint (array_size (cur it))"
    using n by (intro mult_left_mono) simp_all
  then have "?d * uint n < 2 ^ 32" using assms(1) by (simp add: distrib_left) (smt (verit) uint_ge_0)
  then have "uint (data_size (cur it) * n) = ?d * uint n"
    by (simp add: uint_word_ariths)
  then show ?thesis
    using le by (intro span_subset [OF assms(3)]) (simp_all add: item_addr_def distrib_left)
qed

text \<open>What the recursion has to provide for the values of a field \<open>f\<close>.\<close>

definition func_ok :: "addr set \<Rightarrow> 'u pb_dec_env \<Rightarrow> 'u dec_rec \<Rightarrow> pb_field \<Rightarrow> bool" where
  "func_ok A env r f \<longleftrightarrow>
     (\<forall>p st. span p (uint (data_size f)) \<subseteq> A \<longrightarrow> buf_st st \<longrightarrow>
        safe_run A st (r_func r (PB_LTYPE (ftype f)) f p st) \<and>
        (PB_LTYPE (ftype f) \<le> PB_LTYPE_LAST_PACKABLE \<longrightarrow>
          (\<forall>st1. r_func r (PB_LTYPE (ftype f)) f p st = Some (True, st1) \<longrightarrow>
             bytes_left (st_in st1) < bytes_left (st_in st))) \<and>
        (PB_LTYPE (ftype f) = PB_LTYPE_SUBMESSAGE \<longrightarrow>
          (\<exists>st1. r_defaults r (dec_fields env (fptr f)) p st = Some st1 \<and> frame A st st1)))"

lemma func_okD:
  assumes "func_ok A env r f" "span p (uint (data_size f)) \<subseteq> A" "buf_st st"
  shows "safe_run A st (r_func r (PB_LTYPE (ftype f)) f p st)"
    "PB_LTYPE (ftype f) \<le> PB_LTYPE_LAST_PACKABLE \<Longrightarrow>
       r_func r (PB_LTYPE (ftype f)) f p st = Some (True, st1) \<Longrightarrow> bytes_left (st_in st1) < bytes_left (st_in st)"
    "PB_LTYPE (ftype f) = PB_LTYPE_SUBMESSAGE \<Longrightarrow>
       \<exists>st1. r_defaults r (dec_fields env (fptr f)) p st = Some st1 \<and> frame A st st1"
  using assms unfolding func_ok_def by blast+

lemma safe_static_packed_loop:
  assumes ok: "func_ok A env r (cur it)" and area: "field_area A it"
    and f: "PB_HTYPE (ftype (cur it)) = PB_HTYPE_REPEATED" "PB_ATYPE (ftype (cur it)) = PB_ATYPE_STATIC"
      "PB_LTYPE (ftype (cur it)) \<le> PB_LTYPE_LAST_PACKABLE"
  shows "unat (bytes_left (st_in st)) < k \<Longrightarrow> buf_st st \<Longrightarrow>
    safe_run A st (static_packed_loop k (r_func r (PB_LTYPE (ftype (cur it))) (cur it)) it st)"
proof (induction k arbitrary: st)
  case 0
  then show ?case by simp
next
  case (Suc k)
  let ?func = "r_func r (PB_LTYPE (ftype (cur it))) (cur it)"
  let ?p = "item_addr it (pData it) (rd32 (pSize it) st)"
  have ar: "span (pSize it) 4 \<subseteq> A" "uint (data_size (cur it)) * uint (array_size (cur it)) < 2 ^ 32"
      "span (pData it) (uint (data_size (cur it)) * uint (array_size (cur it))) \<subseteq> A"
    using area f by (auto simp: field_area_def Let_def stored_size_ge)
  show ?case
  proof (cases "bytes_left (st_in st) > 0 \<and> rd32 (pSize it) st < array_size (cur it)")
    case False
    then show ?thesis using frame_refl [OF Suc.prems(2)] by (auto simp: safe_run_def)
  next
    case True
    have sp: "span ?p (uint (data_size (cur it))) \<subseteq> A"
      using True by (intro item_addr_span ar) simp
    obtain ok1 st1 where r: "?func ?p st = Some (ok1, st1)" and fr: "frame A st st1"
      using func_okD(1) [OF ok sp Suc.prems(2)] by (auto simp: safe_run_def)
    show ?thesis
    proof (cases ok1)
      case False
      then show ?thesis using True r fr by (auto simp: safe_run_def)
    next
      case ok1: True
      let ?st = "wr32 (pSize it) (rd32 (pSize it) st1 + 1) st1"
      have "bytes_left (st_in st1) < bytes_left (st_in st)"
        using func_okD(2) [OF ok sp Suc.prems(2) f(3)] r ok1 by simp
      then have "unat (bytes_left (st_in ?st)) < k"
        using Suc.prems(1) by (simp add: wr32_def wr_def word_less_nat_alt)
      moreover have f2: "frame A st1 ?st" by (rule frame_wr32 [OF frame_buf [OF fr] ar(1)])
      ultimately have "safe_run A ?st (static_packed_loop k ?func it ?st)"
        by (intro Suc.IH frame_buf [OF f2])
      then show ?thesis
        using True r ok1 safe_run_trans [OF frame_trans [OF fr f2]] by simp
    qed
  qed
qed

lemma safe_decode_static_field:
  assumes ok: "func_ok A env r (cur it)" and area: "field_area A it"
    and static: "PB_ATYPE (ftype (cur it)) = PB_ATYPE_STATIC" and b: "buf_st st"
  shows "safe_run A st (decode_static_field env r wt it st)"
proof -
  let ?f = "cur it" and ?h = "PB_HTYPE (ftype (cur it))"
  let ?func = "r_func r (PB_LTYPE (ftype ?f)) ?f"
  have single: "span (pData it) (uint (data_size ?f)) \<subseteq> A" if "?h \<noteq> PB_HTYPE_REPEATED"
    using area static that by (simp add: field_area_def Let_def stored_size_ge)
  have func: "safe_run A st (?func (pData it) st)" if "?h \<noteq> PB_HTYPE_REPEATED" "buf_st st" for st
    using func_okD(1) [OF ok single] that by blast
  consider "?h = PB_HTYPE_REQUIRED" | "?h = PB_HTYPE_OPTIONAL" | "?h = PB_HTYPE_REPEATED" | "?h = PB_HTYPE_ONEOF"
    using htype_cases by blast
  then show ?thesis
  proof cases
    case 1
    then show ?thesis using func b by (simp add: decode_static_field_def Let_def htype_distinct)
  next
    case 2
    then have "pSize it = pData it \<or> pSize it \<in> A" using area by (simp add: field_area_def Let_def)
    then have "safe_run A st
        (dec_seq (if pSize it \<noteq> pData it then dec_do (wr_bool (pSize it) True) else dec_do id)
          (?func (pData it)) st)"
      using b 2 by (intro safe_seq)
        (auto intro!: safe_do frame_wr_bool frame_refl func simp: htype_distinct dest: frame_buf)
    then show ?thesis using 2 by (simp add: decode_static_field_def Let_def htype_distinct)
  next
    case 3
    have ar: "span (pSize it) 4 \<subseteq> A" "uint (data_size ?f) * uint (array_size ?f) < 2 ^ 32"
        "span (pData it) (uint (data_size ?f) * uint (array_size ?f)) \<subseteq> A"
      using area 3 static by (auto simp: field_area_def Let_def stored_size_ge)
    show ?thesis
    proof (cases "wt = PB_WT_STRING \<and> PB_LTYPE (ftype ?f) \<le> PB_LTYPE_LAST_PACKABLE")
      case True
      have "safe_run A st (dec_sub
          (\<lambda>parent st. case static_packed_loop (Suc (unat (bytes_left (st_in st)))) ?func it st of
               None \<Rightarrow> None
             | Some (status, st1) \<Rightarrow>
                 if bytes_left (st_in st1) \<noteq> 0 then dec_error ''array overflow'' (st1\<lparr>st_in := parent\<rparr>)
                 else dec_close parent status st1) st)"
      proof (rule safe_sub [OF b])
        fix parent sub
        assume s: "sub_of (st_in st) parent sub"
        let ?st = "st\<lparr>st_in := sub\<rparr>"
        have "buf_st ?st" using s by (auto simp: sub_of_def dest: in_within_BufSource)
        then obtain ok1 st1 where
          r: "static_packed_loop (Suc (unat (bytes_left (st_in ?st)))) ?func it ?st = Some (ok1, st1)"
          and fr: "frame A ?st st1"
          using safe_static_packed_loop [OF ok area 3 static, of ?st "Suc (unat (bytes_left (st_in ?st)))"] True
          by (auto simp: safe_run_def)
        show "safe_run A st
            (case static_packed_loop (Suc (unat (bytes_left (st_in ?st)))) ?func it ?st of
               None \<Rightarrow> None
             | Some (status, st1) \<Rightarrow>
                 if bytes_left (st_in st1) \<noteq> 0 then dec_error ''array overflow'' (st1\<lparr>st_in := parent\<rparr>)
                 else dec_close parent status st1)"
          using safe_close [OF s fr] safe_parent_error [OF s fr] r by (simp del: static_packed_loop.simps)
      qed
      then show ?thesis using 3 True by (simp add: decode_static_field_def Let_def htype_distinct)
    next
      case False
      let ?sz = "rd32 (pSize it) st"
      let ?st = "wr32 (pSize it) (?sz + 1) st"
      have f1: "frame A st ?st" by (rule frame_wr32 [OF b ar(1)])
      have "safe_run A ?st (if ?sz \<ge> array_size ?f then dec_error ''array overflow'' ?st
              else ?func (item_addr it (pData it) ?sz) ?st)"
        using frame_buf [OF f1] func_okD(1) [OF ok item_addr_span [OF ar(2) _ ar(3)]]
        by (auto intro!: safe_error simp: not_le)
      then show ?thesis
        using 3 False safe_run_trans [OF f1]
        by (auto simp: decode_static_field_def Let_def htype_distinct simp del: static_packed_loop.simps)
    qed
  next
    case 4
    have w: "span (pSize it) 4 \<subseteq> A" using area 4 by (simp add: field_area_def Let_def)
    have sp: "span (pData it) (uint (data_size ?f)) \<subseteq> A" using single 4 by (simp add: htype_distinct)
    have clear: "safe_run A st (clear_submessage env r ?f (pData it) st)"
      if b: "buf_st st" and lt: "PB_LTYPE (ftype ?f) = PB_LTYPE_SUBMESSAGE" for st
    proof -
      let ?st = "wr (pData it) (replicate (unat (data_size ?f)) 0) st"
      have f1: "frame A st ?st" using sp by (intro frame_wr [OF b]) simp
      obtain st1 where "r_defaults r (dec_fields env (fptr ?f)) (pData it) ?st = Some st1" "frame A ?st st1"
        using func_okD(3) [OF ok sp frame_buf [OF f1] lt] by blast
      then show ?thesis
        using frame_trans [OF f1] by (auto simp: clear_submessage_def safe_run_def)
    qed
    have "safe_run A st (dec_seq (dec_do (wr32 (pSize it) (tag ?f)))
          (dec_seq (if PB_LTYPE (ftype ?f) = PB_LTYPE_SUBMESSAGE then clear_submessage env r ?f (pData it)
              else dec_do id) (?func (pData it))) st)"
      by (intro safe_seq)
        (use b w 4 in \<open>auto intro!: safe_do frame_wr32 frame_refl func clear simp: htype_distinct
           dest: frame_buf\<close>)
    then show ?thesis using 4 by (simp add: decode_static_field_def Let_def htype_distinct)
  qed
qed

section \<open>Defaults and release\<close>

lemma void_do_while_iter_at:
  assumes wf: "fields_wf fds" and fds: "fds \<noteq> []" and b: "buf_st st"
    and step: "\<And>i st. i < length fds \<Longrightarrow> buf_st st \<Longrightarrow> \<exists>st'. f (iter_at fds dest i) st = Some st' \<and> frame A st st'"
  shows "\<exists>st'. void_do_while f (iter_at fds dest 0) st = Some st' \<and> frame A st st'"
proof -
  let ?body = "\<lambda>j st. map_option (Pair True) (f (iter_at fds dest j) st)"
  have "\<exists>st'. do_all ?body [i ..< length fds] st = Some (True, st') \<and> frame A st st'"
    if "buf_st st" "i \<le> length fds" for i st
    using that
  proof (induction "length fds - i" arbitrary: i st)
    case 0
    then show ?case by (simp add: frame_refl)
  next
    case (Suc k)
    then have i: "i < length fds" by simp
    obtain st1 where s1: "f (iter_at fds dest i) st = Some st1" "frame A st st1"
      using step [OF i Suc.prems(1)] by blast
    have "k = length fds - Suc i" using Suc.hyps(2) by simp
    then obtain st2 where "do_all ?body [Suc i ..< length fds] st1 = Some (True, st2)" "frame A st1 st2"
      using Suc.hyps(1) [of "Suc i" st1] i frame_buf [OF s1(2)] by auto
    then show ?case using s1 i frame_trans [OF s1(2)] by (auto simp: upt_conv_Cons)
  qed
  from this [OF b, of 0] obtain st' where
    "do_all ?body [0 ..< length fds] st = Some (True, st')" "frame A st st'" by auto
  then show ?thesis
    using fds by (simp add: void_do_while_def iter_do_while_iter_at [OF wf] del: iter_at.simps)
qed

lemma begin_iter_at: "fields_wf fds \<Longrightarrow> fds \<noteq> [] \<Longrightarrow> pb_field_iter_begin fds dest = (True, iter_at fds dest 0)"
  by (simp add: prod_eq_iff tag_field_at)

lemma safe_defaults:
  "static_desc d (dec_fields env) fds sz \<Longrightarrow> d \<le> n \<Longrightarrow> buf_st st \<Longrightarrow> span dest sz \<subseteq> A \<Longrightarrow>
     \<exists>st'. pb_message_set_to_defaults n env fds dest st = Some st' \<and> frame A st st'"
proof (induction d arbitrary: n fds sz dest st)
  case 0
  then show ?case by simp
next
  case (Suc d)
  then obtain n' where n: "n = Suc n'" "d \<le> n'" by (cases n) auto
  have fds: "fds \<noteq> []" "fields_wf fds" using Suc.prems(1) by auto
  have field: "\<exists>st'. pb_field_set_to_default n env (iter_at fds dest i) st = Some st' \<and> frame A st st'"
    if i: "i < length fds" and b: "buf_st st" for i st
  proof -
    let ?it = "iter_at fds dest i" and ?f = "fds ! i"
    let ?h = "PB_HTYPE (ftype ?f)"
    have c: "cur ?it = ?f" using fds(2) i by (rule iter_at_cur)
    note ar = static_field_area [OF Suc.prems(1) i Suc.prems(4)]
    have v: "PB_ATYPE (ftype ?f) = PB_ATYPE_STATIC" "PB_LTYPE (ftype ?f) \<noteq> PB_LTYPE_EXTENSION"
      using ar(2) by (auto simp: static_value_def Let_def pb_type_defs split: if_splits)
    have sp: "span (pData ?it) (uint (data_size ?f)) \<subseteq> A" if "?h \<noteq> PB_HTYPE_REPEATED"
      using ar(1) v that by (simp add: field_area_def c Let_def stored_size_ge)
    let ?init = "\<lambda>st. if PB_LTYPE (ftype ?f) = PB_LTYPE_SUBMESSAGE
           then message_defaults (pb_field_set_to_default n' env) (dec_fields env (fptr ?f)) (pData ?it) st
           else if fptr ?f \<noteq> 0
           then Some (wr (pData ?it) (mem_read (st_mem st) (fptr ?f) (unat (data_size ?f))) st)
           else Some (wr (pData ?it) (replicate (unat (data_size ?f)) 0) st)"
    have init: "\<exists>st'. ?init st = Some st' \<and> frame A st st'" if "?h \<noteq> PB_HTYPE_REPEATED" "buf_st st" for st
    proof (cases "PB_LTYPE (ftype ?f) = PB_LTYPE_SUBMESSAGE")
      case True
      then have "static_desc d (dec_fields env) (dec_fields env (fptr ?f)) (uint (data_size ?f))"
        using ar(2) by (auto simp: static_value_def Let_def pb_type_defs split: if_splits)
      from Suc.IH [OF this n(2) that(2) sp [OF that(1)]] True show ?thesis
        by (simp add: pb_message_set_to_defaults_def)
    next
      case False
      have "frame A st (wr (pData ?it) bs st)" if "length bs = unat (data_size ?f)" for bs
        using sp [OF \<open>?h \<noteq> PB_HTYPE_REPEATED\<close>] that by (intro frame_wr [OF \<open>buf_st st\<close>]) simp
      then show ?thesis using False by simp
    qed
    consider "?h = PB_HTYPE_REQUIRED" | "?h = PB_HTYPE_OPTIONAL"
      | "?h = PB_HTYPE_REPEATED \<or> ?h = PB_HTYPE_ONEOF"
      using htype_cases by blast
    then show ?thesis
    proof cases
      case 1
      then show ?thesis using init [OF _ b] v by (simp add: n c Let_def htype_distinct)
    next
      case 2
      show ?thesis
      proof (cases "pSize ?it = pData ?it")
        case True
        then show ?thesis using 2 init [OF _ b] v by (simp add: n c Let_def htype_distinct)
      next
        case False
        then have "pSize ?it \<in> A" using ar(1) 2 by (simp add: field_area_def c Let_def)
        then have f1: "frame A st (wr_bool (pSize ?it) False st)" by (rule frame_wr_bool [OF b])
        obtain st' where "?init (wr_bool (pSize ?it) False st) = Some st'" "frame A (wr_bool (pSize ?it) False st) st'"
          using init [OF _ frame_buf [OF f1]] 2 by (auto simp: htype_distinct)
        then show ?thesis using False 2 v frame_trans [OF f1] by (simp add: n c Let_def)
      qed
    next
      case 3
      then have "span (pSize ?it) 4 \<subseteq> A" using ar(1) by (auto simp: field_area_def c Let_def)
      then show ?thesis using 3 v frame_wr32 [OF b] by (auto simp: n c Let_def htype_distinct)
    qed
  qed
  show ?case
    using void_do_while_iter_at [OF fds(2,1) Suc.prems(3), of "pb_field_set_to_default n env" dest A] field
    by (simp add: pb_message_set_to_defaults_def message_defaults_def begin_iter_at fds del: iter_at.simps)
qed

text \<open>A message without pointers holds nothing to release.\<close>

lemma release_items_id:
  assumes "\<And>p st. f p st = Some st"
  shows "release_items k f step p st = Some st"
  by (induction k arbitrary: p) (simp_all add: assms)

lemma void_do_while_id:
  assumes wf: "fields_wf fds" and fds: "fds \<noteq> []"
    and step: "\<And>i. i < length fds \<Longrightarrow> f (iter_at fds dest i) st = Some st"
  shows "void_do_while f (iter_at fds dest 0) st = Some st"
proof -
  let ?body = "\<lambda>j st. map_option (Pair True) (f (iter_at fds dest j) st)"
  have all: "do_all ?body xs st = Some (True, st)" if "set xs \<subseteq> {..< length fds}" for xs
    using that by (induction xs) (auto simp: step)
  have "do_all ?body [0 ..< length fds] st = Some (True, st)" by (rule all) auto
  then show ?thesis
    using fds by (simp add: void_do_while_def iter_do_while_iter_at [OF wf] del: iter_at.simps)
qed

lemma release_static_field:
  assumes "static_desc (Suc d) (dec_fields env) fds sz" "i < length fds"
    and sub: "\<And>fds sz dest st. static_desc d (dec_fields env) fds sz \<Longrightarrow> pb_release n env fds dest st = Some st"
  shows "pb_release_single_field (Suc n) env (iter_at fds dest i) st = Some st"
proof -
  note s = static_field_at [OF assms(1,2)]
  have c: "cur (iter_at fds dest i) = fds ! i" using assms(2) s(2) by (rule iter_at_cur [rotated])
  have v: "static_value (static_desc d (dec_fields env)) (dec_fields env) (fds ! i)"
    using s(1) by (simp add: static_field_def s(4) Let_def)
  have "PB_ATYPE (ftype (fds ! i)) = PB_ATYPE_STATIC" "PB_ATYPE_STATIC \<noteq> PB_ATYPE_POINTER"
      "PB_LTYPE (ftype (fds ! i)) \<noteq> PB_LTYPE_EXTENSION"
    using v by (auto simp: static_value_def Let_def pb_type_defs split: if_splits)
  moreover have "release_message (pb_release_single_field n env) (dec_fields env (fptr (fds ! i))) p st = Some st"
    if "PB_LTYPE (ftype (fds ! i)) = PB_LTYPE_SUBMESSAGE" for p st
  proof -
    have "static_desc d (dec_fields env) (dec_fields env (fptr (fds ! i))) (uint (data_size (fds ! i)))"
      using v that by (auto simp: static_value_def Let_def pb_type_defs split: if_splits)
    from sub [OF this] show ?thesis by (simp add: pb_release_def)
  qed
  ultimately show ?thesis by (simp add: c Let_def release_items_id)
qed

lemma release_static:
  "static_desc d (dec_fields env) fds sz \<Longrightarrow> d \<le> n \<Longrightarrow> pb_release n env fds dest st = Some st"
proof (induction d arbitrary: n fds sz dest st)
  case 0
  then show ?case by simp
next
  case (Suc d)
  then obtain n' where n: "n = Suc n'" "d \<le> n'" by (cases n) auto
  have fds: "fds \<noteq> []" "fields_wf fds" using Suc.prems(1) by auto
  have "pb_release_single_field n env (iter_at fds dest i) st = Some st" if "i < length fds" for i
    unfolding n by (rule release_static_field [OF Suc.prems(1) that Suc.IH [OF _ n(2)]])
  then show ?case
    by (simp add: pb_release_def release_message_def begin_iter_at fds void_do_while_id del: iter_at.simps)
qed

section \<open>The iterator in the message loop\<close>

text \<open>The states it is in: at a field, or at a fixed-count array with \<^verbatim>\<open>pSize\<close> on the stack.\<close>

definition live :: "pb_field list \<Rightarrow> addr \<Rightarrow> addr \<Rightarrow> pb_field_iter \<Rightarrow> bool" where
  "live fds dest slot it \<longleftrightarrow>
     (\<exists>i < length fds. it = iter_at fds dest i \<or>
        it = (iter_at fds dest i)\<lparr>pSize := slot\<rparr> \<and> PB_HTYPE (ftype (fds ! i)) = PB_HTYPE_REPEATED)"

lemma live_iter_at: "i < length fds \<Longrightarrow> live fds dest slot (iter_at fds dest i)"
  by (auto simp: live_def)

lemma next_pSize:
  "PB_HTYPE (ftype (cur it)) \<noteq> PB_HTYPE_ONEOF \<Longrightarrow> tag (cur it) \<noteq> 0 \<Longrightarrow>
     pb_field_iter_next (it\<lparr>pSize := x\<rparr>) = pb_field_iter_next it"
  by (simp add: pb_field_iter_next_def cur_def Let_def)

lemma find_pSize:
  assumes "PB_HTYPE (ftype (cur it)) \<noteq> PB_HTYPE_ONEOF" "tag (cur it) \<noteq> 0"
  shows "pb_field_iter_find (it\<lparr>pSize := x\<rparr>) t =
    (if field_matches t (cur it) then Some (True, it\<lparr>pSize := x\<rparr>) else pb_field_iter_find it t)"
proof -
  have c: "cur (it\<lparr>pSize := x\<rparr>) = cur it" by (simp add: cur_def)
  have p: "pos (it\<lparr>pSize := x\<rparr>) = pos it" by simp
  show ?thesis
    unfolding pb_field_iter_find_def p
    by (subst pb_field_iter_find_loop.simps, subst (2) pb_field_iter_find_loop.simps)
      (simp add: c next_pSize [OF assms] field_matches_def)
qed

lemma find_live_at:
  assumes wf: "fields_wf fds" and i: "i < length fds"
  shows "\<exists>b it'. pb_field_iter_find (iter_at fds dest i) t = Some (b, it') \<and>
    (\<exists>j < length fds. it' = iter_at fds dest j) \<and> (b \<longrightarrow> field_matches t (cur it'))"
proof (cases "List.find (\<lambda>j. field_matches t (fds ! j)) (ring (length fds) i)")
  case None
  then show ?thesis using i by (auto simp: find_iter_at [OF wf i])
next
  case (Some j)
  then have "field_matches t (fds ! j)" "j < length fds"
    using find_Some_ring [OF Some] i by (auto simp: set_ring)
  then show ?thesis using Some by (auto simp: find_iter_at [OF wf i] iter_at_cur [OF wf])
qed

lemma live_cur:
  assumes "fields_wf fds" "live fds dest slot it"
  shows "\<exists>i < length fds. cur it = fds ! i"
proof -
  have c: "cur (it\<lparr>pSize := x\<rparr>) = cur it" for it x by (simp add: cur_def)
  show ?thesis using assms by (auto simp: live_def c iter_at_cur)
qed

lemma find_live:
  assumes wf: "fields_wf fds" and it: "live fds dest slot it"
  shows "\<exists>b it'. pb_field_iter_find it t = Some (b, it') \<and> live fds dest slot it'"
proof -
  obtain i where i: "i < length fds" and o: "it = iter_at fds dest i \<or>
        it = (iter_at fds dest i)\<lparr>pSize := slot\<rparr> \<and> PB_HTYPE (ftype (fds ! i)) = PB_HTYPE_REPEATED"
    using it by (auto simp: live_def)
  have base: "\<exists>b it'. pb_field_iter_find (iter_at fds dest i) t = Some (b, it') \<and> live fds dest slot it'"
    using find_live_at [OF wf i, of dest t] by (auto simp: live_def)
  from o show ?thesis
  proof
    assume "it = iter_at fds dest i"
    then show ?thesis using base by simp
  next
    assume e: "it = (iter_at fds dest i)\<lparr>pSize := slot\<rparr> \<and> PB_HTYPE (ftype (fds ! i)) = PB_HTYPE_REPEATED"
    have "tag (fds ! i) \<noteq> 0" using wf i by (simp add: fields_wf_def)
    then have "pb_field_iter_find it t =
      (if field_matches t (fds ! i) then Some (True, it) else pb_field_iter_find (iter_at fds dest i) t)"
      using e find_pSize [of "iter_at fds dest i" slot t] by (simp add: iter_at_cur [OF wf i] htype_distinct)
    then show ?thesis using base it by auto
  qed
qed

lemma find_extension_none:
  assumes wf: "fields_wf fds" and it: "live fds dest slot it"
    and no: "\<And>f. f \<in> set fds \<Longrightarrow> PB_LTYPE (ftype f) \<noteq> PB_LTYPE_EXTENSION"
  shows "\<exists>it'. find_extension_field it = Some (False, it') \<and> live fds dest slot it'"
proof -
  obtain i where i: "i < length fds" and o: "it = iter_at fds dest i \<or>
        it = (iter_at fds dest i)\<lparr>pSize := slot\<rparr> \<and> PB_HTYPE (ftype (fds ! i)) = PB_HTYPE_REPEATED"
    using it by (auto simp: live_def)
  have r: "ring (length fds) i = [] @ i # ([Suc i ..< length fds] @ [0 ..< i])"
    using i by (simp add: ring_def upt_conv_Cons)
  have none: "List.find (\<lambda>j. PB_LTYPE (ftype (fds ! j)) = PB_LTYPE_EXTENSION)
      (i # ([Suc i ..< length fds] @ [0 ..< i])) = None"
    using i no by (auto simp: find_None_iff)
  have "find_extension_loop i (iter_at fds dest i) = Some (False, iter_at fds dest i)"
    by (subst ring_search [where L = "find_extension_loop i" and st = i
            and Q = "\<lambda>f. PB_LTYPE (ftype f) = PB_LTYPE_EXTENSION", OF _ wf i r])
      (subst find_extension_loop.simps, simp_all only: none option.case refl)
  then have base: "find_extension_field (iter_at fds dest i) = Some (False, iter_at fds dest i)"
    by (simp add: find_extension_field_def iter_at_pos [OF wf i])
  from o show ?thesis
  proof
    assume "it = iter_at fds dest i"
    then show ?thesis using base live_iter_at [OF i] by blast
  next
    assume e: "it = (iter_at fds dest i)\<lparr>pSize := slot\<rparr> \<and> PB_HTYPE (ftype (fds ! i)) = PB_HTYPE_REPEATED"
    have t: "tag (cur (iter_at fds dest i)) \<noteq> 0" "PB_HTYPE (ftype (cur (iter_at fds dest i))) \<noteq> PB_HTYPE_ONEOF"
      using wf i e by (auto simp: fields_wf_def iter_at_cur [OF wf i] htype_distinct)
    have c: "cur it = cur (iter_at fds dest i)" "pos it = pos (iter_at fds dest i)"
        "pb_field_iter_next it = pb_field_iter_next (iter_at fds dest i)"
      using e next_pSize [OF t(2,1)] by (simp_all add: cur_def)
    have n: "PB_LTYPE (ftype (cur (iter_at fds dest i))) \<noteq> PB_LTYPE_EXTENSION"
      using i no by (simp add: iter_at_cur [OF wf i])
    have "find_extension_field it = find_extension_field (iter_at fds dest i)"
      unfolding find_extension_field_def c
      by (subst find_extension_loop.simps, subst (2) find_extension_loop.simps) (simp only: c n if_False)
    then show ?thesis using base live_iter_at [OF i] by auto
  qed
qed

section \<open>The message loop\<close>

text \<open>The setting of one message: its descriptors, the area it may write, the recursion.\<close>

definition message_ok ::
    "nat \<Rightarrow> addr set \<Rightarrow> addr \<Rightarrow> 'u pb_dec_env \<Rightarrow> 'u dec_rec \<Rightarrow> pb_field list \<Rightarrow> int \<Rightarrow> addr \<Rightarrow> bool" where
  "message_ok d A slot env r fds sz dest \<longleftrightarrow>
     static_desc (Suc d) (dec_fields env) fds sz \<and> span dest sz \<subseteq> A \<and> span slot 4 \<subseteq> A \<and>
     (\<forall>f \<in> set fds. func_ok A env r f) \<and>
     (\<exists>n. d \<le> n \<and> r_union r = pb_release_union_field (Suc n) env)"

lemma message_okD:
  assumes "message_ok d A slot env r fds sz dest"
  shows "static_desc (Suc d) (dec_fields env) fds sz" "span dest sz \<subseteq> A" "span slot 4 \<subseteq> A"
    "f \<in> set fds \<Longrightarrow> func_ok A env r f" "fields_wf fds" "fds \<noteq> []"
  using assms by (auto simp: message_ok_def)

lemma live_area:
  assumes ok: "message_ok d A slot env r fds sz dest" and it: "live fds dest slot it"
  shows "field_area A it" "static_value (static_desc d (dec_fields env)) (dec_fields env) (cur it)"
    "func_ok A env r (cur it)"
proof -
  note m = message_okD [OF ok]
  obtain i where i: "i < length fds" and o: "it = iter_at fds dest i \<or>
        it = (iter_at fds dest i)\<lparr>pSize := slot\<rparr> \<and> PB_HTYPE (ftype (fds ! i)) = PB_HTYPE_REPEATED"
    using it by (auto simp: live_def)
  note a = static_field_area [OF m(1) i m(2)]
  have cs: "cur (it\<lparr>pSize := x\<rparr>) = cur it" for it x by (simp add: cur_def)
  have c: "cur it = fds ! i" using o by (auto simp: cs iter_at_cur [OF m(5) i])
  show "field_area A it"
    using o a(1) m(3) by (auto simp: field_area_def cs iter_at_cur [OF m(5) i] Let_def htype_distinct)
  show "static_value (static_desc d (dec_fields env)) (dec_fields env) (cur it)" using a(2) c by simp
  show "func_ok A env r (cur it)" using m(4) i c by simp
qed

lemma safe_union:
  assumes ok: "message_ok d A slot env r fds sz dest" and i: "i < length fds" and b: "buf_st st"
  shows "\<exists>ok it' st'. r_union r (iter_at fds dest i) st = Some ((ok, it'), st') \<and> frame A st st' \<and>
    live fds dest slot it'"
proof -
  note m = message_okD [OF ok]
  obtain n where n: "d \<le> n" "r_union r = pb_release_union_field (Suc n) env"
    using ok by (auto simp: message_ok_def)
  have rel: "pb_release_single_field (Suc n) env (iter_at fds dest j) st = Some st" if "j < length fds" for j
    by (rule release_static_field [OF m(1) that release_static [OF _ n(1)]])
  let ?it = "iter_at fds dest i"
  obtain b1 j where f1: "pb_field_iter_find ?it (rd32 (pSize ?it) st) = Some (b1, iter_at fds dest j)"
      and j: "j < length fds"
    using find_live_at [OF m(5) i] by blast
  obtain b2 k where f2: "pb_field_iter_find (iter_at fds dest j) (tag (cur ?it)) = Some (b2, iter_at fds dest k)"
      and k: "k < length fds"
    using find_live_at [OF m(5) j] by blast
  show ?thesis
    using live_iter_at [OF i] live_iter_at [OF j] live_iter_at [OF k] frame_refl [OF b]
    by (cases b1; cases b2)
      (auto simp: n(2) pb_release_union_field_def Let_def f1 f2 rel [OF j]
        simp del: pb_release_single_field.simps)
qed

lemma safe_decode_field:
  assumes ok: "message_ok d A slot env r fds sz dest" and it: "live fds dest slot it" and b: "buf_st st"
  shows "\<exists>ok it' st'. decode_field env r wt it st = Some ((ok, it'), st') \<and> frame A st st' \<and>
    live fds dest slot it'"
proof -
  note m = message_okD [OF ok]
  have union: "\<exists>ok1 it1 st1. (if PB_HTYPE (ftype (cur it)) = PB_HTYPE_ONEOF then r_union r it st
      else Some ((True, it), st)) = Some ((ok1, it1), st1) \<and> frame A st st1 \<and> live fds dest slot it1"
  proof (cases "PB_HTYPE (ftype (cur it)) = PB_HTYPE_ONEOF")
    case False
    then show ?thesis using it frame_refl [OF b] by auto
  next
    case True
    obtain i where i: "i < length fds" and o: "it = iter_at fds dest i \<or>
        it = (iter_at fds dest i)\<lparr>pSize := slot\<rparr> \<and> PB_HTYPE (ftype (fds ! i)) = PB_HTYPE_REPEATED"
      using it by (auto simp: live_def)
    have cs: "cur (it\<lparr>pSize := x\<rparr>) = cur it" for it x by (simp add: cur_def)
    have "it = iter_at fds dest i"
      using o True by (auto simp: cs iter_at_cur [OF m(5) i] htype_distinct)
    then show ?thesis using safe_union [OF ok i b] True by simp
  qed
  then obtain ok1 it1 st1 where u: "(if PB_HTYPE (ftype (cur it)) = PB_HTYPE_ONEOF then r_union r it st
      else Some ((True, it), st)) = Some ((ok1, it1), st1)" and f1: "frame A st st1" and l1: "live fds dest slot it1"
    by blast
  note a = live_area [OF ok l1]
  have st: "PB_ATYPE (ftype (cur it1)) = PB_ATYPE_STATIC" using a(2) by (simp add: static_value_def Let_def)
  obtain ok2 st2 where "decode_static_field env r wt it1 st1 = Some (ok2, st2)" "frame A st1 st2"
    using safe_decode_static_field [OF a(3,1) st frame_buf [OF f1], of wt] by (auto simp: safe_run_def)
  then show ?thesis
    unfolding decode_field_def u using f1 l1 frame_trans [OF f1] st by (cases ok1) auto
qed

text \<open>One iteration: it has a meaning, it stays in the area, and if the loop goes on the input got
  shorter.\<close>

definition safe_step ::
    "addr set \<Rightarrow> (pb_field_iter \<Rightarrow> bool) \<Rightarrow> 'u dec_st \<Rightarrow> (loop_step \<times> 'u dec_st) option \<Rightarrow> bool" where
  "safe_step A P st r \<longleftrightarrow>
     (\<exists>res st'. r = Some (res, st') \<and> frame A st st' \<and> (\<forall>ls. res = Next ls \<longrightarrow> P (l_iter ls)))"

lemma safe_decode_found:
  assumes ok: "message_ok d A slot env r fds sz dest" and it: "live fds dest slot (l_iter ls)" and b: "buf_st st"
  shows "safe_step A (live fds dest slot) st (decode_found slot env r wt ls st)"
proof -
  note m = message_okD [OF ok]
  let ?it = "l_iter ls"
  let ?fixed = "PB_HTYPE (ftype (cur ?it)) = PB_HTYPE_REPEATED \<and> pSize ?it = pData ?it"
  let ?changed = "fixed_count_field ls \<noteq> Some (pos ?it)"
  let ?st = "if ?fixed \<and> ?changed then wr32 slot 0 st else st"
  let ?it1 = "if ?fixed then ?it\<lparr>pSize := slot\<rparr> else ?it"
  have f1: "frame A st ?st" using frame_wr32 [OF b m(3)] frame_refl [OF b] by simp
  have l1: "live fds dest slot ?it1"
  proof -
    have cs: "cur (it\<lparr>pSize := x\<rparr>) = cur it" for it x by (simp add: cur_def)
    obtain i where i: "i < length fds" and o: "?it = iter_at fds dest i \<or>
        ?it = (iter_at fds dest i)\<lparr>pSize := slot\<rparr> \<and> PB_HTYPE (ftype (fds ! i)) = PB_HTYPE_REPEATED"
      using it by (auto simp: live_def)
    then have "cur ?it = fds ! i" by (auto simp: cs iter_at_cur [OF m(5) i])
    then show ?thesis using it i o by (auto simp: live_def)
  qed
  obtain ok2 it2 st2 where "decode_field env r wt ?it1 ?st = Some ((ok2, it2), st2)" "frame A ?st st2"
      "live fds dest slot it2"
    using safe_decode_field [OF ok l1 frame_buf [OF f1]] by blast
  then show ?thesis
    using frame_trans [OF f1] frame_refl [OF b]
    by (cases ok2) (auto simp: decode_found_def Let_def safe_step_def)
qed


lemma try_extension_static:
  assumes ok: "message_ok d A slot env r fds sz dest" and it: "live fds dest slot (l_iter ls)"
    and t: "t < - 1"
  shows "\<exists>ls'. try_extension n env r t wt ls st = Some (Inr ls', st) \<and> live fds dest slot (l_iter ls')"
proof -
  note m = message_okD [OF ok]
  have "PB_LTYPE (ftype f) \<noteq> PB_LTYPE_EXTENSION" if f: "f \<in> set fds" for f
  proof -
    obtain i where i: "i < length fds" "f = fds ! i" using f by (auto simp: in_set_conv_nth)
    from static_field_area(2) [OF m(1) i(1) m(2)] i(2) show ?thesis
      by (auto simp: static_value_def Let_def pb_type_defs split: if_splits)
  qed
  then obtain it' where "find_extension_field (l_iter ls) = Some (False, it')" "live fds dest slot it'"
    using find_extension_none [OF m(5) it] by blast
  then show ?thesis using it t by (auto simp: try_extension_def Let_def)
qed

lemma tag_small: "pb_decode_tag s = (Some (wt, t), e, s') \<Longrightarrow> t < - 1"
proof -
  assume "pb_decode_tag s = (Some (wt, t), e, s')"
  then obtain w :: u32 where "t = drop_bit 3 w"
    by (auto simp: pb_decode_tag_def split: prod.splits option.splits if_splits)
  then have "unat t = unat w div 8" by (simp add: drop_bit_eq_div unat_div_distrib)
  moreover have "unat w < 2 ^ 32" by (rule unat_u32_less)
  ultimately have "unat t < unat (- 1 :: u32)" by (simp add: unsigned_minus_1_eq_mask mask_eq_exp_minus_1)
  then show "t < - 1" by (simp add: word_less_nat_alt)
qed

lemma safe_noinit_step:
  assumes ok: "message_ok d A slot env r fds sz dest" and it: "live fds dest slot (l_iter ls)" and b: "buf_st st"
  shows "safe_step A (live fds dest slot) st (noinit_step n slot env r ls st)"
    and "noinit_step n slot env r ls st = Some (Next ls', st') \<Longrightarrow> bytes_left (st_in st') < bytes_left (st_in st)"
proof -
  note m = message_okD [OF ok]
  obtain tg eof s1 where tg: "pb_decode_tag (st_in st) = (tg, eof, s1)" by (cases "pb_decode_tag (st_in st)")
  let ?st = "st\<lparr>st_in := s1\<rparr>"
  have "in_within (st_in st) s1"
    using in_step_tag [of "st_in st"] b by (intro in_within_step) (simp_all add: tg)
  then have f1: "frame A st ?st" by (rule frame_in)
  have "safe_step A (live fds dest slot) st (noinit_step n slot env r ls st) \<and>
    (noinit_step n slot env r ls st = Some (Next ls', st') \<longrightarrow> bytes_left (st_in st') < bytes_left (st_in st))"
  proof (cases tg)
    case None
    then show ?thesis using f1 by (auto simp: noinit_step_def tg safe_step_def split: if_splits)
  next
    case (Some x)
    then obtain wt t where x: "tg = Some (wt, t)" by (cases x) auto
    have less: "bytes_left s1 < bytes_left (st_in st)"
      using progress_tag [OF b] tg x by blast
    obtain found it' where fi: "pb_field_iter_find (l_iter ls) t = Some (found, it')" "live fds dest slot it'"
      using find_live [OF m(5) it] by blast
    obtain res st2 where r: "noinit_step n slot env r ls st = Some (res, st2)" "frame A ?st st2"
      "\<And>ls'. res = Next ls' \<Longrightarrow> live fds dest slot (l_iter ls')"
    proof (cases found)
      case True
      have "safe_step A (live fds dest slot) ?st (decode_found slot env r wt (ls\<lparr>l_iter := it'\<rparr>) ?st)"
        using fi(2) by (intro safe_decode_found [OF ok] frame_buf [OF f1]) simp
      then show ?thesis
        using that by (auto simp: safe_step_def noinit_step_def tg x fi(1) True)
    next
      case False
      obtain ls2 where e: "try_extension n env r t wt (ls\<lparr>l_iter := it'\<rparr>) ?st = Some (Inr ls2, ?st)"
          "live fds dest slot (l_iter ls2)"
        using try_extension_static [OF ok, of "ls\<lparr>l_iter := it'\<rparr>" t] fi(2) tag_small tg x by fastforce
      obtain skip s3 where k: "pb_skip_field s1 wt = (skip, s3)" by fastforce
      have "in_within s1 s3"
        using in_step_skip_field [of s1 wt] frame_buf [OF f1] by (intro in_within_step) (simp_all add: k)
      then have "frame A ?st (?st\<lparr>st_in := s3\<rparr>)" by (intro frame_in) simp
      then show ?thesis
        using that e(2) by (cases skip) (auto simp: noinit_step_def tg x fi(1) False e(1) k)
    qed
    moreover have "bytes_left (st_in st2) \<le> bytes_left s1"
      using r(2) in_within_left by (fastforce simp: frame_def)
    ultimately show ?thesis
      using less frame_trans [OF f1 r(2)] by (auto simp: safe_step_def)
  qed
  then show "safe_step A (live fds dest slot) st (noinit_step n slot env r ls st)"
    "noinit_step n slot env r ls st = Some (Next ls', st') \<Longrightarrow> bytes_left (st_in st') < bytes_left (st_in st)"
    by blast+
qed

lemma safe_noinit_loop:
  assumes ok: "message_ok d A slot env r fds sz dest"
  shows "live fds dest slot (l_iter ls) \<Longrightarrow> buf_st st \<Longrightarrow> unat (bytes_left (st_in st)) < k \<Longrightarrow>
    \<exists>res st'. noinit_loop k (noinit_step n slot env r) ls st = Some (res, st') \<and> frame A st st'"
proof (induction k arbitrary: ls st)
  case 0
  then show ?case by simp
next
  case (Suc k)
  obtain res st1 where r: "noinit_step n slot env r ls st = Some (res, st1)" "frame A st st1"
      "\<forall>ls. res = Next ls \<longrightarrow> live fds dest slot (l_iter ls)"
    using safe_noinit_step(1) [OF ok Suc.prems(1,2), of n] by (auto simp: safe_step_def)
  show ?case
  proof (cases "bytes_left (st_in st) = 0")
    case True
    then show ?thesis using frame_refl [OF Suc.prems(2)] by auto
  next
    case False
    show ?thesis
    proof (cases res)
      case Break
      then show ?thesis using False r by auto
    next
      case Return_false
      then show ?thesis using False r by auto
    next
      case (Next ls1)
      then have "bytes_left (st_in st1) < bytes_left (st_in st)"
        using safe_noinit_step(2) [OF ok Suc.prems(1,2)] r(1) by blast
      then have "unat (bytes_left (st_in st1)) < k" using Suc.prems(3) by (simp add: word_less_nat_alt)
      then obtain res' st' where
        "noinit_loop k (noinit_step n slot env r) ls1 st1 = Some (res', st')" "frame A st1 st'"
        using Suc.IH [of ls1 st1] r(3) Next frame_buf [OF r(2)] by blast
      then show ?thesis using False r Next frame_trans [OF r(2)] by auto
    qed
  qed
qed

lemma safe_noinit_message:
  assumes ok: "message_ok d A (stack_slot n) env r fds sz dest" and b: "buf_st st"
  shows "safe_run A st (noinit_message n env r fds dest st)"
proof -
  note m = message_okD [OF ok]
  let ?st = "wr32 (stack_slot n) 0 st"
  let ?ls = "\<lparr>l_iter = iter_at fds dest 0, fields_seen = [0, 0], extension_range_start = 0,
      fixed_count_field = None\<rparr>"
  have f1: "frame A st ?st" by (rule frame_wr32 [OF b m(3)])
  have "live fds dest (stack_slot n) (l_iter ?ls)" using m(6) by (simp add: live_iter_at del: iter_at.simps)
  moreover have "unat (bytes_left (st_in ?st)) < Suc (unat (bytes_left (st_in st)))"
    by (simp add: wr32_def wr_def)
  ultimately obtain res st' where
    r: "noinit_loop (Suc (unat (bytes_left (st_in st)))) (noinit_step n (stack_slot n) env r) ?ls ?st = Some (res, st')"
    and f2: "frame A ?st st'"
    using safe_noinit_loop [OF ok, of ?ls ?st] frame_buf [OF f1] by blast
  have f: "frame A st st'" by (rule frame_trans [OF f1 f2])
  have "safe_run A st' (noinit_finish slot ls st')" for slot ls
    using frame_buf [OF f] by (auto simp: noinit_finish_def Let_def safe_run_def dec_error_def frame_refl)
  then show ?thesis
    using f r safe_run_trans [OF f]
    by (cases res)
      (auto simp: noinit_message_def Let_def iter_begin_iter_at safe_run_def
        simp del: iter_at.simps noinit_loop.simps)
qed


section \<open>Whole messages\<close>

text \<open>A packable value takes input whenever its decoder succeeds.\<close>

lemma dec_in_progress:
  assumes "progress get" "buf_st st" "dec_in get k st = Some (True, st1)"
    and "\<And>x st st1. k x st = Some (True, st1) \<Longrightarrow> st_in st1 = st_in st"
  shows "bytes_left (st_in st1) < bytes_left (st_in st)"
proof -
  obtain x s where g: "get (st_in st) = (Some x, s)" "k x (st\<lparr>st_in := s\<rparr>) = Some (True, st1)"
    using assms(3) by (auto simp: dec_in_def split: prod.splits option.splits)
  have "bytes_left s < bytes_left (st_in st)" using assms(1,2) g(1) by (auto simp: progress_def)
  then show ?thesis using assms(4) [OF g(2)] by simp
qed

lemma st_in_wr [simp]: "st_in (wr p bs st) = st_in st" "st_in (wr_bool p b st) = st_in st"
  by (simp_all add: wr_def wr_bool_def)

lemma store_checked_in: "store_checked p bs c v st = Some (True, st1) \<Longrightarrow> st_in st1 = st_in st"
  by (auto simp: store_checked_def dec_seq_def dec_do_def dec_error_def split: if_splits)

lemma store_in:
  "store_signed sz p v st = Some (True, st1) \<Longrightarrow> st_in st1 = st_in st"
  "store_unsigned sz p v st = Some (True, st1) \<Longrightarrow> st_in st1 = st_in st"
  by (auto simp: store_signed_def store_unsigned_def dec_error_def dest: store_checked_in split: if_splits)

lemma packable_cases:
  assumes "static_value sub desc f" "PB_LTYPE (ftype f) \<le> PB_LTYPE_LAST_PACKABLE"
  shows "PB_LTYPE (ftype f) \<in> {PB_LTYPE_BOOL, PB_LTYPE_VARINT, PB_LTYPE_UVARINT, PB_LTYPE_SVARINT,
    PB_LTYPE_FIXED32, PB_LTYPE_FIXED64}"
  using assms by (auto simp: static_value_def Let_def pb_type_defs split: if_splits)

lemma packable_progress:
  assumes v: "static_value sub desc f" and lt: "PB_LTYPE (ftype f) \<le> PB_LTYPE_LAST_PACKABLE"
    and b: "buf_st st" and r: "PB_DECODERS env dec noinit (PB_LTYPE (ftype f)) f p st = Some (True, st1)"
  shows "bytes_left (st_in st1) < bytes_left (st_in st)"
proof -
  have n: "PB_LTYPE_VARINT \<noteq> PB_LTYPE_BOOL" "PB_LTYPE_UVARINT \<noteq> PB_LTYPE_BOOL"
      "PB_LTYPE_UVARINT \<noteq> PB_LTYPE_VARINT" "PB_LTYPE_SVARINT \<noteq> PB_LTYPE_BOOL"
      "PB_LTYPE_SVARINT \<noteq> PB_LTYPE_VARINT" "PB_LTYPE_SVARINT \<noteq> PB_LTYPE_UVARINT"
      "PB_LTYPE_FIXED32 \<noteq> PB_LTYPE_BOOL" "PB_LTYPE_FIXED32 \<noteq> PB_LTYPE_VARINT"
      "PB_LTYPE_FIXED32 \<noteq> PB_LTYPE_UVARINT" "PB_LTYPE_FIXED32 \<noteq> PB_LTYPE_SVARINT"
      "PB_LTYPE_FIXED64 \<noteq> PB_LTYPE_BOOL" "PB_LTYPE_FIXED64 \<noteq> PB_LTYPE_VARINT"
      "PB_LTYPE_FIXED64 \<noteq> PB_LTYPE_UVARINT" "PB_LTYPE_FIXED64 \<noteq> PB_LTYPE_SVARINT"
      "PB_LTYPE_FIXED64 \<noteq> PB_LTYPE_FIXED32"
    by (simp_all add: pb_type_defs)
  consider "pb_dec_bool f p st = Some (True, st1)" | "pb_dec_varint f p st = Some (True, st1)"
    | "pb_dec_uvarint f p st = Some (True, st1)" | "pb_dec_svarint f p st = Some (True, st1)"
    | "pb_dec_fixed32 f p st = Some (True, st1)" | "pb_dec_fixed64 f p st = Some (True, st1)"
    using packable_cases [OF v lt] r by (auto simp: PB_DECODERS_def n)
  then show ?thesis
  proof cases
    case 1
    then show ?thesis
      unfolding pb_dec_bool_def by (rule dec_in_progress [OF progress_varint32 b]) (auto simp: dec_do_def)
  next
    case 2
    then show ?thesis
      unfolding pb_dec_varint_def by (rule dec_in_progress [OF progress_varint b]) (rule store_in)
  next
    case 3
    then show ?thesis
      unfolding pb_dec_uvarint_def by (rule dec_in_progress [OF progress_varint b]) (rule store_in)
  next
    case 4
    then show ?thesis
      unfolding pb_dec_svarint_def by (rule dec_in_progress [OF progress_svarint b]) (rule store_in)
  next
    case 5
    then show ?thesis
      unfolding pb_dec_fixed32_def by (rule dec_in_progress [OF progress_fixed32 b]) (auto simp: dec_do_def)
  next
    case 6
    then show ?thesis
      unfolding pb_dec_fixed64_def by (rule dec_in_progress [OF progress_fixed64 b]) (auto simp: dec_do_def)
  qed
qed

lemma safe_decode_message:
  assumes d: "static_desc d (dec_fields env) fds sz" "d \<le> n" and b: "buf_st st" and a: "span dest sz \<subseteq> A"
    and noinit: "\<And>st. buf_st st \<Longrightarrow> safe_run A st (noinit fds dest st)"
  shows "safe_run A st (decode_message n env noinit fds dest st)"
proof -
  obtain st1 where s1: "pb_message_set_to_defaults n env fds dest st = Some st1" "frame A st st1"
    using safe_defaults [OF d b a] by blast
  obtain ok st2 where s2: "noinit fds dest st1 = Some (ok, st2)" "frame A st1 st2"
    using noinit [OF frame_buf [OF s1(2)]] by (auto simp: safe_run_def)
  show ?thesis
    using frame_trans [OF s1(2) s2(2)]
    by (auto simp: decode_message_def s1(1) s2(1) release_static [OF d] safe_run_def)
qed

lemma safe_decode_noinit:
  "static_desc d (dec_fields env) fds sz \<Longrightarrow> d < n \<Longrightarrow> buf_st st \<Longrightarrow> span dest sz \<subseteq> A \<Longrightarrow>
     stack_area \<subseteq> A \<Longrightarrow> safe_run A st (pb_decode_noinit n env fds dest st)"
proof (induction d arbitrary: n fds sz dest st A)
  case 0
  then show ?case by simp
next
  case (Suc d)
  then obtain k where n: "n = Suc (Suc k)" "d \<le> k" by (metis Suc_le_D Suc_le_mono less_eq_Suc_le)
  let ?m = "Suc k"
  let ?dec = "decode_message ?m env (pb_decode_noinit ?m env)" and ?noinit = "pb_decode_noinit ?m env"
  let ?r = "\<lparr>r_func = PB_DECODERS env ?dec ?noinit,
        r_defaults = pb_message_set_to_defaults ?m env,
        r_release = pb_release_single_field ?m env,
        r_union = pb_release_union_field ?m env\<rparr>"
  have "func_ok A env ?r f" if f: "f \<in> set fds" for f
  proof -
    obtain i where "i < length fds" "f = fds ! i" using f by (auto simp: in_set_conv_nth)
    then have v: "static_value (static_desc d (dec_fields env)) (dec_fields env) f"
      using static_field_area(2) [OF Suc.prems(1)] by blast
    have ni: "safe_run A st (?noinit g p st)"
      if "static_desc d (dec_fields env) g m" "span p m \<subseteq> A" "buf_st st" for g m p st
      using n(2) that(2,3) Suc.prems(5) by (intro Suc.IH [OF that(1)]) simp_all
    have de: "safe_run A st (?dec g p st)"
      if "static_desc d (dec_fields env) g m" "span p m \<subseteq> A" "buf_st st" for g m p st
      using n(2) that by (intro safe_decode_message [OF that(1)] ni [OF that(1)]) simp_all
    have sub: "static_desc d (dec_fields env) (dec_fields env (fptr f)) (uint (data_size f))"
      if "PB_LTYPE (ftype f) = PB_LTYPE_SUBMESSAGE"
      using v that by (auto simp: static_value_def Let_def pb_type_defs split: if_splits)
    have val: "safe_run A st (PB_DECODERS env ?dec ?noinit (PB_LTYPE (ftype f)) f p st)"
      if "span p (uint (data_size f)) \<subseteq> A" "buf_st st" for p st
      using safe_static_value [where dec = ?dec and noinit = ?noinit, OF v that(2,1)] de ni by blast
    show ?thesis
      unfolding func_ok_def dec_rec.simps
      using n(2) by (intro allI impI conjI val packable_progress [OF v] safe_defaults [OF sub]) simp_all
  qed
  moreover have "span (stack_slot ?m) 4 \<subseteq> A"
    using Suc.prems(5) by (auto simp: stack_slot_def stack_area_def subset_iff)
  ultimately have "message_ok d A (stack_slot ?m) env ?r fds sz dest"
    using Suc.prems n(2) by (auto simp: message_ok_def)
  from safe_noinit_message [OF this Suc.prems(3)] show ?case by (simp add: n(1))
qed

section \<open>Properties\<close>

text \<open>A message with a required int32, a string of at most seven bytes with a \<^verbatim>\<open>has_\<close> flag, an array
  of three bytes-sized varints with a count, and a submessage with one fixed32; 28 bytes.\<close>

definition sub_fields :: "pb_field list" where
  "sub_fields =
     [\<lparr>tag = 1, ftype = 0x04, data_offset = 0, size_offset = 0, data_size = 4, array_size = 0, fptr = 0\<rparr>]"

definition msg_fields :: "pb_field list" where
  "msg_fields =
     [\<lparr>tag = 1, ftype = 0x01, data_offset = 0, size_offset = 0, data_size = 4, array_size = 0, fptr = 0\<rparr>,
      \<lparr>tag = 2, ftype = 0x17, data_offset = 1, size_offset = - 1, data_size = 8, array_size = 0, fptr = 0\<rparr>,
      \<lparr>tag = 3, ftype = 0x22, data_offset = 7, size_offset = - 4, data_size = 1, array_size = 3, fptr = 0\<rparr>,
      \<lparr>tag = 4, ftype = 0x08, data_offset = 1, size_offset = 0, data_size = 4, array_size = 0, fptr = 64\<rparr>]"

definition msg_env :: "unit pb_dec_env" where
  "msg_env =
     \<lparr>dec_fields = (\<lambda>a. if a = 64 then sub_fields else []), dec_alloc = (\<lambda>b n. 0),
      dec_callback = (\<lambda>fn f a st. (True, st)), dec_extension = (\<lambda>fn e t w st. (True, st))\<rparr>"

lemma msg_static: "static_desc 2 (dec_fields msg_env) msg_fields 28"
  by code_simp

definition start_st :: "mem \<Rightarrow> addr \<Rightarrow> size_t \<Rightarrow> mem \<Rightarrow> (addr \<Rightarrow> nat option) \<Rightarrow> 'u dec_st" where
  "start_st m buf len mem0 blocks =
     \<lparr>st_in = pb_istream_from_buffer m buf len, st_mem = mem0, st_blocks = blocks\<rparr>"

lemma start_st_frame:
  "frame A (start_st m buf len mem0 blocks) st' \<Longrightarrow>
     (\<forall>a. a \<notin> A \<longrightarrow> st_mem st' a = mem0 a) \<and> st_blocks st' = blocks \<and>
     (\<exists>p. source (st_in st') = BufSource m p \<and> buf \<le> p \<and>
        p + uint (bytes_left (st_in st')) \<le> buf + uint len)"
  by (auto simp: frame_def start_st_def in_within_def pb_istream_from_buffer_def)

lemma buf_start_st: "buf_st (start_st m buf len mem0 blocks)"
  by (simp add: start_st_def pb_istream_from_buffer_def)

lemma safe_decode_start:
  assumes "static_desc d (dec_fields env) fds sz" "d < n"
  shows "safe_run (span dest sz \<union> stack_area) (start_st m buf len mem0 blocks)
    (pb_decode n env fds dest (start_st m buf len mem0 blocks))"
  unfolding pb_decode_def
  using assms by (intro safe_decode_message [OF assms(1)] safe_decode_noinit [OF assms(1)] buf_start_st) auto

text \<open>C2: Whatever bytes the input holds, \<open>pb_decode\<close> into a statically allocated message returns,
  reads only the bytes of the input, writes no object but the message, and neither allocates
  nor frees; a nesting of \<open>d\<close> message types needs fuel \<open>d + 1\<close>.\<close>

theorem pb_decode_memory_safe:
  assumes "static_desc d (dec_fields env) fds sz" "d < n"
  shows "\<exists>ok st'. pb_decode n env fds dest (start_st m buf len mem0 blocks) = Some (ok, st') \<and>
    (\<forall>a. 0 \<le> a \<and> (a < dest \<or> dest + sz \<le> a) \<longrightarrow> st_mem st' a = mem0 a) \<and>
    st_blocks st' = blocks \<and>
    (\<exists>p. source (st_in st') = BufSource m p \<and> buf \<le> p \<and>
       p + uint (bytes_left (st_in st')) \<le> buf + uint len)"
proof -
  obtain ok st' where r: "pb_decode n env fds dest (start_st m buf len mem0 blocks) = Some (ok, st')"
    and f: "frame (span dest sz \<union> stack_area) (start_st m buf len mem0 blocks) st'"
    using safe_decode_start [OF assms, of dest m buf len mem0 blocks] by (auto simp: safe_run_def)
  from start_st_frame [OF f] r show ?thesis by (auto simp: stack_area_def)
qed

theorem pb_decode_memory_safe_witness:
  "\<exists>ok st'. pb_decode 3 msg_env msg_fields 1000 (start_st (\<lambda>a. 0xFF) 0 64 (\<lambda>a. 0) Map.empty) = Some (ok, st') \<and>
    st_mem st' 1028 = 0 \<and> st_mem st' 999 = 0"
  using pb_decode_memory_safe [OF msg_static, of 3 1000 "\<lambda>a. 0xFF" 0 64 "\<lambda>a. 0" Map.empty] by fastforce

text \<open>The same for a message that comes with its length: \<open>pb_decode_delimited\<close> confines the
  decoder to the length read from the input and to the message.\<close>

lemma pb_decode_delimited_memory_safe:
  fixes env :: "'u pb_dec_env"
  assumes "static_desc d (dec_fields env) fds sz" "d < n"
  shows "\<exists>ok st'. pb_decode_delimited n env fds dest (start_st m buf len mem0 blocks) = Some (ok, st') \<and>
    (\<forall>a. 0 \<le> a \<and> (a < dest \<or> dest + sz \<le> a) \<longrightarrow> st_mem st' a = mem0 a) \<and>
    st_blocks st' = blocks \<and>
    (\<exists>p. source (st_in st') = BufSource m p \<and> buf \<le> p \<and>
       p + uint (bytes_left (st_in st')) \<le> buf + uint len)"
proof -
  let ?A = "span dest sz \<union> stack_area" and ?st = "start_st m buf len mem0 blocks :: 'u dec_st"
  have "safe_run ?A ?st (pb_decode_delimited n env fds dest ?st)"
    unfolding pb_decode_delimited_def
  proof (rule safe_sub [OF buf_start_st])
    fix parent sub
    assume s: "sub_of (st_in ?st) parent sub"
    have b: "buf_st (?st\<lparr>st_in := sub\<rparr>)" using s by (auto simp: sub_of_def dest: in_within_BufSource)
    have "safe_run ?A (?st\<lparr>st_in := sub\<rparr>) (pb_decode n env fds dest (?st\<lparr>st_in := sub\<rparr>))"
      unfolding pb_decode_def using assms
      by (intro safe_decode_message [OF assms(1)] safe_decode_noinit [OF assms(1)] b) auto
    then obtain ok st1 where "pb_decode n env fds dest (?st\<lparr>st_in := sub\<rparr>) = Some (ok, st1)"
        "frame ?A (?st\<lparr>st_in := sub\<rparr>) st1"
      by (auto simp: safe_run_def)
    then show "safe_run ?A ?st
        (case pb_decode n env fds dest (?st\<lparr>st_in := sub\<rparr>) of
           None \<Rightarrow> None | Some (status, st1) \<Rightarrow> dec_close parent status st1)"
      using safe_close [OF s] by simp
  qed
  then obtain ok st' where r: "pb_decode_delimited n env fds dest ?st = Some (ok, st')" and f: "frame ?A ?st st'"
    by (auto simp: safe_run_def)
  from start_st_frame [OF f] r show ?thesis by (auto simp: stack_area_def)
qed

text \<open>Two neighbouring members of a union share their place and their \<^verbatim>\<open>which_\<close> member.\<close>

lemma find_tag:
  assumes "fields_wf fds" "distinct (map tag fds)" "i < length fds" "j < length fds"
    and "PB_LTYPE (ftype (fds ! j)) \<noteq> PB_LTYPE_EXTENSION"
  shows "pb_field_iter_find (iter_at fds dest i) (tag (fds ! j)) = Some (True, iter_at fds dest j)"
proof -
  have m: "field_matches (tag (fds ! j)) (fds ! j)" using assms(5) by (simp add: field_matches_def)
  have j: "j \<in> set (ring (length fds) i)" using assms(3,4) by (simp add: set_ring)
  have u: "k = j" if "field_matches (tag (fds ! j)) (fds ! k)" "k < length fds" for k
    using that assms(2,4) nth_eq_iff_index_eq [of "map tag fds" k j] by (simp add: field_matches_def)
  show ?thesis
  proof (cases "List.find (\<lambda>k. field_matches (tag (fds ! j)) (fds ! k)) (ring (length fds) i)")
    case None
    then show ?thesis using m j by (auto simp: find_None_iff)
  next
    case (Some k)
    from find_Some_ring [OF this] have "k = j" using u assms(3) by (auto simp: set_ring)
    then show ?thesis using Some by (simp add: find_iter_at [OF assms(1,3)])
  qed
qed

lemma union_neighbour:
  assumes "fields_wf fds" "Suc i < length fds"
    and "PB_HTYPE (ftype (fds ! i)) = PB_HTYPE_ONEOF" "PB_HTYPE (ftype (fds ! Suc i)) = PB_HTYPE_ONEOF"
    and "data_offset (fds ! Suc i) = PB_SIZE_MAX"
  shows "pData (iter_at fds dest (Suc i)) = pData (iter_at fds dest i)"
    "pSize (iter_at fds dest (Suc i)) = pSize (iter_at fds dest i)"
proof -
  have c: "cur (iter_at fds dest i) = fds ! i" using assms(1,2) by (simp add: iter_at_cur)
  have d: "cur (iter_at fds dest i\<lparr>pos := Suc (pos (iter_at fds dest i))\<rparr>) = fds ! Suc i"
    using assms(1,2) by (simp add: cur_def iter_at_pos nth_default_nth)
  have "tag (fds ! i) \<noteq> 0" "tag (fds ! Suc i) \<noteq> 0" using assms(1,2) by (simp_all add: fields_wf_def)
  then have "snd (pb_field_iter_next (iter_at fds dest i)) = iter_at fds dest i\<lparr>pos := Suc (pos (iter_at fds dest i))\<rparr>"
    using assms(3-5) by (simp add: pb_field_iter_next_def Let_def c d)
  then show "pData (iter_at fds dest (Suc i)) = pData (iter_at fds dest i)"
    "pSize (iter_at fds dest (Suc i)) = pSize (iter_at fds dest i)"
    by (simp_all add: iter_at.simps(2))
qed

text \<open>What reading a string into a pointer member asks of the allocator.\<close>

lemma allocate_field_None:
  "allocate_field env pd dsz asz st = None \<longleftrightarrow>
     dsz \<noteq> 0 \<and> asz \<noteq> 0 \<and> \<not> ((dsz \<ge> 0x100000000 \<or> asz \<ge> 0x100000000) \<and> - 1 div asz < dsz) \<and>
     rd_ptr pd st \<noteq> 0 \<and> st_blocks st (rd_ptr pd st) = None"
  by (auto simp: allocate_field_def dec_error_def pb_realloc_def Let_def split: option.splits prod.splits if_splits)

lemma string_pointer_None:
  assumes "PB_ATYPE (ftype f) = PB_ATYPE_POINTER" "pb_decode_varint32 (st_in st) = (Some sz, s)" "sz \<noteq> - 1"
  shows "pb_dec_string env f p st = None \<longleftrightarrow> rd_ptr p st \<noteq> 0 \<and> st_blocks st (rd_ptr p st) = None"
proof -
  have "uint sz \<noteq> 2 ^ 32 - 1"
  proof
    assume "uint sz = 2 ^ 32 - 1"
    moreover have "uint (- 1 :: u32) = 2 ^ 32 - 1" by code_simp
    ultimately have "uint sz = uint (- 1 :: u32)" by simp
    then show False using assms(3) by (simp only: word_eq_iff_unsigned [symmetric])
  qed
  then have "uint sz + 1 < 2 ^ 32" using uint_bounded [of sz] by simp
  then have u: "uint (sz + 1) = uint sz + 1" by (simp add: uint_plus_if')
  have b: "uint (ucast (sz + 1) :: size_t) = uint sz + 1" "uint (ucast sz :: size_t) = uint sz"
    using u by (simp_all add: uint_up_ucast is_up)
  have "0 < uint sz + 1" using uint_ge_0 [of sz] by linarith
  then have "uint (ucast (sz + 1) :: size_t) \<noteq> 0" using b(1) by linarith
  then have "(ucast (sz + 1) :: size_t) \<noteq> 0" by (metis unsigned_0)
  moreover have "\<not> (ucast (sz + 1) :: size_t) < ucast sz" "\<not> (ucast (sz + 1) :: size_t) \<ge> 0x100000000"
    using b \<open>uint sz + 1 < 2 ^ 32\<close> by (simp_all add: word_less_def word_le_def)
  ultimately have n: "\<not> (ucast (sz + 1) :: size_t) < ucast sz" "(ucast (sz + 1) :: size_t) \<noteq> 0" "\<not> (ucast (sz + 1) :: size_t) \<ge> 0x100000000"
    by blast+
  let ?alloc = "allocate_field env p (ucast (sz + 1)) 1 (st\<lparr>st_in := s\<rparr>)"
  have e: "?alloc = None \<longleftrightarrow> rd_ptr p st \<noteq> 0 \<and> st_blocks st (rd_ptr p st) = None"
    using n by (simp add: allocate_field_None rd_ptr_def)
  have "pb_dec_string env f p st = None \<longleftrightarrow> ?alloc = None"
    using assms(1,2) n by (cases ?alloc) (auto simp: pb_dec_string_def dec_in_def dec_seq_def Let_def dec_read_def split: prod.splits)
  then show ?thesis using e by (rule trans)
qed

text \<open>C34: In a union a static scalar and, next to it, a pointer to a string share their place. When the scalar is
  the member that is set and the input goes on with the string, the decoder releases nothing and clears
  nothing, so that it hands the bytes of the scalar to \<^verbatim>\<open>realloc\<close>: unless they are zero or happen to be
  the address of a live block, the run has no meaning in C, and otherwise it has one.\<close>

theorem union_switch_reallocs_integer:
  assumes "fields_wf fds" "distinct (map tag fds)" "Suc i < length fds"
    and "PB_HTYPE (ftype (fds ! i)) = PB_HTYPE_ONEOF" "PB_ATYPE (ftype (fds ! i)) = PB_ATYPE_STATIC"
      "PB_LTYPE (ftype (fds ! i)) \<le> PB_LTYPE_LAST_PACKABLE"
    and "PB_HTYPE (ftype (fds ! Suc i)) = PB_HTYPE_ONEOF" "PB_ATYPE (ftype (fds ! Suc i)) = PB_ATYPE_POINTER"
      "PB_LTYPE (ftype (fds ! Suc i)) = PB_LTYPE_STRING" "data_offset (fds ! Suc i) = PB_SIZE_MAX"
    and "it = iter_at fds dest (Suc i)" "p = pData (iter_at fds dest i)" "pSize it + 4 \<le> p \<or> p + 8 \<le> pSize it"
    and "rd32 (pSize it) st = tag (fds ! i)"
    and "pb_decode_varint32 (st_in st) = (Some sz, s)" "sz \<noteq> - 1"
    and "r_union r = pb_release_union_field (Suc n) env" "r_func r PB_LTYPE_STRING = pb_dec_string env"
  shows "pb_release_union_field (Suc n) env it st = Some ((True, it), st) \<and>
    (decode_field env r wire_type it st = None \<longleftrightarrow> rd_ptr p st \<noteq> 0 \<and> st_blocks st (rd_ptr p st) = None)"
proof -
  have nb: "pData it = p" "pSize (iter_at fds dest i) = pSize it"
    using union_neighbour [OF assms(1,3,4,7,10), of dest] assms(11,12) by simp_all
  have c: "cur it = fds ! Suc i" "cur (iter_at fds dest i) = fds ! i" using assms(1,3,11) by (simp_all add: iter_at_cur)
  have lt: "PB_LTYPE (ftype (fds ! i)) \<noteq> PB_LTYPE_EXTENSION" "PB_LTYPE (ftype (fds ! i)) \<noteq> PB_LTYPE_SUBMESSAGE"
    "PB_LTYPE_STRING \<noteq> PB_LTYPE_EXTENSION" "PB_LTYPE_STRING \<noteq> PB_LTYPE_SUBMESSAGE" "PB_ATYPE_STATIC \<noteq> PB_ATYPE_POINTER"
    using assms(6) by (auto simp: PB_LTYPE_EXTENSION_def PB_LTYPE_SUBMESSAGE_def PB_LTYPE_LAST_PACKABLE_def PB_LTYPE_STRING_def
        PB_ATYPE_STATIC_def PB_ATYPE_POINTER_def word_le_nat_alt)
  have tags: "tag (fds ! i) \<noteq> 0" "tag (fds ! i) \<noteq> tag (fds ! Suc i)"
    using assms(1-3) nth_eq_iff_index_eq [of "map tag fds" i "Suc i"] by (simp_all add: fields_wf_def)
  have find: "pb_field_iter_find it (tag (fds ! i)) = Some (True, iter_at fds dest i)"
    "pb_field_iter_find (iter_at fds dest i) (tag (fds ! Suc i)) = Some (True, it)"
    using find_tag [OF assms(1,2)] assms(3,9,11) lt by simp_all
  have rel: "pb_release_single_field (Suc n) env (iter_at fds dest i) st = Some st"
    using lt assms(5,14) by (simp add: c(2) nb(2) Let_def)
  have u: "pb_release_union_field (Suc n) env it st = Some ((True, it), st)"
    unfolding pb_release_union_field_def Let_def assms(14) c(1) 
    by (simp only: find rel tags simp_thms if_False option.case prod.case bool.case)
  let ?st = "wr32 (pSize it) (tag (fds ! Suc i)) st"
  have m: "rd_ptr p ?st = rd_ptr p st" "st_blocks ?st = st_blocks st" "st_in ?st = st_in st"
    using assms(13) by (auto simp: rd_ptr_def read_ptr_def read_u64_def wr32_def wr_def mem_read_write_disjoint)
  have d: "decode_field env r wire_type it st = map_option (\<lambda>(ok, st2). ((ok, it), st2)) (pb_dec_string env (fds ! Suc i) p ?st)"
    using assms(7-9,17,18) u lt
    by (simp add: decode_field_def c(1) Let_def decode_pointer_field_def dec_seq_def dec_do_def nb(1))
  have "decode_field env r wire_type it st = None \<longleftrightarrow> rd_ptr p st \<noteq> 0 \<and> st_blocks st (rd_ptr p st) = None"
    unfolding d option.map_disc_iff using string_pointer_None [OF assms(8), of ?st sz s env p] assms(15,16) m by simp
  then show ?thesis using u by blast
qed

text \<open>A union of a static 64-bit integer (tag 1) and a string pointer (tag 2) after its \<^verbatim>\<open>which_\<close>
  member.\<close>

definition union_fields :: "pb_field list" where
  "union_fields =
     [\<lparr>tag = 1, ftype = 0x32, data_offset = 8, size_offset = - 8, data_size = 8, array_size = 0, fptr = 0\<rparr>,
      \<lparr>tag = 2, ftype = 0xB7, data_offset = PB_SIZE_MAX, size_offset = - 8, data_size = 8, array_size = 0,
       fptr = 0\<rparr>]"

definition union_input :: mem where
  "union_input = mem_write (\<lambda>a. 0) 0 [8, 0xD2, 9, 18, 2, 104, 105]"

text \<open>The first three bytes of this input set the integer to 1234, and the rest is the string. After the first
  three the integer lies where the pointer of the string does, and decoding the string has no meaning.\<close>

theorem union_switch_reallocs_integer_witness:
  "\<exists>st. pb_decode 3 msg_env union_fields 1000 (start_st union_input 0 3 (\<lambda>a. 0) Map.empty) = Some (True, st) \<and>
     rd_ptr 1008 st = 1234 \<and>
     decode_field msg_env
       \<lparr>r_func = PB_DECODERS msg_env (pb_decode 1 msg_env) (pb_decode_noinit 1 msg_env),
        r_defaults = pb_message_set_to_defaults 1 msg_env, r_release = pb_release_single_field 1 msg_env,
        r_union = pb_release_union_field 1 msg_env\<rparr> PB_WT_STRING (iter_at union_fields 1000 1)
       (st\<lparr>st_in := pb_istream_from_buffer union_input 4 3\<rparr>) = None"
proof -
  have "(case pb_decode 3 msg_env union_fields 1000 (start_st union_input 0 3 (\<lambda>a. 0) Map.empty) of
      None \<Rightarrow> False | Some (ok, st) \<Rightarrow> ok \<and> rd_ptr 1008 st = 1234 \<and> rd32 1000 st = 1 \<and> st_blocks st 1234 = None)"
    by code_simp
  then obtain st where st: "pb_decode 3 msg_env union_fields 1000 (start_st union_input 0 3 (\<lambda>a. 0) Map.empty) = Some (True, st)"
    "rd_ptr 1008 st = 1234" "rd32 1000 st = 1" "st_blocks st 1234 = None"
    by (auto split: option.splits)
  let ?it = "iter_at union_fields 1000 (Suc 0)" and ?st = "st\<lparr>st_in := pb_istream_from_buffer union_input 4 3\<rparr>"
  let ?r = "\<lparr>r_func = PB_DECODERS msg_env (pb_decode 1 msg_env) (pb_decode_noinit 1 msg_env),
        r_defaults = pb_message_set_to_defaults 1 msg_env, r_release = pb_release_single_field 1 msg_env,
        r_union = pb_release_union_field (Suc 0) msg_env\<rparr>"
  have it: "pSize ?it = 1000" "pData (iter_at union_fields 1000 0) = 1008" by code_simp+
  have len: "fst (pb_decode_varint32 (pb_istream_from_buffer union_input 4 3 :: unit pb_istream)) = Some 2" by code_simp
  obtain s where s: "pb_decode_varint32 (pb_istream_from_buffer union_input 4 3 :: unit pb_istream) = (Some 2, s)"
    using len by (cases "pb_decode_varint32 (pb_istream_from_buffer union_input 4 3 :: unit pb_istream)") auto
  have rd: "rd_ptr 1008 ?st = 1234" "rd32 1000 ?st = 1" using st(2,3) by (simp_all add: rd_ptr_def rd32_def)
  have "decode_field msg_env ?r PB_WT_STRING ?it ?st = None \<longleftrightarrow> rd_ptr 1008 ?st \<noteq> 0 \<and> st_blocks ?st (rd_ptr 1008 ?st) = None"
  proof (rule union_switch_reallocs_integer [of union_fields 0 ?it 1000 1008 ?st 2 s ?r 0 msg_env, THEN conjunct2])
    show "fields_wf union_fields" "distinct (map tag union_fields)" "Suc 0 < length union_fields"
      by (simp_all add: fields_wf_def union_fields_def)
    show "PB_HTYPE (ftype (union_fields ! 0)) = PB_HTYPE_ONEOF" "PB_ATYPE (ftype (union_fields ! 0)) = PB_ATYPE_STATIC"
      "PB_LTYPE (ftype (union_fields ! 0)) \<le> PB_LTYPE_LAST_PACKABLE"
      "PB_HTYPE (ftype (union_fields ! Suc 0)) = PB_HTYPE_ONEOF" "PB_ATYPE (ftype (union_fields ! Suc 0)) = PB_ATYPE_POINTER"
      "PB_LTYPE (ftype (union_fields ! Suc 0)) = PB_LTYPE_STRING" "data_offset (union_fields ! Suc 0) = PB_SIZE_MAX"
      by (simp_all add: union_fields_def pb_type_defs)
    show "rd32 (pSize ?it) ?st = tag (union_fields ! 0)" using rd(2) by (simp add: it(1)) (simp add: union_fields_def)
  qed (simp_all only: it s, simp_all add: PB_DECODERS_def pb_type_defs s)
  then show ?thesis using st rd by simp
qed

text \<open>C35: A repeated static field whose count is fixed has no count in the structure. Setting a message of such
  a field to its defaults clears one all the same: four bytes become zero where the array begins, past its
  end when it is smaller, and nothing else changes.\<close>

theorem fixed_count_defaults_overflow:
  assumes "tag f \<noteq> 0" "PB_ATYPE (ftype f) = PB_ATYPE_STATIC" "PB_HTYPE (ftype f) = PB_HTYPE_REPEATED"
    and "PB_LTYPE (ftype f) \<noteq> PB_LTYPE_EXTENSION" "size_offset f = 0" "stored_size f < 4"
    and "p = dest + uint (data_offset f)"
  shows "\<exists>st'. pb_message_set_to_defaults (Suc n) env [f] dest st = Some st' \<and>
    (\<forall>a. st_mem st' a = (if p \<le> a \<and> a < p + 4 then 0 else st_mem st a)) \<and>
    st_mem st' (p + stored_size f) = 0 \<and> st_in st' = st_in st \<and> st_blocks st' = st_blocks st"
proof -
  define it where "it = snd (pb_field_iter_begin [f] dest)"
  have it: "pb_field_iter_begin [f] dest = (True, it)" "cur it = f" "pSize it = p" "start it = [f]" "pos it = 0"
    using assms(1,5,7) by (simp_all add: it_def pb_field_iter_begin_def Let_def cur_def nth_default_def)
  have s: "pb_field_set_to_default (Suc n) env it st = Some (wr32 p 0 st)"
    using assms(2-4) htype_distinct by (simp add: it Let_def)
  have next0: "\<not> fst (pb_field_iter_next it)" by (simp add: next_more it nth_default_def PB_LAST_FIELD_def)
  have m: "pb_message_set_to_defaults (Suc n) env [f] dest st = Some (wr32 p 0 st)"
    unfolding pb_message_set_to_defaults_def message_defaults_def it(1) void_do_while_def
    using s next0 by (subst iter_do_while.simps) (simp del: pb_field_set_to_default.simps split: prod.splits)
  have z: "le_bytes 4 (0 :: u32) = [0, 0, 0, 0]" by code_simp
  have w: "st_mem (wr32 p 0 st) a = (if p \<le> a \<and> a < p + 4 then 0 else st_mem st a)" for a
    by (auto simp: wr32_def wr_def z mem_write_def nth_Cons' simp del: nth_Cons_numeral)
  have "0 \<le> stored_size f" by (simp add: stored_size_def)
  then show ?thesis unfolding m using assms(6) by (intro exI [of _ "wr32 p 0 st"]) (simp add: w, simp add: wr32_def wr_def)
qed

text \<open>A structure of two bytes: an array of two booleans whose count is fixed. The byte after it is cleared too.\<close>

definition two_bools :: "pb_field list" where
  "two_bools =
     [\<lparr>tag = 1, ftype = 0x20, data_offset = 0, size_offset = 0, data_size = 1, array_size = 2, fptr = 0\<rparr>]"

theorem fixed_count_defaults_overflow_witness:
  "\<exists>st. pb_message_set_to_defaults 1 msg_env two_bools 1000 (start_st (\<lambda>a. 0) 0 0 (\<lambda>a. 0xAA) Map.empty) = Some st \<and>
     st_mem st 1002 = 0 \<and> st_mem st 1003 = 0 \<and> st_mem st 1004 = 0xAA"
proof -
  let ?f = "\<lparr>tag = 1, ftype = 0x20, data_offset = 0, size_offset = 0, data_size = 1, array_size = 2, fptr = 0\<rparr> :: pb_field"
  have "tag ?f \<noteq> 0" "PB_ATYPE (ftype ?f) = PB_ATYPE_STATIC" "PB_HTYPE (ftype ?f) = PB_HTYPE_REPEATED"
    "PB_LTYPE (ftype ?f) \<noteq> PB_LTYPE_EXTENSION" "size_offset ?f = 0" "stored_size ?f < 4" "1000 = 1000 + uint (data_offset ?f)"
    by (simp_all add: pb_type_defs stored_size_def)
  from fixed_count_defaults_overflow [OF this, of 0 msg_env "start_st (\<lambda>a. 0) 0 0 (\<lambda>a. 0xAA) Map.empty"]
  show ?thesis unfolding two_bools_def by (auto simp: start_st_def)
qed

end
