(* ===== verification/Pb_Required.thy ===== *)
theory Pb_Required
  imports Pb_Decode_Message
begin

text \<open>
  The required-field check of \<open>pb_decode_noinit\<close> (\<^verbatim>\<open>ios/Pods/nanopb/pb_decode.c\<close>): the bits of
  \<^verbatim>\<open>fields_seen\<close> are a set of indices below 64, \<open>mark_required\<close> adds the current field's index,
  and the comparison of whole words and of the last partial word decides that no index is missing.
\<close>

definition seen_bit :: "u32 list \<Rightarrow> nat \<Rightarrow> bool" where
  "seen_bit seen i \<longleftrightarrow> bit (seen ! (i div 32)) (i mod 32)"

lemma unat_low5: "unat (w AND 31) = unat (w :: u32) mod 32"
proof -
  have "w AND 31 = w mod 32"
    using take_bit_eq_mask [of 5 w] by (simp add: mask_eq_exp_minus_1 take_bit_eq_mod)
  then show ?thesis by (simp add: unat_mod_distrib)
qed

lemma unat_high5: "unat (drop_bit 5 w) = unat (w :: u32) div 32"
  by (simp add: drop_bit_eq_div unat_div_distrib)

lemma mark_required_bit:
  assumes "length seen = 2" "j < 64"
  shows "seen_bit (mark_required it seen) j \<longleftrightarrow>
    seen_bit seen j \<or>
    PB_HTYPE (ftype (cur it)) = PB_HTYPE_REQUIRED \<and> j = unat (required_field_index it)"
proof (cases "PB_HTYPE (ftype (cur it)) = PB_HTYPE_REQUIRED \<and> required_field_index it < PB_MAX_REQUIRED_FIELDS")
  case False
  then have "PB_HTYPE (ftype (cur it)) = PB_HTYPE_REQUIRED \<Longrightarrow> j \<noteq> unat (required_field_index it)"
    using assms(2) by (auto simp: PB_MAX_REQUIRED_FIELDS_def word_less_nat_alt)
  then show ?thesis using False by (auto simp: mark_required_def Let_def)
next
  case True
  define i where "i = unat (required_field_index it)"
  have i: "i < 64" using True by (simp add: i_def PB_MAX_REQUIRED_FIELDS_def word_less_nat_alt)
  have m: "mark_required it seen = seen[i div 32 := seen ! (i div 32) OR push_bit (i mod 32) 1]"
    using True by (simp add: mark_required_def Let_def unat_low5 unat_high5 i_def)
  have w: "i div 32 < 2" "j div 32 < 2" using i assms(2) by (simp_all add: less_mult_imp_div_less)
  have "bit (push_bit (i mod 32) 1 :: u32) (j mod 32) \<longleftrightarrow> i mod 32 = j mod 32"
    by (simp add: bit_simps) (auto simp: bit_simps)
  moreover have "i = j" if "i div 32 = j div 32" "i mod 32 = j mod 32"
    using that by (metis div_mult_mod_eq)
  ultimately show ?thesis
    using w assms(1) True unfolding m seen_bit_def i_def [symmetric]
    by (cases "i div 32 = j div 32") (auto simp: bit_or_iff)
qed

lemma all_ones_iff: "(w :: u32) = - 1 \<longleftrightarrow> (\<forall>k < 32. bit w k)"
  by (auto simp: bit_eq_iff)

lemma low_ones_iff:
  fixes w :: u32
  assumes "0 < r" "r < 32" "\<forall>k < 32. bit w k \<longrightarrow> k < r"
  shows "w = drop_bit (32 - r) (- 1) \<longleftrightarrow> (\<forall>k < r. bit w k)"
  using assms by (auto simp: bit_eq_iff bit_simps)


section \<open>Properties\<close>

text \<open>With up to 64 required fields, the comparison of the words of \<^verbatim>\<open>fields_seen\<close> with all ones
  succeeds exactly when the index of every required field has been seen.\<close>

lemma required_seen_all:
  assumes "length seen = 2" "unat req \<le> 64" "\<forall>i < 64. seen_bit seen i \<longrightarrow> i < unat req"
  shows "required_seen req seen \<longleftrightarrow> (\<forall>i < unat req. seen_bit seen i)"
proof -
  define q r where "q = unat req div 32" and "r = unat req mod 32"
  have n12: "unat req = 32 * q + r" "r < 32" by (simp_all add: q_def r_def)
  have n: "unat req = 32 * q + r" "r < 32" "q \<le> 2" "q = 2 \<longrightarrow> r = 0"
    using n12 assms(2) by linarith+
  have nz: "req AND 31 \<noteq> 0 \<longleftrightarrow> 0 < r"
    by (metis r_def unat_low5 unat_eq_zero gr0I not_less0)
  have chk: "required_seen req seen \<longleftrightarrow>
      (\<forall>i < q. \<forall>k < 32. bit (seen ! i) k) \<and> (0 < r \<longrightarrow> seen ! q = drop_bit (32 - r) (- 1))"
    unfolding required_seen_def nz unat_high5 unat_low5 q_def [symmetric] r_def [symmetric]
    by (auto simp: list_all_iff all_ones_iff)
  have split: "(\<forall>i < unat req. seen_bit seen i) \<longleftrightarrow>
      (\<forall>i < q. \<forall>k < 32. bit (seen ! i) k) \<and> (\<forall>k < r. bit (seen ! q) k)"
  proof safe
    fix i k :: nat
    assume a: "\<forall>i < unat req. seen_bit seen i" "i < q" "k < 32"
    then have "32 * i + k < unat req" using n(1) by linarith
    with a show "bit (seen ! i) k" by (auto simp: seen_bit_def dest: spec [of _ "32 * i + k"])
  next
    fix k
    assume a: "\<forall>i < unat req. seen_bit seen i" "k < r"
    then have "32 * q + k < unat req" "k < 32" using n by simp_all
    with a show "bit (seen ! q) k" by (auto simp: seen_bit_def dest: spec [of _ "32 * q + k"])
  next
    fix i
    assume a: "\<forall>i < q. \<forall>k < 32. bit (seen ! i) k" "\<forall>k < r. bit (seen ! q) k" "i < unat req"
    have "i = 32 * (i div 32) + i mod 32" by simp
    then have "i div 32 < q \<or> i div 32 = q \<and> i mod 32 < r"
      using a(3) n(1,2) by linarith
    then consider "i div 32 < q" | "i div 32 = q" "i mod 32 < r" by blast
    then show "seen_bit seen i" using a by cases (auto simp: seen_bit_def)
  qed
  have "\<forall>k < 32. bit (seen ! q) k \<longrightarrow> k < r" if "0 < r"
  proof safe
    fix k :: nat
    assume k: "k < 32" "bit (seen ! q) k"
    have "q < 2" using n that by (cases "q = 2") auto
    then have "32 * q + k < 64" using k by simp
    moreover have "seen_bit seen (32 * q + k)" using k by (simp add: seen_bit_def)
    ultimately show "k < r" using assms(3) n(1) by fastforce
  qed
  then show ?thesis using low_ones_iff [of r "seen ! q"] n(2) unfolding chk split by auto
qed

end
