(* ===== verification/Crypto_Common.thy ===== *)
theory Crypto_Common
  imports Prelude
begin

text \<open>
  The constant-time helpers of \<^verbatim>\<open>ios/Pods/BoringSSL-GRPC/src/crypto/internal.h\<close>
  (\<open>crypto_word_t\<close> is 64 bits wide). The optimisation barriers return their argument. Every
  branch-free formula is shown equal to the comparison it stands for; \<open>ct_simps\<close> collects
  the equations.
\<close>

named_theorems ct_simps "constant-time operations as comparisons and conditionals"

section \<open>Masks\<close>

definition value_barrier_w :: "u64 \<Rightarrow> u64" where
  "value_barrier_w a = a"

definition constant_time_msb_w :: "u64 \<Rightarrow> u64" where
  "constant_time_msb_w a = 0 - drop_bit 63 a"

definition constant_time_lt_w :: "u64 \<Rightarrow> u64 \<Rightarrow> u64" where
  "constant_time_lt_w a b = constant_time_msb_w (a XOR ((a XOR b) OR ((a - b) XOR a)))"

definition constant_time_lt_8 :: "u64 \<Rightarrow> u64 \<Rightarrow> byte" where
  "constant_time_lt_8 a b = ucast (constant_time_lt_w a b)"

definition constant_time_ge_w :: "u64 \<Rightarrow> u64 \<Rightarrow> u64" where
  "constant_time_ge_w a b = NOT (constant_time_lt_w a b)"

definition constant_time_ge_8 :: "u64 \<Rightarrow> u64 \<Rightarrow> byte" where
  "constant_time_ge_8 a b = ucast (constant_time_ge_w a b)"

definition constant_time_is_zero_w :: "u64 \<Rightarrow> u64" where
  "constant_time_is_zero_w a = constant_time_msb_w (NOT a AND (a - 1))"

definition constant_time_is_zero_8 :: "u64 \<Rightarrow> byte" where
  "constant_time_is_zero_8 a = ucast (constant_time_is_zero_w a)"

definition constant_time_eq_w :: "u64 \<Rightarrow> u64 \<Rightarrow> u64" where
  "constant_time_eq_w a b = constant_time_is_zero_w (a XOR b)"

definition constant_time_eq_8 :: "u64 \<Rightarrow> u64 \<Rightarrow> byte" where
  "constant_time_eq_8 a b = ucast (constant_time_eq_w a b)"

text \<open>An \<open>int\<close> is 32 bits wide and sign-extends to \<open>crypto_word_t\<close>.\<close>

definition constant_time_eq_int :: "u32 \<Rightarrow> u32 \<Rightarrow> u64" where
  "constant_time_eq_int a b = constant_time_eq_w (scast a) (scast b)"

definition constant_time_eq_int_8 :: "u32 \<Rightarrow> u32 \<Rightarrow> byte" where
  "constant_time_eq_int_8 a b = constant_time_eq_8 (scast a) (scast b)"

definition constant_time_select_w :: "u64 \<Rightarrow> u64 \<Rightarrow> u64 \<Rightarrow> u64" where
  "constant_time_select_w m a b =
     (value_barrier_w m AND a) OR (value_barrier_w (NOT m) AND b)"

definition constant_time_select_8 :: "byte \<Rightarrow> byte \<Rightarrow> byte \<Rightarrow> byte" where
  "constant_time_select_8 m a b =
     ucast (constant_time_select_w (ucast m) (ucast a) (ucast b))"

definition constant_time_select_int :: "u64 \<Rightarrow> u32 \<Rightarrow> u32 \<Rightarrow> u32" where
  "constant_time_select_int m a b = ucast (constant_time_select_w m (scast a) (scast b))"

text \<open>The two values a mask takes.\<close>

definition ct_mask :: "bool \<Rightarrow> 'a::len word" where
  "ct_mask b = (if b then - 1 else 0)"

lemma ucast_ct_mask [ct_simps]: "(ucast (ct_mask b :: 'a::len word) :: 'b::len word) = ct_mask b"
  if "LENGTH('b) \<le> LENGTH('a)"
  using that by (auto simp: ct_mask_def bit_simps intro!: bit_word_eqI)

lemma not_ct_mask [ct_simps]: "NOT (ct_mask b) = ct_mask (\<not> b)"
  by (simp add: ct_mask_def)

lemma ct_msb: "constant_time_msb_w a = ct_mask (bit a 63)"
proof -
  have "drop_bit 63 a = of_bool (bit a 63)"
  proof (rule bit_word_eqI)
    fix n
    show "bit (drop_bit 63 a) n \<longleftrightarrow> bit (of_bool (bit a 63) :: u64) n" if "n < LENGTH(64)"
      using bit_imp_le_length [of a "63 + n"] by (cases n) (auto simp: bit_simps)
  qed
  then show ?thesis by (simp add: constant_time_msb_w_def ct_mask_def)
qed

lemma bit_63: "bit (a :: u64) 63 \<longleftrightarrow> 2 ^ 63 \<le> uint a"
proof -
  have "bit a 63 \<longleftrightarrow> bit (uint a) 63" by (simp add: bit_simps)
  also have "\<dots> \<longleftrightarrow> odd (uint a div 2 ^ 63)" by (simp only: bit_iff_odd)
  finally have "bit a 63 \<longleftrightarrow> odd (uint a div 2 ^ 63)" .
  moreover have "0 \<le> uint a" "uint a < 2 * 2 ^ 63" using uint_bounded [of a] by simp_all
  then have "odd (uint a div 2 ^ 63) \<longleftrightarrow> 2 ^ 63 \<le> uint a"
    by (cases "2 ^ 63 \<le> uint a") (simp_all add: div_pos_geq)
  ultimately show ?thesis by simp
qed

lemma constant_time_lt_w_iff [ct_simps]: "constant_time_lt_w a b = ct_mask (a < b)"
proof -
  have d: "uint (a - b) = (uint a - uint b) mod 2 ^ 64"
    by (simp add: uint_word_ariths)
  have ab: "0 \<le> uint a" "uint a < 2 ^ 64" "0 \<le> uint b" "uint b < 2 ^ 64"
    using uint_bounded [of a] uint_bounded [of b] by simp_all
  have near: "x - y < 2 ^ 63 \<and> y - x < 2 ^ 63"
    if "(2 ^ 63 \<le> x) = (2 ^ 63 \<le> y)" "0 \<le> x" "x < 2 ^ 64" "0 \<le> y" "y < 2 ^ 64" for x y :: int
    using that by auto
  have "bit (a - b) 63 \<longleftrightarrow> uint a < uint b" if "bit a 63 = bit b 63"
  proof (cases "uint a < uint b")
    case True
    then have "uint (a - b) = uint a - uint b + 2 ^ 64"
      unfolding d using ab by (intro mod_sub_borrow) linarith+
    then have "2 ^ 63 \<le> uint (a - b)" using near [OF that [unfolded bit_63] ab] by simp
    then show ?thesis using True by (simp add: bit_63)
  next
    case False
    then have "uint (a - b) = uint a - uint b"
      unfolding d using ab by (intro mod_sub_no_borrow) linarith+
    then have "\<not> 2 ^ 63 \<le> uint (a - b)" using near [OF that [unfolded bit_63] ab] by simp
    then show ?thesis using False by (simp add: bit_63)
  qed
  moreover have "(a < b) = bit b 63" if "bit a 63 \<noteq> bit b 63"
    using that by (auto simp: bit_63 word_less_def)
  ultimately show ?thesis
    by (auto simp: constant_time_lt_w_def ct_msb ct_mask_def bit_simps word_less_def)
qed

lemma constant_time_is_zero_w_iff [ct_simps]: "constant_time_is_zero_w a = ct_mask (a = 0)"
proof -
  have "\<not> (\<not> bit a 63 \<and> bit (a - 1) 63)" if "a \<noteq> 0"
  proof -
    have "0 < uint a" using that by (metis uint_0_iff uint_ge_0 less_le)
    then have "uint (a - 1) = uint a - 1"
      using uint_bounded [of a] by (simp add: uint_word_ariths)
    then show ?thesis by (auto simp: bit_63)
  qed
  then show ?thesis
    by (auto simp: constant_time_is_zero_w_def ct_msb ct_mask_def bit_simps)
qed

lemma constant_time_eq_w_iff [ct_simps]: "constant_time_eq_w a b = ct_mask (a = b)"
  by (simp add: constant_time_eq_w_def ct_simps word_xor_eq_0_iff)

lemma constant_time_select_w_mask [ct_simps]:
  "constant_time_select_w (ct_mask c) a b = (if c then a else b)"
  by (simp add: constant_time_select_w_def value_barrier_w_def ct_mask_def)

lemma constant_time_8 [ct_simps]:
  "constant_time_lt_8 a b = ct_mask (a < b)"
  "constant_time_ge_w a b = ct_mask (b \<le> a)"
  "constant_time_ge_8 a b = ct_mask (b \<le> a)"
  "constant_time_is_zero_8 a = ct_mask (a = 0)"
  "constant_time_eq_8 a b = ct_mask (a = b)"
  by (simp_all add: constant_time_lt_8_def constant_time_ge_w_def constant_time_ge_8_def
      constant_time_is_zero_8_def constant_time_eq_8_def ct_simps not_less)

lemma constant_time_select_8_mask [ct_simps]:
  "constant_time_select_8 (ct_mask c) a b = (if c then a else b)"
  by (rule bit_word_eqI)
    (auto simp: constant_time_select_8_def constant_time_select_w_def value_barrier_w_def ct_mask_def bit_simps)

text \<open>The \<open>int\<close> variants compare and select the sign-extended values.\<close>

lemma scast_u32_eq_iff: "(scast (a :: u32) :: u64) = scast b \<longleftrightarrow> a = b"
proof
  assume "(scast a :: u64) = scast b"
  then have "(ucast (scast a :: u64) :: u32) = ucast (scast b :: u64)" by simp
  moreover have "(ucast (scast w :: u64) :: u32) = w" for w :: u32
    by (rule bit_word_eqI) (auto simp: bit_simps)
  ultimately show "a = b" by simp
qed simp

lemma constant_time_int [ct_simps]:
  "constant_time_eq_int i j = ct_mask (i = j)"
  "constant_time_eq_int_8 i j = ct_mask (i = j)"
  "constant_time_select_int (ct_mask c) i j = (if c then i else j)"
proof -
  have "(ucast (scast w :: u64) :: u32) = w" for w :: u32
    by (rule bit_word_eqI) (auto simp: bit_simps)
  then show "constant_time_select_int (ct_mask c) i j = (if c then i else j)"
    by (simp add: constant_time_select_int_def ct_simps)
qed (simp_all add: constant_time_eq_int_def constant_time_eq_int_8_def ct_simps scast_u32_eq_iff)

text \<open>The branch-free comparisons and selections of \<open>internal.h\<close> agree with \<open><\<close>, \<open>\<le>\<close>,
  \<open>=\<close> and the conditional on every pair of 64-bit values, the borrow and sign cases included:
  selecting with the mask of a comparison is the conditional expression on it.\<close>

lemma constant_time_select_correct:
  "constant_time_select_w (constant_time_lt_w a b) x y = (if a < b then x else y) \<and>
   constant_time_select_w (constant_time_ge_w a b) x y = (if b \<le> a then x else y) \<and>
   constant_time_select_w (constant_time_eq_w a b) x y = (if a = b then x else y) \<and>
   constant_time_select_8 (constant_time_lt_8 a b) x' y' = (if a < b then x' else y') \<and>
   constant_time_select_8 (constant_time_eq_8 a b) x' y' = (if a = b then x' else y') \<and>
   constant_time_select_int (constant_time_eq_int i j) i' j' = (if i = j then i' else j')"
  by (simp add: ct_simps)

end
