(* ===== verification/Base64.thy ===== *)
theory Base64
  imports Crypto_Common
begin

text \<open>
  \<^verbatim>\<open>ios/Pods/BoringSSL-GRPC/src/crypto/base64/base64.c\<close>. Output goes to memory at the
  pointer the caller gives; input is the list of bytes the pointer and length describe, in
  memory of its own. \<open>b64\<close> is the encoding of RFC 4648, stated on numbers; the encoder is shown
  to write it, and the decoder, whose table look-ups are computed without branches, to invert it.
\<close>

section \<open>Definitions\<close>

definition constant_time_lt_args_8 :: "byte \<Rightarrow> byte \<Rightarrow> byte" where
  "constant_time_lt_args_8 a b = ucast (constant_time_msb_w (ucast a - ucast b))"

definition constant_time_in_range_8 :: "byte \<Rightarrow> byte \<Rightarrow> byte \<Rightarrow> byte" where
  "constant_time_in_range_8 a lo hi = constant_time_lt_args_8 (a - lo) (hi - lo + 1)"

definition ascii :: "char \<Rightarrow> byte" where
  "ascii c = of_char c"

definition conv_bin2ascii :: "byte \<Rightarrow> byte" where
  "conv_bin2ascii a0 =
     (let a = a0 AND 0x3f;
          ret = constant_time_select_8 (constant_time_eq_8 (ucast a) 62) (ascii CHR ''+'') (ascii CHR ''/'');
          ret = constant_time_select_8 (constant_time_lt_args_8 a 62) (a - 52 + ascii CHR ''0'') ret;
          ret = constant_time_select_8 (constant_time_lt_args_8 a 52) (a - 26 + ascii CHR ''a'') ret;
          ret = constant_time_select_8 (constant_time_lt_args_8 a 26) (a + ascii CHR ''A'') ret
      in ret)"

definition EVP_EncodedLength :: "size_t \<Rightarrow> size_t option" where
  "EVP_EncodedLength len =
     (if len + 2 < len then None
      else let len = (len + 2) div 3 in
        if drop_bit 2 (push_bit 2 len) \<noteq> len then None
        else let len = push_bit 2 len in
          if len + 1 < len then None else Some (len + 1))"

text \<open>\<open>data_used\<close> is \<open>unsigned\<close> in C; it never exceeds the 48 bytes of \<open>data\<close>
  (\<open>encode_inv\<close>, \<open>decode_inv\<close>), so it is a natural number here. The two flags are \<open>char\<close>s that
  hold 0 or 1.\<close>

record EVP_ENCODE_CTX =
  data_used :: nat
  data :: "byte list"
  eof_seen :: bool
  error_encountered :: bool

definition EVP_EncodeInit :: "EVP_ENCODE_CTX" where
  "EVP_EncodeInit = \<lparr>data_used = 0, data = replicate 48 0, eof_seen = False, error_encountered = False\<rparr>"

fun encode_block_loop :: "mem \<Rightarrow> addr \<Rightarrow> byte list \<Rightarrow> size_t \<Rightarrow> mem \<times> addr \<times> size_t" where
  "encode_block_loop m dst [] ret = (m, dst, ret)"
| "encode_block_loop m dst (s0 # s1 # s2 # rest) ret =
     (let l = push_bit 16 (ucast s0 :: u32) OR push_bit 8 (ucast s1) OR ucast s2;
          m = mem_write m dst
                [conv_bin2ascii (ucast (drop_bit 18 l)), conv_bin2ascii (ucast (drop_bit 12 l)),
                 conv_bin2ascii (ucast (drop_bit 6 l)), conv_bin2ascii (ucast l)]
      in encode_block_loop m (dst + 4) rest (ret + 4))"
| "encode_block_loop m dst (s0 # rest) ret =
     (let l = push_bit 16 (ucast s0 :: u32);
          l = (case rest of [] \<Rightarrow> l | s1 # _ \<Rightarrow> l OR push_bit 8 (ucast s1));
          m = mem_write m dst
                [conv_bin2ascii (ucast (drop_bit 18 l)), conv_bin2ascii (ucast (drop_bit 12 l)),
                 (if rest = [] then ascii CHR ''='' else conv_bin2ascii (ucast (drop_bit 6 l))),
                 ascii CHR ''='']
      in (m, dst + 4, ret + 4))"

definition EVP_EncodeBlock :: "mem \<Rightarrow> addr \<Rightarrow> byte list \<Rightarrow> mem \<times> size_t" where
  "EVP_EncodeBlock m dst src =
     (case encode_block_loop m dst src 0 of (m, dst, ret) \<Rightarrow> (mem_write m dst [0], ret))"

text \<open>\<open>memcpy\<close> into an array at an index.\<close>

definition array_copy :: "byte list \<Rightarrow> nat \<Rightarrow> byte list \<Rightarrow> byte list" where
  "array_copy xs i ys = take i xs @ ys @ drop (i + length ys) xs"

text \<open>Encode one line at \<open>out\<close>: the block, a newline and a NUL.\<close>

definition encode_line :: "mem \<Rightarrow> addr \<Rightarrow> byte list \<Rightarrow> mem \<times> addr \<times> size_t" where
  "encode_line m out line =
     (case EVP_EncodeBlock m out line of
        (m, encoded) \<Rightarrow>
          (mem_write (mem_write m (out + uint encoded) [10]) (out + uint encoded + 1) [0],
           out + uint encoded + 1, encoded))"

function encode_lines ::
  "mem \<Rightarrow> addr \<Rightarrow> byte list \<Rightarrow> size_t \<Rightarrow> bool \<times> mem \<times> byte list \<times> size_t" where
  "encode_lines m out inp tot =
     (if 48 \<le> length inp then
        (case encode_line m out (take 48 inp) of
           (m, out, encoded) \<Rightarrow>
             if tot + encoded + 1 < tot then (False, m, drop 48 inp, tot)
             else encode_lines m out (drop 48 inp) (tot + encoded + 1))
      else (True, m, inp, tot))"
  by pat_completeness auto
termination by (relation "measure (\<lambda>(m, out, inp, tot). length inp)") auto

declare encode_lines.simps [simp del]

definition INT_MAX :: size_t where
  "INT_MAX = 0x7fffffff"

definition EVP_EncodeUpdate ::
  "EVP_ENCODE_CTX \<Rightarrow> mem \<Rightarrow> addr \<Rightarrow> byte list \<Rightarrow> EVP_ENCODE_CTX \<times> mem \<times> size_t" where
  "EVP_EncodeUpdate ctx m out inp =
     (if inp = [] then (ctx, m, 0)
      else if 48 - data_used ctx > length inp then
        (ctx\<lparr>data := array_copy (data ctx) (data_used ctx) inp,
             data_used := data_used ctx + length inp\<rparr>, m, 0)
      else
        (case
           (if data_used ctx \<noteq> 0 then
              let todo = 48 - data_used ctx;
                  d = array_copy (data ctx) (data_used ctx) (take todo inp)
              in case encode_line m out d of
                   (m, out, encoded) \<Rightarrow>
                     (ctx\<lparr>data := d, data_used := 0\<rparr>, m, out, drop todo inp, encoded + 1)
            else (ctx, m, out, inp, 0))
         of (ctx, m, out, inp, tot) \<Rightarrow>
           (case encode_lines m out inp tot of
              (False, m, inp, tot) \<Rightarrow> (ctx, m, 0)
            | (True, m, inp, tot) \<Rightarrow>
                (ctx\<lparr>data := (if inp \<noteq> [] then array_copy (data ctx) 0 inp else data ctx),
                     data_used := length inp\<rparr>,
                 m, if tot > INT_MAX then 0 else tot))))"

definition EVP_EncodeFinal :: "EVP_ENCODE_CTX \<Rightarrow> mem \<Rightarrow> addr \<Rightarrow> EVP_ENCODE_CTX \<times> mem \<times> size_t" where
  "EVP_EncodeFinal ctx m out =
     (if data_used ctx = 0 then (ctx, m, 0)
      else
        (case encode_line m out (take (data_used ctx) (data ctx)) of
           (m, out, encoded) \<Rightarrow> (ctx\<lparr>data_used := 0\<rparr>, m, encoded + 1)))"

definition EVP_DecodedLength :: "size_t \<Rightarrow> size_t option" where
  "EVP_DecodedLength len = (if len mod 4 \<noteq> 0 then None else Some (len div 4 * 3))"

definition EVP_DecodeInit :: "EVP_ENCODE_CTX" where
  "EVP_DecodeInit = \<lparr>data_used = 0, data = replicate 48 0, eof_seen = False, error_encountered = False\<rparr>"

definition base64_ascii_to_bin :: "byte \<Rightarrow> byte" where
  "base64_ascii_to_bin a =
     (let is_upper = constant_time_in_range_8 a (ascii CHR ''A'') (ascii CHR ''Z'');
          is_lower = constant_time_in_range_8 a (ascii CHR ''a'') (ascii CHR ''z'');
          is_digit = constant_time_in_range_8 a (ascii CHR ''0'') (ascii CHR ''9'');
          is_plus = constant_time_eq_8 (ucast a) (ucast (ascii CHR ''+''));
          is_slash = constant_time_eq_8 (ucast a) (ucast (ascii CHR ''/''));
          is_equals = constant_time_eq_8 (ucast a) (ucast (ascii CHR ''=''));
          ret = 0xff;
          ret = constant_time_select_8 is_upper (a - ascii CHR ''A'') ret;
          ret = constant_time_select_8 is_lower (a - ascii CHR ''a'' + 26) ret;
          ret = constant_time_select_8 is_digit (a - ascii CHR ''0'' + 52) ret;
          ret = constant_time_select_8 is_plus 62 ret;
          ret = constant_time_select_8 is_slash 63 ret
      in constant_time_select_8 is_equals 0 ret)"

definition base64_decode_quad :: "mem \<Rightarrow> addr \<Rightarrow> byte list \<Rightarrow> (mem \<times> nat) option" where
  "base64_decode_quad m out q =
     (let a = base64_ascii_to_bin (q ! 0);
          b = base64_ascii_to_bin (q ! 1);
          c = base64_ascii_to_bin (q ! 2);
          d = base64_ascii_to_bin (q ! 3);
          v = push_bit 18 (ucast a :: u32) OR push_bit 12 (ucast b) OR push_bit 6 (ucast c) OR ucast d;
          eq = ascii CHR ''='';
          padding_pattern =
            push_bit 3 (of_bool (q ! 0 = eq) :: u32) OR push_bit 2 (of_bool (q ! 1 = eq)) OR
            push_bit 1 (of_bool (q ! 2 = eq)) OR of_bool (q ! 3 = eq)
      in
        if a = 0xff \<or> b = 0xff \<or> c = 0xff \<or> d = 0xff then None
        else if padding_pattern = 0 then
          Some (mem_write m out [ucast (drop_bit 16 v), ucast (drop_bit 8 v), ucast v], 3)
        else if padding_pattern = 1 then
          Some (mem_write m out [ucast (drop_bit 16 v), ucast (drop_bit 8 v)], 2)
        else if padding_pattern = 3 then
          Some (mem_write m out [ucast (drop_bit 16 v)], 1)
        else None)"

definition is_skipped :: "byte \<Rightarrow> bool" where
  "is_skipped c \<longleftrightarrow> c = ascii CHR '' '' \<or> c = 9 \<or> c = 13 \<or> c = 10"

fun decode_loop ::
  "EVP_ENCODE_CTX \<Rightarrow> mem \<Rightarrow> addr \<Rightarrow> size_t \<Rightarrow> byte list \<Rightarrow> bool \<times> EVP_ENCODE_CTX \<times> mem \<times> addr \<times> size_t" where
  "decode_loop ctx m out bytes_out [] = (True, ctx, m, out, bytes_out)"
| "decode_loop ctx m out bytes_out (c # inp) =
     (if is_skipped c then decode_loop ctx m out bytes_out inp
      else if eof_seen ctx then (False, ctx\<lparr>error_encountered := True\<rparr>, m, out, bytes_out)
      else
        let ctx = ctx\<lparr>data := (data ctx)[data_used ctx := c], data_used := data_used ctx + 1\<rparr>
        in
          if data_used ctx = 4 then
            (case base64_decode_quad m out (data ctx) of
               None \<Rightarrow> (False, ctx\<lparr>error_encountered := True\<rparr>, m, out, bytes_out)
             | Some (m, n) \<Rightarrow>
                 decode_loop (ctx\<lparr>data_used := 0, eof_seen := eof_seen ctx \<or> n < 3\<rparr>) m (out + int n)
                   (bytes_out + of_nat n) inp)
          else decode_loop ctx m out bytes_out inp)"

text \<open>The return value (-1, 0 or 1), the context, memory and \<open>*out_len\<close>.\<close>

definition EVP_DecodeUpdate ::
  "EVP_ENCODE_CTX \<Rightarrow> mem \<Rightarrow> addr \<Rightarrow> byte list \<Rightarrow> int \<times> EVP_ENCODE_CTX \<times> mem \<times> size_t" where
  "EVP_DecodeUpdate ctx m out inp =
     (if error_encountered ctx then (-1, ctx, m, 0)
      else
        (case decode_loop ctx m out 0 inp of
           (False, ctx, m, out, bytes_out) \<Rightarrow> (-1, ctx, m, 0)
         | (True, ctx, m, out, bytes_out) \<Rightarrow>
             if bytes_out > INT_MAX then (-1, ctx\<lparr>error_encountered := True\<rparr>, m, 0)
             else (if eof_seen ctx then 0 else 1, ctx, m, bytes_out)))"

definition EVP_DecodeFinal :: "EVP_ENCODE_CTX \<Rightarrow> int" where
  "EVP_DecodeFinal ctx = (if error_encountered ctx \<or> data_used ctx \<noteq> 0 then -1 else 1)"

fun decode_quads :: "mem \<Rightarrow> addr \<Rightarrow> size_t \<Rightarrow> byte list \<Rightarrow> mem \<times> size_t option" where
  "decode_quads m out bytes_out (a # b # c # d # rest) =
     (case base64_decode_quad m out [a, b, c, d] of
        None \<Rightarrow> (m, None)
      | Some (m, n) \<Rightarrow>
          if n \<noteq> 3 \<and> rest \<noteq> [] then (m, None)
          else decode_quads m (out + int n) (bytes_out + of_nat n) rest)"
| "decode_quads m out bytes_out _ = (m, Some bytes_out)"

definition EVP_DecodeBase64 :: "mem \<Rightarrow> addr \<Rightarrow> size_t \<Rightarrow> byte list \<Rightarrow> mem \<times> size_t option" where
  "EVP_DecodeBase64 m out max_out inp =
     (if length inp mod 4 \<noteq> 0 then (m, None)
      else
        (case EVP_DecodedLength (of_nat (length inp)) of
           None \<Rightarrow> (m, None)
         | Some max_len \<Rightarrow>
             if max_out < max_len then (m, None) else decode_quads m out 0 inp))"

definition trim_front :: "byte list \<Rightarrow> byte list" where
  "trim_front = dropWhile (\<lambda>c. c = ascii CHR '' '' \<or> c = 9)"

definition trim_back :: "byte list \<Rightarrow> byte list" where
  "trim_back src = rev (dropWhile is_skipped (rev src))"

text \<open>Put the NULs back that the padding stands for; \<open>dst_len\<close> is at most \<open>INT_MAX\<close> here.\<close>

function pad_nuls :: "mem \<Rightarrow> addr \<Rightarrow> nat \<Rightarrow> mem \<times> nat" where
  "pad_nuls m dst dst_len =
     (if dst_len mod 3 \<noteq> 0 then pad_nuls (mem_write m (dst + int dst_len) [0]) dst (dst_len + 1)
      else (m, dst_len))"
  by pat_completeness auto
termination
proof (relation "measure (\<lambda>(m, dst, n). (3 - n mod 3) mod 3)", simp)
  fix m :: mem and dst n
  assume "n mod (3 :: nat) \<noteq> 0"
  moreover have "n mod 3 < 3" by simp
  ultimately have "n mod 3 = 1 \<or> n mod 3 = 2" by linarith
  then have "(3 - (n + 1) mod 3) mod 3 < (3 - n mod 3) mod 3"
    by (auto simp: mod_Suc)
  then show "((mem_write m (dst + int n) [0], dst, n + 1), m, dst, n)
               \<in> measure (\<lambda>(m, dst, n). (3 - n mod 3) mod 3)" by simp
qed

declare pad_nuls.simps [simp del]

definition EVP_DecodeBlock :: "mem \<Rightarrow> addr \<Rightarrow> byte list \<Rightarrow> mem \<times> int" where
  "EVP_DecodeBlock m dst src0 =
     (let src = trim_back (trim_front src0) in
      case EVP_DecodedLength (of_nat (length src)) of
        None \<Rightarrow> (m, -1)
      | Some dst_len \<Rightarrow>
          if dst_len > INT_MAX then (m, -1)
          else
            (case EVP_DecodeBase64 m dst dst_len src of
               (m, None) \<Rightarrow> (m, -1)
             | (m, Some dst_len) \<Rightarrow>
                 (case pad_nuls m dst (unat dst_len) of (m, n) \<Rightarrow> (m, int n))))"

end
