(* ===== verification/Base64_Codec.thy ===== *)
theory Base64_Codec
  imports Base64
begin

text \<open>
  The Base64 encoder and decoder against RFC 4648. \<open>b64\<close> states the encoding on numbers and an
  alphabet; the first section shows that the constant-time character conversions are its look-up
  tables, the others that blocks, streams and lines of the C code are \<open>b64\<close> and its inverse.
\<close>

section \<open>The alphabet\<close>

definition b64_alphabet :: "byte list" where
  "b64_alphabet = map ascii ''ABCDEFGHIJKLMNOPQRSTUVWXYZabcdefghijklmnopqrstuvwxyz0123456789+/''"

lemma uint_byte_less: "uint (a :: byte) < 256"
  using uint_bounded [of a] by simp

lemma uint_ucast_byte: "uint (ucast (x :: byte) :: u64) = uint x"
  using uint_byte_less [of x] by (simp add: unsigned_ucast_eq take_bit_int_eq_self)

lemma ucast_byte_eq_iff [simp]: "(ucast (a :: byte) :: u64) = ucast b \<longleftrightarrow> a = b"
  by (metis uint_ucast_byte uint_ucast_byte word_uint_eqI)

lemma constant_time_lt_args_8_iff [ct_simps]: "constant_time_lt_args_8 a b = ct_mask (a < b)"
proof -
  have d: "uint (ucast a - ucast b :: u64) = (uint a - uint b) mod 18446744073709551616"
    by (simp only: uint_word_ariths uint_ucast_byte) simp
  have "2 ^ 63 \<le> uint (ucast a - ucast b :: u64) \<longleftrightarrow> uint a < uint b"
  proof (cases "uint a < uint b")
    case True
    then have "uint (ucast a - ucast b :: u64) = uint a - uint b + 18446744073709551616"
      unfolding d using uint_byte_less [of b] uint_ge_0 [of a] by (intro mod_sub_borrow) linarith+
    then show ?thesis using True uint_byte_less [of b] by (simp, use uint_ge_0 [of a] in linarith)
  next
    case False
    then have "uint (ucast a - ucast b :: u64) = uint a - uint b"
      unfolding d using uint_byte_less [of a] uint_ge_0 [of b] by (intro mod_sub_no_borrow) linarith+
    then show ?thesis using False uint_byte_less [of a] by (simp, use uint_ge_0 [of b] in linarith)
  qed
  then show ?thesis
    by (simp add: constant_time_lt_args_8_def ct_msb bit_63 ct_simps word_less_def)
qed


lemma constant_time_eq_8_byte: "constant_time_eq_8 (ucast a) (ucast (b :: byte)) = ct_mask (a = b)"
  by (simp add: ct_simps)

lemma conv_bin2ascii_if:
  "conv_bin2ascii a0 =
     (let a = a0 AND 0x3f in
      if a < 26 then a + 65 else if a < 52 then a - 26 + 97 else if a < 62 then a - 52 + 48
      else if a = 62 then 43 else 47)"
proof -
  have eq: "constant_time_eq_8 (ucast (a :: byte)) 62 = ct_mask (a = 62)" for a
    using constant_time_eq_8_byte [of a 62] by simp
  show ?thesis
    unfolding conv_bin2ascii_def eq Let_def constant_time_lt_args_8_iff constant_time_select_8_mask
    by (simp add: ascii_def)
qed

lemma in_range_iff:
  assumes "lo \<le> hi" "hi < 255"
  shows "constant_time_in_range_8 a lo hi = ct_mask (lo \<le> a \<and> a \<le> hi)"
proof -
  have *: "uint lo \<le> uint hi" "uint hi < 255" "uint a < 256" "0 \<le> uint lo" "0 \<le> uint a"
    using assms uint_byte_less [of a] by (simp_all add: word_le_def word_less_def)
  have h: "uint (hi - lo + 1) = uint hi - uint lo + 1"
  proof -
    have "uint (hi - lo + 1) = (uint hi - uint lo + 1) mod 256"
      by (simp add: uint_word_ariths mod_add_left_eq)
    also have "\<dots> = uint hi - uint lo + 1" using * by (intro mod_pos_pos_trivial) linarith+
    finally show ?thesis .
  qed
  have "a - lo < hi - lo + 1 \<longleftrightarrow> lo \<le> a \<and> a \<le> hi"
  proof (cases "uint lo \<le> uint a")
    case True
    then have "uint (a - lo) = uint a - uint lo"
      using mod_sub_no_borrow [OF *(4) True *(3)] by (simp add: uint_word_ariths)
    then show ?thesis using True * by (auto simp: word_le_def word_less_def h)
  next
    case False
    then have "(uint a - uint lo) mod 256 = uint a - uint lo + 256"
      using * by (intro mod_sub_borrow) auto
    then have "uint (a - lo) = uint a - uint lo + 256"
      by (simp add: uint_word_ariths)
    moreover have "\<not> uint a + 256 \<le> uint hi" using * by linarith
    ultimately show ?thesis using False by (simp add: word_le_def word_less_def h)
  qed
  then show ?thesis by (simp add: constant_time_in_range_8_def ct_simps)
qed

lemma base64_ascii_to_bin_if:
  "base64_ascii_to_bin a =
     (if a = 61 then 0 else if a = 47 then 63 else if a = 43 then 62
      else if 48 \<le> a \<and> a \<le> 57 then a - 48 + 52
      else if 97 \<le> a \<and> a \<le> 122 then a - 97 + 26
      else if 65 \<le> a \<and> a \<le> 90 then a - 65 else 255)"
  by (simp only: base64_ascii_to_bin_def in_range_iff Let_def ascii_def constant_time_eq_8_byte constant_time_select_8_mask of_char_Char)
    (simp add: in_range_iff constant_time_select_8_mask cong: if_cong)

lemma b64_alphabet_code [code]: "b64_alphabet = [65,66,67,68,69,70,71,72,73,74,75,76,77,78,79,80,81,82,83,84,85,86,87,88,89,90,97,98,99,100,101,102,103,104,105,106,107,108,109,110,111,112,113,114,115,116,117,118,119,120,121,122,48,49,50,51,52,53,54,55,56,57,43,47]"
  by (simp add: b64_alphabet_def ascii_def)

lemma conv_all: "list_all (\<lambda>a. conv_bin2ascii a = b64_alphabet ! unat (a AND 63)) (map of_nat [0..<Suc 63])"
  unfolding conv_bin2ascii_if by code_simp

lemma dec_all: "list_all (\<lambda>i. base64_ascii_to_bin (b64_alphabet ! i) = of_nat i) [0..<64]"
  unfolding base64_ascii_to_bin_if by code_simp

lemma byte_range_all:
  assumes "list_all P (map of_nat [l..<Suc h])" "of_nat l \<le> c" "c \<le> of_nat h" "l < 256" "h < 256"
  shows "P (c :: byte)"
proof -
  have "unat (of_nat h :: byte) = h" "unat (of_nat l :: byte) = l"
    using assms(4,5) by (simp_all add: unat_of_nat)
  then have "unat c \<in> set [l..<Suc h]" using assms(2,3) by (auto simp add: word_le_nat_alt less_Suc_eq_le simp del: upt_Suc)
  moreover have "c = of_nat (unat c)" by simp
  ultimately have "c \<in> set (map of_nat [l..<Suc h])" by (metis image_eqI set_map)
  then show ?thesis using assms(1) by (simp only: list_all_iff)
qed

definition conv_inv :: "byte \<Rightarrow> bool" where
  "conv_inv c \<longleftrightarrow> conv_bin2ascii (base64_ascii_to_bin c) = c"

lemmas conv_inv_code [code] = conv_inv_def [unfolded conv_bin2ascii_if base64_ascii_to_bin_if]

lemma conv_inv_valid: 
  assumes "base64_ascii_to_bin c \<noteq> 255" "c \<noteq> 61"
  shows "conv_inv c"
proof -
  have "48 \<le> c \<and> c \<le> 57 \<or> 97 \<le> c \<and> c \<le> 122 \<or> 65 \<le> c \<and> c \<le> 90 \<or> c = 43 \<or> c = 47"
    using assms by (simp add: base64_ascii_to_bin_if split: if_splits)
  moreover have "list_all conv_inv (map of_nat [48..<Suc 57])" by code_simp
  moreover have "list_all conv_inv (map of_nat [97..<Suc 122])" by code_simp
  moreover have "list_all conv_inv (map of_nat [65..<Suc 90])" by code_simp
  moreover have "conv_inv 43" by code_simp
  moreover have "conv_inv 47" by code_simp
  ultimately show ?thesis
    using byte_range_all [of conv_inv 48 57 c] byte_range_all [of conv_inv 97 122 c]
      byte_range_all [of conv_inv 65 90 c] by auto
qed

lemma length_b64_alphabet [simp]: "length b64_alphabet = 64"
  by (simp add: b64_alphabet_def)

lemma conv_bin2ascii_alphabet: "conv_bin2ascii a = b64_alphabet ! unat (a AND 63)"
proof -
  have "a AND 63 \<le> 63" by (rule word_and_le1)
  then have "conv_bin2ascii (a AND 63) = b64_alphabet ! unat ((a AND 63) AND 63)"
    by (intro byte_range_all [OF conv_all]) simp_all
  then show ?thesis by (simp add: conv_bin2ascii_if and.assoc)
qed

lemma base64_ascii_to_bin_alphabet [simp]: "i < 64 \<Longrightarrow> base64_ascii_to_bin (b64_alphabet ! i) = of_nat i"
  using dec_all by (simp only: list_all_iff set_upt) simp

lemma alphabet_not_special:
  assumes "i < 64"
  shows "b64_alphabet ! i \<noteq> 61 \<and> \<not> is_skipped (b64_alphabet ! i)"
proof -
  have "list_all (\<lambda>c. c \<noteq> 61 \<and> \<not> is_skipped c) b64_alphabet" by code_simp
  then show ?thesis using assms by (simp add: list_all_length)
qed

section \<open>Quads\<close>

definition b64_quad :: "nat \<Rightarrow> byte list" where
  "b64_quad n =
     [b64_alphabet ! (n div 262144 mod 64), b64_alphabet ! (n div 4096 mod 64),
      b64_alphabet ! (n div 64 mod 64), b64_alphabet ! (n mod 64)]"

fun b64 :: "byte list \<Rightarrow> byte list" where
  "b64 [] = []"
| "b64 [a] = take 2 (b64_quad (unat a * 65536)) @ [61, 61]"
| "b64 [a, b] = take 3 (b64_quad (unat a * 65536 + unat b * 256)) @ [61]"
| "b64 (a # b # c # rest) = b64_quad (unat a * 65536 + unat b * 256 + unat c) @ b64 rest"

lemma nat_or_add: "y < 2 ^ k \<Longrightarrow> push_bit k x OR y = x * 2 ^ k + (y :: nat)"
proof -
  assume y: "y < 2 ^ k"
  have "push_bit k x AND y = 0"
  proof (rule bit_eqI)
    fix n
    show "bit (push_bit k x AND y) n = bit (0 :: nat) n"
      using y by (metis bit_and_iff bit_push_bit_iff_nat bit_take_bit_iff take_bit_nat_eq_self bit_0_eq bot_apply bot_bool_def linorder_not_less)
  qed
  then show ?thesis by (simp add: disjunctive_add_eq_or [symmetric] push_bit_eq_mult)
qed

lemma unat_push_bit_less:
  "unat w * 2 ^ k < 2 ^ LENGTH('a) \<Longrightarrow> unat (push_bit k (w :: 'a::len word)) = push_bit k (unat w)"
  by (simp only: unsigned_push_bit_eq) (simp add: take_bit_nat_eq_self push_bit_eq_mult)

lemma unat_ucast_u32: "unat (ucast (a :: byte) :: u32) = unat a"
  by (rule unat_ucast_up) simp

text \<open>Three bytes, and four sextets, as one number.\<close>

lemma unat_three_bytes:
  "unat (push_bit 16 (ucast a :: u32) OR push_bit 8 (ucast b) OR ucast c) =
     unat (a :: byte) * 65536 + unat (b :: byte) * 256 + unat (c :: byte)"
proof -
  have "unat (push_bit 8 (ucast b :: u32)) = unat b * 256" "unat (push_bit 16 (ucast a :: u32)) = push_bit 16 (unat a)"
    using unat_byte_less [of a] unat_byte_less [of b]
    by (subst unat_push_bit_less; simp add: unat_ucast_u32 push_bit_eq_mult)+
  moreover have "push_bit 8 (unat b) OR unat c = unat b * 256 + unat c"
    using nat_or_add [of "unat c" 8] unat_byte_less [of c] by simp
  moreover have "push_bit 16 (unat a) OR (unat b * 256 + unat c) = unat a * 65536 + (unat b * 256 + unat c)"
    using nat_or_add [of "unat b * 256 + unat c" 16] unat_byte_less [of b] unat_byte_less [of c] by simp
  ultimately show ?thesis
    by (simp add: unsigned_or_eq or.assoc unat_ucast_u32 push_bit_eq_mult)
qed

lemma unat_four_sextets:
  assumes "unat a < 64" "unat b < 64" "unat c < 64" "unat d < 64"
  shows "unat (push_bit 18 (ucast a :: u32) OR push_bit 12 (ucast b) OR push_bit 6 (ucast c) OR ucast d) =
     unat (a :: byte) * 262144 + unat (b :: byte) * 4096 + unat (c :: byte) * 64 + unat (d :: byte)"
proof -
  have "unat (push_bit 6 (ucast c :: u32)) = unat c * 64" "unat (push_bit 12 (ucast b :: u32)) = unat b * 4096"
    "unat (push_bit 18 (ucast a :: u32)) = unat a * 262144"
    using assms by (subst unat_push_bit_less; simp add: unat_ucast_u32 push_bit_eq_mult)+
  moreover have "unat c * 64 OR unat d = unat c * 64 + unat d"
    using nat_or_add [of "unat d" 6 "unat c"] assms by (simp add: push_bit_eq_mult)
  moreover have "unat b * 4096 OR (unat c * 64 + unat d) = unat b * 4096 + (unat c * 64 + unat d)"
    using nat_or_add [of "unat c * 64 + unat d" 12 "unat b"] assms by (simp add: push_bit_eq_mult)
  moreover have "unat a * 262144 OR (unat b * 4096 + (unat c * 64 + unat d)) =
      unat a * 262144 + (unat b * 4096 + (unat c * 64 + unat d))"
    using nat_or_add [of "unat b * 4096 + (unat c * 64 + unat d)" 18 "unat a"] assms by (simp add: push_bit_eq_mult)
  ultimately show ?thesis
    by (simp add: unsigned_or_eq or.assoc unat_ucast_u32)
qed

lemma conv_sextet:
  "conv_bin2ascii (ucast (drop_bit k (l :: u32))) = b64_alphabet ! (unat l div 2 ^ k mod 64)"
proof -
  have "(ucast (drop_bit k l) :: byte) AND 63 = take_bit 6 (ucast (drop_bit k l))"
    by (simp add: take_bit_eq_mask word_masks)
  then have "unat ((ucast (drop_bit k l) :: byte) AND 63) = take_bit 6 (take_bit 8 (drop_bit k (unat l)))"
    by (simp add: unsigned_take_bit_eq unsigned_ucast_eq unat_drop_bit_eq)
  then show ?thesis
    by (simp add: conv_bin2ascii_alphabet) (simp add: take_bit_eq_mod drop_bit_eq_div)
qed

lemma conv_sextet_0: "conv_bin2ascii (ucast (l :: u32)) = b64_alphabet ! (unat l mod 64)"
  using conv_sextet [of 0 l] by simp

section \<open>Encoding\<close>

lemma encode_block_loop_b64:
  "encode_block_loop m dst src ret =
     (mem_write m dst (b64 src), dst + int (length (b64 src)), ret + of_nat (length (b64 src)))"
proof (induction src arbitrary: m dst ret rule: b64.induct)
  case (4 a b c rest)
  let ?l = "push_bit 16 (ucast a :: u32) OR push_bit 8 (ucast b) OR ucast c"
  have "[conv_bin2ascii (ucast (drop_bit 18 ?l)), conv_bin2ascii (ucast (drop_bit 12 ?l)),
         conv_bin2ascii (ucast (drop_bit 6 ?l)), conv_bin2ascii (ucast ?l)] =
        b64_quad (unat a * 65536 + unat b * 256 + unat c)" (is "?q = ?b")
    by (simp only: conv_sextet conv_sextet_0 [of ?l] b64_quad_def unat_three_bytes) simp
  moreover have "length ?b = 4" by (simp add: b64_quad_def)
  ultimately show ?case
    by (simp only: encode_block_loop.simps Let_def 4 b64.simps mem_write_append length_append)
      (simp add: algebra_simps)
next
  case (2 a)
  then show ?case
    using unat_three_bytes [of a 0 0] by (simp add: Let_def conv_sextet b64_quad_def ascii_def)
next
  case (3 a b)
  then show ?case
    using unat_three_bytes [of a b 0] by (simp add: Let_def conv_sextet b64_quad_def ascii_def)
qed simp

lemma EVP_EncodeBlock_b64:
  "EVP_EncodeBlock m dst src = (mem_write m dst (b64 src @ [0]), of_nat (length (b64 src)))"
  by (simp add: EVP_EncodeBlock_def encode_block_loop_b64 mem_write_append)

lemma length_b64_quad [simp]: "length (b64_quad n) = 4"
  by (simp add: b64_quad_def)

lemma length_b64: "length (b64 src) = 4 * ((length src + 2) div 3)"
proof (induction src rule: b64.induct)
  case (4 a b c rest)
  have "(length rest + 2 + 3) div 3 = (length rest + 2) div 3 + 1" by (rule div_add_self2) simp
  with 4 show ?case by (simp add: algebra_simps)
qed simp_all

lemma three_dvd_Suc3: "3 dvd Suc (Suc (Suc n)) \<longleftrightarrow> 3 dvd n"
  by presburger

lemma b64_append: "3 dvd length xs \<Longrightarrow> b64 (xs @ ys) = b64 xs @ b64 ys"
  by (induction xs rule: b64.induct) (simp_all add: three_dvd_Suc3 nat_dvd_not_less)


lemma EVP_EncodeBlock_writes:
  "EVP_EncodeBlock m dst src =
     (mem_write m dst (b64 src @ [0]), of_nat (4 * ((length src + 2) div 3)))"
  by (simp add: EVP_EncodeBlock_b64 length_b64)

lemma unat_eq_iff: "unat (v :: 'a::len word) = unat w \<longleftrightarrow> v = w"
  by (simp only: word_eq_iff_unsigned [where ?'a = nat])

lemma shl2_lossless: "drop_bit 2 (push_bit 2 w) = w \<longleftrightarrow> unat (w :: u64) < 2 ^ 62"
proof -
  have "drop_bit 2 (push_bit 2 w) = take_bit 62 w"
    by (rule bit_word_eqI) (auto simp: bit_simps)
  moreover have "take_bit 62 w = w \<longleftrightarrow> unat w mod 2 ^ 62 = unat w"
    by (simp only: unat_eq_iff [symmetric] unsigned_take_bit_eq) (simp only: take_bit_eq_mod)
  ultimately show ?thesis by (simp add: mod_eq_self_iff_div_eq_0 div_eq_0_iff)
qed

text \<open>C33: \<open>EVP_EncodedLength\<close> gives the exact room \<open>EVP_EncodeBlock\<close> needs, NUL included, and
  fails exactly when that number does not fit in \<open>size_t\<close>.\<close>

theorem EVP_EncodedLength_exact:
  "EVP_EncodedLength len =
     (let n = 4 * ((unat len + 2) div 3) + 1 in if n < 2 ^ 64 then Some (of_nat n) else None)"
proof (cases "unat len + 2 < 18446744073709551616")
  case True
  define q where "q = (unat len + 2) div 3"
  have u2: "unat (len + 2) = unat len + 2" using True by (simp add: unat_word_ariths)
  then have nw: "\<not> len + 2 < len" by (simp add: word_less_nat_alt)
  have uq: "unat ((len + 2) div 3) = q" by (simp add: unat_div_distrib u2 q_def)
  show ?thesis
  proof (cases "q < 4611686018427387904")
    case True
    then have up: "unat (push_bit 2 ((len + 2) div 3)) = 4 * q"
      by (subst unat_push_bit_less) (simp_all add: uq push_bit_eq_mult)
    then have up1: "unat (push_bit 2 ((len + 2) div 3) + 1) = 4 * q + 1"
      using True by (simp add: unat_word_ariths)
    then have "push_bit 2 ((len + 2) div 3) + 1 = of_nat (4 * q + 1)"
      by (metis of_nat_unat ucast_id)
    then show ?thesis
      using nw up up1 True shl2_lossless [of "(len + 2) div 3"] uq
      by (simp add: EVP_EncodedLength_def Let_def word_less_nat_alt q_def [symmetric] q_def [symmetric, simplified])
  next
    case False
    then show ?thesis
      using nw shl2_lossless [of "(len + 2) div 3"] uq
      by (simp add: EVP_EncodedLength_def Let_def q_def [symmetric] q_def [symmetric, simplified])
  qed
next
  case False
  have l: "unat len < 18446744073709551616" using unsigned_less [of len] by simp
  with False have "unat (len + 2) < unat len" by (simp add: unat_word_ariths le_mod_geq)
  then show ?thesis
    using False by (simp add: EVP_EncodedLength_def Let_def word_less_nat_alt)
qed

section \<open>Streaming encoder\<close>

text \<open>The complete lines of an input, and what is left for the next call.\<close>

function b64_lines :: "byte list \<Rightarrow> byte list" where
  "b64_lines xs = (if 48 \<le> length xs then b64 (take 48 xs) @ [10] @ b64_lines (drop 48 xs) else [])"
  by pat_completeness auto
termination by (relation "measure length") auto

function b64_rest :: "byte list \<Rightarrow> byte list" where
  "b64_rest xs = (if 48 \<le> length xs then b64_rest (drop 48 xs) else xs)"
  by pat_completeness auto
termination by (relation "measure length") auto

declare b64_lines.simps [simp del] b64_rest.simps [simp del]

definition b64_text :: "byte list \<Rightarrow> byte list" where
  "b64_text xs = b64_lines xs @ (if b64_rest xs = [] then [] else b64 (b64_rest xs) @ [10])"

lemma b64_lines_short: "length xs < 48 \<Longrightarrow> b64_lines xs = [] \<and> b64_rest xs = xs"
  by (simp add: b64_lines.simps b64_rest.simps)

lemma b64_rest_less: "length (b64_rest xs) < 48"
  by (induction xs rule: b64_rest.induct) (simp add: b64_rest.simps)

lemma b64_rest_le: "length (b64_rest xs) \<le> length xs"
proof (induction xs rule: b64_rest.induct)
  case (1 xs)
  then show ?case by (cases "48 \<le> length xs") (simp_all add: b64_rest.simps [of xs])
qed

lemma b64_lines_append: "b64_lines (xs @ ys) = b64_lines xs @ b64_lines (b64_rest xs @ ys)"
proof (induction xs rule: b64_rest.induct)
  case (1 xs)
  then show ?case
    by (cases "48 \<le> length xs") (simp_all add: b64_lines.simps [of "xs @ ys"] b64_lines.simps [of xs] b64_rest.simps [of xs] b64_lines_short)
qed

lemma b64_rest_append: "b64_rest (xs @ ys) = b64_rest (b64_rest xs @ ys)"
proof (induction xs rule: b64_rest.induct)
  case (1 xs)
  then show ?case
    by (cases "48 \<le> length xs") (simp_all add: b64_rest.simps [of "xs @ ys"] b64_rest.simps [of xs])
qed

text \<open>Writing again from the NUL on continues the text.\<close>

lemma mem_write_over:
  "length zs \<le> length ys \<Longrightarrow>
     mem_write (mem_write m p (xs @ zs)) (p + int (length xs)) ys = mem_write m p (xs @ ys)"
proof (rule ext)
  fix a
  assume "length zs \<le> length ys"
  moreover have "nat (a - p) - length xs = nat (a - (p + int (length xs)))" by simp
  ultimately show "mem_write (mem_write m p (xs @ zs)) (p + int (length xs)) ys a = mem_write m p (xs @ ys) a"
    by (auto simp: mem_write_def nth_append)
qed

text \<open>What a call leaves at \<open>out\<close>: its lines, and a NUL unless it wrote nothing.\<close>

definition nul_after :: "byte list \<Rightarrow> byte list" where
  "nul_after w = w @ (if w = [] then [] else [0])"

lemma nul_after_Nil [simp]: "nul_after [] = []"
  by (simp add: nul_after_def)

lemma mem_write_line:
  assumes "length l = 64"
  shows "mem_write (mem_write m out (l @ [10, 0])) (out + 65) (nul_after v) = mem_write m out (nul_after (l @ [10] @ v))"
proof (cases v)
  case Nil
  then show ?thesis by (simp add: nul_after_def)
next
  case (Cons b v')
  then show ?thesis
    using mem_write_over [of "[0]" "v @ [0]" m out "l @ [10]"] assms by (simp add: nul_after_def ac_simps)
qed

lemma mem_read_prefix: "mem_read (mem_write m p (xs @ zs)) p (length xs) = xs"
  by (rule nth_equalityI) (auto simp: mem_read_def mem_write_def nth_append)

lemma encode_line_b64:
  assumes "length line \<le> 48"
  shows "encode_line m out line =
     (mem_write m out (b64 line @ [10, 0]), out + int (length (b64 line)) + 1, of_nat (length (b64 line)))"
proof -
  have "length (b64 line) \<le> 64" using assms by (simp add: length_b64)
  then have u: "uint (of_nat (length (b64 line)) :: size_t) = int (length (b64 line))"
    by (simp add: uint_nat unat_of_nat)
  have "mem_write (mem_write (mem_write m out (b64 line @ [0])) (out + int (length (b64 line))) [10])
          (out + int (length (b64 line)) + 1) [0] = mem_write m out (b64 line @ [10, 0])"
    using mem_write_over [of "[0]" "[10]" m out "b64 line"] mem_write_append [of m out "b64 line @ [10]" "[0]"]
    by (simp add: ac_simps)
  then show ?thesis by (simp add: encode_line_def EVP_EncodeBlock_b64 u)
qed


lemma encode_lines_b64:
  assumes "65 * (length inp div 48) + unat tot < 2 ^ 64"
  shows "encode_lines m out inp tot =
     (True, mem_write m out (nul_after (b64_lines inp)), b64_rest inp,
      tot + of_nat (length (b64_lines inp)))"
  using assms
proof (induction m out inp tot rule: encode_lines.induct)
  case (1 m out inp tot)
  show ?case
  proof (cases "48 \<le> length inp")
    case False
    then show ?thesis by (simp add: encode_lines.simps b64_lines_short)
  next
    case True
    let ?l = "b64 (take 48 inp)"
    have len: "length ?l = 64" using True by (simp add: length_b64)
    have d: "length inp div 48 = Suc ((length inp - 48) div 48)"
      using True by (simp add: div_if)
    with 1(2) have fits: "unat tot + 65 < 18446744073709551616" by simp
    then have t: "unat (tot + 64 + 1) = unat tot + 65" "\<not> tot + 64 + 1 < tot"
      by (simp_all add: unat_word_ariths word_less_nat_alt)
    have ih: "encode_lines (mem_write m out (?l @ [10, 0])) (out + 65) (drop 48 inp) (tot + 65) =
       (True, mem_write m out (nul_after (?l @ [10] @ b64_lines (drop 48 inp))), b64_rest (drop 48 inp), tot + 65 + of_nat (length (b64_lines (drop 48 inp))))"
      using 1(1) [OF True, of "mem_write m out (?l @ [10, 0])" "(out + 65, 64)" "out + 65" 64] 1(2) t
      by (simp add: encode_line_b64 len d mem_write_line ac_simps)
    then show ?thesis
      using True t ih
      by (simp add: encode_lines.simps [of m out inp tot] encode_line_b64 len b64_lines.simps [of inp]
          b64_rest.simps [of inp] ac_simps)
  qed
qed


text \<open>The state of an encoder: \<open>data_used\<close> bytes wait in the 48-byte array, fewer than a line.\<close>

definition encode_inv :: "EVP_ENCODE_CTX \<Rightarrow> bool" where
  "encode_inv ctx \<longleftrightarrow> length (data ctx) = 48 \<and> data_used ctx < 48"

definition pending :: "EVP_ENCODE_CTX \<Rightarrow> byte list" where
  "pending ctx = take (data_used ctx) (data ctx)"

lemma encode_inv_init: "encode_inv EVP_EncodeInit \<and> pending EVP_EncodeInit = []"
  by (simp add: encode_inv_def EVP_EncodeInit_def pending_def)

lemma length_pending [simp]: "encode_inv ctx \<Longrightarrow> length (pending ctx) = data_used ctx"
  by (simp add: encode_inv_def pending_def)

lemma length_array_copy: "i + length ys \<le> length xs \<Longrightarrow> length (array_copy xs i ys) = length xs"
  by (simp add: array_copy_def)

lemma take_array_copy: "i + length ys \<le> length xs \<Longrightarrow> take (i + length ys) (array_copy xs i ys) = take i xs @ ys"
  by (simp add: array_copy_def)

lemma b64_lines_bound: "length (b64_lines xs) = 65 * (length xs div 48)"
proof (induction xs rule: b64_lines.induct)
  case (1 xs)
  then show ?case
    by (cases "48 \<le> length xs") (simp_all add: b64_lines.simps [of xs] length_b64 div_if)
qed

lemma EVP_EncodeUpdate_lines:
  assumes inv: "encode_inv ctx" and small: "65 * ((data_used ctx + length inp) div 48) \<le> unat INT_MAX"
  defines "w \<equiv> b64_lines (pending ctx @ inp)"
  shows "\<exists>ctx'. EVP_EncodeUpdate ctx m out inp = (ctx', mem_write m out (nul_after w), of_nat (length w)) \<and>
    encode_inv ctx' \<and> pending ctx' = b64_rest (pending ctx @ inp)"
proof -
  let ?u = "data_used ctx"
  have u: "?u < 48" "length (data ctx) = 48" using inv by (simp_all add: encode_inv_def)
  have tot: "(of_nat (length w) :: size_t) \<le> INT_MAX"
  proof -
    have "length w \<le> unat INT_MAX" using small inv by (simp add: w_def b64_lines_bound)
    then show ?thesis by (simp add: word_le_nat_alt INT_MAX_def unat_of_nat)
  qed
  consider "inp = []" | "inp \<noteq> []" "length inp < 48 - ?u" | "48 - ?u \<le> length inp" "?u \<noteq> 0" | "48 \<le> length inp" "?u = 0"
    by linarith
  then show ?thesis
  proof cases
    case 1
    then show ?thesis
      using inv u by (auto simp: EVP_EncodeUpdate_def w_def nul_after_def b64_lines_short)
  next
    case 2
    then have "w = []" "b64_rest (pending ctx @ inp) = pending ctx @ inp"
      using b64_lines_short [of "pending ctx @ inp"] inv by (auto simp: w_def)
    then show ?thesis
      using 2 u take_array_copy [of ?u inp "data ctx"] length_array_copy [of ?u inp "data ctx"]
      by (auto simp: EVP_EncodeUpdate_def nul_after_def encode_inv_def pending_def)
  next
    case 3
    let ?t = "48 - ?u"
    let ?d = "array_copy (data ctx) ?u (take ?t inp)"
    have d: "?d = pending ctx @ take ?t inp"
      using 3 u by (simp add: array_copy_def pending_def)
    have split: "pending ctx @ inp = ?d @ drop ?t inp" by (simp add: d)
    have ld: "length ?d = 48" using 3 u inv by (simp add: d)
    have w: "w = b64 ?d @ [10] @ b64_lines (drop ?t inp)"
      "b64_rest (pending ctx @ inp) = b64_rest (drop ?t inp)"
      unfolding w_def split using ld by (simp_all add: b64_lines.simps [of "?d @ _"] b64_rest.simps [of "?d @ _"])
    have fits: "65 * (length (drop ?t inp) div 48) + unat (65 :: size_t) < 2 ^ 64"
    proof -
      have "?u + length inp = 48 + length (drop ?t inp)" using 3 u by simp
      then have "(?u + length inp) div 48 = Suc (length (drop ?t inp) div 48)" by simp
      then show ?thesis using small by (simp add: INT_MAX_def)
    qed
    define r where "r = b64_rest (drop ?t inp)"
    have "inp \<noteq> []" "\<not> length inp < 48 - ?u" using 3 u by auto
    have tot': "(INT_MAX < 65 + of_nat (length (b64_lines (drop ?t inp)))) = False"
      using tot w ld by (simp add: length_b64 ac_simps not_less)
    have "EVP_EncodeUpdate ctx m out inp =
      (ctx\<lparr>data := (if r \<noteq> [] then array_copy ?d 0 r else ?d), data_used := length r\<rparr>,
       mem_write m out (nul_after w), of_nat (length w))"
      using 3 u ld w encode_lines_b64 [OF fits] \<open>inp \<noteq> []\<close> \<open>\<not> length inp < 48 - ?u\<close>
      by (simp add: tot' EVP_EncodeUpdate_def encode_line_b64 Let_def length_b64 mem_write_line r_def ac_simps not_less)
    moreover have "length r < 48" by (simp add: r_def b64_rest_less)
    ultimately show ?thesis
      using w(2) ld take_array_copy [of 0 r ?d] length_array_copy [of 0 r ?d]
      by (auto simp: encode_inv_def pending_def r_def)
  next
    case 4
    have fits: "65 * (length inp div 48) + unat (0 :: size_t) < 2 ^ 64"
      using small 4 by (simp add: INT_MAX_def)
    have p: "pending ctx = []" using 4 by (simp add: pending_def)
    define r where "r = b64_rest inp"
    have "EVP_EncodeUpdate ctx m out inp =
      (ctx\<lparr>data := (if r \<noteq> [] then array_copy (data ctx) 0 r else data ctx), data_used := length r\<rparr>,
       mem_write m out (nul_after w), of_nat (length w))"
      using 4 tot p encode_lines_b64 [OF fits, of m out]
      by (auto simp: EVP_EncodeUpdate_def w_def r_def not_less)
    moreover have "length r < 48" by (simp add: r_def b64_rest_less)
    ultimately show ?thesis
      using p u take_array_copy [of 0 r "data ctx"] length_array_copy [of 0 r "data ctx"]
      by (auto simp: encode_inv_def pending_def r_def)
  qed
qed

lemma EVP_EncodeFinal_rest:
  assumes inv: "encode_inv ctx"
  defines "w \<equiv> (if pending ctx = [] then [] else b64 (pending ctx) @ [10])"
  shows "\<exists>ctx'. EVP_EncodeFinal ctx m out = (ctx', mem_write m out (nul_after w), of_nat (length w)) \<and> data_used ctx' = 0"
proof -
  have "pending ctx = [] \<longleftrightarrow> data_used ctx = 0"
    using length_pending [OF inv] by (metis length_0_conv)
  moreover have "length (pending ctx) \<le> 48" using inv by (simp add: encode_inv_def)
  ultimately show ?thesis
    using encode_line_b64 [of "pending ctx" m out]
    by (simp add: EVP_EncodeFinal_def w_def nul_after_def pending_def [symmetric])
qed

text \<open>A client's use of the streaming encoder: any number of updates, then the final call, each
  writing where the one before it stopped.\<close>

fun encode_chunks :: "EVP_ENCODE_CTX \<Rightarrow> mem \<Rightarrow> addr \<Rightarrow> byte list list \<Rightarrow> EVP_ENCODE_CTX \<times> mem \<times> addr" where
  "encode_chunks ctx m out [] = (ctx, m, out)"
| "encode_chunks ctx m out (c # cs) =
     (case EVP_EncodeUpdate ctx m out c of (ctx, m, n) \<Rightarrow> encode_chunks ctx m (out + uint n) cs)"

definition encode_stream :: "mem \<Rightarrow> addr \<Rightarrow> byte list list \<Rightarrow> mem \<times> addr" where
  "encode_stream m out chunks =
     (case encode_chunks EVP_EncodeInit m out chunks of
        (ctx, m, out) \<Rightarrow> (case EVP_EncodeFinal ctx m out of (ctx, m, n) \<Rightarrow> (m, out + uint n)))"

lemma mem_write_nul_after:
  "mem_write (mem_write m p (nul_after v)) (p + int (length v)) (nul_after w) = mem_write m p (nul_after (v @ w))"
proof (cases "v = [] \<or> w = []")
  case True
  then show ?thesis by (auto simp: nul_after_def)
next
  case False
  then show ?thesis
    using mem_write_over [of "[0]" "w @ [0]" m p v] by (cases w) (auto simp: nul_after_def)
qed

lemma encode_chunks_lines:
  assumes "encode_inv ctx" "65 * ((data_used ctx + length (concat chunks)) div 48) \<le> unat INT_MAX"
  defines "w \<equiv> b64_lines (pending ctx @ concat chunks)"
  shows "\<exists>ctx'. encode_chunks ctx m out chunks = (ctx', mem_write m out (nul_after w), out + int (length w)) \<and>
    encode_inv ctx' \<and> pending ctx' = b64_rest (pending ctx @ concat chunks)"
  unfolding w_def using assms(1,2)
proof (induction chunks arbitrary: ctx m out)
  case Nil
  then have "length (pending ctx) < 48" by (simp add: encode_inv_def)
  with Nil show ?case using b64_lines_short [of "pending ctx"] by simp
next
  case (Cons c cs)
  let ?v = "b64_lines (pending ctx @ c)"
  have small: "65 * ((data_used ctx + length c) div 48) \<le> unat INT_MAX"
    using Cons.prems(2) by (rule order_trans [rotated]) (simp add: div_le_mono)
  obtain ctx1 where 1: "EVP_EncodeUpdate ctx m out c = (ctx1, mem_write m out (nul_after ?v), of_nat (length ?v))"
    and inv1: "encode_inv ctx1" and p1: "pending ctx1 = b64_rest (pending ctx @ c)"
    using EVP_EncodeUpdate_lines [OF Cons.prems(1) small] by blast
  have u: "uint (of_nat (length ?v) :: size_t) = int (length ?v)"
  proof -
    have "length ?v \<le> unat INT_MAX" using small Cons.prems(1) by (simp only: b64_lines_bound length_append length_pending)
    then show ?thesis by (simp add: uint_nat unat_of_nat INT_MAX_def)
  qed
  have "data_used ctx1 \<le> data_used ctx + length c"
    using b64_rest_le [of "pending ctx @ c"] length_pending [OF inv1] length_pending [OF Cons.prems(1)] by (simp add: p1)
  then have "65 * ((data_used ctx1 + length (concat cs)) div 48) \<le> 65 * ((data_used ctx + length (concat (c # cs))) div 48)"
    by (simp add: div_le_mono)
  then have "65 * ((data_used ctx1 + length (concat cs)) div 48) \<le> unat INT_MAX"
    using Cons.prems(2) by linarith
  from Cons.IH [OF inv1 this, of "mem_write m out (nul_after ?v)" "out + int (length ?v)"] show ?case
    using b64_lines_append [of "pending ctx @ c" "concat cs"] b64_rest_append [of "pending ctx @ c" "concat cs"]
    by (auto simp: 1 u p1 mem_write_nul_after)
qed

lemma encode_stream_lines:
  assumes "65 * (length (concat chunks) div 48) \<le> unat INT_MAX"
  shows "encode_stream m out chunks =
    (mem_write m out (nul_after (b64_text (concat chunks))), out + int (length (b64_text (concat chunks))))"
proof -
  let ?xs = "concat chunks"
  obtain ctx where 1: "encode_chunks EVP_EncodeInit m out chunks =
      (ctx, mem_write m out (nul_after (b64_lines ?xs)), out + int (length (b64_lines ?xs)))"
    and inv: "encode_inv ctx" and p: "pending ctx = b64_rest ?xs"
    using encode_chunks_lines [of EVP_EncodeInit chunks m out] encode_inv_init assms
    by (auto simp: EVP_EncodeInit_def)
  define w where "w = (if pending ctx = [] then [] else b64 (pending ctx) @ [10])"
  have "length w \<le> 65"
    using b64_rest_less [of ?xs] by (auto simp: w_def p length_b64)
  then have u: "uint (of_nat (length w) :: size_t) = int (length w)"
    by (simp add: uint_nat unat_of_nat)
  have "\<exists>ctx'. EVP_EncodeFinal ctx (mem_write m out (nul_after (b64_lines ?xs))) (out + int (length (b64_lines ?xs))) =
      (ctx', mem_write m out (nul_after (b64_lines ?xs @ w)), of_nat (length w))"
    using EVP_EncodeFinal_rest [OF inv] unfolding w_def [symmetric] by (metis mem_write_nul_after)
  moreover have "b64_text ?xs = b64_lines ?xs @ w" by (simp add: b64_text_def w_def p)
  ultimately show ?thesis
    by (auto simp: encode_stream_def 1 u)
qed

text \<open>C14: however the input is cut into chunks, the streaming encoder writes the same text, the
  encoding broken into lines of 64 characters, and ends it with a NUL.\<close>

theorem encode_stream_text:
  assumes "65 * (length (concat chunks) div 48) \<le> unat INT_MAX"
  shows "encode_stream m out chunks =
    (mem_write m out (nul_after (b64_text (concat chunks))), out + int (length (b64_text (concat chunks))))"
  by (rule encode_stream_lines) (rule assms)

section \<open>Decoding\<close>

lemma unat_of_nat_sextet: "i < 64 \<Longrightarrow> unat (of_nat i :: byte) = i"
  by (simp add: unat_of_nat)

lemma sextet_valid: "i < 64 \<Longrightarrow> (of_nat i :: byte) \<noteq> 255"
proof
  assume "i < 64" "(of_nat i :: byte) = 255"
  then have "unat (of_nat i :: byte) = 255" by simp
  with \<open>i < 64\<close> show False by (simp add: unat_of_nat_sextet)
qed

lemma byte_of_number: "unat (v :: u32) = n \<Longrightarrow> (ucast (drop_bit k v) :: byte) = of_nat (n div 2 ^ k)"
  by (metis of_nat_unat unat_drop_bit_eq drop_bit_eq_div)

text \<open>Recombining the base-64 digits of a 24-bit number.\<close>

lemma base64_digits:
  assumes "n < 16777216"
  shows "(n div 262144 mod 64) * 262144 + (n div 4096 mod 64) * 4096 + (n div 64 mod 64) * 64 + n mod 64 = (n :: nat)"
proof -
  have d: "n div 4096 = n div 64 div 64" "n div 262144 = n div 64 div 64 div 64"
    by (simp_all add: div_mult2_eq [symmetric])
  have lt: "n div 64 div 64 div 64 < 64" using assms by (simp add: div_mult2_eq [symmetric])
  have m: "k div 64 * 64 + k mod 64 = k" for k :: nat by (rule div_mult_mod_eq)
  show ?thesis
    unfolding d mod_less [OF lt] using m [of n] m [of "n div 64"] m [of "n div 64 div 64"] by linarith
qed

definition pad_bits :: "byte list \<Rightarrow> u32" where
  "pad_bits q =
     push_bit 3 (of_bool (q ! 0 = 61)) OR push_bit 2 (of_bool (q ! 1 = 61)) OR
     push_bit 1 (of_bool (q ! 2 = 61)) OR of_bool (q ! 3 = 61)"

definition quad_word :: "byte list \<Rightarrow> u32" where
  "quad_word q =
     push_bit 18 (ucast (base64_ascii_to_bin (q ! 0))) OR push_bit 12 (ucast (base64_ascii_to_bin (q ! 1))) OR
     push_bit 6 (ucast (base64_ascii_to_bin (q ! 2))) OR ucast (base64_ascii_to_bin (q ! 3))"

lemma base64_ascii_to_bin_pad [simp]: "base64_ascii_to_bin 61 = 0"
  by (simp add: base64_ascii_to_bin_if)

lemma base64_decode_quad_word:
  assumes v: "unat (quad_word q) = n" and pad: "list_all (\<lambda>i. base64_ascii_to_bin (q ! i) \<noteq> 255) [0, 1, 2, 3]"
  shows "base64_decode_quad m out q =
    (if pad_bits q = 0 then Some (mem_write m out [of_nat (n div 65536), of_nat (n div 256), of_nat n], 3)
     else if pad_bits q = 1 then Some (mem_write m out [of_nat (n div 65536), of_nat (n div 256)], 2)
     else if pad_bits q = 3 then Some (mem_write m out [of_nat (n div 65536)], 1) else None)"
proof -
  have valid: "base64_ascii_to_bin (q ! 0) \<noteq> 255" "base64_ascii_to_bin (q ! 1) \<noteq> 255"
    "base64_ascii_to_bin (q ! 2) \<noteq> 255" "base64_ascii_to_bin (q ! 3) \<noteq> 255"
    using pad by simp_all
  have "ascii CHR ''='' = 61" by (simp add: ascii_def)
  moreover have "ucast (drop_bit 16 (quad_word q)) = (of_nat (n div 65536) :: byte)"
    "ucast (drop_bit 8 (quad_word q)) = (of_nat (n div 256) :: byte)" "ucast (quad_word q) = (of_nat n :: byte)"
    using byte_of_number [OF v, of 16] byte_of_number [OF v, of 8] byte_of_number [OF v, of 0] by simp_all
  ultimately show ?thesis
    unfolding base64_decode_quad_def Let_def quad_word_def [symmetric]
    using valid by (simp only: pad_bits_def [symmetric] simp_thms if_False)
qed

lemma three_byte_digits:
  fixes a b c :: byte
  defines "n \<equiv> unat a * 65536 + unat b * 256 + unat c"
  shows "(of_nat (n div 65536) :: byte) = a \<and> (of_nat (n div 256) :: byte) = b \<and> (of_nat n :: byte) = c"
proof -
  have "n div 65536 = unat a"
    using unat_byte_less [of b] unat_byte_less [of c] by (simp add: n_def div_nat_eqI)
  moreover have "n div 256 = unat a * 256 + unat b"
    using unat_byte_less [of c] by (intro div_nat_eqI) (simp_all add: n_def)
  moreover have z: "(256 :: byte) = 0" "(65536 :: byte) = 0" by code_simp+
  ultimately show ?thesis by (simp add: n_def z)
qed

lemma alphabet_not_pad: "i < 64 \<Longrightarrow> (b64_alphabet ! i = 61) = False"
  using alphabet_not_special by simp

lemma base64_decode_quad_full:
  assumes q: "q ! 0 = b64_alphabet ! i" "q ! 1 = b64_alphabet ! j" "q ! 2 = b64_alphabet ! k" "q ! 3 = b64_alphabet ! l"
    and lt: "i < 64" "j < 64" "k < 64" "l < 64"
    and n: "i * 262144 + j * 4096 + k * 64 + l = unat a * 65536 + unat b * 256 + unat c"
  shows "base64_decode_quad m out q = Some (mem_write m out [a, b, c], 3)"
proof -
  note q = q q(2) [simplified]
  have v: "unat (quad_word q) = unat a * 65536 + unat b * 256 + unat c"
    using unat_four_sextets [of "of_nat i" "of_nat j" "of_nat k" "of_nat l"] n lt
    by (simp only: quad_word_def unat_of_nat_sextet q base64_ascii_to_bin_alphabet)
  have "pad_bits q = 0" using lt by (simp add: pad_bits_def q alphabet_not_pad)
  moreover have "list_all (\<lambda>i. base64_ascii_to_bin (q ! i) \<noteq> 255) [0, 1, 2, 3]"
    using lt q sextet_valid by simp
  ultimately show ?thesis
    using base64_decode_quad_word [OF v] three_byte_digits [of a b c] by simp
qed

lemma base64_decode_quad_pad1:
  assumes q: "q ! 0 = b64_alphabet ! i" "q ! 1 = b64_alphabet ! j" "q ! 2 = b64_alphabet ! k" "q ! 3 = 61"
    and lt: "i < 64" "j < 64" "k < 64"
    and n: "i * 262144 + j * 4096 + k * 64 = unat a * 65536 + unat b * 256"
  shows "base64_decode_quad m out q = Some (mem_write m out [a, b], 2)"
proof -
  note q = q q(2) [simplified]
  have v: "unat (quad_word q) = unat a * 65536 + unat b * 256 + unat (0 :: byte)"
    using unat_four_sextets [of "of_nat i" "of_nat j" "of_nat k" 0] n lt
    by (simp add: quad_word_def unat_of_nat_sextet q)
  have "pad_bits q = 1" using lt by (simp add: pad_bits_def q alphabet_not_pad)
  moreover have "list_all (\<lambda>i. base64_ascii_to_bin (q ! i) \<noteq> 255) [0, 1, 2, 3]"
    using lt q sextet_valid by simp
  ultimately show ?thesis
    using base64_decode_quad_word [OF v] three_byte_digits [of a b 0] by simp
qed

lemma base64_decode_quad_pad2:
  assumes q: "q ! 0 = b64_alphabet ! i" "q ! 1 = b64_alphabet ! j" "q ! 2 = 61" "q ! 3 = 61"
    and lt: "i < 64" "j < 64"
    and n: "i * 262144 + j * 4096 = unat a * 65536"
  shows "base64_decode_quad m out q = Some (mem_write m out [a], 1)"
proof -
  note q = q q(2) [simplified]
  have v: "unat (quad_word q) = unat a * 65536 + unat (0 :: byte) * 256 + unat (0 :: byte)"
    using unat_four_sextets [of "of_nat i" "of_nat j" 0 0] n lt
    by (simp add: quad_word_def unat_of_nat_sextet q)
  have "pad_bits q = 3" using lt by (simp add: pad_bits_def q alphabet_not_pad)
  moreover have "list_all (\<lambda>i. base64_ascii_to_bin (q ! i) \<noteq> 255) [0, 1, 2, 3]"
    using lt q sextet_valid by simp
  ultimately show ?thesis
    using base64_decode_quad_word [OF v] three_byte_digits [of a 0 0] by simp
qed

text \<open>The quad of up to three bytes decodes to those bytes.\<close>

lemma base64_decode_quad_b64:
  assumes "length src \<le> 3" "src \<noteq> []" "take 4 q = b64 src"
  shows "base64_decode_quad m out q = Some (mem_write m out src, length src)"
proof -
  have nth: "q ! i = b64 src ! i" if "i < 4" for i
    using that by (metis assms(3) nth_take)
  have digits: "unat a * 65536 + unat b * 256 + unat c < 16777216" for a b c :: byte
    using unat_byte_less [of a] unat_byte_less [of b] unat_byte_less [of c] by simp
  have nths: "q ! 0 = b64 src ! 0" "q ! 1 = b64 src ! 1" "q ! 2 = b64 src ! 2" "q ! 3 = b64 src ! 3"
    "q ! Suc 0 = b64 src ! 1"
    using nth by simp_all
  consider a where "src = [a]" | a b where "src = [a, b]" | a b c where "src = [a, b, c]"
    using assms(1,2) by (cases src; cases "tl src"; cases "tl (tl src)") auto
  then show ?thesis
  proof cases
    case (1 a)
    let ?n = "unat a * 65536"
    have lt64: "unat a div 4 < 64" using unat_byte_less [of a] by simp
    then have h: "unat a div 4 mod 64 = unat a div 4" by simp
    have "base64_decode_quad m out q = Some (mem_write m out [a], 1)"
      by (rule base64_decode_quad_pad2 [where i = "?n div 262144 mod 64" and j = "?n div 4096 mod 64"])
        (use base64_digits [OF digits [of a 0 0]] in \<open>simp_all add: nths 1 b64_quad_def h lt64\<close>)
    then show ?thesis by (simp add: 1)
  next
    case (2 a b)
    let ?n = "unat a * 65536 + unat b * 256"
    have lt64: "?n div 262144 < 64" using digits [of a b 0] by simp
    have "base64_decode_quad m out q = Some (mem_write m out [a, b], 2)"
      by (rule base64_decode_quad_pad1 [where i = "?n div 262144 mod 64" and j = "?n div 4096 mod 64"
            and k = "?n div 64 mod 64"])
        (use base64_digits [OF digits [of a b 0]] in \<open>simp_all add: nths 2 b64_quad_def lt64\<close>)
    then show ?thesis by (simp add: 2)
  next
    case (3 a b c)
    let ?n = "unat a * 65536 + unat b * 256 + unat c"
    have lt64: "?n div 262144 < 64" using digits [of a b c] by simp
    have "base64_decode_quad m out q = Some (mem_write m out [a, b, c], 3)"
      by (rule base64_decode_quad_full [where i = "?n div 262144 mod 64" and j = "?n div 4096 mod 64"
            and k = "?n div 64 mod 64" and l = "?n mod 64"])
        (use base64_digits [OF digits [of a b c]] in \<open>simp_all add: nths 3 b64_quad_def lt64\<close>)
    then show ?thesis by (simp add: 3)
  qed
qed


text \<open>One quad through the streaming decoder's loop.\<close>

definition decode_ready :: "EVP_ENCODE_CTX \<Rightarrow> bool" where
  "decode_ready ctx \<longleftrightarrow> length (data ctx) = 48 \<and> data_used ctx = 0 \<and> \<not> eof_seen ctx \<and> \<not> error_encountered ctx"

lemma decode_loop_skip: "decode_loop ctx m out n inp = decode_loop ctx m out n (filter (\<lambda>c. \<not> is_skipped c) inp)"
  by (induction ctx m out n inp rule: decode_loop.induct) (simp_all add: Let_def split: option.splits)

lemma decode_loop_append:
  "decode_loop ctx m out n (xs @ ys) =
     (case decode_loop ctx m out n xs of
        (ok, ctx', m', out', n') \<Rightarrow>
          if ok then decode_loop ctx' m' out' n' ys else (ok, ctx', m', out', n'))"
  by (induction ctx m out n xs rule: decode_loop.induct) (simp_all add: Let_def split: option.splits)

lemma decode_loop_quad:
  assumes r: "decode_ready ctx" and q: "length q = 4" "\<forall>c \<in> set q. \<not> is_skipped c"
    and d: "base64_decode_quad m out q = Some (m', k)"
  shows "decode_loop ctx m out n (q @ inp) =
     decode_loop (ctx\<lparr>data := q @ drop 4 (data ctx), data_used := 0, eof_seen := k < 3\<rparr>) m' (out + int k) (n + of_nat k) inp"
proof -
  obtain c0 c1 c2 c3 where qs: "q = [c0, c1, c2, c3]"
    using q(1) by (auto simp: numeral_eq_Suc length_Suc_conv)
  obtain d0 d1 d2 d3 ds where ds: "data ctx = d0 # d1 # d2 # d3 # ds"
    using r by (auto simp: decode_ready_def numeral_eq_Suc length_Suc_conv)
  have "base64_decode_quad m out (c0 # c1 # c2 # c3 # ds) = Some (m', k)"
    using d by (simp add: base64_decode_quad_def qs)
  then show ?thesis
    using r q by (simp add: qs ds decode_ready_def numeral_eq_Suc)
qed


lemma b64_quad_not_skipped: "\<forall>c \<in> set (b64_quad n). \<not> is_skipped c"
  using alphabet_not_special by (auto simp: b64_quad_def)

lemma b64_not_skipped: "\<forall>c \<in> set (b64 src). \<not> is_skipped c"
proof (induction src rule: b64.induct)
  case (2 a)
  have "\<not> is_skipped 61" by (simp add: is_skipped_def ascii_def)
  then show ?case using b64_quad_not_skipped by (auto dest: in_set_takeD)
next
  case (3 a b)
  have "\<not> is_skipped 61" by (simp add: is_skipped_def ascii_def)
  then show ?case using b64_quad_not_skipped by (auto dest: in_set_takeD)
next
  case (4 a b c rest)
  then show ?case using b64_quad_not_skipped by auto
qed simp

lemma decode_loop_short:
  assumes "decode_ready ctx" "src \<noteq> []" "length src \<le> 3"
  shows "decode_loop ctx m out n (b64 src @ inp) =
     decode_loop (ctx\<lparr>data := b64 src @ drop 4 (data ctx), data_used := 0, eof_seen := length src < 3\<rparr>)
       (mem_write m out src) (out + int (length src)) (n + of_nat (length src)) inp"
proof (rule decode_loop_quad [OF assms(1)])
  show "length (b64 src) = 4"
    using assms(2,3) by (cases src; cases "tl src"; cases "tl (tl src)") (auto simp: length_b64)
  then show "base64_decode_quad m out (b64 src) = Some (mem_write m out src, length src)"
    using assms by (intro base64_decode_quad_b64) simp_all
qed (rule b64_not_skipped)

lemma decode_loop_b64:
  assumes "decode_ready ctx"
  shows "\<exists>ctx'. decode_loop ctx m out n (b64 src) =
      (True, ctx', mem_write m out src, out + int (length src), n + of_nat (length src)) \<and>
    data_used ctx' = 0 \<and> \<not> error_encountered ctx'"
  using assms
proof (induction src arbitrary: ctx m out n rule: b64.induct)
  case 1
  then show ?case by (simp add: decode_ready_def)
next
  case (2 a)
  then show ?case using decode_loop_short [of ctx "[a]" m out n "[]"] by (simp add: decode_ready_def)
next
  case (3 a b)
  then show ?case using decode_loop_short [of ctx "[a, b]" m out n "[]"] by (simp add: decode_ready_def)
next
  case (4 a b c rest)
  let ?ctx = "ctx\<lparr>data := b64 [a, b, c] @ drop 4 (data ctx), data_used := 0, eof_seen := False\<rparr>"
  have "decode_ready ?ctx" using 4(2) by (simp add: decode_ready_def)
  from 4(1) [OF this, of "mem_write m out [a, b, c]" "out + 3" "n + 3"] show ?case
    using decode_loop_short [OF 4(2), of "[a, b, c]" m out n "b64 rest"] mem_write_append [of m out "[a, b, c]" rest]
    by (auto simp: ac_simps)
qed


lemma decode_loop_count:
  "decode_loop ctx m out (n + n0) inp =
     (case decode_loop ctx m out n inp of (ok, ctx', m', out', k) \<Rightarrow> (ok, ctx', m', out', k + n0))"
  by (induction ctx m out n inp rule: decode_loop.induct)
    (simp_all add: Let_def algebra_simps split: option.splits)

lemma decode_loop_moves:
  "case decode_loop ctx m out n inp of
     (ok, ctx', m', out', n') \<Rightarrow>
       (ok \<longrightarrow> error_encountered ctx' = error_encountered ctx) \<and> out \<le> out' \<and> n' = n + of_int (out' - out)"
proof (induction ctx m out n inp rule: decode_loop.induct)
  case (2 ctx m out n c inp)
  let ?ctx = "ctx\<lparr>data := (data ctx)[data_used ctx := c], data_used := data_used ctx + 1\<rparr>"
  consider "is_skipped c" | "\<not> is_skipped c" "eof_seen ctx" | "\<not> is_skipped c" "\<not> eof_seen ctx" "data_used ctx \<noteq> 3"
    | "\<not> is_skipped c" "\<not> eof_seen ctx" "data_used ctx = 3" by blast
  then show ?case
  proof cases
    case 4
    show ?thesis
    proof (cases "base64_decode_quad m out (data ?ctx)")
      case (Some mk)
      obtain m1 k where mk: "(m1, k) = mk" by (cases mk) auto
      have "data_used ?ctx = 4" using 4 by simp
      from 2(2) [OF 4(1,2) refl this Some mk] show ?thesis
        using Some mk 4 by (auto split: prod.splits)
    qed (use 4 in simp)
  qed (use 2(1,3) in \<open>auto simp: Let_def split: prod.splits\<close>)
qed simp

text \<open>A client's use of the streaming decoder: any number of updates, each writing where the one
  before it stopped, until one fails.\<close>

fun decode_chunks :: "EVP_ENCODE_CTX \<Rightarrow> mem \<Rightarrow> addr \<Rightarrow> byte list list \<Rightarrow> (EVP_ENCODE_CTX \<times> mem \<times> addr) option" where
  "decode_chunks ctx m out [] = Some (ctx, m, out)"
| "decode_chunks ctx m out (c # cs) =
     (case EVP_DecodeUpdate ctx m out c of
        (r, ctx, m, n) \<Rightarrow> if r < 0 then None else decode_chunks ctx m (out + uint n) cs)"

definition decode_stream :: "mem \<Rightarrow> addr \<Rightarrow> byte list list \<Rightarrow> (mem \<times> addr) option" where
  "decode_stream m out chunks =
     (case decode_chunks EVP_DecodeInit m out chunks of
        None \<Rightarrow> None
      | Some (ctx, m, out) \<Rightarrow> if EVP_DecodeFinal ctx < 0 then None else Some (m, out))"

lemma decode_chunks_loop:
  assumes "decode_loop ctx m out 0 (concat cs) = (True, ctx', m', out', n)"
    and "\<not> error_encountered ctx" "out' - out \<le> uint INT_MAX"
  shows "decode_chunks ctx m out cs = Some (ctx', m', out')"
  using assms
proof (induction cs arbitrary: ctx m out n)
  case (Cons c cs)
  obtain ok ctx1 m1 out1 n1 where 1: "decode_loop ctx m out 0 c = (ok, ctx1, m1, out1, n1)"
    by (cases "decode_loop ctx m out 0 c")
  then have ok: "ok" and rest: "decode_loop ctx1 m1 out1 n1 (concat cs) = (True, ctx', m', out', n)"
    using Cons.prems(1) by (auto simp: decode_loop_append split: if_splits)
  have o1: "out \<le> out1" "n1 = of_int (out1 - out)" and e1: "\<not> error_encountered ctx1"
    using decode_loop_moves [where ctx = ctx and m = m and out = out and n = 0 and inp = c] 1 ok Cons.prems(2) by auto
  obtain n2 where rest0: "decode_loop ctx1 m1 out1 0 (concat cs) = (True, ctx', m', out', n2)"
    using rest decode_loop_count [of ctx1 m1 out1 0 n1 "concat cs"] by (auto split: prod.splits)
  have o2: "out1 \<le> out'" using decode_loop_moves [where ctx = ctx1 and m = m1 and out = out1 and n = 0 and inp = "concat cs"] rest0 by auto
  have small: "out1 - out \<le> uint INT_MAX" using o1 o2 Cons.prems(3) by simp
  then have u: "uint n1 = out1 - out"
    using o1 by (simp add: uint_word_of_int INT_MAX_def mod_pos_pos_trivial del: of_int_diff)
  with small have "\<not> INT_MAX < n1" by (simp add: word_less_def)
  then have "decode_chunks ctx m out (c # cs) = decode_chunks ctx1 m1 (out + uint n1) cs"
    using Cons.prems(2) 1 ok by (simp add: EVP_DecodeUpdate_def)
  also have "\<dots> = Some (ctx', m', out')"
    using Cons.IH [OF rest0 e1] o1 o2 u Cons.prems(3) by simp
  finally show ?case .
qed simp


section \<open>Round trips\<close>

lemma filter_b64 [simp]: "filter (\<lambda>c. \<not> is_skipped c) (b64 src) = b64 src"
  using b64_not_skipped by (simp add: filter_id_conv)

lemma filter_b64_text: "filter (\<lambda>c. \<not> is_skipped c) (b64_text src) = b64 src"
proof -
  have nl: "is_skipped 10" by (simp add: is_skipped_def)
  have "filter (\<lambda>c. \<not> is_skipped c) (b64_lines src) @ b64 (b64_rest src) = b64 src"
  proof (induction src rule: b64_lines.induct)
    case (1 xs)
    show ?case
    proof (cases "48 \<le> length xs")
      case True
      then have "b64 (take 48 xs @ drop 48 xs) = b64 (take 48 xs) @ b64 (drop 48 xs)"
        by (intro b64_append) simp
      then show ?thesis
        using 1 True nl by (simp add: b64_lines.simps [of xs] b64_rest.simps [of xs])
    qed (simp add: b64_lines_short)
  qed
  then show ?thesis using nl by (auto simp: b64_text_def)
qed

lemma decode_stream_b64:
  assumes "filter (\<lambda>c. \<not> is_skipped c) (concat chunks) = b64 src" "int (length src) \<le> uint INT_MAX"
  shows "decode_stream m out chunks = Some (mem_write m out src, out + int (length src))"
proof -
  have "decode_ready EVP_DecodeInit" by (simp add: decode_ready_def EVP_DecodeInit_def)
  then obtain ctx where
    "decode_loop EVP_DecodeInit m out 0 (b64 src) = (True, ctx, mem_write m out src, out + int (length src), 0 + of_nat (length src))"
    and fin: "data_used ctx = 0" "\<not> error_encountered ctx"
    using decode_loop_b64 by blast
  then have "decode_loop EVP_DecodeInit m out 0 (concat chunks) =
      (True, ctx, mem_write m out src, out + int (length src), of_nat (length src))"
    using decode_loop_skip [of EVP_DecodeInit m out 0 "concat chunks"] assms(1) by simp
  then have "decode_chunks EVP_DecodeInit m out chunks = Some (ctx, mem_write m out src, out + int (length src))"
    by (rule decode_chunks_loop) (use assms(2) in \<open>simp_all add: EVP_DecodeInit_def\<close>)
  then show ?thesis using fin by (simp add: decode_stream_def EVP_DecodeFinal_def)
qed

text \<open>C6: the text that the streaming encoder leaves in memory, fed to the streaming decoder in any
  chunks, decodes to the original input: both streams handle every cut of their input, the
  decoder skips the line breaks and both agree on the padding.\<close>

theorem base64_stream_round_trip:
  assumes "encode_stream m out chunks = (m', end)"
    and "concat pieces = mem_read m' out (nat (end - out))"
    and small: "65 * (length (concat chunks) div 48) + 65 \<le> unat INT_MAX"
  shows "decode_stream m2 dst pieces =
    Some (mem_write m2 dst (concat chunks), dst + int (length (concat chunks)))"
proof -
  let ?xs = "concat chunks"
  have "encode_stream m out chunks = (mem_write m out (nul_after (b64_text ?xs)), out + int (length (b64_text ?xs)))"
    using encode_stream_lines [of chunks] small by simp
  then have m': "m' = mem_write m out (nul_after (b64_text ?xs))" "end = out + int (length (b64_text ?xs))"
    using assms(1) by simp_all
  have "concat pieces = b64_text ?xs"
    using assms(2) by (simp add: m' nul_after_def mem_read_prefix)
  moreover have "length ?xs \<le> 48 * (length ?xs div 48) + 47" by presburger
  ultimately show ?thesis
    using small by (intro decode_stream_b64) (simp_all add: filter_b64_text uint_nat INT_MAX_def)
qed


section \<open>One-shot decoding\<close>

lemma decode_quads_short:
  assumes "src \<noteq> []" "length src \<le> 3" "length src = 3 \<or> inp = []"
  shows "decode_quads m out n (b64 src @ inp) =
     decode_quads (mem_write m out src) (out + int (length src)) (n + of_nat (length src)) inp"
proof -
  have "length (b64 src) = 4"
    using assms(1,2) by (cases src; cases "tl src"; cases "tl (tl src)") (auto simp: length_b64)
  then have d: "base64_decode_quad m out (b64 src) = Some (mem_write m out src, length src)"
    using assms by (intro base64_decode_quad_b64) simp_all
  obtain a b c d where q: "b64 src = [a, b, c, d]"
    using \<open>length (b64 src) = 4\<close> by (auto simp: numeral_eq_Suc length_Suc_conv)
  show ?thesis
    using assms(3) d by (auto simp: q)
qed

lemma decode_quads_b64:
  "decode_quads m out n (b64 src) = (mem_write m out src, Some (n + of_nat (length src)))"
proof (induction src arbitrary: m out n rule: b64.induct)
  case (2 a)
  then show ?case using decode_quads_short [of "[a]" "[]"] by simp
next
  case (3 a b)
  then show ?case using decode_quads_short [of "[a, b]" "[]"] by simp
next
  case (4 a b c rest)
  then show ?case
    using decode_quads_short [of "[a, b, c]" "b64 rest" m out n] mem_write_append [of m out "[a, b, c]" rest]
    by (simp add: ac_simps)
qed simp

lemma EVP_DecodedLength_b64:
  assumes "length (b64 src) < 2 ^ 64"
  shows "EVP_DecodedLength (of_nat (length (b64 src))) = Some (of_nat (3 * ((length src + 2) div 3)))"
proof -
  let ?q = "(length src + 2) div 3"
  have u: "unat (of_nat (4 * ?q) :: size_t) = 4 * ?q"
    using assms unfolding length_b64 by (subst unat_of_nat) simp
  have "unat ((of_nat (4 * ?q) :: size_t) mod 4) = 0" by (simp only: unat_mod_distrib u) simp
  then have "(of_nat (4 * ?q) :: size_t) mod 4 = 0" by (simp only: unat_eq_0)
  moreover have "unat ((of_nat (4 * ?q) :: size_t) div 4) = ?q" by (simp only: unat_div_distrib u) simp
  then have "(of_nat (4 * ?q) :: size_t) div 4 = of_nat ?q" by (metis of_nat_unat ucast_id)
  ultimately show ?thesis by (simp only: EVP_DecodedLength_def length_b64) simp
qed

text \<open>\<open>EVP_DecodeBase64\<close> inverts \<open>EVP_EncodeBlock\<close>: given the encoding of \<open>src\<close> and room for
  whole quads it writes exactly \<open>src\<close> and reports its length.\<close>

lemma EVP_DecodeBase64_inverts:
  assumes "length (b64 src) < 2 ^ 64" "3 * ((length src + 2) div 3) \<le> unat max_out"
    and "EVP_EncodeBlock m0 p src = (m1, len)"
  shows "EVP_DecodeBase64 m out max_out (mem_read m1 p (unat len)) =
    (mem_write m out src, Some (of_nat (length src)))"
proof -
  have "m1 = mem_write m0 p (b64 src @ [0])" "unat len = length (b64 src)"
    using assms(1,3) by (auto simp: EVP_EncodeBlock_b64 unat_of_nat)
  then have r: "mem_read m1 p (unat len) = b64 src" by (simp add: mem_read_prefix)
  have "length (b64 src) mod 4 = 0" by (simp add: length_b64)
  moreover have "\<not> max_out < (of_nat (3 * ((length src + 2) div 3)) :: size_t)"
  proof -
    have "3 * ((length src + 2) div 3) < 2 ^ 64"
    proof -
      have "unat max_out < 2 ^ 64" using unsigned_less [of max_out] by simp
      with assms(2) show ?thesis by linarith
    qed
    then have "unat (of_nat (3 * ((length src + 2) div 3)) :: size_t) = 3 * ((length src + 2) div 3)"
      by (subst unat_of_nat) simp
    then show ?thesis using assms(2) by (simp add: word_less_nat_alt)
  qed
  ultimately show ?thesis
    using assms(1) by (simp add: EVP_DecodeBase64_def r EVP_DecodedLength_b64 decode_quads_b64)
qed

text \<open>What a quad may write.\<close>

lemma base64_decode_quad_frame:
  assumes "base64_decode_quad m out q = Some (m', n)"
  shows "n \<le> 3 \<and> 1 \<le> n \<and> (\<forall>a. a < out \<or> out + int n \<le> a \<longrightarrow> m' a = m a)"
  using assms
  by (auto simp: base64_decode_quad_def Let_def mem_write_def split: if_splits)

lemma decode_quads_frame:
  assumes "decode_quads m out n inp = (m', r)"
  shows "(\<forall>a. a < out \<or> out + int (3 * (length inp div 4)) \<le> a \<longrightarrow> m' a = m a) \<and>
    (\<forall>n'. r = Some n' \<longrightarrow> (\<exists>k \<le> 3 * (length inp div 4). n' = n + of_nat k))"
  using assms
proof (induction m out n inp rule: decode_quads.induct)
  case (1 m out n a b c d rest)
  have div4: "length (a # b # c # d # rest) div 4 = Suc (length rest div 4)" by simp
  show ?case
  proof (cases "base64_decode_quad m out [a, b, c, d]")
    case None
    then show ?thesis using 1(2) by simp
  next
    case (Some mk)
    obtain m1 k where mk: "mk = (m1, k)" by (cases mk)
    have f: "k \<le> 3" "\<And>a. a < out \<or> out + int k \<le> a \<Longrightarrow> m1 a = m a"
      using base64_decode_quad_frame [of m out "[a, b, c, d]" m1 k] Some mk by auto
    show ?thesis
    proof (cases "k \<noteq> 3 \<and> rest \<noteq> []")
      case True
      then have "m' = m1" "r = None" using 1(2) Some mk by simp_all
      then show ?thesis using f unfolding div4 by auto
    next
      case False
      then have rec: "decode_quads m1 (out + int k) (n + of_nat k) rest = (m', r)"
        using 1(2) Some mk by (auto split: if_splits)
      note ih = 1(1) [OF Some mk [symmetric] False rec]
      have "\<exists>j \<le> 3 * Suc (length rest div 4). n' = n + of_nat j" if r: "r = Some n'" for n'
      proof -
        obtain j where "j \<le> 3 * (length rest div 4)" "n' = n + of_nat k + of_nat j"
          using ih [THEN conjunct2, rule_format, OF r] by auto
        then show ?thesis using f(1) by (intro exI [of _ "k + j"]) simp
      qed
      then show ?thesis using ih f unfolding div4 by auto
    qed
  qed
qed (auto intro: exI [of _ 0])

text \<open>\<open>EVP_DecodeBase64\<close> never writes outside the \<open>max_out\<close> bytes at \<open>out\<close>, whatever the input
  and also when it fails half-way, and the length it reports is within them.\<close>

lemma EVP_DecodeBase64_within:
  assumes "EVP_DecodeBase64 m out max_out inp = (m', r)" "length inp < 2 ^ 64"
  shows "(\<forall>a. a < out \<or> out + uint max_out \<le> a \<longrightarrow> m' a = m a) \<and> (\<forall>n. r = Some n \<longrightarrow> n \<le> max_out)"
proof -
  let ?len = "of_nat (length inp) :: size_t" and ?d = "length inp div 4"
  have u: "unat ?len = length inp" using assms(2) by (simp add: unat_of_nat)
  have d: "3 * ?d < 2 ^ 64" using assms(2) by linarith
  have ud: "unat (of_nat (3 * ?d) :: size_t) = 3 * ?d" using d by (subst unat_of_nat) simp
  have "unat (?len div 4) = ?d" by (simp only: unat_div_distrib u) simp
  then have "?len div 4 = of_nat ?d" by (metis of_nat_unat ucast_id)
  then have dl: "EVP_DecodedLength ?len = None \<or> EVP_DecodedLength ?len = Some (of_nat (3 * ?d))"
    by (simp add: EVP_DecodedLength_def)
  show ?thesis
  proof (cases "length inp mod 4 = 0 \<and> EVP_DecodedLength ?len \<noteq> None \<and> 3 * ?d \<le> unat max_out")
    case True
    then have "decode_quads m out 0 inp = (m', r)"
      using assms(1) dl ud by (auto simp: EVP_DecodeBase64_def word_less_nat_alt)
    note f = decode_quads_frame [OF this]
    have "n \<le> max_out" if r: "r = Some n" for n
    proof -
      obtain k where k: "k \<le> 3 * ?d" "n = of_nat k" using f r by auto
      then have "unat n = k" using d by (simp add: unat_of_nat)
      then show ?thesis using k True by (simp add: word_le_nat_alt)
    qed
    moreover have "int (3 * ?d) \<le> uint max_out" using True by (simp only: uint_nat of_nat_le_iff)
    ultimately show ?thesis using f by (auto dest: order_trans)
  next
    case False
    then have "m' = m" "r = None"
      using assms(1) dl ud by (auto simp: EVP_DecodeBase64_def word_less_nat_alt split: if_splits)
    then show ?thesis by simp
  qed
qed


section \<open>Witnesses\<close>

lemma b64_example: "b64 [77, 97, 110, 33] = [84, 87, 70, 117, 73, 81, 61, 61]"
proof -
  have q: "b64_quad 5071214 = [84, 87, 70, 117]" "b64_quad 2162688 = [73, 81, 65, 65]"
    by (simp_all add: b64_quad_def) (simp_all add: b64_alphabet_code)
  show ?thesis by simp (simp add: q)
qed

lemma b64_text_example: "b64_text [77, 97, 110, 33] = [84, 87, 70, 117, 73, 81, 61, 61, 10]"
  by (simp add: b64_text_def b64_lines_short b64_example del: b64.simps)

lemma encode_stream_text_witness:
  "encode_stream (\<lambda>_. 0) 100 [[77, 97], [], [110, 33]] =
     (mem_write (\<lambda>_. 0) 100 [84, 87, 70, 117, 73, 81, 61, 61, 10, 0], 109)"
  using encode_stream_text [of "[[77, 97], [], [110, 33]]" "\<lambda>_. 0" 100]
  by (simp add: INT_MAX_def nul_after_def b64_text_example)

lemma base64_stream_round_trip_witness:
  "decode_stream (\<lambda>_. 0) 500 [[84, 87, 70], [117, 73, 81, 61, 61, 10]] =
     Some (mem_write (\<lambda>_. 0) 500 [77, 97, 110, 33], 504)"
proof -
  have e: "encode_stream (\<lambda>_. 0) 100 [[77, 97, 110], [33]] =
      (mem_write (\<lambda>_. 0) 100 ([84, 87, 70, 117, 73, 81, 61, 61, 10] @ [0]), 109)"
    using encode_stream_lines [of "[[77, 97, 110], [33]]" "\<lambda>_. 0" 100]
    by (simp add: INT_MAX_def b64_text_example nul_after_def)
  have r: "concat [[84, 87, 70], [117, 73, 81, 61, 61, 10]] =
      mem_read (mem_write (\<lambda>_. 0) 100 ([84, 87, 70, 117, 73, 81, 61, 61, 10] @ [0])) 100 (nat (109 - 100))"
  proof -
    have n: "nat (109 - 100) = length [84, 87, 70, 117, 73, 81, 61, 61, 10 :: byte]" by simp
    show ?thesis unfolding n mem_read_prefix by simp
  qed
  show ?thesis
    using base64_stream_round_trip [OF e r, of "\<lambda>_. 0" 500] by (simp add: INT_MAX_def)
qed

end
