(* ===== verification/Crypto_Mem.thy ===== *)
theory Crypto_Mem
  imports Prelude
begin

text \<open>
  \<^verbatim>\<open>ios/Pods/BoringSSL-GRPC/src/crypto/mem.c\<close>: the allocator wrappers, which keep a block's size
  in the eight bytes before it and wipe it when it is released, the constant-time comparison, the
  hash and the string routines, all on byte memory. \<open>malloc\<close> is the C library's: it maps the
  requested size to the address it returns, 0 for \<open>NULL\<close>. A released block is reported with the
  size handed to \<open>sdallocx\<close>. Lengths of strings in memory are natural numbers; \<open>strlen\<close> does not
  return, \<open>None\<close>, when no NUL follows.
\<close>

section \<open>Allocation\<close>

definition OPENSSL_MALLOC_PREFIX :: size_t where
  "OPENSSL_MALLOC_PREFIX = 8"

definition OPENSSL_malloc :: "(size_t \<Rightarrow> addr) \<Rightarrow> mem \<Rightarrow> size_t \<Rightarrow> addr \<times> mem" where
  "OPENSSL_malloc malloc m sz =
     (let ptr = malloc (sz + OPENSSL_MALLOC_PREFIX) in
      if ptr = 0 then (0, m)
      else (ptr + uint OPENSSL_MALLOC_PREFIX, mem_write m ptr (le_bytes 8 sz)))"

definition OPENSSL_cleanse :: "mem \<Rightarrow> addr \<Rightarrow> size_t \<Rightarrow> mem" where
  "OPENSSL_cleanse m ptr len = mem_write m ptr (replicate (unat len) 0)"

definition OPENSSL_free :: "mem \<Rightarrow> addr \<Rightarrow> mem \<times> (addr \<times> size_t) option" where
  "OPENSSL_free m orig_ptr =
     (if orig_ptr = 0 then (m, None)
      else
        let ptr = orig_ptr - uint OPENSSL_MALLOC_PREFIX;
            sz = read_u64 m ptr
        in (OPENSSL_cleanse m ptr (sz + OPENSSL_MALLOC_PREFIX), Some (ptr, sz + OPENSSL_MALLOC_PREFIX)))"

definition OPENSSL_realloc ::
  "(size_t \<Rightarrow> addr) \<Rightarrow> mem \<Rightarrow> addr \<Rightarrow> size_t \<Rightarrow> addr \<times> mem \<times> (addr \<times> size_t) option" where
  "OPENSSL_realloc malloc m orig_ptr new_size =
     (if orig_ptr = 0 then (case OPENSSL_malloc malloc m new_size of (p, m) \<Rightarrow> (p, m, None))
      else
        let old_size = read_u64 m (orig_ptr - uint OPENSSL_MALLOC_PREFIX) in
        (case OPENSSL_malloc malloc m new_size of
           (ret, m) \<Rightarrow>
             if ret = 0 then (0, m, None)
             else
               let to_copy = (if old_size < new_size then old_size else new_size);
                   m = mem_write m ret (mem_read m orig_ptr (unat to_copy))
               in case OPENSSL_free m orig_ptr of (m, freed) \<Rightarrow> (ret, m, freed)))"

section \<open>Comparison and hashing\<close>

fun memcmp_loop :: "mem \<Rightarrow> addr \<Rightarrow> addr \<Rightarrow> nat \<Rightarrow> byte \<Rightarrow> byte" where
  "memcmp_loop m a b 0 x = x"
| "memcmp_loop m a b (Suc n) x = memcmp_loop m (a + 1) (b + 1) n (x OR (m a XOR m b))"

definition CRYPTO_memcmp :: "mem \<Rightarrow> addr \<Rightarrow> addr \<Rightarrow> size_t \<Rightarrow> int" where
  "CRYPTO_memcmp m in_a in_b len = uint (memcmp_loop m in_a in_b (unat len) 0)"

definition OPENSSL_hash32 :: "byte list \<Rightarrow> u32" where
  "OPENSSL_hash32 bs = foldl (\<lambda>h b. (h XOR ucast b) * 16777619) 2166136261 bs"

section \<open>Strings\<close>

partial_function (option) strlen_from :: "mem \<Rightarrow> addr \<Rightarrow> nat \<Rightarrow> nat option" where
  "strlen_from m s i = (if m s = 0 then Some i else strlen_from m (s + 1) (i + 1))"

definition strlen :: "mem \<Rightarrow> addr \<Rightarrow> nat option" where
  "strlen m s = strlen_from m s 0"

fun strnlen_loop :: "mem \<Rightarrow> addr \<Rightarrow> nat \<Rightarrow> nat \<Rightarrow> nat" where
  "strnlen_loop m s 0 i = i"
| "strnlen_loop m s (Suc n) i = (if m (s + int i) = 0 then i else strnlen_loop m s n (i + 1))"

definition OPENSSL_strnlen :: "mem \<Rightarrow> addr \<Rightarrow> size_t \<Rightarrow> nat" where
  "OPENSSL_strnlen m s len = strnlen_loop m s (unat len) 0"

definition OPENSSL_strdup :: "(size_t \<Rightarrow> addr) \<Rightarrow> mem \<Rightarrow> addr \<Rightarrow> (addr \<times> mem) option" where
  "OPENSSL_strdup malloc m s =
     (if s = 0 then Some (0, m)
      else
        (case strlen m s of
           None \<Rightarrow> None
         | Some n \<Rightarrow>
             (case OPENSSL_malloc malloc m (of_nat (n + 1)) of
                (ret, m') \<Rightarrow>
                  Some (if ret = 0 then (0, m') else (ret, mem_write m' ret (mem_read m' s (n + 1)))))))"

definition OPENSSL_tolower :: "int \<Rightarrow> int" where
  "OPENSSL_tolower c = (if 65 \<le> c \<and> c \<le> 90 then c + (97 - 65) else c)"

text \<open>\<open>char\<close> is signed; \<open>strcasecmp\<close> scans until a difference or a NUL, \<open>strncasecmp\<close> at most \<open>n\<close>
  characters.\<close>

definition lower_at :: "mem \<Rightarrow> addr \<Rightarrow> int" where
  "lower_at m a = OPENSSL_tolower (sint (m a))"

partial_function (option) OPENSSL_strcasecmp :: "mem \<Rightarrow> addr \<Rightarrow> addr \<Rightarrow> int option" where
  "OPENSSL_strcasecmp m a b =
     (let aa = lower_at m a; bb = lower_at m b in
      if aa < bb then Some (-1)
      else if aa > bb then Some 1
      else if aa = 0 then Some 0
      else OPENSSL_strcasecmp m (a + 1) (b + 1))"

fun OPENSSL_strncasecmp :: "mem \<Rightarrow> addr \<Rightarrow> addr \<Rightarrow> nat \<Rightarrow> int" where
  "OPENSSL_strncasecmp m a b 0 = 0"
| "OPENSSL_strncasecmp m a b (Suc n) =
     (let aa = lower_at m a; bb = lower_at m b in
      if aa < bb then -1
      else if aa > bb then 1
      else if aa = 0 then 0
      else OPENSSL_strncasecmp m (a + 1) (b + 1) n)"

definition OPENSSL_strndup :: "(size_t \<Rightarrow> addr) \<Rightarrow> mem \<Rightarrow> addr \<Rightarrow> size_t \<Rightarrow> addr \<times> mem" where
  "OPENSSL_strndup malloc m str size0 =
     (if str = 0 then (0, m)
      else
        let sz = (of_nat (OPENSSL_strnlen m str size0) :: size_t);
            alloc_size = sz + 1
        in
          if alloc_size < sz then (0, m)
          else
            (case OPENSSL_malloc malloc m alloc_size of
               (ret, m) \<Rightarrow>
                 if ret = 0 then (0, m)
                 else
                   let m = mem_write m ret (mem_read m str (unat sz))
                   in (ret, mem_write m (ret + uint sz) [0])))"

function strlcpy_loop :: "mem \<Rightarrow> addr \<Rightarrow> addr \<Rightarrow> nat \<Rightarrow> nat \<Rightarrow> mem \<times> addr \<times> addr \<times> nat \<times> nat" where
  "strlcpy_loop m dst src dst_size l =
     (if dst_size > 1 \<and> m src \<noteq> 0
      then strlcpy_loop (mem_write m dst [m src]) (dst + 1) (src + 1) (dst_size - 1) (l + 1)
      else (m, dst, src, dst_size, l))"
  by pat_completeness auto
termination by (relation "measure (\<lambda>(m, dst, src, n, l). n)") auto

declare strlcpy_loop.simps [simp del]

definition OPENSSL_strlcpy :: "mem \<Rightarrow> addr \<Rightarrow> addr \<Rightarrow> size_t \<Rightarrow> (nat \<times> mem) option" where
  "OPENSSL_strlcpy m dst src dst_size =
     (case strlcpy_loop m dst src (unat dst_size) 0 of
        (m, dst, src, n, l) \<Rightarrow>
          let m = (if n \<noteq> 0 then mem_write m dst [0] else m)
          in map_option (\<lambda>k. (l + k, m)) (strlen m src))"

fun strlcat_loop :: "mem \<Rightarrow> addr \<Rightarrow> nat \<Rightarrow> nat \<Rightarrow> addr \<times> nat \<times> nat" where
  "strlcat_loop m dst 0 l = (dst, 0, l)"
| "strlcat_loop m dst (Suc n) l = (if m dst \<noteq> 0 then strlcat_loop m (dst + 1) n (l + 1) else (dst, Suc n, l))"

definition OPENSSL_strlcat :: "mem \<Rightarrow> addr \<Rightarrow> addr \<Rightarrow> size_t \<Rightarrow> (nat \<times> mem) option" where
  "OPENSSL_strlcat m dst src dst_size =
     (case strlcat_loop m dst (unat dst_size) 0 of
        (dst, n, l) \<Rightarrow> map_option (\<lambda>(k, m). (l + k, m)) (OPENSSL_strlcpy m dst src (of_nat n)))"

definition OPENSSL_memdup :: "(size_t \<Rightarrow> addr) \<Rightarrow> mem \<Rightarrow> addr \<Rightarrow> size_t \<Rightarrow> addr \<times> mem" where
  "OPENSSL_memdup malloc m src sz =
     (if sz = 0 then (0, m)
      else
        (case OPENSSL_malloc malloc m sz of
           (ret, m) \<Rightarrow>
             if ret = 0 then (0, m) else (ret, mem_write m ret (mem_read m src (unat sz)))))"

section \<open>Lemmas\<close>

lemma memcmp_loop_0: "memcmp_loop m a b n x = 0 \<longleftrightarrow> x = 0 \<and> mem_read m a n = mem_read m b n"
proof (induction n arbitrary: a b x)
  case (Suc n)
  show ?case by (simp add: Suc mem_read_Suc or_eq_0_iff word_xor_eq_0_iff)
qed simp

text \<open>\<open>CRYPTO_memcmp\<close> returns zero exactly when the two blocks hold the same bytes, although it
  always reads both to the end.\<close>

lemma CRYPTO_memcmp_zero:
  "CRYPTO_memcmp m a b len = 0 \<longleftrightarrow> mem_read m a (unat len) = mem_read m b (unat len)"
  by (simp add: CRYPTO_memcmp_def uint_0_iff memcmp_loop_0)

lemma strlen_from_string:
  "mem_read m s (length cs + 1) = cs @ [0] \<Longrightarrow> 0 \<notin> set cs \<Longrightarrow> strlen_from m s i = Some (i + length cs)"
proof (induction cs arbitrary: s i)
  case Nil
  then show ?case by (simp add: mem_read_Suc strlen_from.simps)
next
  case (Cons c cs)
  then have "m s = c" "mem_read m (s + 1) (length cs + 1) = cs @ [0]" by (simp_all add: mem_read_Suc)
  then show ?case using Cons by (simp add: strlen_from.simps [of m s])
qed

lemma read_u64_write_disjoint:
  "p + 8 \<le> q \<or> q + int (length bs) \<le> p \<Longrightarrow> read_u64 (mem_write m q bs) p = read_u64 m p"
  by (simp add: read_u64_def mem_read_write_disjoint)

lemma read_u64_write: "read_u64 (mem_write m p (le_bytes 8 w)) p = w"
  by (simp add: read_u64_def le_val_le_bytes_full)

lemma mem_write_outside: "a < p \<or> p + int (length bs) \<le> a \<Longrightarrow> mem_write m p bs a = m a"
  by (rule mem_write_other)

text \<open>\<open>OPENSSL_realloc\<close> into a fresh block keeps the contents, up to the smaller of the two sizes;
  the new block's header records its size, every byte of the old block and its header is wiped,
  the old block is released with the size it was allocated with, and nothing else changes.\<close>

lemma OPENSSL_realloc_moves:
  fixes malloc :: "size_t \<Rightarrow> addr" and m :: mem and orig_ptr :: addr and new_size :: size_t
  defines "old_size \<equiv> read_u64 m (orig_ptr - 8)" and "p \<equiv> malloc (new_size + 8)"
  assumes "orig_ptr \<noteq> 0" "p \<noteq> 0" "p + 8 \<noteq> 0"
    and sizes: "unat new_size + 8 < 2 ^ 64" "unat old_size + 8 < 2 ^ 64"
    and fresh: "p + uint new_size + 8 \<le> orig_ptr - 8 \<or> orig_ptr + uint old_size \<le> p"
  shows "case OPENSSL_realloc malloc m orig_ptr new_size of
    (ret, m', freed) \<Rightarrow>
      ret = p + 8 \<and> read_u64 m' (ret - 8) = new_size \<and>
      mem_read m' ret (min (unat new_size) (unat old_size)) = mem_read m orig_ptr (min (unat new_size) (unat old_size)) \<and>
      mem_read m' (orig_ptr - 8) (unat old_size + 8) = replicate (unat old_size + 8) 0 \<and>
      freed = Some (orig_ptr - 8, old_size + 8) \<and>
      (\<forall>a. (a < p \<or> p + uint new_size + 8 \<le> a) \<and> (a < orig_ptr - 8 \<or> orig_ptr + uint old_size \<le> a) \<longrightarrow> m' a = m a)"
proof -
  let ?k = "min (unat new_size) (unat old_size)"
  define to_copy where "to_copy = (if old_size < new_size then old_size else new_size)"
  have k: "unat to_copy = ?k" by (auto simp: to_copy_def word_less_nat_alt min_def)
  have u: "unat (old_size + 8) = unat old_size + 8" using sizes by (simp add: unat_word_ariths)
  note dis = fresh
  have km: "int ?k \<le> uint new_size" "int ?k \<le> uint old_size"
    by (simp_all only: uint_nat of_nat_le_iff min.cobounded1 min.cobounded2)
  define m1 where "m1 = mem_write m p (le_bytes 8 new_size)"
  define m2 where "m2 = mem_write m1 (p + 8) (mem_read m1 orig_ptr ?k)"
  define m3 where "m3 = mem_write m2 (orig_ptr - 8) (replicate (unat old_size + 8) 0)"
  have old2: "read_u64 m2 (orig_ptr - 8) = old_size"
  proof -
    have "read_u64 m2 (orig_ptr - 8) = read_u64 m1 (orig_ptr - 8)"
      unfolding m2_def by (rule read_u64_write_disjoint) (use dis km in auto)
    also have "\<dots> = read_u64 m (orig_ptr - 8)"
      unfolding m1_def by (rule read_u64_write_disjoint) (use dis km in auto)
    finally show ?thesis by (simp add: old_size_def)
  qed
  have r: "OPENSSL_realloc malloc m orig_ptr new_size = (p + 8, m3, Some (orig_ptr - 8, old_size + 8))"
    using assms(3,5) \<open>p \<noteq> 0\<close>
    by (simp add: OPENSSL_realloc_def OPENSSL_malloc_def OPENSSL_free_def OPENSSL_cleanse_def
        OPENSSL_MALLOC_PREFIX_def Let_def p_def [symmetric] m1_def [symmetric] old_size_def [symmetric]
        to_copy_def [symmetric] k m2_def [symmetric] old2 u m3_def [symmetric])
  have head: "read_u64 m3 p = new_size"
  proof -
    have "read_u64 m3 p = read_u64 m2 p"
      unfolding m3_def
      by (rule read_u64_write_disjoint) (use dis uint_ge_0 [of new_size] in \<open>simp del: uint_ge_0, linarith\<close>)
    also have "\<dots> = read_u64 m1 p" unfolding m2_def by (rule read_u64_write_disjoint) simp
    finally show ?thesis by (simp add: m1_def read_u64_write)
  qed
  have kept: "mem_read m3 (p + 8) ?k = mem_read m orig_ptr ?k"
  proof -
    have "mem_read m3 (p + 8) ?k = mem_read m2 (p + 8) ?k"
      unfolding m3_def by (rule mem_read_write_disjoint) (use dis km in auto)
    also have "\<dots> = mem_read m1 orig_ptr ?k" by (simp add: m2_def)
    also have "\<dots> = mem_read m orig_ptr ?k"
      unfolding m1_def by (rule mem_read_write_disjoint) (use dis km in auto)
    finally show ?thesis .
  qed
  have rest: "m3 a = m a" if "a < p \<or> p + uint new_size + 8 \<le> a" "a < orig_ptr - 8 \<or> orig_ptr + uint old_size \<le> a" for a
  proof -
    have o: "a < orig_ptr - 8 \<or> orig_ptr - 8 + int (unat old_size + 8) \<le> a" using that(2) by auto
    note n = that(1)
    have "m3 a = m2 a" unfolding m3_def by (rule mem_write_outside) (use o in simp)
    also have "\<dots> = m1 a" unfolding m2_def
    proof (rule mem_write_outside)
      have "a < p + 8 \<or> p + 8 + int ?k \<le> a" using n km by arith
      then show "a < p + 8 \<or> p + 8 + int (length (mem_read m1 orig_ptr ?k)) \<le> a" by simp
    qed
    also have "\<dots> = m a" unfolding m1_def
    proof (rule mem_write_outside)
      have "a < p \<or> p + 8 \<le> a" using n uint_ge_0 [of new_size] by linarith
      then show "a < p \<or> p + int (length (le_bytes 8 new_size)) \<le> a" by simp
    qed
    finally show ?thesis .
  qed
  have "mem_read m3 (orig_ptr - 8) (unat old_size + 8) = replicate (unat old_size + 8) 0"
    unfolding m3_def by (rule mem_read_write_same) simp
  then show ?thesis using r head kept rest by simp
qed

text \<open>\<open>OPENSSL_malloc\<close> does not check that the size and its header fit: for the eight largest
  sizes the request wraps to fewer than eight bytes, and the header is then written past the end
  of the block, while the caller gets a pointer as if the allocation had succeeded.\<close>

lemma OPENSSL_malloc_wraps:
  assumes "2 ^ 64 - 8 \<le> unat sz" "p \<noteq> 0" "malloc (sz + 8) = p" "m (p + 7) \<noteq> ucast (drop_bit 56 sz)"
  shows "unat (sz + 8) < 8 \<and>
    (case OPENSSL_malloc malloc m sz of (ret, m') \<Rightarrow> ret = p + 8 \<and> m' (p + 7) \<noteq> m (p + 7))"
proof -
  have l: "unat sz < 2 ^ 64" by (rule unat_u64_less)
  have "unat (sz + 8) = (unat sz + 8) mod 18446744073709551616" by (simp add: unat_word_ariths)
  also have "\<dots> = unat sz + 8 - 18446744073709551616" using assms(1) l by (simp add: le_mod_geq)
  finally have "unat (sz + 8) < 8" using l by simp
  moreover have "mem_write m p (le_bytes 8 sz) (p + 7) = ucast (drop_bit 56 sz)"
    by (simp add: mem_write_def nth_le_bytes)
  ultimately show ?thesis
    using assms(2,3,4) by (simp add: OPENSSL_malloc_def OPENSSL_MALLOC_PREFIX_def)
qed

lemma OPENSSL_malloc_wraps_instance:
  "case OPENSSL_malloc (\<lambda>n. if n < 16 then 1000 else 0) (\<lambda>_. 0) (- 1) of
    (ret, m') \<Rightarrow> ret = 1008 \<and> m' 1007 \<noteq> 0"
proof -
  have s: "2 ^ 64 - 8 \<le> unat (- 1 :: size_t)" by (simp add: unsigned_minus_1_eq_mask mask_eq_exp_minus_1)
  have f: "(\<lambda>n :: size_t. if n < 16 then 1000 else (0 :: addr)) (- 1 + 8) = 1000" by simp
  have b: "(0 :: byte) \<noteq> ucast (drop_bit 56 (- 1 :: size_t))" by code_simp
  show ?thesis using OPENSSL_malloc_wraps [where sz = "- 1" and malloc = "\<lambda>n. if n < 16 then 1000 else 0" and p = 1000 and m = "\<lambda>_. 0", OF s _ f b] by simp
qed

section \<open>Bounded copies\<close>

lemma mem_read_snoc_0:
  assumes "mem_read m s (length cs + 1) = cs @ [0]"
  shows "mem_read m s (length cs) = cs \<and> m (s + int (length cs)) = 0"
  using assms mem_read_add [of m s "length cs" 1] by (simp add: mem_read_Suc)

lemma strlcpy_loop_string:
  assumes "mem_read m src (length cs + 1) = cs @ [0]" "0 \<notin> set cs"
    and "dst + int n \<le> src \<or> src + int (length cs) + 1 \<le> dst"
  shows "strlcpy_loop m dst src n l =
    (let k = min (length cs) (n - 1)
     in (mem_write m dst (take k cs), dst + int k, src + int k, n - k, l + k))"
  using assms
proof (induction cs arbitrary: m dst src n l)
  case Nil
  then show ?case by (simp add: strlcpy_loop.simps mem_read_Suc)
next
  case (Cons c cs)
  have c: "m src = c" "c \<noteq> 0" "mem_read m (src + 1) (length cs + 1) = cs @ [0]"
    using Cons.prems(1,2) by (simp_all add: mem_read_Suc)
  show ?case
  proof (cases "1 < n")
    case False
    then show ?thesis by (simp add: strlcpy_loop.simps [of m])
  next
    case True
    let ?m = "mem_write m dst [c]"
    have "mem_read ?m (src + 1) (length cs + 1) = mem_read m (src + 1) (length cs + 1)"
      by (rule mem_read_write_disjoint) (use Cons.prems(3) True in auto)
    then have ih: "strlcpy_loop ?m (dst + 1) (src + 1) (n - 1) (l + 1) =
        (let k = min (length cs) (n - 1 - 1)
         in (mem_write ?m (dst + 1) (take k cs), dst + 1 + int k, src + 1 + int k, n - 1 - k, l + 1 + k))"
      using Cons.prems c by (intro Cons.IH) auto
    define j where "j = n - 2"
    have n: "n = Suc (Suc j)" using True unfolding j_def by arith
    let ?k = "min (length cs) j"
    have k: "min (length (c # cs)) (n - 1) = Suc ?k" "n - 1 - 1 = j" by (simp_all add: n)
    have w: "mem_write ?m (dst + 1) (take ?k cs) = mem_write m dst (take (Suc ?k) (c # cs))"
      using mem_write_append [of m dst "[c]" "take ?k cs"] by (simp only: append.simps take_Suc_Cons list.size of_nat_1 One_nat_def [symmetric] add_0)
    have "strlcpy_loop m dst src n l = strlcpy_loop ?m (dst + 1) (src + 1) (n - 1) (l + 1)"
      using True c by (simp add: strlcpy_loop.simps [of m dst])
    also have "\<dots> = (mem_write m dst (take (Suc ?k) (c # cs)), dst + int (Suc ?k), src + int (Suc ?k), n - Suc ?k, l + Suc ?k)"
      unfolding ih k(2) Let_def w prod.inject by (simp only: of_nat_Suc diff_diff_left) (simp add: algebra_simps)
    finally show ?thesis unfolding k(1) Let_def .
  qed
qed

text \<open>\<open>OPENSSL_strlcpy\<close> stores the longest prefix of the source that fits with a NUL after it,
  writes nothing when \<open>dst_size\<close> is zero, never more than \<open>dst_size\<close> bytes, and returns the
  length of the source, so that truncation shows.\<close>

lemma OPENSSL_strlcpy_copies:
  assumes "mem_read m src (length cs + 1) = cs @ [0]" "0 \<notin> set cs"
    and "dst + uint dst_size \<le> src \<or> src + int (length cs) + 1 \<le> dst"
  shows "OPENSSL_strlcpy m dst src dst_size =
    Some (length cs, if dst_size = 0 then m else mem_write m dst (take (unat dst_size - 1) cs @ [0]))"
proof -
  let ?n = "unat dst_size"
  define k where "k = min (length cs) (?n - 1)"
  define cs1 where "cs1 = take (?n - 1) cs"
  have dis: "dst + int ?n \<le> src \<or> src + int (length cs) + 1 \<le> dst" using assms(3) unfolding uint_nat .
  have nz: "dst_size = 0 \<longleftrightarrow> ?n = 0" by (simp add: unat_eq_0)
  have cs1: "take k cs = cs1" "length cs1 = k" by (auto simp: k_def cs1_def min_def)
  define m' where "m' = (if dst_size = 0 then m else mem_write m dst (cs1 @ [0]))"
  have m': "(if ?n - k \<noteq> 0 then mem_write (mem_write m dst cs1) (dst + int k) [0] else mem_write m dst cs1) = m'"
  proof (cases "?n = 0")
    case True
    then show ?thesis using nz by (simp add: m'_def cs1_def)
  next
    case False
    then have "?n - k \<noteq> 0" by (auto simp: k_def)
    then show ?thesis using mem_write_append [of m dst cs1 "[0]"] False nz by (simp add: m'_def cs1(2))
  qed
  have "mem_read m' src (length cs + 1) = mem_read m src (length cs + 1)"
  proof (cases "dst_size = 0")
    case False
    then have "k + 1 \<le> ?n" using nz by (simp add: k_def)
    then have "src + int (length cs + 1) \<le> dst \<or> dst + int (length (cs1 @ [0])) \<le> src"
      using dis cs1(2) by (simp only: length_append list.size) arith
    then show ?thesis
      unfolding m'_def using False by (simp only: if_False) (rule mem_read_write_disjoint)
  qed (simp add: m'_def)
  then have "mem_read m' src (length cs + 1) = cs @ [0]" using assms(1) by simp
  moreover have "length cs + 1 = k + (length (drop k cs) + 1)" by (simp add: k_def)
  ultimately have "mem_read m' src k @ mem_read m' (src + int k) (length (drop k cs) + 1) = take k cs @ drop k cs @ [0]"
    using mem_read_add [of m' src k "length (drop k cs) + 1"] by (metis append.assoc append_take_drop_id)
  then have "mem_read m' (src + int k) (length (drop k cs) + 1) = drop k cs @ [0]"
    using cs1 by (simp add: append_eq_append_conv)
  then have "strlen m' (src + int k) = Some (length (drop k cs))"
    using assms(2) strlen_from_string [of m' "src + int k" "drop k cs" 0] by (auto simp: strlen_def dest: in_set_dropD)
  moreover have "k + length (drop k cs) = length cs" by (simp add: k_def)
  moreover have "strlcpy_loop m dst src ?n 0 = (mem_write m dst cs1, dst + int k, src + int k, ?n - k, k)"
    using strlcpy_loop_string [OF assms(1,2) dis, of 0]
    unfolding k_def [symmetric] Let_def cs1(1) add_0 .
  ultimately have "OPENSSL_strlcpy m dst src dst_size = Some (length cs, m')"
    unfolding OPENSSL_strlcpy_def using m' by (simp only: Let_def prod.case option.case option.simps)
  then show ?thesis unfolding m'_def cs1_def .
qed

end
