(* ===== verification/Crypto_Stack.thy ===== *)
theory Crypto_Stack
  imports Prelude "HOL-Library.Multiset"
begin

text \<open>
  The pointer stack of \<^verbatim>\<open>ios/Pods/BoringSSL-GRPC/src/crypto/stack/stack.c\<close>. An element is a
  pointer, \<open>'p option\<close> with \<open>None\<close> for \<open>NULL\<close>; \<open>data\<close> holds all \<open>num_alloc\<close> allocated cells, of
  which the first \<open>num\<close> are the stack. A comparison function is an identifier \<open>'c\<close>, called
  through \<open>call_cmp_func\<close>. A stack pointer is an option too, so the \<open>NULL\<close> checks of every
  function are branches here.

  An allocation is answered by \<open>grants i size\<close>, the allocator's decision on the \<open>i\<close>-th request of
  the operation; \<open>fresh\<close> is what a new cell holds. \<open>qsort\<close> is the C library's, a parameter.
  The lemmas give every operation as one on the sequence \<open>elems\<close>, the searches by a comparison with
  the laws of \<open>stack_order\<close>, when the flag \<open>sorted\<close> can be trusted, and the use as a \<open>deque\<close>.
\<close>

section \<open>State\<close>

record ('p, 'c) stack_st =
  num :: size_t
  data :: "'p option list"
  sorted_flag :: bool
  num_alloc :: size_t
  comp_fn :: "'c option"

type_synonym ('p, 'c) stack_ptr = "('p, 'c) stack_st option"

record 'p alloc_env =
  grants :: "nat \<Rightarrow> size_t \<Rightarrow> bool"
  fresh :: "nat \<Rightarrow> 'p option"

definition kMinSize :: size_t where
  "kMinSize = 4"

definition sizeof_ptr :: size_t where
  "sizeof_ptr = 8"

definition sizeof_stack_st :: size_t where
  "sizeof_stack_st = 40"

section \<open>Operations\<close>

definition sk_new :: "'p alloc_env \<Rightarrow> 'c option \<Rightarrow> ('p, 'c) stack_ptr" where
  "sk_new env cf =
     (if \<not> grants env 0 sizeof_stack_st then None
      else if \<not> grants env 1 (sizeof_ptr * kMinSize) then None
      else Some \<lparr>num = 0, data = replicate (unat kMinSize) None, sorted_flag = False,
                 num_alloc = kMinSize, comp_fn = cf\<rparr>)"

definition sk_new_null :: "'p alloc_env \<Rightarrow> ('p, 'c) stack_ptr" where
  "sk_new_null env = sk_new env None"

definition sk_num :: "('p, 'c) stack_ptr \<Rightarrow> size_t" where
  "sk_num sk = (case sk of None \<Rightarrow> 0 | Some s \<Rightarrow> num s)"

definition sk_zero :: "('p, 'c) stack_ptr \<Rightarrow> ('p, 'c) stack_ptr" where
  "sk_zero sk =
     (case sk of
        None \<Rightarrow> None
      | Some s \<Rightarrow>
          if num s = 0 then Some s
          else Some (s\<lparr>data := replicate (unat (num s)) None @ drop (unat (num s)) (data s),
                       num := 0, sorted_flag := False\<rparr>))"

definition sk_value :: "('p, 'c) stack_ptr \<Rightarrow> size_t \<Rightarrow> 'p option" where
  "sk_value sk i =
     (case sk of
        None \<Rightarrow> None
      | Some s \<Rightarrow> if i \<ge> num s then None else data s ! unat i)"

definition sk_set :: "('p, 'c) stack_ptr \<Rightarrow> size_t \<Rightarrow> 'p option \<Rightarrow> ('p, 'c) stack_ptr \<times> 'p option" where
  "sk_set sk i p =
     (case sk of
        None \<Rightarrow> (None, None)
      | Some s \<Rightarrow>
          if i \<ge> num s then (Some s, None)
          else (Some (s\<lparr>data := (data s)[unat i := p]\<rparr>), p))"

text \<open>\<open>sk_pop_free_ex\<close> hands every element that is not \<open>NULL\<close> to the free function, in order:
  the result is that sequence. The two blocks of the stack itself are released after it.\<close>

fun pop_free_loop :: "'p option list \<Rightarrow> 'p list" where
  "pop_free_loop [] = []"
| "pop_free_loop (x # xs) = (case x of None \<Rightarrow> pop_free_loop xs | Some p \<Rightarrow> p # pop_free_loop xs)"

definition sk_pop_free_ex :: "('p, 'c) stack_ptr \<Rightarrow> 'p list" where
  "sk_pop_free_ex sk =
     (case sk of None \<Rightarrow> [] | Some s \<Rightarrow> pop_free_loop (take (unat (num s)) (data s)))"

text \<open>\<open>memmove\<close> of \<open>n\<close> cells.\<close>

definition move_cells :: "'a list \<Rightarrow> nat \<Rightarrow> nat \<Rightarrow> nat \<Rightarrow> 'a list" where
  "move_cells xs dst src n = take dst xs @ take n (drop src xs) @ drop (dst + n) xs"

text \<open>The room check of \<open>sk_insert\<close>: double the array, or failing that add one cell.\<close>

definition new_alloc_size :: "size_t \<Rightarrow> size_t option" where
  "new_alloc_size n =
     (let new_alloc = push_bit 1 n; alloc_size = new_alloc * sizeof_ptr;
          new_alloc =
            (if new_alloc < n \<or> alloc_size div sizeof_ptr \<noteq> new_alloc then n + 1 else new_alloc);
          alloc_size = new_alloc * sizeof_ptr
      in if new_alloc < n \<or> alloc_size div sizeof_ptr \<noteq> new_alloc then None else Some new_alloc)"

definition grow :: "'p alloc_env \<Rightarrow> ('p, 'c) stack_st \<Rightarrow> ('p, 'c) stack_st option" where
  "grow env s =
     (if num_alloc s \<le> num s + 1 then
        (case new_alloc_size (num_alloc s) of
           None \<Rightarrow> None
         | Some new_alloc \<Rightarrow>
             if \<not> grants env 0 (new_alloc * sizeof_ptr) then None
             else Some (s\<lparr>data := take (unat new_alloc) (data s) @
                                 map (fresh env) [unat (num_alloc s)..<unat new_alloc],
                          num_alloc := new_alloc\<rparr>))
      else Some s)"

definition sk_insert ::
  "'p alloc_env \<Rightarrow> ('p, 'c) stack_ptr \<Rightarrow> 'p option \<Rightarrow> size_t \<Rightarrow> ('p, 'c) stack_ptr \<times> size_t" where
  "sk_insert env sk p i =
     (case sk of
        None \<Rightarrow> (None, 0)
      | Some s0 \<Rightarrow>
          (case grow env s0 of
             None \<Rightarrow> (Some s0, 0)
           | Some s \<Rightarrow>
               let d = (if i \<ge> num s then (data s)[unat (num s) := p]
                        else (move_cells (data s) (unat i + 1) (unat i) (unat (num s - i)))[unat i := p])
               in (Some (s\<lparr>data := d, num := num s + 1, sorted_flag := False\<rparr>), num s + 1)))"

definition sk_delete :: "('p, 'c) stack_ptr \<Rightarrow> size_t \<Rightarrow> ('p, 'c) stack_ptr \<times> 'p option" where
  "sk_delete sk i =
     (case sk of
        None \<Rightarrow> (None, None)
      | Some s \<Rightarrow>
          if i \<ge> num s then (Some s, None)
          else
            let ret = data s ! unat i;
                d = (if i \<noteq> num s - 1
                     then move_cells (data s) (unat i) (unat i + 1) (unat (num s - i - 1))
                     else data s)
            in (Some (s\<lparr>data := d, num := num s - 1\<rparr>), ret))"

text \<open>The linear searches: the first index from \<open>i\<close> on whose element satisfies \<open>P\<close>.\<close>

fun first_index :: "('a \<Rightarrow> bool) \<Rightarrow> nat \<Rightarrow> 'a list \<Rightarrow> nat option" where
  "first_index P i [] = None"
| "first_index P i (x # xs) = (if P x then Some i else first_index P (i + 1) xs)"

definition sk_delete_ptr :: "('p, 'c) stack_ptr \<Rightarrow> 'p option \<Rightarrow> ('p, 'c) stack_ptr \<times> 'p option" where
  "sk_delete_ptr sk p =
     (case sk of
        None \<Rightarrow> (None, None)
      | Some s \<Rightarrow>
          (case first_index (\<lambda>x. x = p) 0 (take (unat (num s)) (data s)) of
             None \<Rightarrow> (Some s, None)
           | Some i \<Rightarrow> sk_delete (Some s) (of_nat i)))"

definition sk_is_sorted :: "('p, 'c) stack_ptr \<Rightarrow> bool" where
  "sk_is_sorted sk = (case sk of None \<Rightarrow> True | Some s \<Rightarrow> sorted_flag s)"

lemma mid_less:
  assumes "lo < (hi :: size_t)"
  shows "unat (lo + (hi - lo - 1) div 2) = unat lo + (unat hi - unat lo - 1) div 2"
proof -
  have l: "unat lo < unat hi" using assms by (simp add: word_less_nat_alt)
  then have d: "unat (hi - lo) = unat hi - unat lo" by (simp add: unat_sub word_le_nat_alt)
  then have "unat (hi - lo - 1) = unat hi - unat lo - 1"
    using l by (simp add: unat_sub word_le_nat_alt)
  then have "unat ((hi - lo - 1) div 2) = (unat hi - unat lo - 1) div 2" by (simp add: unat_div_distrib)
  moreover have "unat lo + (unat hi - unat lo - 1) div 2 < unat hi" using l by linarith
  then have "unat lo + (unat hi - unat lo - 1) div 2 < 2 ^ 64"
    using unat_u64_less [of hi] by (rule less_trans)
  ultimately show ?thesis by (simp add: unat_word_ariths)
qed

text \<open>The binary search of \<open>sk_find\<close> over \<open>lo \<le> idx < hi\<close>; \<open>c i\<close> compares the key with the
  element at \<open>i\<close>. A match only returns once the range has size one, so that it is the first.\<close>

function binary_search :: "(nat \<Rightarrow> int) \<Rightarrow> size_t \<Rightarrow> size_t \<Rightarrow> size_t option" where
  "binary_search c lo hi =
     (if lo < hi then
        let mid = lo + (hi - lo - 1) div 2;
            r = c (unat mid)
        in
          if r > 0 then binary_search c (mid + 1) hi
          else if r < 0 then binary_search c lo mid
          else if hi - lo = 1 then Some mid
          else binary_search c lo (mid + 1)
      else None)"
  by pat_completeness auto
termination
proof (relation "measure (\<lambda>(c, lo, hi). unat hi - unat lo)", simp)
  fix c :: "nat \<Rightarrow> int" and lo hi mid :: size_t and r
  assume lt: "lo < hi" and mid: "mid = lo + (hi - lo - 1) div 2"
  have l: "unat lo < unat hi" using lt by (simp add: word_less_nat_alt)
  have m: "unat mid = unat lo + (unat hi - unat lo - 1) div 2" unfolding mid by (rule mid_less [OF lt])
  then have mh: "unat mid < unat hi" using l by linarith
  then have m1: "unat (mid + 1) = Suc (unat mid)" by (rule unat_Suc_less)
  show "((c, mid + 1, hi), c, lo, hi) \<in> measure (\<lambda>(c, lo, hi). unat hi - unat lo)"
    using m m1 mh l by (simp only: in_measure split) linarith
  show "((c, lo, mid), c, lo, hi) \<in> measure (\<lambda>(c, lo, hi). unat hi - unat lo)"
    using m mh l by (simp only: in_measure split) linarith
  assume "hi - lo \<noteq> 1"
  moreover have "unat (hi - lo) = unat hi - unat lo"
    using lt by (simp add: unat_sub word_le_nat_alt word_less_nat_alt)
  ultimately have "Suc (unat lo) \<noteq> unat hi"
    by (metis Suc_diff_Suc diff_self_eq_0 lessI unat_1 One_nat_def word_eq_iff_unsigned)
  then have "Suc (unat mid) < unat hi" using m l by linarith
  then show "((c, lo, mid + 1), c, lo, hi) \<in> measure (\<lambda>(c, lo, hi). unat hi - unat lo)"
    using m1 l by simp
qed

declare binary_search.simps [simp del]

text \<open>The result is \<open>*out_index\<close>, when \<open>sk_find\<close> returns one.\<close>

definition sk_find ::
  "('c \<Rightarrow> 'p option \<Rightarrow> 'p option \<Rightarrow> int) \<Rightarrow> ('p, 'c) stack_ptr \<Rightarrow> 'p option \<Rightarrow> size_t option" where
  "sk_find call_cmp_func sk p =
     (case sk of
        None \<Rightarrow> None
      | Some s \<Rightarrow>
          let elems = take (unat (num s)) (data s) in
          (case comp_fn s of
             None \<Rightarrow> map_option of_nat (first_index (\<lambda>x. x = p) 0 elems)
           | Some cf \<Rightarrow>
               if p = None then None
               else if \<not> sk_is_sorted sk then
                 map_option of_nat (first_index (\<lambda>x. call_cmp_func cf p x = 0) 0 elems)
               else binary_search (\<lambda>i. call_cmp_func cf p (data s ! i)) 0 (num s)))"

definition sk_shift :: "('p, 'c) stack_ptr \<Rightarrow> ('p, 'c) stack_ptr \<times> 'p option" where
  "sk_shift sk =
     (case sk of
        None \<Rightarrow> (None, None)
      | Some s \<Rightarrow> if num s = 0 then (sk, None) else sk_delete sk 0)"

definition sk_push :: "'p alloc_env \<Rightarrow> ('p, 'c) stack_ptr \<Rightarrow> 'p option \<Rightarrow> ('p, 'c) stack_ptr \<times> size_t" where
  "sk_push env sk p = sk_insert env sk p (case sk of None \<Rightarrow> 0 | Some s \<Rightarrow> num s)"

definition sk_pop :: "('p, 'c) stack_ptr \<Rightarrow> ('p, 'c) stack_ptr \<times> 'p option" where
  "sk_pop sk =
     (case sk of
        None \<Rightarrow> (None, None)
      | Some s \<Rightarrow> if num s = 0 then (sk, None) else sk_delete sk (num s - 1))"

definition sk_dup :: "'p alloc_env \<Rightarrow> ('p, 'c) stack_ptr \<Rightarrow> ('p, 'c) stack_ptr" where
  "sk_dup env sk =
     (case sk of
        None \<Rightarrow> None
      | Some s \<Rightarrow>
          (case sk_new env (comp_fn s) of
             None \<Rightarrow> None
           | Some ret \<Rightarrow>
               if \<not> grants env 2 (sizeof_ptr * num_alloc s) then None
               else
                 let cells = take (unat (num_alloc s)) (data ret) @
                       map (fresh env) [unat (num_alloc ret)..<unat (num_alloc s)]
                 in Some \<lparr>num = num s,
                          data = take (unat (num s)) (data s) @ drop (unat (num s)) cells,
                          sorted_flag = sorted_flag s, num_alloc = num_alloc s, comp_fn = comp_fn s\<rparr>))"

definition sk_sort ::
  "(('p option \<Rightarrow> 'p option \<Rightarrow> int) \<Rightarrow> 'p option list \<Rightarrow> 'p option list) \<Rightarrow>
   ('c \<Rightarrow> 'p option \<Rightarrow> 'p option \<Rightarrow> int) \<Rightarrow> ('p, 'c) stack_ptr \<Rightarrow> ('p, 'c) stack_ptr" where
  "sk_sort qsort call_cmp_func sk =
     (case sk of
        None \<Rightarrow> None
      | Some s \<Rightarrow>
          (case comp_fn s of
             None \<Rightarrow> Some s
           | Some cf \<Rightarrow>
               if sorted_flag s then Some s
               else
                 let n = unat (num s);
                     d = (if num s \<ge> 2
                          then qsort (call_cmp_func cf) (take n (data s)) @ drop n (data s)
                          else data s)
                 in Some (s\<lparr>data := d, sorted_flag := True\<rparr>)))"

definition sk_set_cmp_func :: "('p, 'c) stack_st \<Rightarrow> 'c option \<Rightarrow> ('p, 'c) stack_st \<times> 'c option" where
  "sk_set_cmp_func s cf =
     (s\<lparr>sorted_flag := (if comp_fn s \<noteq> cf then False else sorted_flag s), comp_fn := cf\<rparr>, comp_fn s)"

text \<open>The copy loop of \<open>sk_deep_copy\<close> at index \<open>i\<close>: a failed copy releases the copies made so far,
  given as the sequence handed to the free function.\<close>

fun deep_copy_loop :: "('p \<Rightarrow> 'p option) \<Rightarrow> 'p option list \<Rightarrow> 'p option list \<Rightarrow> 'p option list + 'p list" where
  "deep_copy_loop copy_func copies [] = Inl copies"
| "deep_copy_loop copy_func copies (x # xs) =
     (case x of
        None \<Rightarrow> deep_copy_loop copy_func (copies @ [None]) xs
      | Some p \<Rightarrow>
          (case copy_func p of
             None \<Rightarrow> Inr (pop_free_loop copies)
           | Some q \<Rightarrow> deep_copy_loop copy_func (copies @ [Some q]) xs))"

definition sk_deep_copy ::
  "'p alloc_env \<Rightarrow> ('p \<Rightarrow> 'p option) \<Rightarrow> ('p, 'c) stack_ptr \<Rightarrow> ('p, 'c) stack_ptr \<times> 'p list" where
  "sk_deep_copy env copy_func sk =
     (case sk_dup env sk of
        None \<Rightarrow> (None, [])
      | Some ret \<Rightarrow>
          (case deep_copy_loop copy_func [] (take (unat (num ret)) (data ret)) of
             Inl copies \<Rightarrow> (Some (ret\<lparr>data := copies @ drop (unat (num ret)) (data ret)\<rparr>), [])
           | Inr freed \<Rightarrow> (None, freed)))"

section \<open>The stack as a sequence\<close>

definition elems :: "('p, 'c) stack_st \<Rightarrow> 'p option list" where
  "elems s = take (unat (num s)) (data s)"

text \<open>There is always a free cell, and the array's size in bytes fits \<open>size_t\<close>.\<close>

definition stack_inv :: "('p, 'c) stack_st \<Rightarrow> bool" where
  "stack_inv s \<longleftrightarrow>
     length (data s) = unat (num_alloc s) \<and> num s < num_alloc s \<and> 8 * unat (num_alloc s) < 2 ^ 64"

lemma mul8_exact: "(m * 8) div 8 = m \<longleftrightarrow> 8 * unat m < 2 ^ 64" for m :: size_t
proof -
  have "unat ((m * 8) div 8) = (8 * unat m mod (8 * 2 ^ 61)) div 8"
    by (simp add: unat_div_distrib unat_word_ariths mult.commute)
  moreover have "(8 * unat m mod (8 * 2 ^ 61)) div 8 = unat m mod 2 ^ 61"
    by (simp only: mod_mult_mult1)
  moreover have "unat m mod 2 ^ 61 = unat m \<longleftrightarrow> unat m < 2 ^ 61"
    by (simp add: mod_eq_self_iff_div_eq_0 div_eq_0_iff)
  moreover have "(m * 8) div 8 = m \<longleftrightarrow> unat ((m * 8) div 8) = unat m"
    by (simp only: word_eq_iff_unsigned [where ?'a = nat])
  ultimately show ?thesis by simp
qed

lemma new_alloc_size_Some:
  assumes "new_alloc_size n = Some m" "8 * unat n < 2 ^ 64" "n \<noteq> 0"
  shows "unat n < unat m \<and> 8 * unat m < 2 ^ 64 \<and> (m = n + 1 \<or> m = 2 * n)"
proof -
  have n0: "0 < unat n" using assms(3) by (simp add: unat_gt_0)
  have u: "unat (n + 1) = unat n + 1" "unat (2 * n) = 2 * unat n"
    using assms(2) by (simp_all add: unat_word_ariths)
  define d where "d = push_bit 1 n"
  define x where "x = (if d < n \<or> (d * 8) div 8 \<noteq> d then n + 1 else d)"
  have "(if x < n \<or> (x * 8) div 8 \<noteq> x then None else Some x) = Some m"
    using assms(1) by (simp only: new_alloc_size_def Let_def sizeof_ptr_def x_def d_def)
  then have "m = x" "(m * 8) div 8 = m" by (simp_all split: if_splits)
  then have "m = n + 1 \<or> m = 2 * n" "8 * unat m < 2 ^ 64"
    by (simp_all only: mul8_exact) (simp add: x_def d_def push_bit_eq_mult mult.commute)
  then show ?thesis using u n0 by auto
qed

lemma grow_Some:
  assumes "grow env s = Some s'" "stack_inv s"
  shows "stack_inv s' \<and> elems s' = elems s \<and> num s' = num s \<and> num s' + 1 < num_alloc s' \<and>
    comp_fn s' = comp_fn s \<and> num s + 1 \<noteq> 0"
proof -
  have n: "unat (num s) < unat (num_alloc s)" "8 * unat (num_alloc s) < 2 ^ 64" "length (data s) = unat (num_alloc s)"
    using assms(2) by (simp_all add: stack_inv_def word_less_nat_alt)
  then have n1: "unat (num s + 1) = unat (num s) + 1" by (simp add: unat_word_ariths)
  show ?thesis
  proof (cases "num_alloc s \<le> num s + 1")
    case True
    then obtain m where m: "new_alloc_size (num_alloc s) = Some m"
      and s': "s' = s\<lparr>data := take (unat m) (data s) @ map (fresh env) [unat (num_alloc s)..<unat m], num_alloc := m\<rparr>"
      using assms(1) by (auto simp: grow_def split: option.splits if_splits)
    have "num_alloc s \<noteq> 0" using n by (metis not_less_zero unat_0)
    from new_alloc_size_Some [OF m n(2) this] have "unat (num_alloc s) < unat m" "8 * unat m < 2 ^ 64" by simp_all
    then show ?thesis
      using n n1 by (auto simp: s' stack_inv_def elems_def word_less_nat_alt)
  next
    case False
    then show ?thesis
      using assms n n1 by (auto simp: grow_def word_less_nat_alt word_le_nat_alt)
  qed
qed

lemma length_elems: "stack_inv s \<Longrightarrow> length (elems s) = unat (num s)"
  by (simp add: stack_inv_def elems_def word_less_nat_alt)

lemma sk_new_elems:
  "sk_new env cf = Some s \<Longrightarrow> stack_inv s \<and> elems s = [] \<and> comp_fn s = cf \<and> \<not> sorted_flag s"
  by (auto simp: sk_new_def stack_inv_def elems_def kMinSize_def split: if_splits)

text \<open>Insertion at an index, the end if it is out of range.\<close>

definition insert_at :: "nat \<Rightarrow> 'a \<Rightarrow> 'a list \<Rightarrow> 'a list" where
  "insert_at i x xs = take i xs @ x # drop i xs"

definition remove_at :: "nat \<Rightarrow> 'a list \<Rightarrow> 'a list" where
  "remove_at i xs = take i xs @ drop (i + 1) xs"

lemma take_insert_cells:
  assumes "i < n" "n < length xs"
  shows "take (n + 1) ((move_cells xs (i + 1) i (n - i))[i := p]) = insert_at i p (take n xs)"
proof -
  have "move_cells xs (i + 1) i (n - i) = take (i + 1) xs @ take (n - i) (drop i xs) @ drop (n + 1) xs"
    using assms by (simp add: move_cells_def)
  moreover have "(take (i + 1) xs)[i := p] = take i xs @ [p]"
    using assms by (simp add: take_Suc_conv_app_nth list_update_append)
  ultimately show ?thesis
    using assms by (simp add: insert_at_def list_update_append1 drop_take min_def Suc_diff_le)
qed

lemma take_delete_cells:
  assumes "i < n" "n \<le> length xs"
  shows "take (n - 1) (move_cells xs i (i + 1) (n - i - 1)) = remove_at i (take n xs)"
proof -
  obtain k where "n = Suc (i + k)" using assms(1) by (metis less_imp_Suc_add)
  then show ?thesis using assms(2) by (auto simp: move_cells_def remove_at_def drop_take min_def)
qed

lemma length_move_cells: "dst + n \<le> length xs \<Longrightarrow> src + n \<le> length xs \<Longrightarrow> length (move_cells xs dst src n) = length xs"
  by (simp add: move_cells_def)

lemma sk_insert_elems:
  assumes inv: "stack_inv s" and g: "grow env s = Some s0"
  shows "\<exists>s'. sk_insert env (Some s) p i = (Some s', num s + 1) \<and> stack_inv s' \<and>
    elems s' = insert_at (unat i) p (elems s) \<and> comp_fn s' = comp_fn s \<and> \<not> sorted_flag s' \<and>
    num s' = num s + 1 \<and> num s + 1 \<noteq> 0"
proof -
  note s0 = grow_Some [OF g inv]
  have n: "unat (num s0) + 1 < unat (num_alloc s0)" "unat (num s0 + 1) = unat (num s0) + 1" "length (data s0) = unat (num_alloc s0)"
    using s0 by (auto simp: stack_inv_def word_less_nat_alt unat_word_ariths)
  define d where "d = (if i \<ge> num s0 then (data s0)[unat (num s0) := p]
      else (move_cells (data s0) (unat i + 1) (unat i) (unat (num s0 - i)))[unat i := p])"
  have d: "take (unat (num s0) + 1) d = insert_at (unat i) p (elems s0) \<and> length d = length (data s0)"
  proof (cases "i \<ge> num s0")
    case True
    then have "unat (num s0) \<le> unat i" by (simp add: word_le_nat_alt)
    then show ?thesis
      using True n by (simp add: d_def elems_def insert_at_def take_Suc_conv_app_nth)
  next
    case False
    then have lt: "unat i < unat (num s0)" by (simp add: word_less_nat_alt not_le)
    then have "unat (num s0 - i) = unat (num s0) - unat i" by (simp add: unat_sub word_le_nat_alt)
    then show ?thesis
      using False n lt take_insert_cells [of "unat i" "unat (num s0)" "data s0" p]
      by (simp add: d_def elems_def length_move_cells)
  qed
  have "sk_insert env (Some s) p i = (Some (s0\<lparr>data := d, num := num s0 + 1, sorted_flag := False\<rparr>), num s0 + 1)"
    by (simp add: sk_insert_def g d_def Let_def)
  then show ?thesis
    using s0 n d by (auto simp: stack_inv_def elems_def word_less_nat_alt)
qed

lemma sk_insert_fails: "grow env s = None \<Longrightarrow> sk_insert env (Some s) p i = (Some s, 0)"
  by (simp add: sk_insert_def)

lemma sk_delete_elems:
  assumes inv: "stack_inv s" and i: "i < num s"
  shows "\<exists>s'. sk_delete (Some s) i = (Some s', elems s ! unat i) \<and> stack_inv s' \<and>
    elems s' = remove_at (unat i) (elems s) \<and> comp_fn s' = comp_fn s \<and> sorted_flag s' = sorted_flag s \<and>
    num s' = num s - 1"
proof -
  have lt: "unat i < unat (num s)" using i by (simp add: word_less_nat_alt)
  have n: "unat (num s) < unat (num_alloc s)" "length (data s) = unat (num_alloc s)"
    using inv by (simp_all add: stack_inv_def word_less_nat_alt)
  have n1: "unat (num s - 1) = unat (num s) - 1" using lt by (simp add: unat_sub word_le_nat_alt)
  have ni: "unat (num s - i - 1) = unat (num s) - unat i - 1"
    using lt by (simp add: unat_sub word_le_nat_alt)
  have eq: "i \<noteq> num s - 1 \<longleftrightarrow> unat i \<noteq> unat (num s) - 1"
    using n1 by (metis word_eq_iff_unsigned)
  define d where "d = (if i \<noteq> num s - 1 then move_cells (data s) (unat i) (unat i + 1) (unat (num s - i - 1)) else data s)"
  have d: "take (unat (num s) - 1) d = remove_at (unat i) (elems s) \<and> length d = length (data s)"
  proof (cases "i \<noteq> num s - 1")
    case True
    then show ?thesis
      using lt n ni take_delete_cells [of "unat i" "unat (num s)" "data s"]
      by (simp add: d_def elems_def length_move_cells)
  next
    case False
    then show ?thesis using eq lt n by (simp add: d_def elems_def remove_at_def)
  qed
  have "sk_delete (Some s) i = (Some (s\<lparr>data := d, num := num s - 1\<rparr>), elems s ! unat i)"
    using leD [of "num s" i] i lt n by (auto simp add: sk_delete_def d_def Let_def elems_def)
  then show ?thesis
    using inv n n1 lt d by (auto simp: stack_inv_def elems_def word_less_nat_alt)
qed

section \<open>Searching\<close>

text \<open>The result of a search: the first element that satisfies \<open>P\<close>, if any.\<close>

definition is_first :: "('a \<Rightarrow> bool) \<Rightarrow> 'a list \<Rightarrow> nat option \<Rightarrow> bool" where
  "is_first P xs r \<longleftrightarrow>
     (case r of
        None \<Rightarrow> \<forall>x \<in> set xs. \<not> P x
      | Some j \<Rightarrow> j < length xs \<and> P (xs ! j) \<and> (\<forall>k < j. \<not> P (xs ! k)))"

lemma first_index_is_first: "is_first P xs (map_option (\<lambda>j. j - i) (first_index P i xs)) \<and>
    (\<forall>j. first_index P i xs = Some j \<longrightarrow> i \<le> j \<and> j < i + length xs)"
proof (induction xs arbitrary: i)
  case (Cons x xs)
  show ?case
  proof (cases "P x")
    case False
    have ih: "is_first P xs (map_option (\<lambda>j. j - (i + 1)) (first_index P (i + 1) xs))"
      and r: "\<And>j. first_index P (i + 1) xs = Some j \<Longrightarrow> i + 1 \<le> j \<and> j < i + 1 + length xs"
      using Cons [of "i + 1"] by blast+
    show ?thesis
    proof (cases "first_index P (i + 1) xs")
      case (Some j)
      then obtain k where j: "j = i + 1 + k" using r [OF Some] by (metis le_Suc_ex)
      then show ?thesis
        using ih Some r [OF Some] False
        by (auto simp: is_first_def nth_Cons' less_Suc_eq_0_disj)
    qed (use ih False in \<open>simp add: is_first_def\<close>)
  qed (simp add: is_first_def)
qed (simp add: is_first_def)

text \<open>The comparisons of a key with an ascending sequence: first positive, then zero, then negative.\<close>

definition descending_signs :: "(nat \<Rightarrow> int) \<Rightarrow> nat \<Rightarrow> bool" where
  "descending_signs c n \<longleftrightarrow>
     (\<forall>i j. i \<le> j \<and> j < n \<longrightarrow> (c i \<le> 0 \<longrightarrow> c j \<le> 0) \<and> (c i < 0 \<longrightarrow> c j < 0))"

definition first_zero :: "(nat \<Rightarrow> int) \<Rightarrow> nat \<Rightarrow> nat \<Rightarrow> nat option \<Rightarrow> bool" where
  "first_zero c lo hi r \<longleftrightarrow>
     (case r of
        None \<Rightarrow> \<forall>i. lo \<le> i \<and> i < hi \<longrightarrow> c i \<noteq> 0
      | Some k \<Rightarrow> lo \<le> k \<and> k < hi \<and> c k = 0 \<and> (\<forall>i. lo \<le> i \<and> i < k \<longrightarrow> c i \<noteq> 0))"

lemma first_zero_right:
  assumes d: "descending_signs c n" and m: "lo \<le> m" "m < hi" "hi \<le> n" "c m > 0"
    and r: "first_zero c (Suc m) hi r"
  shows "first_zero c lo hi r"
proof -
  have "c i \<noteq> 0" if "i \<le> m" for i
    using d that m by (auto simp: descending_signs_def) (metis less_le_trans linorder_not_le order_refl)
  then show ?thesis
    using r m by (auto simp: first_zero_def Suc_le_eq not_less split: option.splits) (metis not_le not_less_eq_eq)+
qed

lemma first_zero_left:
  assumes d: "descending_signs c n" and m: "lo \<le> m" "m < hi" "hi \<le> n" "c m < 0"
    and r: "first_zero c lo m r"
  shows "first_zero c lo hi r"
proof -
  have "c i \<noteq> 0" if "m \<le> i" "i < hi" for i
    using d that m by (auto simp: descending_signs_def) (metis less_le_trans less_irrefl)
  then show ?thesis
    using r m by (auto simp: first_zero_def split: option.splits) (metis not_le)+
qed

lemma first_zero_match:
  assumes "lo \<le> m" "m < hi" "c m = 0" "first_zero c lo (Suc m) r"
  shows "first_zero c lo hi r"
  using assms by (auto simp: first_zero_def less_Suc_eq_le split: option.splits)

lemma binary_search_first_zero:
  assumes "descending_signs c n" "unat hi \<le> n"
  shows "first_zero c (unat lo) (unat hi) (map_option unat (binary_search c lo hi))"
  using assms(2,1)
proof (induction c lo hi rule: binary_search.induct)
  case (1 c lo hi)
  show ?case
  proof (cases "lo < hi")
    case False
    then show ?thesis
      by (simp add: binary_search.simps [of c lo hi] first_zero_def word_less_nat_alt)
  next
    case True
    define mid where "mid = lo + (hi - lo - 1) div 2"
    have l: "unat lo < unat hi" using True by (simp add: word_less_nat_alt)
    have "unat mid = unat lo + (unat hi - unat lo - 1) div 2" unfolding mid_def by (rule mid_less [OF True])
    then have m: "unat lo \<le> unat mid" "unat mid < unat hi" using l by linarith+
    then have m1: "unat (mid + 1) = Suc (unat mid)" by (intro unat_Suc_less)
    have step: "binary_search c lo hi =
        (if c (unat mid) > 0 then binary_search c (mid + 1) hi
         else if c (unat mid) < 0 then binary_search c lo mid
         else if hi - lo = 1 then Some mid else binary_search c lo (mid + 1))"
      using True by (simp add: binary_search.simps [of c lo hi] Let_def mid_def)
    consider "c (unat mid) > 0" | "c (unat mid) < 0" | "c (unat mid) = 0" "hi - lo = 1" | "c (unat mid) = 0" "hi - lo \<noteq> 1"
      by linarith
    then show ?thesis
    proof cases
      case 1
      note ih = "1.IH"(1) [OF True mid_def refl this "1.prems"(1,2)]
      show ?thesis
        using first_zero_right [OF "1.prems"(2) m "1.prems"(1) 1] ih by (simp add: step 1 m1)
    next
      case 2
      then have "unat mid \<le> n" using m "1.prems"(1) by linarith
      then show ?thesis
        using first_zero_left [OF "1.prems"(2) m "1.prems"(1) 2] "1.IH"(2) [OF True mid_def refl _ 2] "1.prems"(2) 2
        by (simp add: step)
    next
      case 3
      then have "unat (hi - lo) = 1" by simp
      moreover have "unat (hi - lo) = unat hi - unat lo"
        using True by (simp add: unat_sub word_le_nat_alt word_less_nat_alt)
      ultimately have "unat mid = unat lo" using m by linarith
      then show ?thesis using 3 l by (simp add: step first_zero_def)
    next
      case 4
      have "unat (mid + 1) \<le> n" using m m1 "1.prems"(1) by linarith
      then have "first_zero c (unat lo) (unat (mid + 1)) (map_option unat (binary_search c lo (mid + 1)))"
        using "1.IH"(3) [OF True mid_def refl _ _ 4(2)] 4 "1.prems"(2) by simp
      then show ?thesis
        using first_zero_match [where c = c, OF m 4(1)] 4 by (simp add: step m1)
    qed
  qed
qed

text \<open>What the stack asks of a comparison function: its sign is a total preorder.\<close>

locale stack_order =
  fixes cmp :: "'c \<Rightarrow> 'p option \<Rightarrow> 'p option \<Rightarrow> int" and f :: 'c
  assumes cmp_antisym: "cmp f (Some a) (Some b) > 0 \<longleftrightarrow> cmp f (Some b) (Some a) < 0"
    and cmp_trans: "cmp f (Some a) (Some b) \<le> 0 \<Longrightarrow> cmp f (Some b) (Some c) \<le> 0 \<Longrightarrow> cmp f (Some a) (Some c) \<le> 0"

definition ascending :: "('c \<Rightarrow> 'p option \<Rightarrow> 'p option \<Rightarrow> int) \<Rightarrow> 'c \<Rightarrow> 'p option list \<Rightarrow> bool" where
  "ascending cmp f xs \<longleftrightarrow> sorted_wrt (\<lambda>x y. cmp f x y \<le> 0) xs"

text \<open>The \<open>sorted\<close> flag of a stack tells the truth.\<close>

definition flag_ok :: "('c \<Rightarrow> 'p option \<Rightarrow> 'p option \<Rightarrow> int) \<Rightarrow> ('p, 'c) stack_st \<Rightarrow> bool" where
  "flag_ok cmp s \<longleftrightarrow>
     (sorted_flag s \<longrightarrow> (case comp_fn s of None \<Rightarrow> True | Some f \<Rightarrow> ascending cmp f (elems s)))"

context stack_order
begin

lemma refl_le: "cmp f (Some a) (Some a) \<le> 0"
  using cmp_antisym [of a a] by linarith

lemma descending_signs_of_ascending:
  assumes asc: "ascending cmp f xs" and nn: "None \<notin> set xs"
  shows "descending_signs (\<lambda>i. cmp f (Some p) (xs ! i)) (length xs)"
  unfolding descending_signs_def
proof (intro allI impI)
  fix i j
  assume ij: "i \<le> j \<and> j < length xs"
  then obtain a b where a: "xs ! i = Some a" and b: "xs ! j = Some b"
    using nn by (metis le_less_trans not_None_eq nth_mem)
  have ab: "cmp f (Some a) (Some b) \<le> 0"
  proof (cases "i = j")
    case True
    then show ?thesis using a b refl_le by simp
  next
    case False
    then show ?thesis
      using asc ij a b unfolding ascending_def sorted_wrt_iff_nth_less by (metis le_neq_implies_less)
  qed
  have "cmp f (Some p) (Some b) < 0" if "cmp f (Some p) (Some a) < 0"
  proof (rule ccontr)
    assume "\<not> cmp f (Some p) (Some b) < 0"
    then have "cmp f (Some b) (Some p) \<le> 0" using cmp_antisym [of b p] by linarith
    with ab have "cmp f (Some a) (Some p) \<le> 0" by (rule cmp_trans)
    then show False using that cmp_antisym [of a p] by linarith
  qed
  then show "(cmp f (Some p) (xs ! i) \<le> 0 \<longrightarrow> cmp f (Some p) (xs ! j) \<le> 0) \<and>
      (cmp f (Some p) (xs ! i) < 0 \<longrightarrow> cmp f (Some p) (xs ! j) < 0)"
    using ab cmp_trans [of p a b] by (simp add: a b)
qed

lemma sk_find_is_first:
  assumes inv: "stack_inv s" and f: "comp_fn s = Some f" and nn: "None \<notin> set (elems s)" and flag: "flag_ok cmp s"
  shows "is_first (\<lambda>x. cmp f (Some p) x = 0) (elems s) (map_option unat (sk_find cmp (Some s) (Some p)))"
proof (cases "sorted_flag s")
  case False
  let ?r = "first_index (\<lambda>x. cmp f (Some p) x = 0) 0 (elems s)"
  have "map_option unat (map_option (of_nat :: nat \<Rightarrow> size_t) ?r) = ?r"
  proof (cases ?r)
    case (Some j)
    then have "j < length (elems s)" using first_index_is_first [of "\<lambda>x. cmp f (Some p) x = 0" "elems s" 0] by auto
    then have "j < 2 ^ 64" using length_elems [OF inv] unat_u64_less [of "num s"] by linarith
    then show ?thesis using Some by (simp add: unat_of_nat)
  qed simp
  then show ?thesis
    using False f first_index_is_first [of "\<lambda>x. cmp f (Some p) x = 0" "elems s" 0]
    by (simp add: sk_find_def elems_def [symmetric] Let_def sk_is_sorted_def option.map_ident)
next
  case True
  let ?c = "\<lambda>i. cmp f (Some p) (data s ! i)"
  have len: "length (elems s) = unat (num s)" by (rule length_elems [OF inv])
  have nth: "elems s ! i = data s ! i" if "i < unat (num s)" for i
    using that by (simp add: elems_def)
  have "descending_signs (\<lambda>i. cmp f (Some p) (elems s ! i)) (unat (num s))"
    using descending_signs_of_ascending [of "elems s" p] flag True f nn len by (simp add: flag_ok_def)
  then have "descending_signs ?c (unat (num s))"
    by (simp add: descending_signs_def nth)
  then have "first_zero ?c (unat (0 :: size_t)) (unat (num s)) (map_option unat (binary_search ?c 0 (num s)))"
    by (rule binary_search_first_zero) simp
  then show ?thesis
    using True f len nth
    by (auto simp: sk_find_def sk_is_sorted_def Let_def first_zero_def is_first_def in_set_conv_nth split: option.splits)
qed

end

text \<open>The comparison function \<open>by_dir_hash_cmp\<close> of \<^verbatim>\<open>crypto/x509/by_dir.c\<close>, whose hash stack is
  searched with \<open>sk_find\<close>.\<close>

record BY_DIR_HASH =
  hash :: u64
  suffix :: u32

definition by_dir_hash_cmp :: "BY_DIR_HASH \<Rightarrow> BY_DIR_HASH \<Rightarrow> int" where
  "by_dir_hash_cmp a b = (if hash a > hash b then 1 else if hash a < hash b then -1 else 0)"

definition call_by_dir_hash_cmp :: "unit \<Rightarrow> BY_DIR_HASH option \<Rightarrow> BY_DIR_HASH option \<Rightarrow> int" where
  "call_by_dir_hash_cmp f a b = by_dir_hash_cmp (the a) (the b)"

interpretation by_dir: stack_order call_by_dir_hash_cmp "()"
  by unfold_locales (auto simp: call_by_dir_hash_cmp_def by_dir_hash_cmp_def split: if_splits)

text \<open>With a comparison function that is a total preorder, \<open>sk_find\<close> returns the first index
  whose element compares equal to the key, and reports that there is none only when there is
  none: by linear search on an unsorted stack and by binary search on a sorted one alike.\<close>

lemma sk_find_first:
  assumes "stack_order cmp f" "stack_inv s" "comp_fn s = Some f" "None \<notin> set (elems s)" "flag_ok cmp s"
  shows "is_first (\<lambda>x. cmp f (Some p) x = 0) (elems s) (map_option unat (sk_find cmp (Some s) (Some p)))"
  by (rule stack_order.sk_find_is_first [OF assms])

section \<open>The flag invariant\<close>

text \<open>Copies that compare as their originals do.\<close>

definition copied :: "('p \<Rightarrow> 'p option) \<Rightarrow> 'p option \<Rightarrow> 'p option \<Rightarrow> bool" where
  "copied cp x y \<longleftrightarrow> (case x of None \<Rightarrow> y = None | Some p \<Rightarrow> y = cp p \<and> y \<noteq> None)"

definition keeps_order :: "('c \<Rightarrow> 'p option \<Rightarrow> 'p option \<Rightarrow> int) \<Rightarrow> 'c \<Rightarrow> ('p \<Rightarrow> 'p option) \<Rightarrow> bool" where
  "keeps_order cmp f cp \<longleftrightarrow>
     (\<forall>x y x' y'. copied cp x x' \<and> copied cp y y' \<and> cmp f x y \<le> 0 \<longrightarrow> cmp f x' y' \<le> 0)"

text \<open>What the code relies on of \<open>qsort\<close>: it permutes, and it sorts by a total preorder.\<close>

definition qsort_ok ::
  "(('p option \<Rightarrow> 'p option \<Rightarrow> int) \<Rightarrow> 'p option list \<Rightarrow> 'p option list) \<Rightarrow>
   ('c \<Rightarrow> 'p option \<Rightarrow> 'p option \<Rightarrow> int) \<Rightarrow> bool" where
  "qsort_ok qsort cmp \<longleftrightarrow>
     (\<forall>f xs. stack_order cmp f \<and> None \<notin> set xs \<longrightarrow>
        mset (qsort (cmp f) xs) = mset xs \<and> ascending cmp f (qsort (cmp f) xs))"

text \<open>Every stack that the operations build. The elements of a stack whose \<open>sorted\<close> flag is on are not
  replaced: not by \<open>sk_set\<close>, and by \<open>sk_deep_copy\<close> only by elements that compare as they do. A stack is
  sorted when it holds no \<open>NULL\<close>, by a comparison that is a total preorder.\<close>

inductive stack_run for qsort cmp where
  new: "sk_new env cf = Some s \<Longrightarrow> stack_run qsort cmp s"
| insert: "stack_run qsort cmp s \<Longrightarrow> sk_insert env (Some s) p i = (Some s', n) \<Longrightarrow> stack_run qsort cmp s'"
| delete: "stack_run qsort cmp s \<Longrightarrow> sk_delete (Some s) i = (Some s', p) \<Longrightarrow> stack_run qsort cmp s'"
| zero: "stack_run qsort cmp s \<Longrightarrow> sk_zero (Some s) = Some s' \<Longrightarrow> stack_run qsort cmp s'"
| sort: "stack_run qsort cmp s \<Longrightarrow> comp_fn s = Some f \<Longrightarrow> stack_order cmp f \<Longrightarrow> None \<notin> set (elems s) \<Longrightarrow>
    sk_sort qsort cmp (Some s) = Some s' \<Longrightarrow> stack_run qsort cmp s'"
| set_cmp: "stack_run qsort cmp s \<Longrightarrow> sk_set_cmp_func s cf = (s', old) \<Longrightarrow> stack_run qsort cmp s'"
| dup: "stack_run qsort cmp s \<Longrightarrow> sk_dup env (Some s) = Some s' \<Longrightarrow> stack_run qsort cmp s'"
| set_elem: "stack_run qsort cmp s \<Longrightarrow> \<not> sorted_flag s \<Longrightarrow> sk_set (Some s) i p = (Some s', x) \<Longrightarrow> stack_run qsort cmp s'"
| deep_copy: "stack_run qsort cmp s \<Longrightarrow> sorted_flag s \<longrightarrow> (\<forall>f. comp_fn s = Some f \<longrightarrow> keeps_order cmp f cp) \<Longrightarrow>
    sk_deep_copy env cp (Some s) = (Some s', freed) \<Longrightarrow> stack_run qsort cmp s'"

lemma ascending_remove_at:
  assumes "ascending cmp f xs"
  shows "ascending cmp f (remove_at i xs)"
proof (cases "i < length xs")
  case True
  have "sorted_wrt (\<lambda>x y. cmp f x y \<le> 0) (take i xs @ xs ! i # drop (Suc i) xs)"
    using assms id_take_nth_drop [OF True] by (simp add: ascending_def)
  then show ?thesis by (auto simp: ascending_def remove_at_def sorted_wrt_append)
qed (use assms in \<open>simp add: remove_at_def\<close>)

lemma ascending_short: "length xs \<le> 1 \<Longrightarrow> ascending cmp f xs"
  by (cases xs) (auto simp: ascending_def)

lemma sk_zero_elems:
  "stack_inv s \<Longrightarrow> sk_zero (Some s) = Some s' \<Longrightarrow> stack_inv s' \<and> elems s' = [] \<and> flag_ok cmp s'"
  by (auto simp: sk_zero_def stack_inv_def elems_def flag_ok_def word_less_nat_alt unat_gt_0 ascending_def
      split: if_splits option.splits)

lemma sk_dup_elems:
  assumes "stack_inv s" "sk_dup env (Some s) = Some s'"
  shows "stack_inv s' \<and> elems s' = elems s \<and> sorted_flag s' = sorted_flag s \<and> comp_fn s' = comp_fn s"
  using assms
  by (auto simp: sk_dup_def sk_new_def stack_inv_def elems_def word_less_nat_alt Let_def kMinSize_def
      split: if_splits option.splits)

lemma sk_sort_elems:
  assumes inv: "stack_inv s" and f: "comp_fn s = Some f" and ord: "stack_order cmp f" and nn: "None \<notin> set (elems s)"
    and ok: "qsort_ok qsort cmp" and flag: "flag_ok cmp s" and s': "sk_sort qsort cmp (Some s) = Some s'"
  shows "stack_inv s' \<and> mset (elems s') = mset (elems s) \<and> ascending cmp f (elems s') \<and> sorted_flag s' \<and> comp_fn s' = Some f"
proof (cases "sorted_flag s")
  case True
  then show ?thesis using assms by (simp add: sk_sort_def flag_ok_def)
next
  case False
  have q: "mset (qsort (cmp f) (elems s)) = mset (elems s)" "ascending cmp f (qsort (cmp f) (elems s))"
    using ok ord nn by (simp_all add: qsort_ok_def)
  have len: "length (elems s) = unat (num s)" by (rule length_elems [OF inv])
  then have lq: "length (qsort (cmp f) (elems s)) = unat (num s)" using q(1) by (metis size_mset)
  show ?thesis
  proof (cases "num s \<ge> 2")
    case True
    then have "s' = s\<lparr>data := qsort (cmp f) (elems s) @ drop (unat (num s)) (data s), sorted_flag := True\<rparr>"
      using s' f False by (simp add: sk_sort_def Let_def elems_def)
    then show ?thesis using q lq inv f by (auto simp: stack_inv_def elems_def word_less_nat_alt)
  next
    case False
    then have "length (elems s) \<le> 1" using len by (simp add: word_le_nat_alt)
    moreover have "s' = s\<lparr>sorted_flag := True\<rparr>"
      using s' f \<open>\<not> sorted_flag s\<close> False by (simp add: sk_sort_def Let_def)
    ultimately show ?thesis
      using inv f ascending_short [of "elems s" cmp f] by (auto simp: stack_inv_def elems_def)
  qed
qed

section \<open>Deep copies\<close>

lemma deep_copy_loop_Inl:
  "deep_copy_loop cp ys xs = Inl zs \<Longrightarrow>
     \<exists>copies. zs = ys @ copies \<and> list_all2 (copied cp) xs copies"
proof (induction xs arbitrary: ys)
  case (Cons x xs)
  show ?case
  proof (cases x)
    case None
    then show ?thesis using Cons.IH [of "ys @ [None]"] Cons.prems by (auto simp: copied_def)
  next
    case (Some p)
    then obtain q where q: "cp p = Some q" using Cons.prems by (cases "cp p") auto
    then show ?thesis using Cons.IH [of "ys @ [Some q]"] Cons.prems Some by (auto simp: copied_def)
  qed
qed simp

lemma pop_free_loop_append: "pop_free_loop (xs @ ys) = pop_free_loop xs @ pop_free_loop ys"
  by (induction xs) (auto split: option.splits)

lemma deep_copy_loop_Inr:
  "deep_copy_loop cp ys xs = Inr freed \<Longrightarrow>
     \<exists>k p. k < length xs \<and> xs ! k = Some p \<and> cp p = None \<and>
       freed = pop_free_loop ys @ map (the \<circ> cp) (pop_free_loop (take k xs)) \<and>
       (\<forall>q \<in> set (pop_free_loop (take k xs)). cp q \<noteq> None)"
proof (induction xs arbitrary: ys)
  case (Cons x xs)
  consider "x = None" | p where "x = Some p" "cp p = None" | p q where "x = Some p" "cp p = Some q"
    by (cases x) auto
  then show ?case
  proof cases
    case 1
    then obtain k p where "k < length xs" "xs ! k = Some p" "cp p = None"
      "freed = pop_free_loop ys @ map (the \<circ> cp) (pop_free_loop (take k xs))"
      "\<forall>q \<in> set (pop_free_loop (take k xs)). cp q \<noteq> None"
      using Cons.IH [of "ys @ [None]"] Cons.prems by (auto simp: pop_free_loop_append)
    then show ?thesis using 1 by (intro exI [of _ "Suc k"]) auto
  next
    case 2
    then show ?thesis using Cons.prems by (intro exI [of _ 0]) auto
  next
    case (3 p0 q0)
    then obtain k p where "k < length xs" "xs ! k = Some p" "cp p = None"
      "freed = pop_free_loop ys @ q0 # map (the \<circ> cp) (pop_free_loop (take k xs))"
      "\<forall>q \<in> set (pop_free_loop (take k xs)). cp q \<noteq> None"
      using Cons.IH [of "ys @ [Some q0]"] Cons.prems by (auto simp: pop_free_loop_append)
    then show ?thesis using 3 by (intro exI [of _ "Suc k"]) auto
  qed
qed simp

text \<open>\<open>sk_deep_copy\<close> returns a stack of copies of the elements, \<open>NULL\<close> for \<open>NULL\<close>, and frees
  nothing; or it fails and frees exactly the copies it made before the one that failed, or none
  when the stack itself could not be allocated.\<close>

lemma sk_deep_copy_result:
  assumes "stack_inv s" "sk_deep_copy env cp (Some s) = (r, freed)"
  shows "case r of
      Some s' \<Rightarrow> freed = [] \<and> stack_inv s' \<and> sorted_flag s' = sorted_flag s \<and> comp_fn s' = comp_fn s \<and>
        list_all2 (copied cp) (elems s) (elems s')
    | None \<Rightarrow> sk_dup env (Some s) = None \<and> freed = [] \<or>
        (\<exists>k p. k < length (elems s) \<and> elems s ! k = Some p \<and> cp p = None \<and>
          freed = map (the \<circ> cp) (pop_free_loop (take k (elems s))))"
proof (cases "sk_dup env (Some s)")
  case None
  then show ?thesis using assms(2) by (simp add: sk_deep_copy_def split: option.splits)
next
  case (Some d)
  note d = sk_dup_elems [OF assms(1) Some]
  show ?thesis
  proof (cases "deep_copy_loop cp [] (elems d)")
    case (Inl copies)
    then have c: "list_all2 (copied cp) (elems s) copies"
      using deep_copy_loop_Inl [OF Inl] d by simp
    then have "length copies = unat (num d)"
      using length_elems [of d] d list_all2_lengthD [OF c] by (simp only:)
    moreover have "r = Some (d\<lparr>data := copies @ drop (unat (num d)) (data d)\<rparr>) \<and> freed = []"
      using assms(2) Some Inl by (simp add: sk_deep_copy_def elems_def [symmetric])
    moreover have "stack_inv d" using d by simp
    ultimately show ?thesis
      using c d by (simp add: stack_inv_def elems_def word_less_nat_alt)
  next
    case (Inr fr)
    then have "r = None \<and> freed = fr"
      using assms(2) Some by (simp add: sk_deep_copy_def elems_def [symmetric])
    then show ?thesis
      using deep_copy_loop_Inr [OF Inr] d by auto
  qed
qed

lemma ascending_copied:
  assumes c: "list_all2 (copied cp) xs ys" and k: "keeps_order cmp f cp" and a: "ascending cmp f xs"
  shows "ascending cmp f ys"
  unfolding ascending_def sorted_wrt_iff_nth_less
proof (intro allI impI)
  fix i j
  assume "i < j" "j < length ys"
  then have "cmp f (xs ! i) (xs ! j) \<le> 0" "copied cp (xs ! i) (ys ! i)" "copied cp (xs ! j) (ys ! j)"
    using c a list_all2_lengthD [OF c] by (auto simp: ascending_def sorted_wrt_iff_nth_less list_all2_nthD)
  then show "cmp f (ys ! i) (ys ! j) \<le> 0" using k unfolding keeps_order_def by blast
qed

section \<open>Runs\<close>

text \<open>C23: However a stack is built and changed, its array has the allocated size with a cell to spare, and
  its \<open>sorted\<close> flag tells the truth. What a client must keep to is in \<open>stack_run\<close>: \<open>sk_sort\<close> on elements
  that are not \<open>NULL\<close> with a total preorder, \<open>sk_set\<close> on a stack that is not marked as sorted,
  \<open>sk_deep_copy\<close> of a sorted one with copies that compare as the originals.\<close>

theorem stack_run_invariant:
  assumes "stack_run qsort cmp s" "qsort_ok qsort cmp"
  shows "stack_inv s \<and> flag_ok cmp s"
  using assms
proof (induction rule: stack_run.induct)
  case (new env cf s)
  then show ?case using sk_new_elems [of env cf s] by (simp add: flag_ok_def)
next
  case (insert s env p i s' n)
  then show ?case
    using sk_insert_elems [of s env _ p i] sk_insert_fails [of env s p i]
    by (cases "grow env s") (auto simp: flag_ok_def)
next
  case (delete s i s' p)
  show ?case
  proof (cases "i < num s")
    case True
    then show ?thesis
      using delete sk_delete_elems [of s i] ascending_remove_at by (auto simp: flag_ok_def split: option.splits)
  next
    case False
    then show ?thesis using delete by (simp add: sk_delete_def not_less)
  qed
next
  case (zero s s')
  then show ?case using sk_zero_elems by blast
next
  case (sort s f s')
  then show ?case using sk_sort_elems [of s f cmp qsort s'] by (auto simp: flag_ok_def)
next
  case (set_cmp s cf s' old)
  then show ?case by (auto simp: sk_set_cmp_func_def stack_inv_def flag_ok_def elems_def split: if_splits option.splits)
next
  case (dup s env s')
  then show ?case using sk_dup_elems [of s env s'] by (auto simp: flag_ok_def split: option.splits)
next
  case (set_elem s i p s' x)
  then show ?case by (auto simp: sk_set_def stack_inv_def flag_ok_def split: if_splits)
next
  case (deep_copy s cp env s' freed)
  have d: "stack_inv s' \<and> sorted_flag s' = sorted_flag s \<and> comp_fn s' = comp_fn s \<and> list_all2 (copied cp) (elems s) (elems s')"
    using sk_deep_copy_result [of s env cp "Some s'" freed] deep_copy by simp
  then show ?case
    using ascending_copied [of cp "elems s" "elems s'" cmp] deep_copy by (auto simp: flag_ok_def split: option.splits)
qed

lemma binary_search_below:
  "(\<And>i. i < unat hi \<Longrightarrow> c i < 0) \<Longrightarrow> binary_search c 0 hi = None"
  using binary_search_first_zero [of c "unat hi" hi 0]
  by (cases "binary_search c 0 hi") (auto simp: descending_signs_def first_zero_def, force)

text \<open>C40: \<open>sk_set\<close> does not keep that: it leaves the \<open>sorted\<close> flag on, and a later \<open>sk_find\<close> can miss the
  element it stored. On every stack of two elements or more that is marked as sorted, an element that
  is less than all of them and is set at the last index is read back by \<open>sk_value\<close> and is not found.\<close>

theorem sk_set_breaks_find:
  assumes ord: "stack_order cmp f" and inv: "stack_inv s" and s: "comp_fn s = Some f" "sorted_flag s" "2 \<le> length (elems s)"
    and less: "\<forall>x \<in> set (elems s). cmp f (Some p) x < 0" and s': "sk_set (Some s) (num s - 1) (Some p) = (s', x)"
  shows "x = Some p \<and> sk_value s' (num s - 1) = Some p \<and> sk_find cmp s' (Some p) = None"
proof -
  note len = length_elems [OF inv]
  define n where "n = unat (num s)"
  have n: "2 \<le> n" "num s \<noteq> 0" "unat (num s - 1) = n - 1" "n \<le> length (data s)" "\<not> num s - 1 \<ge> num s"
    using s(3) len inv by (auto simp: n_def unat_sub word_le_nat_alt stack_inv_def word_less_nat_alt)
  have eq: "s' = Some (s\<lparr>data := (data s)[n - 1 := Some p]\<rparr>)" "x = Some p"
    using s' n by (auto simp: sk_set_def split: if_splits)
  let ?c = "\<lambda>i. cmp f (Some p) ((data s)[n - 1 := Some p] ! i)"
  have c: "?c i < 0" if "i < n - 1" for i
  proof -
    have "i < length (elems s)" using that n(1) len by (simp add: n_def)
    then have "elems s ! i \<in> set (elems s)" "data s ! i = elems s ! i" by (rule nth_mem) (use \<open>i < length (elems s)\<close> in \<open>simp add: elems_def\<close>)
    then show ?thesis using less that by simp
  qed
  define mid where "mid = (num s - 0 - 1) div 2"
  have mid: "unat (0 + mid) = (n - 1) div 2" using mid_less [of 0 "num s"] n(1,2) by (simp add: mid_def n_def word_gt_0)
  then have "unat mid < n - 1" using n(1) by simp
  then have m: "?c (unat mid) < 0" by (rule c)
  have "binary_search ?c 0 (num s) = binary_search ?c 0 mid"
    using n(2) m by (subst binary_search.simps) (simp add: mid_def Let_def word_gt_0)
  also have "\<dots> = None"
    by (rule binary_search_below) (use c \<open>unat mid < n - 1\<close> in force)
  finally show ?thesis using s n eq by (simp add: sk_find_def sk_value_def sk_is_sorted_def Let_def)
qed

section \<open>Both ends\<close>

text \<open>The interface of a client that only pushes, pops and shifts, and what follows from its laws:
  popping gives back what was pushed in reverse order, shifting in order.\<close>

fun push_list :: "('s \<Rightarrow> 'a \<Rightarrow> 's option) \<Rightarrow> 's \<Rightarrow> 'a list \<Rightarrow> 's option" where
  "push_list push s [] = Some s"
| "push_list push s (x # xs) = (case push s x of None \<Rightarrow> None | Some s' \<Rightarrow> push_list push s' xs)"

fun take_out :: "('s \<Rightarrow> 's \<times> 'a) \<Rightarrow> nat \<Rightarrow> 's \<Rightarrow> 's \<times> 'a list" where
  "take_out pop 0 s = (s, [])"
| "take_out pop (Suc n) s = (case pop s of (s', x) \<Rightarrow> (case take_out pop n s' of (s'', xs) \<Rightarrow> (s'', x # xs)))"

locale deque =
  fixes ok :: "'s \<Rightarrow> bool" and seq :: "'s \<Rightarrow> 'a list" and push :: "'s \<Rightarrow> 'a \<Rightarrow> 's option"
    and pop :: "'s \<Rightarrow> 's \<times> 'a" and shift :: "'s \<Rightarrow> 's \<times> 'a"
  assumes push_back: "ok s \<Longrightarrow> push s a = Some s' \<Longrightarrow> ok s' \<and> seq s' = seq s @ [a]"
    and pop_back: "ok s \<Longrightarrow> seq s \<noteq> [] \<Longrightarrow> pop s = (s', a) \<Longrightarrow> ok s' \<and> seq s = seq s' @ [a]"
    and shift_front: "ok s \<Longrightarrow> seq s \<noteq> [] \<Longrightarrow> shift s = (s', a) \<Longrightarrow> ok s' \<and> seq s = a # seq s'"
begin

lemma push_list_seq: "ok s \<Longrightarrow> push_list push s xs = Some s' \<Longrightarrow> ok s' \<and> seq s' = seq s @ xs"
proof (induction xs arbitrary: s)
  case (Cons x xs)
  then obtain s1 where "push s x = Some s1" "push_list push s1 xs = Some s'"
    by (auto split: option.splits)
  then show ?case using Cons.IH [of s1] push_back [OF Cons.prems(1)] by auto
qed simp

lemma take_out_pop: "ok s \<Longrightarrow> n = length (seq s) \<Longrightarrow> snd (take_out pop n s) = rev (seq s)"
proof (induction n arbitrary: s)
  case (Suc n)
  obtain s1 a where p: "pop s = (s1, a)" by (cases "pop s")
  have "ok s1 \<and> seq s = seq s1 @ [a]" by (rule pop_back [OF Suc.prems(1) _ p]) (use Suc.prems(2) in auto)
  then show ?case using Suc.IH [of s1] Suc.prems p by (auto simp: split_beta)
qed simp

lemma take_out_shift: "ok s \<Longrightarrow> n = length (seq s) \<Longrightarrow> snd (take_out shift n s) = seq s"
proof (induction n arbitrary: s)
  case (Suc n)
  obtain s1 a where p: "shift s = (s1, a)" by (cases "shift s")
  have "ok s1 \<and> seq s = a # seq s1" by (rule shift_front [OF Suc.prems(1) _ p]) (use Suc.prems(2) in auto)
  then show ?case using Suc.IH [of s1] Suc.prems p by (auto simp: split_beta)
qed simp

end

definition stack_push :: "'p alloc_env \<Rightarrow> ('p, 'c) stack_st \<Rightarrow> 'p option \<Rightarrow> ('p, 'c) stack_st option" where
  "stack_push env s p = (case sk_push env (Some s) p of (s', n) \<Rightarrow> if n = 0 then None else s')"

definition stack_pop :: "('p, 'c) stack_st \<Rightarrow> ('p, 'c) stack_st \<times> 'p option" where
  "stack_pop s = (case sk_pop (Some s) of (s', x) \<Rightarrow> (the s', x))"

definition stack_shift :: "('p, 'c) stack_st \<Rightarrow> ('p, 'c) stack_st \<times> 'p option" where
  "stack_shift s = (case sk_shift (Some s) of (s', x) \<Rightarrow> (the s', x))"

interpretation sk: deque stack_inv elems "stack_push env" stack_pop stack_shift
proof unfold_locales
  fix s s' :: "('a, 'b) stack_st" and a
  assume inv: "stack_inv s"
  note len = length_elems [OF inv]
  {
    assume p: "stack_push env s a = Some s'"
    show "stack_inv s' \<and> elems s' = elems s @ [a]"
    proof (cases "grow env s")
      case (Some s0)
      then show ?thesis
        using sk_insert_elems [OF inv Some, of a "num s"] p len
        by (auto simp: stack_push_def sk_push_def insert_at_def)
    qed (use p in \<open>simp add: stack_push_def sk_push_def sk_insert_fails\<close>)
  }
  {
    assume ne: "elems s \<noteq> []" and p: "stack_pop s = (s', a)"
    then have n: "num s \<noteq> 0" "0 < unat (num s)" using len by (auto simp: unat_gt_0)
    then have i: "unat (num s - 1) = unat (num s) - 1" "num s - 1 < num s"
      by (simp_all add: unat_sub word_le_nat_alt word_less_nat_alt)
    have "elems s = take (length (elems s) - 1) (elems s) @ [elems s ! (length (elems s) - 1)]"
      using ne by (metis append_butlast_last_id butlast_conv_take last_conv_nth)
    then show "stack_inv s' \<and> elems s = elems s' @ [a]"
      using sk_delete_elems [OF inv i(2)] p n i len by (auto simp: stack_pop_def sk_pop_def remove_at_def)
  }
  {
    assume ne: "elems s \<noteq> []" and p: "stack_shift s = (s', a)"
    then have n: "num s \<noteq> 0" "0 < num s" using len by (auto simp: word_gt_0)
    then show "stack_inv s' \<and> elems s = a # elems s'"
      using sk_delete_elems [OF inv n(2)] p ne
      by (auto simp: stack_shift_def sk_shift_def remove_at_def hd_conv_nth [symmetric] drop_Suc)
  }
qed

text \<open>After a sequence of successful pushes on an empty stack, \<open>sk_pop\<close> returns the elements last
  in first out and \<open>sk_shift\<close> returns them first in first out, across every reallocation.\<close>

lemma stack_pop_shift_order:
  assumes "stack_inv s" "elems s = []" "push_list (stack_push env) s xs = Some s'"
  shows "snd (take_out stack_pop (length xs) s') = rev xs \<and> snd (take_out stack_shift (length xs) s') = xs"
  using sk.push_list_seq [OF assms(1,3)] sk.take_out_pop [of s' "length xs"] sk.take_out_shift [of s' "length xs"] assms(2)
  by simp

section \<open>All operations on the sequence\<close>

text \<open>When a stack has no room for one more: its array is full, and memory is refused or the size of a larger array
  does not fit.\<close>

definition cannot_grow :: "'p alloc_env \<Rightarrow> ('p, 'c) stack_st \<Rightarrow> bool" where
  "cannot_grow env s \<longleftrightarrow>
     unat (num_alloc s) \<le> length (elems s) + 1 \<and>
     ((\<exists>k. \<not> grants env 0 k) \<or> 2 ^ 64 \<le> 8 * (unat (num_alloc s) + 1))"

lemma new_alloc_size_fits:
  assumes "8 * (unat n + 1) < 2 ^ 64"
  shows "new_alloc_size n \<noteq> None"
proof -
  have m: "unat (n + 1) = unat n + 1" using assms by (simp add: unat_word_ariths)
  have "unat ((n + 1) * sizeof_ptr) = 8 * (unat n + 1)"
    unfolding sizeof_ptr_def unat_word_ariths(2) m using assms by simp
  then have "unat ((n + 1) * sizeof_ptr div sizeof_ptr) = unat (n + 1)" using m by (simp add: unat_div sizeof_ptr_def)
  then have "(n + 1) * sizeof_ptr div sizeof_ptr = n + 1" by (simp only: word_eq_iff_unsigned [where ?'a = nat])
  moreover have "\<not> n + 1 < n" using m by (simp add: word_less_nat_alt)
  ultimately show ?thesis by (simp add: new_alloc_size_def Let_def)
qed

lemma grow_None: "stack_inv s \<Longrightarrow> grow env s = None \<Longrightarrow> cannot_grow env s"
  using new_alloc_size_fits [of "num_alloc s"] length_elems [of s]
  by (auto simp: grow_def cannot_grow_def stack_inv_def word_le_nat_alt word_less_nat_alt unat_word_ariths not_less
      split: if_splits option.splits)

lemma sk_insert_sequence:
  assumes "stack_inv s"
  shows "case sk_insert env (Some s) p i of
            (Some s', n) \<Rightarrow>
              if n = 0 then s' = s \<and> cannot_grow env s
              else stack_inv s' \<and> unat n = length (elems s) + 1 \<and> elems s' = insert_at (unat i) p (elems s)
          | (None, n) \<Rightarrow> False"
proof (cases "grow env s")
  case (Some s0)
  then obtain s' where s': "sk_insert env (Some s) p i = (Some s', num s + 1)" "stack_inv s'"
    "elems s' = insert_at (unat i) p (elems s)" "num s' = num s + 1" "num s + 1 \<noteq> 0"
    using sk_insert_elems [OF assms] by blast
  moreover have "unat (num s + 1) = length (elems s) + 1"
    using length_elems [OF s'(2)] s' by (simp add: insert_at_def min_def split: if_splits)
  ultimately show ?thesis by simp
qed (simp add: sk_insert_fails grow_None [OF assms])

text \<open>C8: The operations act on the sequence of elements: \<open>sk_insert\<close> puts the element at the index
  (at the end if it is out of range) and \<open>sk_push\<close> at the end or, when the array is full and
  cannot grow, they return 0 and change nothing; \<open>sk_delete\<close> removes and returns the element at the index, \<open>sk_pop\<close> the last and
  \<open>sk_shift\<close> the first one, if there is one; \<open>sk_value\<close>, \<open>sk_set\<close> and \<open>sk_num\<close> read, replace and count;
  \<open>sk_zero\<close> leaves no element, and \<open>sk_dup\<close> gives the same sequence unless memory is refused.\<close>

theorem stack_sequence:
  assumes "stack_inv s"
  shows "(case sk_insert env (Some s) p i of
            (Some s', n) \<Rightarrow>
              if n = 0 then s' = s \<and> cannot_grow env s
              else stack_inv s' \<and> unat n = length (elems s) + 1 \<and> elems s' = insert_at (unat i) p (elems s)
          | (None, n) \<Rightarrow> False) \<and>
         (case sk_delete (Some s) j of
            (Some s', x) \<Rightarrow>
              if unat j < length (elems s)
              then stack_inv s' \<and> x = elems s ! unat j \<and> elems s' = remove_at (unat j) (elems s)
              else s' = s \<and> x = None
          | (None, x) \<Rightarrow> False) \<and>
         sk_value (Some s) j = (if unat j < length (elems s) then elems s ! unat j else None) \<and>
         (case sk_set (Some s) j p of
            (Some s', x) \<Rightarrow> stack_inv s' \<and> elems s' = (elems s)[unat j := p]
          | (None, x) \<Rightarrow> False) \<and>
         unat (sk_num (Some s)) = length (elems s) \<and>
         (case sk_push env (Some s) p of
            (Some s', n) \<Rightarrow>
              if n = 0 then s' = s \<and> cannot_grow env s
              else stack_inv s' \<and> unat n = length (elems s) + 1 \<and> elems s' = elems s @ [p]
          | (None, n) \<Rightarrow> False) \<and>
         (case sk_pop (Some s) of
            (Some s', x) \<Rightarrow>
              if elems s = [] then s' = s \<and> x = None
              else stack_inv s' \<and> elems s = elems s' @ [x]
          | (None, x) \<Rightarrow> False) \<and>
         (case sk_shift (Some s) of
            (Some s', x) \<Rightarrow>
              if elems s = [] then s' = s \<and> x = None
              else stack_inv s' \<and> elems s = x # elems s'
          | (None, x) \<Rightarrow> False) \<and>
         (case sk_zero (Some s) of Some s' \<Rightarrow> stack_inv s' \<and> elems s' = [] | None \<Rightarrow> False) \<and>
         (case sk_dup env (Some s) of
            Some s' \<Rightarrow> stack_inv s' \<and> elems s' = elems s
          | None \<Rightarrow> \<exists>i n. \<not> grants env i n)"
proof (intro conjI)
  note len = length_elems [OF assms]
  have ins: "case sk_insert env (Some s) p i of
            (Some s', n) \<Rightarrow>
              if n = 0 then s' = s \<and> cannot_grow env s
              else stack_inv s' \<and> unat n = length (elems s) + 1 \<and> elems s' = insert_at (unat i) p (elems s)
          | (None, n) \<Rightarrow> False" for i
    by (rule sk_insert_sequence [OF assms])
  show "case sk_insert env (Some s) p i of
            (Some s', n) \<Rightarrow>
              if n = 0 then s' = s \<and> cannot_grow env s
              else stack_inv s' \<and> unat n = length (elems s) + 1 \<and> elems s' = insert_at (unat i) p (elems s)
          | (None, n) \<Rightarrow> False"
    by (rule ins)
  show "case sk_delete (Some s) j of
            (Some s', x) \<Rightarrow>
              if unat j < length (elems s)
              then stack_inv s' \<and> x = elems s ! unat j \<and> elems s' = remove_at (unat j) (elems s)
              else s' = s \<and> x = None
          | (None, x) \<Rightarrow> False"
    using sk_delete_elems [OF assms, of j] len
    by (cases "j < num s") (auto simp: word_less_nat_alt sk_delete_def not_less word_le_nat_alt)
  show "sk_value (Some s) j = (if unat j < length (elems s) then elems s ! unat j else None)"
    using len by (simp add: sk_value_def elems_def word_le_nat_alt)
  show "case sk_set (Some s) j p of
            (Some s', x) \<Rightarrow> stack_inv s' \<and> elems s' = (elems s)[unat j := p]
          | (None, x) \<Rightarrow> False"
    using assms len by (auto simp: sk_set_def stack_inv_def elems_def word_le_nat_alt take_update_swap list_update_beyond)
  show "unat (sk_num (Some s)) = length (elems s)"
    using len by (simp add: sk_num_def)
  show "case sk_push env (Some s) p of
            (Some s', n) \<Rightarrow>
              if n = 0 then s' = s \<and> cannot_grow env s
              else stack_inv s' \<and> unat n = length (elems s) + 1 \<and> elems s' = elems s @ [p]
          | (None, n) \<Rightarrow> False"
    using ins [of "num s"] len by (simp add: sk_push_def insert_at_def split: prod.splits option.splits)
  have empty: "elems s = [] \<longleftrightarrow> num s = 0" using len by (metis length_0_conv unat_eq_0)
  show "case sk_pop (Some s) of
            (Some s', x) \<Rightarrow>
              if elems s = [] then s' = s \<and> x = None
              else stack_inv s' \<and> elems s = elems s' @ [x]
          | (None, x) \<Rightarrow> False"
  proof (cases "elems s = []")
    case False
    then obtain s' x where r: "sk_pop (Some s) = (Some s', x)"
      using empty False by (cases "num s \<le> num s - 1") (simp_all add: sk_pop_def sk_delete_def Let_def)
    then show ?thesis using sk.pop_back [OF assms False, of s' x] False by (simp add: stack_pop_def)
  qed (simp add: sk_pop_def empty)
  show "case sk_shift (Some s) of
            (Some s', x) \<Rightarrow>
              if elems s = [] then s' = s \<and> x = None
              else stack_inv s' \<and> elems s = x # elems s'
          | (None, x) \<Rightarrow> False"
  proof (cases "elems s = []")
    case False
    then obtain s' x where r: "sk_shift (Some s) = (Some s', x)"
      using empty by (auto simp: sk_shift_def sk_delete_def split: if_splits)
    then show ?thesis using sk.shift_front [OF assms False, of s' x] False by (simp add: stack_shift_def)
  qed (simp add: sk_shift_def empty)
  show "case sk_zero (Some s) of Some s' \<Rightarrow> stack_inv s' \<and> elems s' = [] | None \<Rightarrow> False"
    using sk_zero_elems [OF assms] by (cases "sk_zero (Some s)") (simp_all add: sk_zero_def split: if_splits)
  show "case sk_dup env (Some s) of
            Some s' \<Rightarrow> stack_inv s' \<and> elems s' = elems s
          | None \<Rightarrow> \<exists>i n. \<not> grants env i n"
  proof (cases "sk_dup env (Some s)")
    case None
    then have "\<not> (grants env 0 sizeof_stack_st \<and> grants env 1 (sizeof_ptr * kMinSize) \<and> grants env 2 (sizeof_ptr * num_alloc s))"
      by (auto simp: sk_dup_def sk_new_def Let_def)
    then show ?thesis using None by auto
  next
    case (Some s')
    then show ?thesis using sk_dup_elems [OF assms Some] by simp
  qed
qed

section \<open>Witnesses\<close>

abbreviation entry :: "u64 \<Rightarrow> BY_DIR_HASH option" where
  "entry h \<equiv> Some \<lparr>hash = h, suffix = 0\<rparr>"

definition example_stack :: "(BY_DIR_HASH, unit) stack_st" where
  "example_stack = \<lparr>num = 3, data = [entry 10, entry 20, entry 20, None], sorted_flag = True,
     num_alloc = 4, comp_fn = Some ()\<rparr>"

definition example_env :: "'p alloc_env" where
  "example_env = \<lparr>grants = \<lambda>_ _. True, fresh = \<lambda>_. None\<rparr>"

lemma example_stack_inv:
  "stack_inv example_stack \<and> elems example_stack = [entry 10, entry 20, entry 20] \<and>
   flag_ok call_by_dir_hash_cmp example_stack"
  by (simp add: stack_inv_def elems_def example_stack_def flag_ok_def ascending_def call_by_dir_hash_cmp_def by_dir_hash_cmp_def)

text \<open>An insertion sort keeps the contract of \<open>qsort\<close>.\<close>

fun insort_cmp :: "('a \<Rightarrow> 'a \<Rightarrow> int) \<Rightarrow> 'a \<Rightarrow> 'a list \<Rightarrow> 'a list" where
  "insort_cmp c x [] = [x]"
| "insort_cmp c x (y # ys) = (if c x y \<le> 0 then x # y # ys else y # insort_cmp c x ys)"

definition example_qsort :: "('a \<Rightarrow> 'a \<Rightarrow> int) \<Rightarrow> 'a list \<Rightarrow> 'a list" where
  "example_qsort c xs = foldr (insort_cmp c) xs []"

lemma mset_insort_cmp: "mset (insort_cmp c x ys) = add_mset x (mset ys)"
  by (induction ys) auto

lemma mset_example_qsort: "mset (example_qsort c xs) = mset xs"
  by (induction xs) (auto simp: example_qsort_def mset_insort_cmp)

lemma ascending_insort_cmp:
  assumes ord: "stack_order cmp f" and "ascending cmp f (map Some ys)"
  shows "ascending cmp f (insort_cmp (cmp f) (Some x) (map Some ys))"
  using assms(2)
proof (induction ys)
  case (Cons y ys)
  show ?case
  proof (cases "cmp f (Some x) (Some y) \<le> 0")
    case True
    then show ?thesis using Cons.prems stack_order.cmp_trans [OF ord, of x y] by (auto simp: ascending_def)
  next
    case False
    then have "cmp f (Some y) (Some x) \<le> 0" using stack_order.cmp_antisym [OF ord, of x y] by linarith
    moreover have "set (insort_cmp (cmp f) (Some x) (map Some ys)) = insert (Some x) (Some ` set ys)"
      using arg_cong [OF mset_insort_cmp [of "cmp f" "Some x" "map Some ys"], of set_mset] by simp
    ultimately show ?thesis using Cons False by (auto simp: ascending_def)
  qed
qed (simp add: ascending_def)

lemma example_qsort_ok: "qsort_ok example_qsort cmp"
proof -
  have "ascending cmp f (example_qsort (cmp f) (map Some ys)) \<and> None \<notin> set (example_qsort (cmp f) (map Some ys))"
    if "stack_order cmp f" for f ys
  proof (induction ys)
    case (Cons y ys)
    then obtain zs where "foldr (insort_cmp (cmp f)) (map Some ys) [] = map Some zs"
      by (metis example_qsort_def ex_map_conv not_None_eq)
    then show ?case
      using Cons ascending_insort_cmp [OF that, of zs y]
        arg_cong [OF mset_insort_cmp [of "cmp f" "Some y" "map Some zs"], of set_mset]
      by (auto simp: example_qsort_def)
  qed (simp add: example_qsort_def ascending_def)
  moreover have "\<exists>ys. xs = map Some ys" if "None \<notin> set xs" for xs :: "'a option list"
    using that by (metis ex_map_conv not_None_eq)
  ultimately show ?thesis
    unfolding qsort_ok_def by (intro allI impI conjI mset_example_qsort) metis
qed

lemma stack_run_invariant_witness:
  "\<exists>s. sk_new example_env (Some ()) = Some s \<and> stack_inv s \<and> flag_ok call_by_dir_hash_cmp s"
proof -
  obtain s where s: "sk_new example_env (Some ()) = Some (s :: (BY_DIR_HASH, unit) stack_st)"
    by (simp add: sk_new_def example_env_def)
  then show ?thesis
    using stack_run_invariant [OF stack_run.new [OF s] example_qsort_ok] by blast
qed

lemma stack_sequence_witness:
  "fst (sk_insert example_env (Some example_stack) (entry 15) 1) \<noteq> None \<and>
   sk_value (Some example_stack) 1 = entry 20"
  using stack_sequence [where s = example_stack and env = example_env and p = "entry 15" and i = 1 and j = 1] example_stack_inv
  by (auto split: prod.splits option.splits)

lemma sk_set_breaks_find_witness:
  "case sk_set (Some example_stack) (num example_stack - 1) (entry 5) of
     (s', x) \<Rightarrow> sk_value s' (num example_stack - 1) = entry 5 \<and> sk_find call_by_dir_hash_cmp s' (entry 5) = None"
proof -
  obtain s' x where r: "sk_set (Some example_stack) (num example_stack - 1) (entry 5) = (s', x)" by (rule prod.exhaust)
  have "\<forall>x \<in> set (elems example_stack). call_by_dir_hash_cmp () (entry 5) x < 0"
    "2 \<le> length (elems example_stack)" "comp_fn example_stack = Some ()" "sorted_flag example_stack"
    using example_stack_inv by (simp_all add: call_by_dir_hash_cmp_def by_dir_hash_cmp_def example_stack_def)
  then show ?thesis
    using sk_set_breaks_find [OF by_dir.stack_order_axioms _ _ _ _ _ r] example_stack_inv r by simp
qed

end
