(* ===== verification/Crypto_Lhash.thy ===== *)
theory Crypto_Lhash
  imports Prelude "HOL-Library.Multiset"
begin

text \<open>
  The hash table of \<^verbatim>\<open>ios/Pods/BoringSSL-GRPC/src/crypto/lhash/lhash.c\<close>. A chain of
  \<open>LHASH_ITEM\<close>s is a list; a pointer to a \<open>next\<close> field, as \<open>get_next_ptr_and_hash\<close> returns, is the
  bucket and the position in its chain, the chain's length for a pointer to \<open>NULL\<close>. The hash and
  comparison functions are the ones stored in the table. An element is a value of type \<open>'p\<close>;
  results that may be \<open>NULL\<close> are options. \<open>grants\<close> is the allocator's answer to the \<open>i\<close>-th request
  of an operation. Under \<open>lhash_key\<close> a table is a finite map, and every operation is one on the map;
  \<open>dictionary\<close> is what a client knows of it. The callback of \<open>lh_doall_arg\<close> works on its argument and does not change the
  table.
\<close>

section \<open>State\<close>

record 'p LHASH_ITEM =
  data :: 'p
  hash :: u32

record 'p lhash_st =
  num_items :: size_t
  buckets :: "'p LHASH_ITEM list list"
  num_buckets :: size_t
  callback_depth :: u32
  comp_fn :: "'p \<Rightarrow> 'p \<Rightarrow> int"
  hash_fn :: "'p \<Rightarrow> u32"

definition kMinNumBuckets :: size_t where
  "kMinNumBuckets = 16"

definition kMaxAverageChainLength :: size_t where
  "kMaxAverageChainLength = 2"

definition kMinAverageChainLength :: size_t where
  "kMinAverageChainLength = 1"

type_synonym grants = "nat \<Rightarrow> size_t \<Rightarrow> bool"

section \<open>Operations\<close>

definition lh_new :: "grants \<Rightarrow> ('p \<Rightarrow> u32) \<Rightarrow> ('p \<Rightarrow> 'p \<Rightarrow> int) \<Rightarrow> 'p lhash_st option" where
  "lh_new grants h c =
     (if \<not> grants 0 48 then None
      else if \<not> grants 1 (8 * kMinNumBuckets) then None
      else Some \<lparr>num_items = 0, buckets = replicate (unat kMinNumBuckets) [],
                 num_buckets = kMinNumBuckets, callback_depth = 0, comp_fn = c, hash_fn = h\<rparr>)"

definition lh_num_items :: "'p lhash_st \<Rightarrow> size_t" where
  "lh_num_items lh = num_items lh"

text \<open>\<open>hash % num_buckets\<close>, in \<open>size_t\<close>.\<close>

definition bucket_index :: "u32 \<Rightarrow> size_t \<Rightarrow> nat" where
  "bucket_index h n = unat ((ucast h :: size_t) mod n)"

text \<open>Walk a chain to the first item that satisfies \<open>P\<close>.\<close>

fun chain_pos :: "('a \<Rightarrow> bool) \<Rightarrow> 'a list \<Rightarrow> nat" where
  "chain_pos P [] = 0"
| "chain_pos P (x # xs) = (if P x then 0 else Suc (chain_pos P xs))"

definition get_next_ptr_and_hash :: "'p lhash_st \<Rightarrow> 'p \<Rightarrow> u32 \<times> nat \<times> nat" where
  "get_next_ptr_and_hash lh d =
     (let h = hash_fn lh d;
          b = bucket_index h (num_buckets lh)
      in (h, b, chain_pos (\<lambda>cur. comp_fn lh (data cur) d = 0) (buckets lh ! b)))"

definition get_next_ptr_by_key :: "'p lhash_st \<Rightarrow> 'k \<Rightarrow> u32 \<Rightarrow> ('k \<Rightarrow> 'p \<Rightarrow> int) \<Rightarrow> nat \<times> nat" where
  "get_next_ptr_by_key lh key key_hash cmp_key =
     (let b = bucket_index key_hash (num_buckets lh)
      in (b, chain_pos (\<lambda>cur. cmp_key key (data cur) = 0) (buckets lh ! b)))"

definition deref :: "'p lhash_st \<Rightarrow> nat \<Rightarrow> nat \<Rightarrow> 'p LHASH_ITEM option" where
  "deref lh b i = (if i < length (buckets lh ! b) then Some (buckets lh ! b ! i) else None)"

definition lh_retrieve :: "'p lhash_st \<Rightarrow> 'p \<Rightarrow> 'p option" where
  "lh_retrieve lh d =
     (case get_next_ptr_and_hash lh d of (h, b, i) \<Rightarrow> map_option data (deref lh b i))"

definition lh_retrieve_key :: "'p lhash_st \<Rightarrow> 'k \<Rightarrow> u32 \<Rightarrow> ('k \<Rightarrow> 'p \<Rightarrow> int) \<Rightarrow> 'p option" where
  "lh_retrieve_key lh key key_hash cmp_key =
     (case get_next_ptr_by_key lh key key_hash cmp_key of (b, i) \<Rightarrow> map_option data (deref lh b i))"

text \<open>Each item goes to the front of its new chain.\<close>

definition rebucket_step :: "size_t \<Rightarrow> 'p LHASH_ITEM list list \<Rightarrow> 'p LHASH_ITEM \<Rightarrow> 'p LHASH_ITEM list list" where
  "rebucket_step n bs cur = (let b = bucket_index (hash cur) n in bs[b := cur # bs ! b])"

definition lh_rebucket :: "grants \<Rightarrow> 'p lhash_st \<Rightarrow> size_t \<Rightarrow> 'p lhash_st" where
  "lh_rebucket grants lh new_num_buckets =
     (let alloc_size = 8 * new_num_buckets in
      if alloc_size div 8 \<noteq> new_num_buckets then lh
      else if \<not> grants 1 alloc_size then lh
      else lh\<lparr>buckets :=
                foldl (rebucket_step new_num_buckets) (replicate (unat new_num_buckets) []) (concat (buckets lh)),
              num_buckets := new_num_buckets\<rparr>)"

definition lh_maybe_resize :: "grants \<Rightarrow> 'p lhash_st \<Rightarrow> 'p lhash_st" where
  "lh_maybe_resize grants lh =
     (if callback_depth lh > 0 then lh
      else
        let avg_chain_length = num_items lh div num_buckets lh in
        if avg_chain_length > kMaxAverageChainLength then
          let new_num_buckets = num_buckets lh * 2
          in if new_num_buckets > num_buckets lh then lh_rebucket grants lh new_num_buckets else lh
        else if avg_chain_length < kMinAverageChainLength \<and> num_buckets lh > kMinNumBuckets then
          let new_num_buckets = num_buckets lh div 2;
              new_num_buckets = (if new_num_buckets < kMinNumBuckets then kMinNumBuckets else new_num_buckets)
          in lh_rebucket grants lh new_num_buckets
        else lh)"

text \<open>The result is the table, the return value and \<open>*old_data\<close>.\<close>

definition lh_insert :: "grants \<Rightarrow> 'p lhash_st \<Rightarrow> 'p \<Rightarrow> 'p lhash_st \<times> bool \<times> 'p option" where
  "lh_insert grants lh d =
     (case get_next_ptr_and_hash lh d of
        (h, b, i) \<Rightarrow>
          (case deref lh b i of
             Some it \<Rightarrow>
               (lh\<lparr>buckets := (buckets lh)[b := (buckets lh ! b)[i := it\<lparr>data := d\<rparr>]]\<rparr>, True, Some (data it))
           | None \<Rightarrow>
               if \<not> grants 0 24 then (lh, False, None)
               else
                 let item = \<lparr>data = d, hash = h\<rparr>;
                     lh = lh\<lparr>buckets := (buckets lh)[b := buckets lh ! b @ [item]],
                             num_items := num_items lh + 1\<rparr>
                 in (lh_maybe_resize grants lh, True, None)))"

definition lh_delete :: "grants \<Rightarrow> 'p lhash_st \<Rightarrow> 'p \<Rightarrow> 'p lhash_st \<times> 'p option" where
  "lh_delete grants lh d =
     (case get_next_ptr_and_hash lh d of
        (h, b, i) \<Rightarrow>
          (case deref lh b i of
             None \<Rightarrow> (lh, None)
           | Some it \<Rightarrow>
               let chain = buckets lh ! b;
                   lh = lh\<lparr>buckets := (buckets lh)[b := take i chain @ drop (i + 1) chain],
                           num_items := num_items lh - 1\<rparr>
               in (lh_maybe_resize grants lh, Some (data it))))"

definition UINT_MAX :: u32 where
  "UINT_MAX = 0xffffffff"

definition lh_doall_arg :: "grants \<Rightarrow> 'p lhash_st \<Rightarrow> ('p \<Rightarrow> 'a \<Rightarrow> 'a) \<Rightarrow> 'a \<Rightarrow> 'p lhash_st \<times> 'a" where
  "lh_doall_arg grants lh func arg =
     (let lh = (if callback_depth lh < UINT_MAX then lh\<lparr>callback_depth := callback_depth lh + 1\<rparr> else lh);
          arg = foldl (\<lambda>arg cur. func (data cur) arg) arg (concat (buckets lh));
          lh = (if callback_depth lh < UINT_MAX then lh\<lparr>callback_depth := callback_depth lh - 1\<rparr> else lh)
      in (lh_maybe_resize grants lh, arg))"

section \<open>The contents of a table\<close>

text \<open>All items, and the invariant: the array has \<open>num_buckets\<close> chains, at least
  \<open>kMinNumBuckets\<close>, every item is in the chain of its hash, and \<open>num_items\<close> counts them.\<close>

definition items :: "'p lhash_st \<Rightarrow> 'p LHASH_ITEM multiset" where
  "items lh = mset (concat (buckets lh))"

definition table_inv :: "'p lhash_st \<Rightarrow> bool" where
  "table_inv lh \<longleftrightarrow>
     length (buckets lh) = unat (num_buckets lh) \<and> kMinNumBuckets \<le> num_buckets lh \<and>
     (\<forall>b < length (buckets lh). \<forall>it \<in> set (buckets lh ! b). bucket_index (hash it) (num_buckets lh) = b) \<and>
     (\<forall>it \<in># items lh. hash it = hash_fn lh (data it)) \<and>
     num_items lh = of_nat (size (items lh))"

lemma bucket_index_less: "n \<noteq> 0 \<Longrightarrow> bucket_index h n < unat n"
proof -
  assume "n \<noteq> 0"
  then have "0 < unat n" by (simp add: unat_gt_0)
  then show ?thesis by (simp add: bucket_index_def unat_mod_distrib)
qed

lemma mset_concat_update:
  "b < length bs \<Longrightarrow> mset (concat (bs[b := xs])) + mset (bs ! b) = mset (concat bs) + mset xs"
proof (induction bs arbitrary: b)
  case (Cons y bs)
  show ?case
  proof (cases b)
    case (Suc k)
    then show ?thesis using Cons.IH [of k] Cons.prems by (simp add: add.assoc)
  qed (simp add: ac_simps)
qed simp

lemma nth_in_concat: "b < length bs \<Longrightarrow> x \<in> set (bs ! b) \<Longrightarrow> x \<in> set (concat bs)"
  by auto

lemma in_items: "it \<in># items lh \<longleftrightarrow> (\<exists>b < length (buckets lh). it \<in> set (buckets lh ! b))"
  by (auto simp: items_def in_set_conv_nth) (metis in_set_conv_nth)+

text \<open>Rebucketing moves every item to the chain of its hash and loses none.\<close>

definition bucketed :: "size_t \<Rightarrow> 'p LHASH_ITEM list list \<Rightarrow> bool" where
  "bucketed n bs \<longleftrightarrow> length bs = unat n \<and> (\<forall>b < length bs. \<forall>it \<in> set (bs ! b). bucket_index (hash it) n = b)"

lemma rebucket_step_bucketed:
  assumes "bucketed n bs" "n \<noteq> 0"
  shows "bucketed n (rebucket_step n bs cur) \<and>
    mset (concat (rebucket_step n bs cur)) = add_mset cur (mset (concat bs))"
proof -
  let ?b = "bucket_index (hash cur) n"
  have b: "?b < length bs" using assms bucket_index_less by (simp add: bucketed_def)
  then have "bucketed n (rebucket_step n bs cur)"
    using assms(1) by (auto simp: bucketed_def rebucket_step_def Let_def nth_list_update)
  moreover have "mset (concat (rebucket_step n bs cur)) + mset (bs ! ?b) = add_mset cur (mset (concat bs)) + mset (bs ! ?b)"
    using mset_concat_update [OF b, of "cur # bs ! ?b"] by (simp add: rebucket_step_def Let_def)
  ultimately show ?thesis by (metis add_right_cancel)
qed

lemma foldl_rebucket:
  "bucketed n bs \<Longrightarrow> n \<noteq> 0 \<Longrightarrow>
     bucketed n (foldl (rebucket_step n) bs xs) \<and> mset (concat (foldl (rebucket_step n) bs xs)) = mset (concat bs) + mset xs"
proof (induction xs arbitrary: bs)
  case (Cons x xs)
  then show ?case using rebucket_step_bucketed [OF Cons.prems, of x] by auto
qed simp

lemma lh_rebucket_inv:
  assumes "table_inv lh" "kMinNumBuckets \<le> n"
  shows "table_inv (lh_rebucket grants lh n) \<and> items (lh_rebucket grants lh n) = items lh"
proof -
  have n0: "n \<noteq> 0" using assms(2) by (auto simp: kMinNumBuckets_def)
  have "bucketed n (replicate (unat n) [] :: 'a LHASH_ITEM list list)" by (simp add: bucketed_def)
  moreover have "concat (replicate k []) = ([] :: 'b list)" for k by (induction k) auto
  ultimately have f: "bucketed n (foldl (rebucket_step n) (replicate (unat n) []) (concat (buckets lh)))"
    "mset (concat (foldl (rebucket_step n) (replicate (unat n) []) (concat (buckets lh)))) = items lh"
    using foldl_rebucket [of n "replicate (unat n) []" "concat (buckets lh)"] n0 by (simp_all add: items_def)
  then have "items (lh_rebucket grants lh n) = items lh"
    by (simp add: lh_rebucket_def items_def [of "lh\<lparr>buckets := _, num_buckets := _\<rparr>"] Let_def)
  moreover have "table_inv (lh_rebucket grants lh n)"
    using assms f \<open>items (lh_rebucket grants lh n) = items lh\<close>
    by (auto simp: table_inv_def bucketed_def lh_rebucket_def Let_def simp del: size_mset split: if_splits)
  ultimately show ?thesis by simp
qed

lemma lh_rebucket_frame [simp]:
  "callback_depth (lh_rebucket g lh n) = callback_depth lh"
  "comp_fn (lh_rebucket g lh n) = comp_fn lh" "hash_fn (lh_rebucket g lh n) = hash_fn lh"
  by (simp_all add: lh_rebucket_def Let_def)

lemma lh_maybe_resize_inv:
  assumes "table_inv lh"
  shows "table_inv (lh_maybe_resize grants lh) \<and> items (lh_maybe_resize grants lh) = items lh"
proof -
  have "kMinNumBuckets \<le> num_buckets lh" using assms by (simp add: table_inv_def)
  then show ?thesis
    using lh_rebucket_inv [OF assms] assms by (simp add: lh_maybe_resize_def Let_def)
qed

lemma lh_maybe_resize_frame [simp]:
  "callback_depth (lh_maybe_resize g lh) = callback_depth lh"
  "comp_fn (lh_maybe_resize g lh) = comp_fn lh" "hash_fn (lh_maybe_resize g lh) = hash_fn lh"
  by (simp_all add: lh_maybe_resize_def Let_def)

section \<open>The table as a dictionary\<close>

text \<open>What the table asks of its two functions: comparing equal is an equivalence, and equal elements
  hash alike.\<close>

locale lhash_key =
  fixes h :: "'p \<Rightarrow> u32" and c :: "'p \<Rightarrow> 'p \<Rightarrow> int"
  assumes eq_refl: "c a a = 0"
    and eq_sym: "c a b = 0 \<Longrightarrow> c b a = 0"
    and eq_trans: "c a b = 0 \<Longrightarrow> c b d = 0 \<Longrightarrow> c a d = 0"
    and hash_eq: "c a b = 0 \<Longrightarrow> h a = h b"

definition matching :: "('p \<Rightarrow> 'p \<Rightarrow> int) \<Rightarrow> 'p LHASH_ITEM multiset \<Rightarrow> 'p \<Rightarrow> 'p LHASH_ITEM multiset" where
  "matching c M d = filter_mset (\<lambda>it. c (data it) d = 0) M"

text \<open>A table of these functions in which no two items compare equal.\<close>

definition dict_inv :: "('p \<Rightarrow> u32) \<Rightarrow> ('p \<Rightarrow> 'p \<Rightarrow> int) \<Rightarrow> 'p lhash_st \<Rightarrow> bool" where
  "dict_inv h c lh \<longleftrightarrow>
     table_inv lh \<and> hash_fn lh = h \<and> comp_fn lh = c \<and> (\<forall>d. size (matching c (items lh) d) \<le> 1)"

lemma size_matching_mono: "size (matching c M k) \<le> size (matching c (add_mset it M) k)"
  by (simp add: matching_def)

lemma chain_pos_spec:
  "chain_pos P xs \<le> length xs \<and> (chain_pos P xs < length xs \<longrightarrow> P (xs ! chain_pos P xs)) \<and>
   (chain_pos P xs = length xs \<longrightarrow> (\<forall>x \<in> set xs. \<not> P x))"
  by (induction xs) auto

lemma option_eqI: "(\<And>x. a = Some x \<longleftrightarrow> b = Some x) \<Longrightarrow> a = b"
  by (cases a; cases b) auto

lemma size_le_1_unique:
  assumes "size M \<le> 1" "x \<in># M"
  shows "M = {#x#}"
proof -
  obtain N where N: "M = add_mset x N" using assms(2) by (metis mset_add)
  then have "N = {#}" using assms(1) by simp
  then show ?thesis by (simp add: N)
qed

context lhash_key
begin

abbreviation "ok \<equiv> dict_inv h c"

text \<open>The item that \<open>get_next_ptr_and_hash\<close> finds.\<close>

lemma next_ptr:
  assumes "ok lh" "get_next_ptr_and_hash lh d = (hv, b, i)"
  shows "hv = h d \<and> b < length (buckets lh) \<and> b = bucket_index (h d) (num_buckets lh) \<and>
    (case deref lh b i of
       Some it \<Rightarrow> i < length (buckets lh ! b) \<and> it = buckets lh ! b ! i \<and> matching c (items lh) d = {#it#}
     | None \<Rightarrow> matching c (items lh) d = {#})"
proof -
  have inv: "table_inv lh" "hash_fn lh = h" "comp_fn lh = c" and uniq: "size (matching c (items lh) d) \<le> 1"
    using assms(1) by (simp_all add: dict_inv_def)
  have b: "hv = h d" "b = bucket_index (h d) (num_buckets lh)"
    and i: "i = chain_pos (\<lambda>cur. c (data cur) d = 0) (buckets lh ! b)"
    using assms(2) inv by (auto simp: get_next_ptr_and_hash_def Let_def)
  have "num_buckets lh \<noteq> 0" using inv(1) by (auto simp: table_inv_def kMinNumBuckets_def)
  then have lt: "b < length (buckets lh)" using bucket_index_less inv(1) by (simp add: b table_inv_def)
  note pos = chain_pos_spec [of "\<lambda>cur. c (data cur) d = 0" "buckets lh ! b", folded i]
  show ?thesis
  proof (cases "i < length (buckets lh ! b)")
    case True
    let ?it = "buckets lh ! b ! i"
    have "?it \<in># items lh"
      using nth_in_concat [OF lt nth_mem [OF True]] by (simp only: items_def set_mset_mset)
    moreover have "c (data ?it) d = 0" using pos True by blast
    ultimately have "?it \<in># matching c (items lh) d" by (simp add: matching_def)
    then show ?thesis using size_le_1_unique [OF uniq] True b lt by (simp add: deref_def)
  next
    case False
    then have none: "\<forall>x \<in> set (buckets lh ! b). c (data x) d \<noteq> 0" using pos by auto
    have "c (data it) d \<noteq> 0" if "it \<in># items lh" for it
    proof
      assume eq: "c (data it) d = 0"
      obtain b' where b': "b' < length (buckets lh)" "it \<in> set (buckets lh ! b')"
        using \<open>it \<in># items lh\<close> by (auto simp: in_items)
      have "hash it = h (data it)" using inv \<open>it \<in># items lh\<close> by (auto simp: table_inv_def)
      then have "hash it = h d" using hash_eq [OF eq] by simp
      moreover have "bucket_index (hash it) (num_buckets lh) = b'" using inv(1) b' by (auto simp: table_inv_def)
      ultimately have "b' = b" by (simp add: b)
      then show False using none b' eq by auto
    qed
    then have "set_mset (matching c (items lh) d) = {}" by (auto simp: matching_def)
    then show ?thesis using False b lt by (auto simp: deref_def)
  qed
qed

lemma lh_retrieve_matching:
  assumes "ok lh"
  shows "lh_retrieve lh d = Some x \<longleftrightarrow> (\<exists>it. matching c (items lh) d = {#it#} \<and> x = data it)"
proof -
  obtain hv b i where g: "get_next_ptr_and_hash lh d = (hv, b, i)" by (rule prod_cases3)
  show ?thesis
    using next_ptr [OF assms g] by (auto simp: lh_retrieve_def g split: option.splits)
qed

lemma lh_retrieve_items:
  assumes "ok lh"
  shows "lh_retrieve lh d = Some x \<longleftrightarrow> (\<exists>it \<in># items lh. x = data it \<and> c x d = 0)"
proof -
  have "size (matching c (items lh) d) \<le> 1" using assms by (simp add: dict_inv_def)
  then have "matching c (items lh) d = {#it#} \<longleftrightarrow> it \<in># items lh \<and> c (data it) d = 0" for it
    using size_le_1_unique [of "matching c (items lh) d" it]
    by (metis (mono_tags, lifting) matching_def mem_Collect_eq set_mset_filter union_single_eq_member add_0)
  then show ?thesis using lh_retrieve_matching [OF assms] by auto
qed

lemma items_update:
  assumes "b < length (buckets lh)" "buckets lh' = (buckets lh)[b := xs]"
  shows "items lh' + mset (buckets lh ! b) = items lh + mset xs"
  using mset_concat_update [OF assms(1), of xs] assms(2) by (simp add: items_def)

lemma table_inv_update:
  assumes inv: "table_inv lh" and b: "b < length (buckets lh)"
    and lh': "buckets lh' = (buckets lh)[b := xs]" "num_buckets lh' = num_buckets lh"
      "hash_fn lh' = hash_fn lh" "num_items lh' = of_nat (size (items lh'))"
    and xs: "\<forall>it \<in> set xs. bucket_index (hash it) (num_buckets lh) = b \<and> hash it = hash_fn lh (data it)"
  shows "table_inv lh'"
proof -
  have "hash it = hash_fn lh (data it)" if m: "it \<in># items lh'" for it
  proof -
    obtain k where "k < length (buckets lh)" "it \<in> set ((buckets lh)[b := xs] ! k)"
      using m lh'(1) by (auto simp: in_items)
    then show ?thesis
      using xs inv nth_in_concat [of k "buckets lh" it]
      by (cases "k = b") (auto simp: nth_list_update table_inv_def items_def)
  qed
  then show ?thesis
    using inv b lh' xs by (auto simp: table_inv_def nth_list_update)
qed

text \<open>The matching items after one was added, replaced or taken away.\<close>

lemma matching_add:
  assumes "matching c M d = {#}" "\<forall>k. size (matching c M k) \<le> 1"
  shows "size (matching c (add_mset \<lparr>data = d, hash = v\<rparr> M) k) \<le> 1"
proof (cases "c d k = 0")
  case True
  then have "c a k = 0 \<longleftrightarrow> c a d = 0" for a using eq_trans eq_sym by blast
  then have "matching c M k = matching c M d" by (simp add: matching_def)
  then show ?thesis using assms True by (simp add: matching_def)
qed (use assms in \<open>simp add: matching_def\<close>)

lemma lh_insert_items:
  assumes ok: "ok lh" and ins: "lh_insert grants lh d = (lh', r, old)"
  shows "ok lh' \<and> old = lh_retrieve lh d \<and>
    (if r then items lh' = items lh - matching c (items lh) d + {#\<lparr>data = d, hash = h d\<rparr>#}
     else lh' = lh \<and> old = None)"
proof -
  have inv: "table_inv lh" "hash_fn lh = h" "comp_fn lh = c" and uniq: "\<forall>k. size (matching c (items lh) k) \<le> 1"
    using ok by (simp_all add: dict_inv_def)
  obtain hv b i where g: "get_next_ptr_and_hash lh d = (hv, b, i)" by (rule prod_cases3)
  note np = next_ptr [OF ok g, THEN conjunct2, THEN conjunct2, THEN conjunct2]
  have b: "b < length (buckets lh)" "b = bucket_index (h d) (num_buckets lh)" "hv = h d"
    using next_ptr [OF ok g] by simp_all
  have chain: "\<forall>it \<in> set (buckets lh ! b). bucket_index (hash it) (num_buckets lh) = b \<and> hash it = h (data it)"
    using inv b(1) nth_in_concat [OF b(1)] by (auto simp: table_inv_def items_def)
  show ?thesis
  proof (cases "deref lh b i")
    case None
    then have m: "matching c (items lh) d = {#}" using np by simp
    then have ret: "lh_retrieve lh d = None" using lh_retrieve_matching [OF ok, of d] by (cases "lh_retrieve lh d") auto
    show ?thesis
    proof (cases "grants 0 24")
      case False
      then show ?thesis using ins g None ret ok by (simp add: lh_insert_def)
    next
      case True
      define lh1 where "lh1 = lh\<lparr>buckets := (buckets lh)[b := buckets lh ! b @ [\<lparr>data = d, hash = h d\<rparr>]],
        num_items := num_items lh + 1\<rparr>"
      have lh': "lh' = lh_maybe_resize grants lh1" "r" "old = None"
        using ins g None True b(3) by (auto simp: lh_insert_def lh1_def Let_def)
      have it: "items lh1 = add_mset \<lparr>data = d, hash = h d\<rparr> (items lh)"
      proof -
        have "buckets lh1 = (buckets lh)[b := buckets lh ! b @ [\<lparr>data = d, hash = h d\<rparr>]]" by (simp add: lh1_def)
        from items_update [OF b(1) this] show ?thesis by simp
      qed
      have "table_inv lh1"
      proof (rule table_inv_update [OF inv(1) b(1)])
        show "\<forall>x \<in> set (buckets lh ! b @ [\<lparr>data = d, hash = h d\<rparr>]).
            bucket_index (hash x) (num_buckets lh) = b \<and> hash x = hash_fn lh (data x)"
          using chain b(2) inv(2) by auto
        show "num_items lh1 = of_nat (size (items lh1))"
          unfolding it using inv(1) by (simp add: lh1_def table_inv_def)
      qed (simp_all add: lh1_def)
      then show ?thesis
        using lh_maybe_resize_inv [of lh1 grants] lh' it inv m ret matching_add [OF m uniq]
        by (simp add: dict_inv_def lh1_def)
    qed
  next
    case (Some it)
    then have f: "i < length (buckets lh ! b)" "it = buckets lh ! b ! i" "matching c (items lh) d = {#it#}"
      using np by simp_all
    then have mem: "it \<in># items lh" "c (data it) d = 0"
      by (metis (mono_tags, lifting) matching_def mem_Collect_eq set_mset_filter union_single_eq_member add_0)+
    obtain M where M: "items lh = add_mset it M" using mem(1) by (metis mset_add)
    obtain C where C: "mset (buckets lh ! b) = add_mset it C"
      using f by (metis mset_add nth_mem set_mset_mset)
    have hit: "hash it = h d" using mem inv hash_eq by (auto simp: table_inv_def)
    then have y: "it\<lparr>data := d\<rparr> = \<lparr>data = d, hash = h d\<rparr>" (is "?y = _") by (cases it) simp
    have lh': "lh' = lh\<lparr>buckets := (buckets lh)[b := (buckets lh ! b)[i := ?y]]\<rparr>" "r" "old = Some (data it)"
      using ins g Some by (auto simp: lh_insert_def)
    have "mset ((buckets lh ! b)[i := ?y]) = add_mset ?y C"
      using f C by (simp add: mset_update)
    then have it: "items lh' = add_mset ?y M"
    proof -
      have "buckets lh' = (buckets lh)[b := (buckets lh ! b)[i := ?y]]" using lh'(1) by simp
      from items_update [OF b(1) this] show ?thesis
        using \<open>mset ((buckets lh ! b)[i := ?y]) = _\<close> by (simp only: C M) simp
    qed
    have "table_inv lh'"
    proof (rule table_inv_update [OF inv(1) b(1)])
      show "\<forall>x \<in> set ((buckets lh ! b)[i := ?y]). bucket_index (hash x) (num_buckets lh) = b \<and> hash x = hash_fn lh (data x)"
        using chain b inv(2) y by (auto dest!: set_update_subset_insert [THEN subsetD])
    qed (use lh'(1) it M inv in \<open>auto simp: table_inv_def\<close>)
    moreover have mM: "matching c M d = {#}" "\<forall>k. size (matching c M k) \<le> 1"
      using f(3) mem(2) uniq size_matching_mono [where c = c and M = M and it = it]
      by (simp_all add: M matching_def) (meson order_trans)
    moreover have "items lh - matching c (items lh) d = M" unfolding f(3) by (simp add: M)
    ultimately show ?thesis
      using lh' it y inv matching_add [OF mM] lh_retrieve_matching [OF ok, of d "data it"] f(3)
      by (simp add: dict_inv_def)
  qed
qed

lemma lh_delete_items:
  assumes ok: "ok lh" and del: "lh_delete grants lh d = (lh', r)"
  shows "ok lh' \<and> r = lh_retrieve lh d \<and> items lh' = items lh - matching c (items lh) d"
proof -
  have inv: "table_inv lh" "hash_fn lh = h" "comp_fn lh = c" and uniq: "\<forall>k. size (matching c (items lh) k) \<le> 1"
    using ok by (simp_all add: dict_inv_def)
  obtain hv b i where g: "get_next_ptr_and_hash lh d = (hv, b, i)" by (rule prod_cases3)
  note np = next_ptr [OF ok g, THEN conjunct2, THEN conjunct2, THEN conjunct2]
  have b: "b < length (buckets lh)" using next_ptr [OF ok g] by simp
  have chain: "\<forall>it \<in> set (buckets lh ! b). bucket_index (hash it) (num_buckets lh) = b \<and> hash it = h (data it)"
    using inv b nth_in_concat [OF b] by (auto simp: table_inv_def items_def)
  show ?thesis
  proof (cases "deref lh b i")
    case None
    then have m: "matching c (items lh) d = {#}" using np by simp
    then have "lh_retrieve lh d = None" using lh_retrieve_matching [OF ok, of d] by (cases "lh_retrieve lh d") auto
    then show ?thesis using del g None ok m by (simp add: lh_delete_def)
  next
    case (Some it)
    then have f: "i < length (buckets lh ! b)" "it = buckets lh ! b ! i" "matching c (items lh) d = {#it#}"
      using np by simp_all
    then have mem: "it \<in># items lh" "c (data it) d = 0"
      by (metis (mono_tags, lifting) matching_def mem_Collect_eq set_mset_filter union_single_eq_member add_0)+
    obtain M where M: "items lh = add_mset it M" using mem(1) by (metis mset_add)
    let ?chain = "take i (buckets lh ! b) @ drop (i + 1) (buckets lh ! b)"
    have C: "mset (buckets lh ! b) = add_mset it (mset ?chain)"
      using id_take_nth_drop [OF f(1)] f(2) by (metis Suc_eq_plus1 mset_append mset.simps(2) union_mset_add_mset_right)
    define lh1 where "lh1 = lh\<lparr>buckets := (buckets lh)[b := ?chain], num_items := num_items lh - 1\<rparr>"
    have lh': "lh' = lh_maybe_resize grants lh1" "r = Some (data it)"
      using del g Some by (auto simp: lh_delete_def lh1_def Let_def)
    have it: "items lh1 = M"
    proof -
      have "buckets lh1 = (buckets lh)[b := ?chain]" by (simp add: lh1_def)
      from items_update [OF b this] show ?thesis by (simp only: C M) simp
    qed
    have "table_inv lh1"
    proof (rule table_inv_update [OF inv(1) b])
      have "set ?chain \<subseteq> set (buckets lh ! b)" by (auto dest: in_set_takeD in_set_dropD)
      then show "\<forall>x \<in> set ?chain. bucket_index (hash x) (num_buckets lh) = b \<and> hash x = hash_fn lh (data x)"
        using chain inv(2) by (auto simp: subset_iff)
    qed (use it M inv in \<open>auto simp: lh1_def table_inv_def\<close>)
    moreover have "\<forall>k. size (matching c M k) \<le> 1"
      using uniq size_matching_mono [where c = c and M = M and it = it] unfolding M by (meson order_trans)
    ultimately show ?thesis
      using lh_maybe_resize_inv [of lh1 grants] lh' it M inv f(3) lh_retrieve_matching [OF ok, of d "data it"]
      by (simp add: dict_inv_def lh1_def)
  qed
qed

lemma lh_new_ok: "lh_new grants h c = Some lh \<Longrightarrow> ok lh \<and> items lh = {#}"
  by (auto simp: lh_new_def dict_inv_def table_inv_def items_def kMinNumBuckets_def matching_def split: if_splits)

text \<open>Look-ups after an insertion and a deletion.\<close>

lemma retrieve_insert:
  assumes "ok lh" "lh_insert grants lh d = (lh', True, old)"
  shows "lh_retrieve lh' k = (if c d k = 0 then Some d else lh_retrieve lh k)"
proof (rule option_eqI)
  fix x
  have ok': "ok lh'" and it: "items lh' = items lh - matching c (items lh) d + {#\<lparr>data = d, hash = h d\<rparr>#}"
    using lh_insert_items [OF assms] by simp_all
  have "it \<in># items lh - matching c (items lh) d \<longleftrightarrow> it \<in># items lh \<and> c (data it) d \<noteq> 0" for it
  proof -
    have "items lh - matching c (items lh) d = filter_mset (\<lambda>it. c (data it) d \<noteq> 0) (items lh)"
      unfolding matching_def by (metis add_diff_cancel_left' multiset_partition)
    then show ?thesis by simp
  qed
  then have "lh_retrieve lh' k = Some x \<longleftrightarrow>
      (x = d \<and> c d k = 0 \<or> (\<exists>it \<in># items lh. x = data it \<and> c x d \<noteq> 0 \<and> c x k = 0))"
    unfolding lh_retrieve_items [OF ok'] it by auto
  moreover have "c x d \<noteq> 0 \<longleftrightarrow> c d k \<noteq> 0" if "c x k = 0"
    using that eq_sym eq_trans by blast
  ultimately show "lh_retrieve lh' k = Some x \<longleftrightarrow> (if c d k = 0 then Some d else lh_retrieve lh k) = Some x"
    using lh_retrieve_items [OF assms(1), of k x] by auto
qed

lemma retrieve_delete:
  assumes "ok lh" "lh_delete grants lh d = (lh', r)"
  shows "lh_retrieve lh' k = (if c d k = 0 then None else lh_retrieve lh k)"
proof (rule option_eqI)
  fix x
  have ok': "ok lh'" and it: "items lh' = items lh - matching c (items lh) d"
    using lh_delete_items [OF assms] by simp_all
  have "items lh - matching c (items lh) d = filter_mset (\<lambda>it. c (data it) d \<noteq> 0) (items lh)"
    unfolding matching_def by (metis add_diff_cancel_left' multiset_partition)
  then have "lh_retrieve lh' k = Some x \<longleftrightarrow> (\<exists>it \<in># items lh. x = data it \<and> c x d \<noteq> 0 \<and> c x k = 0)"
    unfolding lh_retrieve_items [OF ok'] it by auto
  moreover have "c x d \<noteq> 0 \<longleftrightarrow> c d k \<noteq> 0" if "c x k = 0"
    using that eq_sym eq_trans by blast
  ultimately show "lh_retrieve lh' k = Some x \<longleftrightarrow> (if c d k = 0 then None else lh_retrieve lh k) = Some x"
    using lh_retrieve_items [OF assms(1), of k x] by auto
qed

end

section \<open>A client's view\<close>

text \<open>The interface of a client: what it sees of a dictionary, keyed up to an equivalence. An
  insertion may fail and then changes nothing. Any program over such a dictionary computes what
  it computes over a map.\<close>

datatype 'p dict_op = Insert 'p | Delete 'p | Retrieve 'p

datatype 'p dict_result = Inserted bool "'p option" | Deleted "'p option" | Retrieved "'p option"

locale dictionary =
  fixes ok :: "'s \<Rightarrow> bool" and eqv :: "'p \<Rightarrow> 'p \<Rightarrow> bool"
    and get :: "'s \<Rightarrow> 'p \<Rightarrow> 'p option" and ins :: "'s \<Rightarrow> 'p \<Rightarrow> 's \<times> bool \<times> 'p option"
    and del :: "'s \<Rightarrow> 'p \<Rightarrow> 's \<times> 'p option"
  assumes ins_ok: "ok s \<Longrightarrow> ins s d = (s', True, old) \<Longrightarrow> ok s' \<and> old = get s d"
    and ins_get: "ok s \<Longrightarrow> ins s d = (s', True, old) \<Longrightarrow> get s' k = (if eqv d k then Some d else get s k)"
    and ins_fail: "ok s \<Longrightarrow> ins s d = (s', False, old) \<Longrightarrow> ok s' \<and> (\<forall>k. get s' k = get s k) \<and> old = None"
    and del_ok: "ok s \<Longrightarrow> del s d = (s', old) \<Longrightarrow> ok s' \<and> old = get s d"
    and del_get: "ok s \<Longrightarrow> del s d = (s', old) \<Longrightarrow> get s' k = (if eqv d k then None else get s k)"

fun dict_run ::
  "('s \<Rightarrow> 'p \<Rightarrow> 'p option) \<Rightarrow> ('s \<Rightarrow> 'p \<Rightarrow> 's \<times> bool \<times> 'p option) \<Rightarrow> ('s \<Rightarrow> 'p \<Rightarrow> 's \<times> 'p option) \<Rightarrow>
   's \<Rightarrow> 'p dict_op list \<Rightarrow> 's \<times> 'p dict_result list" where
  "dict_run get ins del s [] = (s, [])"
| "dict_run get ins del s (Retrieve d # ops) =
     (case dict_run get ins del s ops of (s', rs) \<Rightarrow> (s', Retrieved (get s d) # rs))"
| "dict_run get ins del s (Insert d # ops) =
     (case ins s d of (s1, r, old) \<Rightarrow>
        (case dict_run get ins del s1 ops of (s', rs) \<Rightarrow> (s', Inserted r old # rs)))"
| "dict_run get ins del s (Delete d # ops) =
     (case del s d of (s1, old) \<Rightarrow>
        (case dict_run get ins del s1 ops of (s', rs) \<Rightarrow> (s', Deleted old # rs)))"

text \<open>The same program on a map: the results it allows. A failed insertion is a result.\<close>

fun map_run ::
  "('p \<Rightarrow> 'p \<Rightarrow> bool) \<Rightarrow> ('p \<Rightarrow> 'p option) \<Rightarrow> 'p dict_op list \<Rightarrow> 'p dict_result list \<Rightarrow> bool" where
  "map_run eqv m [] rs \<longleftrightarrow> rs = []"
| "map_run eqv m (Retrieve d # ops) rs \<longleftrightarrow>
     (case rs of Retrieved x # rs' \<Rightarrow> x = m d \<and> map_run eqv m ops rs' | _ \<Rightarrow> False)"
| "map_run eqv m (Insert d # ops) rs \<longleftrightarrow>
     (case rs of
        Inserted r old # rs' \<Rightarrow>
          if r then old = m d \<and> map_run eqv (\<lambda>k. if eqv d k then Some d else m k) ops rs'
          else old = None \<and> map_run eqv m ops rs'
      | _ \<Rightarrow> False)"
| "map_run eqv m (Delete d # ops) rs \<longleftrightarrow>
     (case rs of
        Deleted old # rs' \<Rightarrow> old = m d \<and> map_run eqv (\<lambda>k. if eqv d k then None else m k) ops rs'
      | _ \<Rightarrow> False)"

context dictionary
begin

lemma dict_run_map: "ok s \<Longrightarrow> dict_run get ins del s ops = (s', rs) \<Longrightarrow> map_run eqv (get s) ops rs \<and> ok s'"
proof (induction ops arbitrary: s rs)
  case (Cons a ops)
  show ?case
  proof (cases a)
    case (Retrieve d)
    obtain rs' where "dict_run get ins del s ops = (s', rs')" "rs = Retrieved (get s d) # rs'"
      using Cons.prems(2) Retrieve by (auto split: prod.splits)
    then show ?thesis using Cons.IH [OF Cons.prems(1)] Retrieve by auto
  next
    case (Insert d)
    obtain s1 r old where i: "ins s d = (s1, r, old)" by (rule prod_cases3)
    obtain rs' where r: "dict_run get ins del s1 ops = (s', rs')" "rs = Inserted r old # rs'"
      using Cons.prems(2) Insert i by (auto split: prod.splits)
    show ?thesis
    proof (cases r)
      case True
      then have s1: "ins s d = (s1, True, old)" using i by simp
      have "ok s1 \<and> old = get s d" by (rule ins_ok [OF Cons.prems(1) s1])
      moreover have "get s1 = (\<lambda>k. if eqv d k then Some d else get s k)"
        by (rule ext) (rule ins_get [OF Cons.prems(1) s1])
      ultimately show ?thesis using Cons.IH [of s1 rs'] r True Insert by simp
    next
      case False
      then have "ins s d = (s1, False, old)" using i by simp
      then have "ok s1 \<and> (\<forall>k. get s1 k = get s k) \<and> old = None" by (rule ins_fail [OF Cons.prems(1)])
      then have "ok s1" "get s1 = get s" "old = None" by auto
      then show ?thesis using Cons.IH [of s1 rs'] r False Insert by simp
    qed
  next
    case (Delete d)
    obtain s1 old where i: "del s d = (s1, old)" by (cases "del s d")
    obtain rs' where r: "dict_run get ins del s1 ops = (s', rs')" "rs = Deleted old # rs'"
      using Cons.prems(2) Delete i by (auto split: prod.splits)
    have "ok s1 \<and> old = get s d" by (rule del_ok [OF Cons.prems(1) i])
    moreover have "get s1 = (\<lambda>k. if eqv d k then None else get s k)"
      by (rule ext) (rule del_get [OF Cons.prems(1) i])
    ultimately show ?thesis using Cons.IH [of s1 rs'] r Delete by simp
  qed
qed simp

end

text \<open>A table in use: the operations are numbered, and the allocator answers each on its own.\<close>

type_synonym 'p table = "'p lhash_st \<times> nat"

definition table_get :: "'p table \<Rightarrow> 'p \<Rightarrow> 'p option" where
  "table_get t d = lh_retrieve (fst t) d"

definition table_insert :: "(nat \<Rightarrow> grants) \<Rightarrow> 'p table \<Rightarrow> 'p \<Rightarrow> 'p table \<times> bool \<times> 'p option" where
  "table_insert alloc t d =
     (case lh_insert (alloc (snd t)) (fst t) d of (lh, r, old) \<Rightarrow> ((lh, snd t + 1), r, old))"

definition table_delete :: "(nat \<Rightarrow> grants) \<Rightarrow> 'p table \<Rightarrow> 'p \<Rightarrow> 'p table \<times> 'p option" where
  "table_delete alloc t d =
     (case lh_delete (alloc (snd t)) (fst t) d of (lh, old) \<Rightarrow> ((lh, snd t + 1), old))"

sublocale lhash_key \<subseteq> dict: dictionary "\<lambda>t. dict_inv h c (fst t)" "\<lambda>a b. c a b = 0"
  table_get "table_insert alloc" "table_delete alloc"
  for alloc
proof unfold_locales
  fix s s' :: "'p table" and d k old
  assume ok: "dict_inv h c (fst s)"
  show "dict_inv h c (fst s') \<and> old = table_get s d" if "table_insert alloc s d = (s', True, old)"
    using that lh_insert_items [OF ok] by (auto simp: table_insert_def table_get_def split: prod.splits)
  show "table_get s' k = (if c d k = 0 then Some d else table_get s k)" if "table_insert alloc s d = (s', True, old)"
    using that retrieve_insert [OF ok] by (auto simp: table_insert_def table_get_def split: prod.splits)
  show "dict_inv h c (fst s') \<and> (\<forall>k. table_get s' k = table_get s k) \<and> old = None" if "table_insert alloc s d = (s', False, old)"
    using that ok by (auto simp: table_insert_def table_get_def split: prod.splits dest!: lh_insert_items [OF ok])
  show "dict_inv h c (fst s') \<and> old = table_get s d" if "table_delete alloc s d = (s', old)"
    using that lh_delete_items [OF ok] by (auto simp: table_delete_def table_get_def split: prod.splits)
  show "table_get s' k = (if c d k = 0 then None else table_get s k)" if "table_delete alloc s d = (s', old)"
    using that retrieve_delete [OF ok] by (auto simp: table_delete_def table_get_def split: prod.splits)
qed

context lhash_key
begin

lemma new_table_run:
  assumes "lh_new g h c = Some lh"
    and "dict_run table_get (table_insert alloc) (table_delete alloc) (lh, 0) ops = (t, rs)"
  shows "map_run (\<lambda>a b. c a b = 0) (\<lambda>_. None) ops rs"
proof -
  have new: "dict_inv h c lh" "items lh = {#}"
    using lh_new_ok [OF assms(1)] by simp_all
  have "table_get (lh, 0) = (\<lambda>_. None)"
    using lh_retrieve_items [OF new(1)] new(2) by (intro ext option_eqI) (simp add: table_get_def)
  then show ?thesis using dict.dict_run_map [OF _ assms(2)] new(1) by simp
qed

end

section \<open>Properties\<close>

text \<open>C7: a hash table is a map. Any sequence of \<open>lh_insert\<close>, \<open>lh_delete\<close> and \<open>lh_retrieve\<close> on a new
  table gives the results it gives on a map from keys up to equality, through every growth and
  shrinking of the bucket array and every allocation failure.\<close>

theorem lhash_refines_map:
  assumes "lhash_key h c" "lh_new g h c = Some lh"
    and "dict_run table_get (table_insert alloc) (table_delete alloc) (lh, 0) ops = (t, rs)"
  shows "map_run (\<lambda>a b. c a b = 0) (\<lambda>_. None) ops rs"
  by (rule lhash_key.new_table_run [OF assms])

text \<open>C22: the structure invariant. Every operation keeps the number of chains equal to
  \<open>num_buckets\<close>, at least 16, every item in the chain its hash selects, \<open>num_items\<close> the number of
  items and no two items equal; resizing in particular loses and duplicates nothing.\<close>

theorem lhash_invariant:
  assumes "lhash_key h c" "dict_inv h c lh"
  shows "dict_inv h c (fst (lh_insert g lh d)) \<and> dict_inv h c (fst (lh_delete g lh d)) \<and>
    dict_inv h c (lh_maybe_resize g lh) \<and> items (lh_maybe_resize g lh) = items lh"
proof -
  have "dict_inv h c (lh_maybe_resize g lh) \<and> items (lh_maybe_resize g lh) = items lh"
    using lh_maybe_resize_inv [of lh g] assms(2) by (simp add: dict_inv_def)
  moreover obtain lh1 r1 old1 where i: "lh_insert g lh d = (lh1, r1, old1)" by (rule prod_cases3)
  moreover obtain lh2 r2 where e: "lh_delete g lh d = (lh2, r2)" by (cases "lh_delete g lh d")
  ultimately show ?thesis
    using lhash_key.lh_insert_items [OF assms i] lhash_key.lh_delete_items [OF assms e] by simp
qed

text \<open>\<open>lh_doall_arg\<close> calls its function on every element exactly once, leaves the table's contents
  alone and restores \<open>callback_depth\<close>, unless that counter is saturated.\<close>

lemma lh_doall_visits_all:
  assumes "table_inv lh" "callback_depth lh < UINT_MAX - 1"
  shows "\<exists>xs. mset xs = image_mset data (items lh) \<and>
    snd (lh_doall_arg g lh f a) = foldl (\<lambda>a x. f x a) a xs \<and>
    table_inv (fst (lh_doall_arg g lh f a)) \<and> items (fst (lh_doall_arg g lh f a)) = items lh \<and>
    callback_depth (fst (lh_doall_arg g lh f a)) = callback_depth lh"
proof -
  let ?lh = "lh\<lparr>callback_depth := callback_depth lh\<rparr>"
  have lt: "callback_depth lh < UINT_MAX" "callback_depth lh + 1 < UINT_MAX"
    using assms(2) by (auto simp: UINT_MAX_def word_less_nat_alt unat_word_ariths)
  then have "lh_doall_arg g lh f a =
      (lh_maybe_resize g lh, foldl (\<lambda>a x. f x a) a (map data (concat (buckets lh))))"
    by (simp add: lh_doall_arg_def Let_def foldl_map)
  then show ?thesis
    using lh_maybe_resize_inv [OF assms(1), of g]
    by (intro exI [of _ "map data (concat (buckets lh))"]) (simp add: items_def)
qed

end
