(* ===== verification/Crypto_Refcount.thy ===== *)
theory Crypto_Refcount
  imports Prelude
begin

text \<open>
  Reference counts, \<^verbatim>\<open>ios/Pods/BoringSSL-GRPC/src/crypto/refcount_c11.c\<close>: any number of threads
  in the compare-and-exchange loops of \<open>CRYPTO_refcount_inc\<close> and
  \<open>CRYPTO_refcount_dec_and_test_zero\<close> on one counter. A step is one access to the counter or one
  return. \<open>atomic_compare_exchange_weak\<close> may fail although the values agree, and stores the value
  it saw into \<open>expected\<close>. \<open>held\<close> is a ghost field: the references a thread owns.
  First the loops are shown to do what atomic operations would do, then that a count used with
  ownership is the number of references, and that every call can finish on its own.
\<close>

section \<open>Threads\<close>

definition CRYPTO_REFCOUNT_MAX :: u32 where
  "CRYPTO_REFCOUNT_MAX = 0xffffffff"

datatype refcount_op = Inc | Dec

text \<open>Outside a call, before \<open>atomic_load\<close>, and in the loop with the local \<open>expected\<close>.\<close>

datatype pc = Idle | Load refcount_op | Loop refcount_op u32

record thread =
  pc :: pc
  held :: nat

record refcount =
  count :: u32
  threads :: "thread list"
  aborted :: bool

datatype event = Tau | Call nat refcount_op | Return nat refcount_op bool

definition goto :: "nat \<Rightarrow> pc \<Rightarrow> refcount \<Rightarrow> refcount" where
  "goto i p s = s\<lparr>threads := (threads s)[i := (threads s ! i)\<lparr>pc := p\<rparr>]\<rparr>"

definition give :: "nat \<Rightarrow> nat \<Rightarrow> refcount \<Rightarrow> refcount" where
  "give i n s = s\<lparr>threads := (threads s)[i := (threads s ! i)\<lparr>held := n\<rparr>]\<rparr>"

text \<open>A decrement gives up its reference when it is called, an increment has one when it returns.\<close>

definition call :: "nat \<Rightarrow> refcount_op \<Rightarrow> refcount \<Rightarrow> refcount" where
  "call i op s = goto i (Load op) (if op = Dec then give i (held (threads s ! i) - 1) s else s)"

definition return :: "nat \<Rightarrow> refcount_op \<Rightarrow> refcount \<Rightarrow> refcount" where
  "return i op s = goto i Idle (if op = Inc then give i (held (threads s ! i) + 1) s else s)"

definition new_value :: "refcount_op \<Rightarrow> u32 \<Rightarrow> u32" where
  "new_value op e = (case op of Inc \<Rightarrow> e + 1 | Dec \<Rightarrow> e - 1)"

text \<open>The loop goes on to the exchange when \<open>expected\<close> is neither saturated nor, in a decrement, 0.\<close>

definition exchanges :: "refcount_op \<Rightarrow> u32 \<Rightarrow> bool" where
  "exchanges op e \<longleftrightarrow> e \<noteq> CRYPTO_REFCOUNT_MAX \<and> (op = Dec \<longrightarrow> e \<noteq> 0)"

inductive refcount_step :: "refcount \<Rightarrow> event \<Rightarrow> refcount \<Rightarrow> bool" where
  called: "\<not> aborted s \<Longrightarrow> i < length (threads s) \<Longrightarrow> pc (threads s ! i) = Idle \<Longrightarrow>
     refcount_step s (Call i op) (call i op s)"
| load: "\<not> aborted s \<Longrightarrow> i < length (threads s) \<Longrightarrow> pc (threads s ! i) = Load op \<Longrightarrow>
     refcount_step s Tau (goto i (Loop op (count s)) s)"
| saturated: "\<not> aborted s \<Longrightarrow> i < length (threads s) \<Longrightarrow> pc (threads s ! i) = Loop op CRYPTO_REFCOUNT_MAX \<Longrightarrow>
     refcount_step s (Return i op False) (return i op s)"
| zero_abort: "\<not> aborted s \<Longrightarrow> i < length (threads s) \<Longrightarrow> pc (threads s ! i) = Loop Dec 0 \<Longrightarrow>
     refcount_step s Tau (s\<lparr>aborted := True\<rparr>)"
| exchanged: "\<not> aborted s \<Longrightarrow> i < length (threads s) \<Longrightarrow> pc (threads s ! i) = Loop op e \<Longrightarrow> exchanges op e \<Longrightarrow>
     count s = e \<Longrightarrow>
     refcount_step s (Return i op (op = Dec \<and> new_value op e = 0)) (return i op (s\<lparr>count := new_value op e\<rparr>))"
| failed: "\<not> aborted s \<Longrightarrow> i < length (threads s) \<Longrightarrow> pc (threads s ! i) = Loop op e \<Longrightarrow> exchanges op e \<Longrightarrow>
     refcount_step s Tau (goto i (Loop op (count s)) s)"

code_pred refcount_step .

text \<open>Runs whose steps satisfy \<open>ok\<close>, with the events they showed.\<close>

inductive refcount_run :: "(refcount \<Rightarrow> event \<Rightarrow> bool) \<Rightarrow> refcount \<Rightarrow> event list \<Rightarrow> refcount \<Rightarrow> bool"
  for ok :: "refcount \<Rightarrow> event \<Rightarrow> bool" and s0 :: refcount where
  start: "refcount_run ok s0 [] s0"
| step: "refcount_run ok s0 tr s \<Longrightarrow> ok s e \<Longrightarrow> refcount_step s e s' \<Longrightarrow> refcount_run ok s0 (tr @ [e]) s'"

definition idle :: "refcount \<Rightarrow> bool" where
  "idle s \<longleftrightarrow> \<not> aborted s \<and> (\<forall>t \<in> set (threads s). pc t = Idle)"

section \<open>Atomicity\<close>

text \<open>The sequential specification: the operations as one step, as the comments in \<^verbatim>\<open>internal.h\<close> describe them: a saturated
  count stays, and decrementing zero, \<open>None\<close>, crashes the address space.\<close>

definition refcount_inc :: "u32 \<Rightarrow> u32" where
  "refcount_inc c = (if c = CRYPTO_REFCOUNT_MAX then c else c + 1)"

definition refcount_dec_and_test_zero :: "u32 \<Rightarrow> (u32 \<times> bool) option" where
  "refcount_dec_and_test_zero c =
     (if c = 0 then None
      else if c = CRYPTO_REFCOUNT_MAX then Some (c, False)
      else Some (c - 1, c - 1 = 0))"

fun atomic_event :: "u32 \<Rightarrow> event \<Rightarrow> u32 option" where
  "atomic_event c (Return i Inc r) = (if r then None else Some (refcount_inc c))"
| "atomic_event c (Return i Dec r) =
     (case refcount_dec_and_test_zero c of
        None \<Rightarrow> None
      | Some (c', z) \<Rightarrow> if r = z then Some c' else None)"
| "atomic_event c _ = Some c"

fun atomic_run :: "u32 \<Rightarrow> event list \<Rightarrow> u32 option" where
  "atomic_run c [] = Some c"
| "atomic_run c (e # tr) = Option.bind (atomic_event c e) (\<lambda>c. atomic_run c tr)"

lemma atomic_run_snoc: "atomic_run c (tr @ [e]) = Option.bind (atomic_run c tr) (\<lambda>c. atomic_event c e)"
  by (induction tr arbitrary: c) (auto split: Option.bind_split)

text \<open>Threads after a step of thread \<open>i\<close>.\<close>

lemma thread_simps [simp]:
  "threads (goto i p s) = (threads s)[i := (threads s ! i)\<lparr>pc := p\<rparr>]" "count (goto i p s) = count s"
  "aborted (goto i p s) = aborted s"
  "threads (give i n s) = (threads s)[i := (threads s ! i)\<lparr>held := n\<rparr>]" "count (give i n s) = count s"
  "aborted (give i n s) = aborted s"
  by (simp_all add: goto_def give_def)

lemma thread_update:
  "T\<lparr>pc := p\<rparr> = \<lparr>pc = p, held = held T\<rparr>" "T\<lparr>held := n, pc := p\<rparr> = \<lparr>pc = p, held = n\<rparr>"
  by (cases T; simp)+

lemma call_simps [simp]:
  "count (call i op s) = count s" "aborted (call i op s) = aborted s"
  "i < length (threads s) \<Longrightarrow> threads (call i op s) =
     (threads s)[i := \<lparr>pc = Load op, held = (if op = Dec then held (threads s ! i) - 1 else held (threads s ! i))\<rparr>]"
  by (simp_all add: call_def thread_update)

lemma return_simps [simp]:
  "count (return i op s) = count s" "aborted (return i op s) = aborted s"
  "i < length (threads s) \<Longrightarrow> threads (return i op s) =
     (threads s)[i := \<lparr>pc = Idle, held = (if op = Inc then held (threads s ! i) + 1 else held (threads s ! i))\<rparr>]"
  by (simp_all add: return_def thread_update)

text \<open>A thread that has seen the saturated value can rely on it.\<close>

definition saturation_seen :: "refcount \<Rightarrow> bool" where
  "saturation_seen s \<longleftrightarrow> (\<forall>t \<in> set (threads s). \<forall>op. pc t = Loop op CRYPTO_REFCOUNT_MAX \<longrightarrow> count s = CRYPTO_REFCOUNT_MAX)"

lemma ball_update: "\<forall>t \<in> set xs. P t \<Longrightarrow> P x \<Longrightarrow> \<forall>t \<in> set (xs[i := x]). P t"
  using set_update_subset_insert [of xs i x] by blast

lemma ball_nth: "\<forall>t \<in> set xs. P t \<Longrightarrow> i < length xs \<Longrightarrow> P (xs ! i)"
  by simp

lemma refcount_step_atomic:
  assumes "refcount_step s e s'" "saturation_seen s"
  shows "saturation_seen s' \<and> atomic_event (count s) e = Some (count s')"
  using assms
proof (induction rule: refcount_step.induct)
  case (called s i op)
  then show ?case by (auto simp: saturation_seen_def dest!: set_update_subset_insert [THEN subsetD])
next
  case (load s i op)
  then show ?case by (auto simp: saturation_seen_def thread_update dest!: set_update_subset_insert [THEN subsetD])
next
  case (saturated s i op)
  then have "count s = CRYPTO_REFCOUNT_MAX" using ball_nth [OF _ saturated(2)] by (auto simp: saturation_seen_def)
  then show ?case
    using saturated
    by (cases op) (auto simp: saturation_seen_def refcount_inc_def refcount_dec_and_test_zero_def CRYPTO_REFCOUNT_MAX_def)
next
  case (exchanged s i op e)
  then have ne: "count s \<noteq> CRYPTO_REFCOUNT_MAX" by (simp add: exchanges_def)
  then have "\<forall>t \<in> set (threads s). \<forall>op. pc t \<noteq> Loop op CRYPTO_REFCOUNT_MAX"
    using exchanged by (auto simp: saturation_seen_def)
  then have "\<forall>t \<in> set (threads (return i op (s\<lparr>count := new_value op e\<rparr>))). \<forall>op. pc t \<noteq> Loop op CRYPTO_REFCOUNT_MAX"
    using exchanged(2) by (auto dest!: set_update_subset_insert [THEN subsetD])
  then show ?case using exchanged ne 
    by (cases op) (auto simp: saturation_seen_def exchanges_def new_value_def refcount_inc_def refcount_dec_and_test_zero_def)
next
  case (failed s i op e)
  then show ?case by (auto simp: saturation_seen_def thread_update dest!: set_update_subset_insert [THEN subsetD])
qed (auto simp: saturation_seen_def)

lemma refcount_run_atomic:
  "refcount_run ok s0 tr s \<Longrightarrow> saturation_seen s0 \<Longrightarrow> saturation_seen s \<and> atomic_run (count s0) tr = Some (count s)"
proof (induction rule: refcount_run.induct)
  case (step tr s e s')
  then show ?case using refcount_step_atomic [OF step(3)] by (simp add: atomic_run_snoc)
qed simp

text \<open>C9: the compare-and-exchange loops are atomic. However the threads interleave and the exchanges
  fail, the calls return in an order in which the atomic increment and decrement, done one after the
  other, give the same results and leave the same count.\<close>

theorem refcount_linearizable:
  assumes "refcount_run ok s0 tr s" "idle s0"
  shows "atomic_run (count s0) tr = Some (count s)"
  using refcount_run_atomic [OF assms(1)] assms(2) by (auto simp: saturation_seen_def idle_def)

section \<open>Ownership\<close>

text \<open>A thread calls either operation only while it holds a reference.\<close>

definition owned :: "refcount \<Rightarrow> event \<Rightarrow> bool" where
  "owned s e \<longleftrightarrow> (case e of Call i op \<Rightarrow> 0 < held (threads s ! i) | _ \<Rightarrow> True)"

text \<open>The references that exist: a decrement's is gone only when the exchange succeeds.\<close>

definition thread_references :: "thread \<Rightarrow> nat" where
  "thread_references t = held t + (case pc t of Idle \<Rightarrow> 0 | Load op \<Rightarrow> of_bool (op = Dec) | Loop op e \<Rightarrow> of_bool (op = Dec))"

definition total_references :: "refcount \<Rightarrow> nat" where
  "total_references s = sum_list (map thread_references (threads s))"

definition zero_returns :: "event list \<Rightarrow> nat" where
  "zero_returns tr = length (filter (\<lambda>e. case e of Return i Dec r \<Rightarrow> r | _ \<Rightarrow> False) tr)"

definition thread_ok :: "thread \<Rightarrow> bool" where
  "thread_ok t \<longleftrightarrow>
     (case pc t of
        Idle \<Rightarrow> True
      | Load op \<Rightarrow> op = Inc \<longrightarrow> 0 < held t
      | Loop op e \<Rightarrow> if op = Inc then 0 < held t else e \<noteq> 0)"

lemma thread_ok_Idle [simp]: "thread_ok \<lparr>pc = Idle, held = n\<rparr>"
  by (simp add: thread_ok_def)

text \<open>\<open>z\<close> counts the calls that reported zero.\<close>

definition ownership :: "nat \<Rightarrow> refcount \<Rightarrow> bool" where
  "ownership z s \<longleftrightarrow>
     \<not> aborted s \<and> (\<forall>t \<in> set (threads s). thread_ok t) \<and> saturation_seen s \<and>
     (if count s = CRYPTO_REFCOUNT_MAX then z = 0
      else unat (count s) = total_references s \<and> z = of_bool (total_references s = 0))"

lemma unat_increment: "e \<noteq> CRYPTO_REFCOUNT_MAX \<Longrightarrow> unat (e + 1) = unat e + 1"
proof -
  assume "e \<noteq> CRYPTO_REFCOUNT_MAX"
  then have "1 + e \<noteq> 0" by (auto simp: CRYPTO_REFCOUNT_MAX_def add_eq_0_iff)
  then show ?thesis using unatSuc [of e] by (simp add: add.commute)
qed

lemma total_references_update:
  assumes "i < length (threads s)" "threads s' = (threads s)[i := t]"
  shows "total_references s' + thread_references (threads s ! i) = total_references s + thread_references t"
  using assms member_le_sum_list [of "thread_references (threads s ! i)" "map thread_references (threads s)"]
  by (simp add: total_references_def map_update sum_list_update)

lemma references_le: "i < length (threads s) \<Longrightarrow> thread_references (threads s ! i) \<le> total_references s"
  unfolding total_references_def by (rule member_le_sum_list) simp_all

lemma ownership_counted:
  assumes "ownership z s" "i < length (threads s)" "0 < thread_references (threads s ! i)"
  shows "count s \<noteq> 0 \<and> z = 0"
  using assms references_le [of i s]
  by (cases "count s = CRYPTO_REFCOUNT_MAX") (auto simp: ownership_def CRYPTO_REFCOUNT_MAX_def)

lemma ownership_threads:
  assumes "ownership z s" "i < length (threads s)" "threads s' = (threads s)[i := t]" "thread_ok t"
    "thread_references t = thread_references (threads s ! i)" "count s' = count s" "aborted s' = aborted s" "saturation_seen s'"
  shows "ownership z s'"
proof -
  have "total_references s' = total_references s"
    using total_references_update [OF assms(2,3)] assms(5) by simp
  moreover have "\<forall>t \<in> set (threads s'). thread_ok t"
    unfolding assms(3) by (rule ball_update) (use assms in \<open>auto simp: ownership_def\<close>)
  ultimately show ?thesis using assms by (simp add: ownership_def)
qed

lemma ownership_step:
  assumes "refcount_step s e s'" "ownership z s" "owned s e"
  shows "ownership (z + zero_returns [e]) s'"
proof -
  have seen: "saturation_seen s'" using refcount_step_atomic [OF assms(1)] assms(2) by (simp add: ownership_def)
  from assms(1) show ?thesis
  proof cases
    case (called i op)
    then have "threads s' = (threads s)[i := \<lparr>pc = Load op, held = (if op = Dec then held (threads s ! i) - 1 else held (threads s ! i))\<rparr>]"
      by simp
    from ownership_threads [OF assms(2) called(4) this] show ?thesis
      using called assms(3) seen by (cases op) (auto simp: thread_ok_def thread_references_def owned_def zero_returns_def)
  next
    case (load i op)
    have th: "threads s' = (threads s)[i := \<lparr>pc = Loop op (count s), held = held (threads s ! i)\<rparr>]"
      using load by (simp add: thread_update)
    have "thread_ok (threads s ! i)" using assms(2) load by (simp add: ownership_def)
    moreover have "op = Dec \<longrightarrow> count s \<noteq> 0"
      using ownership_counted [OF assms(2) load(4)] load by (auto simp: thread_references_def)
    ultimately show ?thesis
      using ownership_threads [OF assms(2) load(4) th] load seen
      by (cases op) (auto simp: thread_ok_def thread_references_def zero_returns_def)
  next
    case (failed i op v)
    have th: "threads s' = (threads s)[i := \<lparr>pc = Loop op (count s), held = held (threads s ! i)\<rparr>]"
      using failed by (simp add: thread_update)
    have "thread_ok (threads s ! i)" using assms(2) failed by (simp add: ownership_def)
    moreover have "op = Dec \<longrightarrow> count s \<noteq> 0"
      using ownership_counted [OF assms(2) failed(4)] failed by (auto simp: thread_references_def)
    ultimately show ?thesis
      using ownership_threads [OF assms(2) failed(4) th] failed seen
      by (cases op) (auto simp: thread_ok_def thread_references_def zero_returns_def)
  next
    case (saturated i op)
    then have m: "count s = CRYPTO_REFCOUNT_MAX"
      using assms(2) nth_mem [OF saturated(4)] by (auto simp: ownership_def saturation_seen_def)
    have th: "threads s' = (threads s)[i := \<lparr>pc = Idle, held = (if op = Inc then held (threads s ! i) + 1 else held (threads s ! i))\<rparr>]"
      using saturated by simp
    have "\<forall>t \<in> set (threads s'). thread_ok t"
      unfolding th by (rule ball_update) (use assms(2) in \<open>simp_all add: ownership_def\<close>)
    then show ?thesis using saturated m assms(2) seen by (cases op) (auto simp: ownership_def zero_returns_def)
  next
    case (zero_abort i)
    then have "thread_ok (threads s ! i)" using assms(2) by (simp add: ownership_def)
    then show ?thesis using zero_abort by (simp add: thread_ok_def)
  next
    case (exchanged i op v)
    have ok: "thread_ok (threads s ! i)" using assms(2) exchanged by (simp add: ownership_def)
    then have "0 < thread_references (threads s ! i)"
      using exchanged by (cases op) (auto simp: thread_ok_def thread_references_def)
    from ownership_counted [OF assms(2) exchanged(4) this] have z: "count s \<noteq> 0" "z = 0" by simp_all
    have cnt: "unat (count s) = total_references s" "count s \<noteq> CRYPTO_REFCOUNT_MAX"
      using assms(2) exchanged by (auto simp: ownership_def exchanges_def)
    let ?t = "\<lparr>pc = Idle, held = (if op = Inc then held (threads s ! i) + 1 else held (threads s ! i))\<rparr>"
    have th: "threads s' = (threads s)[i := ?t]" using exchanged by simp
    have "\<forall>t \<in> set (threads s'). thread_ok t"
      unfolding th by (rule ball_update) (use assms(2) in \<open>auto simp: ownership_def thread_ok_def\<close>)
    moreover have refs: "unat (count s') = total_references s'"
      using total_references_update [OF exchanged(4) th] cnt exchanged z(1)
      by (cases op) (auto simp: thread_references_def new_value_def unat_minus_one unat_increment)
    moreover have "zero_returns [e] = of_bool (count s' = 0)"
    proof (cases op)
      case Inc
      then have "0 < total_references s'"
        using total_references_update [OF exchanged(4) th] exchanged(5) by (simp add: thread_references_def)
      then have "count s' \<noteq> 0" using refs by auto
      then show ?thesis using exchanged Inc by (simp add: zero_returns_def)
    qed (use exchanged in \<open>simp add: zero_returns_def\<close>)
    moreover have "total_references s' = 0 \<longleftrightarrow> count s' = 0" by (simp add: unat_eq_0 flip: refs)
    moreover have "\<not> aborted s'" using exchanged by simp
    ultimately show ?thesis
      using z(2) seen by (simp add: ownership_def CRYPTO_REFCOUNT_MAX_def)
  qed
qed

lemma zero_returns_append: "zero_returns (tr @ tr') = zero_returns tr + zero_returns tr'"
  by (simp add: zero_returns_def)

lemma ownership_run:
  "refcount_run owned s0 tr s \<Longrightarrow> ownership 0 s0 \<Longrightarrow> ownership (zero_returns tr) s"
proof (induction rule: refcount_run.induct)
  case start
  then show ?case by (simp add: zero_returns_def)
next
  case (step tr s e s')
  then show ?case using ownership_step [OF step(3)] by (simp add: zero_returns_append)
qed

lemma idle_ownership:
  assumes "idle s" "0 < total_references s" "unat (count s) = total_references s"
  shows "ownership 0 s"
  using assms by (auto simp: ownership_def idle_def thread_ok_def saturation_seen_def)

text \<open>C24: when every thread calls the operations only on references it holds, no call aborts, an
  unsaturated count is exactly the number of references that exist, and
  \<open>CRYPTO_refcount_dec_and_test_zero\<close> reports zero once, to the call that gave up the last
  reference; a saturated count never reports it.\<close>

theorem refcount_counts_references:
  assumes "refcount_run owned s0 tr s" "idle s0"
    and "0 < total_references s0" "unat (count s0) = total_references s0"
  shows "\<not> aborted s \<and>
    (if count s = CRYPTO_REFCOUNT_MAX then zero_returns tr = 0
     else unat (count s) = total_references s \<and> zero_returns tr = of_bool (total_references s = 0))"
  using ownership_run [OF assms(1) idle_ownership [OF assms(2-)]] by (simp add: ownership_def)

section \<open>Progress\<close>

text \<open>C26: a call cannot be blocked: from any state, with the other threads stopped anywhere, it
  returns (or aborts the program) within two steps of its own, provided the weak exchange does not
  fail without cause.\<close>

theorem refcount_solo_returns:
  assumes "\<not> aborted s" "i < length (threads s)" "pc (threads s ! i) \<noteq> Idle"
  shows "\<exists>tr s'. refcount_run (\<lambda>_ _. True) s tr s' \<and> length tr \<le> 2 \<and>
    (aborted s' \<or> pc (threads s' ! i) = Idle) \<and>
    (\<forall>j. j \<noteq> i \<longrightarrow> threads s' ! j = threads s ! j)"
proof -
  let ?run = "refcount_run (\<lambda>_ _. True)"
  have last: "\<exists>e s'. refcount_step s1 e s' \<and> (aborted s' \<or> pc (threads s' ! i) = Idle) \<and>
      (\<forall>j. j \<noteq> i \<longrightarrow> threads s' ! j = threads s ! j)"
    if s1: "\<not> aborted s1" "i < length (threads s1)" "pc (threads s1 ! i) = Loop op e" "\<forall>j. j \<noteq> i \<longrightarrow> threads s1 ! j = threads s ! j"
      "exchanges op e \<longrightarrow> count s1 = e" for s1 op e
  proof (cases "exchanges op e")
    case True
    show ?thesis
      by (rule exI, rule exI, rule conjI, rule exchanged [OF s1(1-3) True])
        (use s1 True in simp_all)
  next
    case False
    then consider "e = CRYPTO_REFCOUNT_MAX" | "op = Dec" "e = 0" by (auto simp: exchanges_def)
    then show ?thesis
    proof cases
      case 1
      show ?thesis
        by (rule exI, rule exI, rule conjI, rule saturated [OF s1(1,2)]) (use s1 1 in simp_all)
    next
      case 2
      show ?thesis
        by (rule exI, rule exI, rule conjI, rule zero_abort [OF s1(1,2)]) (use s1 2 in simp_all)
    qed
  qed
  have one: "?run s [e] s'" if "refcount_step s e s'" for e s'
    using refcount_run.step [OF refcount_run.start _ that, of "\<lambda>_ _. True"] by simp
  have two: "?run s [e, e'] s''" if "refcount_step s e s'" "refcount_step s' e' s''" for e s' e' s''
    using refcount_run.step [OF one [OF that(1)] _ that(2)] by simp
  show ?thesis
  proof (cases "\<exists>op e. pc (threads s ! i) = Loop op e \<and> (exchanges op e \<longrightarrow> count s = e)")
    case True
    then obtain e s' where e: "refcount_step s e s'" "aborted s' \<or> pc (threads s' ! i) = Idle" "\<forall>j. j \<noteq> i \<longrightarrow> threads s' ! j = threads s ! j"
      using last [of s] assms(1,2) by blast
    show ?thesis by (rule exI [of _ "[e]"], rule exI [of _ s']) (simp add: one [OF e(1)] e(2,3))
  next
    case False
    then obtain op where s1: "refcount_step s Tau (goto i (Loop op (count s)) s)"
      using assms load [OF assms(1,2)] failed [OF assms(1,2)] by (cases "pc (threads s ! i)") auto
    obtain e s' where e: "refcount_step (goto i (Loop op (count s)) s) e s'"
        "aborted s' \<or> pc (threads s' ! i) = Idle" "\<forall>j. j \<noteq> i \<longrightarrow> threads s' ! j = threads s ! j"
      using last [of "goto i (Loop op (count s)) s" op "count s"] assms(1,2) by auto
    show ?thesis by (rule exI [of _ "[Tau, e]"], rule exI [of _ s']) (simp add: two [OF s1 e(1)] e(2,3))
  qed
qed

section \<open>An interleaving\<close>

text \<open>Two threads give up the two references; the second one's first exchange comes too late.\<close>

definition two_threads :: "u32 \<Rightarrow> thread \<Rightarrow> thread \<Rightarrow> refcount" where
  "two_threads c t u = \<lparr>count = c, threads = [t, u], aborted = False\<rparr>"

definition race :: "event list" where
  "race = [Call 0 Dec, Call 1 Dec, Tau, Tau, Return 0 Dec False, Tau, Return 1 Dec True]"

lemma race_run:
  "refcount_run owned (two_threads 2 \<lparr>pc = Idle, held = 1\<rparr> \<lparr>pc = Idle, held = 1\<rparr>) race
     (two_threads 0 \<lparr>pc = Idle, held = 0\<rparr> \<lparr>pc = Idle, held = 0\<rparr>)"
proof -
  let ?I = "\<lambda>n. \<lparr>pc = Idle, held = n\<rparr>" and ?P = "\<lambda>p. \<lparr>pc = p, held = 0\<rparr>"
  let ?s0 = "two_threads 2 (?I 1) (?I 1)"
  let ?s1 = "two_threads 2 (?P (Load Dec)) (?I 1)"
  let ?s2 = "two_threads 2 (?P (Load Dec)) (?P (Load Dec))"
  let ?s3 = "two_threads 2 (?P (Loop Dec 2)) (?P (Load Dec))"
  let ?s4 = "two_threads 2 (?P (Loop Dec 2)) (?P (Loop Dec 2))"
  let ?s5 = "two_threads 1 (?I 0) (?P (Loop Dec 2))"
  let ?s6 = "two_threads 1 (?I 0) (?P (Loop Dec 1))"
  let ?s7 = "two_threads 0 (?I 0) (?I 0)"
  note defs = two_threads_def call_def return_def goto_def give_def exchanges_def new_value_def
    CRYPTO_REFCOUNT_MAX_def owned_def
  have 1: "refcount_run owned ?s0 ([] @ [Call 0 Dec]) ?s1"
    by (rule refcount_run.step [OF refcount_run.start]) (use called [of ?s0 0 Dec] in \<open>simp_all add: defs\<close>)
  have 2: "refcount_run owned ?s0 (([] @ [Call 0 Dec]) @ [Call 1 Dec]) ?s2"
    by (rule refcount_run.step [OF 1]) (use called [of ?s1 1 Dec] in \<open>simp_all add: defs\<close>)
  have 3: "refcount_run owned ?s0 ((([] @ [Call 0 Dec]) @ [Call 1 Dec]) @ [Tau]) ?s3"
    by (rule refcount_run.step [OF 2]) (use load [of ?s2 0 Dec] in \<open>simp_all add: defs\<close>)
  have 4: "refcount_run owned ?s0 (((([] @ [Call 0 Dec]) @ [Call 1 Dec]) @ [Tau]) @ [Tau]) ?s4"
    by (rule refcount_run.step [OF 3]) (use load [of ?s3 1 Dec] in \<open>simp_all add: defs\<close>)
  have 5: "refcount_run owned ?s0 ((((([] @ [Call 0 Dec]) @ [Call 1 Dec]) @ [Tau]) @ [Tau]) @ [Return 0 Dec False]) ?s5"
    by (rule refcount_run.step [OF 4]) (use exchanged [of ?s4 0 Dec 2] in \<open>simp_all add: defs\<close>)
  have 6: "refcount_run owned ?s0 (((((([] @ [Call 0 Dec]) @ [Call 1 Dec]) @ [Tau]) @ [Tau]) @ [Return 0 Dec False]) @ [Tau]) ?s6"
    by (rule refcount_run.step [OF 5]) (use failed [of ?s5 1 Dec 2] in \<open>simp_all add: defs\<close>)
  have 7: "refcount_run owned ?s0 ((((((([] @ [Call 0 Dec]) @ [Call 1 Dec]) @ [Tau]) @ [Tau]) @ [Return 0 Dec False]) @ [Tau]) @ [Return 1 Dec True]) ?s7"
    by (rule refcount_run.step [OF 6]) (use exchanged [of ?s6 1 Dec 1] in \<open>simp_all add: defs\<close>)
  show ?thesis using 7 by (simp add: race_def)
qed

lemma race_idle: "idle (two_threads 2 \<lparr>pc = Idle, held = 1\<rparr> \<lparr>pc = Idle, held = 1\<rparr>)"
  by (simp add: idle_def two_threads_def)

theorem refcount_linearizable_witness: "atomic_run 2 race = Some 0"
  using refcount_linearizable [OF race_run race_idle] by (simp add: two_threads_def)

theorem refcount_counts_references_witness: "zero_returns race = 1"
  using refcount_counts_references [OF race_run race_idle]
  by (simp add: two_threads_def total_references_def thread_references_def CRYPTO_REFCOUNT_MAX_def)

theorem refcount_solo_returns_witness:
  "\<exists>tr s'. refcount_run (\<lambda>_ _. True) (two_threads 1 \<lparr>pc = Idle, held = 0\<rparr> \<lparr>pc = Loop Dec 2, held = 0\<rparr>) tr s' \<and>
    length tr \<le> 2 \<and> (aborted s' \<or> pc (threads s' ! 1) = Idle)"
  using refcount_solo_returns [of "two_threads 1 \<lparr>pc = Idle, held = 0\<rparr> \<lparr>pc = Loop Dec 2, held = 0\<rparr>" 1]
  by (simp add: two_threads_def) blast

end
