(* ===== verification/Crypto_Pool.thy ===== *)
theory Crypto_Pool
  imports Crypto_Mem Crypto_Lhash Crypto_Refcount
begin

text \<open>
  Pools of shared immutable buffers, \<^verbatim>\<open>ios/Pods/BoringSSL-GRPC/src/crypto/pool/pool.c\<close>. The pool's
  table (\<open>Crypto_Lhash\<close>) holds pointers to buffers and looks them up by content: a \<open>buffer_ptr\<close>
  is such a pointer with the bytes it leads to, which never change while it is in the table; the
  structures themselves are in a heap. The count of a buffer is changed by the atomic operations of
  \<open>Crypto_Refcount\<close>, and each section under the pool's lock is one step, so
  \<open>CRYPTO_BUFFER_new\<close> is two of them with an allocation between. \<open>None\<close> is a fault: the use of a
  freed buffer, a failed assertion or the abort of a count.
\<close>

section \<open>The key of the pool's table\<close>

record buffer_ptr =
  self :: addr
  bytes :: "byte list"

definition CRYPTO_BUFFER_hash :: "buffer_ptr \<Rightarrow> u32" where
  "CRYPTO_BUFFER_hash buf = OPENSSL_hash32 (bytes buf)"

definition CRYPTO_BUFFER_cmp :: "buffer_ptr \<Rightarrow> buffer_ptr \<Rightarrow> int" where
  "CRYPTO_BUFFER_cmp a b =
     (if length (bytes a) \<noteq> length (bytes b) then 1 else memcmp (bytes a) (bytes b))"

lemma CRYPTO_BUFFER_cmp_0: "CRYPTO_BUFFER_cmp a b = 0 \<longleftrightarrow> bytes a = bytes b"
  by (auto simp: CRYPTO_BUFFER_cmp_def memcmp_0)

interpretation buf_key: lhash_key CRYPTO_BUFFER_hash CRYPTO_BUFFER_cmp
  by unfold_locales (simp_all add: CRYPTO_BUFFER_cmp_0 CRYPTO_BUFFER_hash_def)

section \<open>The table at work\<close>

theorem lhash_refines_map_witness:
  "map_run (\<lambda>a b. CRYPTO_BUFFER_cmp a b = 0) (\<lambda>_. None)
     [Insert \<lparr>self = 1, bytes = [5]\<rparr>, Insert \<lparr>self = 2, bytes = [5]\<rparr>, Retrieve \<lparr>self = 0, bytes = [5]\<rparr>]
     [Inserted True None, Inserted True (Some \<lparr>self = 1, bytes = [5]\<rparr>), Retrieved (Some \<lparr>self = 2, bytes = [5]\<rparr>)]"
proof -
  let ?ops = "[Insert \<lparr>self = 1, bytes = [5]\<rparr>, Insert \<lparr>self = 2, bytes = [5]\<rparr>, Retrieve \<lparr>self = 0, bytes = [5]\<rparr>]"
  let ?rs = "[Inserted True None, Inserted True (Some \<lparr>self = 1, bytes = [5]\<rparr>), Retrieved (Some \<lparr>self = 2, bytes = [5]\<rparr>)]"
  let ?lh = "the (lh_new (\<lambda>_ _. True) CRYPTO_BUFFER_hash CRYPTO_BUFFER_cmp)"
  have n: "lh_new (\<lambda>_ _. True) CRYPTO_BUFFER_hash CRYPTO_BUFFER_cmp = Some ?lh" by (simp add: lh_new_def)
  have s: "snd (dict_run table_get (table_insert (\<lambda>_ _ _. True)) (table_delete (\<lambda>_ _ _. True)) (?lh, 0) ?ops) = ?rs"
    by code_simp
  obtain t where "dict_run table_get (table_insert (\<lambda>_ _ _. True)) (table_delete (\<lambda>_ _ _. True)) (?lh, 0) ?ops = (t, ?rs)"
    using s by (metis prod.collapse)
  from lhash_refines_map [OF buf_key.lhash_key_axioms n this] show ?thesis .
qed

theorem lhash_invariant_witness:
  "dict_inv CRYPTO_BUFFER_hash CRYPTO_BUFFER_cmp
     (fst (lh_insert (\<lambda>_ _. True) (the (lh_new (\<lambda>_ _. True) CRYPTO_BUFFER_hash CRYPTO_BUFFER_cmp)) \<lparr>self = 1, bytes = [5]\<rparr>))"
proof -
  let ?lh = "the (lh_new (\<lambda>_ _. True) CRYPTO_BUFFER_hash CRYPTO_BUFFER_cmp)"
  have "lh_new (\<lambda>_ _. True) CRYPTO_BUFFER_hash CRYPTO_BUFFER_cmp = Some ?lh" by (simp add: lh_new_def)
  then have "dict_inv CRYPTO_BUFFER_hash CRYPTO_BUFFER_cmp ?lh" by (rule buf_key.lh_new_ok [THEN conjunct1])
  from lhash_invariant [OF buf_key.lhash_key_axioms this] show ?thesis by blast
qed

section \<open>Buffers and pools\<close>

record crypto_buffer_st =
  data :: "byte list"
  references :: u32
  in_pool :: bool

record pool_st =
  bufs :: "buffer_ptr lhash_st"
  heap :: "addr \<Rightarrow> crypto_buffer_st option"

definition CRYPTO_BUFFER_POOL_new :: "grants \<Rightarrow> (addr \<Rightarrow> crypto_buffer_st option) \<Rightarrow> pool_st option" where
  "CRYPTO_BUFFER_POOL_new grants hp =
     map_option (\<lambda>t. \<lparr>bufs = t, heap = hp\<rparr>) (lh_new grants CRYPTO_BUFFER_hash CRYPTO_BUFFER_cmp)"

text \<open>\<open>assert\<close> that the pool is empty.\<close>

definition CRYPTO_BUFFER_POOL_free :: "pool_st \<Rightarrow> unit option" where
  "CRYPTO_BUFFER_POOL_free s = (if lh_num_items (bufs s) = 0 then Some () else None)"

definition set_references :: "addr \<Rightarrow> u32 \<Rightarrow> pool_st \<Rightarrow> pool_st option" where
  "set_references p c s = map_option (\<lambda>b. s\<lparr>heap := (heap s)(p \<mapsto> b\<lparr>references := c\<rparr>)\<rparr>) (heap s p)"

definition CRYPTO_BUFFER_up_ref :: "addr \<Rightarrow> pool_st \<Rightarrow> pool_st option" where
  "CRYPTO_BUFFER_up_ref p s =
     Option.bind (heap s p) (\<lambda>b. set_references p (refcount_inc (references b)) s)"

text \<open>The first section of \<open>CRYPTO_BUFFER_new\<close>, under the read lock: \<open>duplicate\<close> or 0.\<close>

definition new_lookup :: "byte list \<Rightarrow> pool_st \<Rightarrow> (addr \<times> pool_st) option" where
  "new_lookup d s =
     (case lh_retrieve (bufs s) \<lparr>self = 0, bytes = d\<rparr> of
        None \<Rightarrow> Some (0, s)
      | Some dup \<Rightarrow> map_option (Pair (self dup)) (CRYPTO_BUFFER_up_ref (self dup) s))"

text \<open>The allocation: \<open>p\<close> is what \<open>OPENSSL_malloc\<close> returns, \<open>dup_ok\<close> whether \<open>OPENSSL_memdup\<close>
  has memory.\<close>

definition new_alloc :: "addr \<Rightarrow> bool \<Rightarrow> byte list \<Rightarrow> bool \<Rightarrow> pool_st \<Rightarrow> addr \<times> pool_st" where
  "new_alloc p dup_ok d pooled s =
     (if p = 0 then (0, s)
      else if length d \<noteq> 0 \<and> \<not> dup_ok then (0, s)
      else (p, s\<lparr>heap := (heap s)(p \<mapsto> \<lparr>data = d, references = 1, in_pool = pooled\<rparr>)\<rparr>))"

text \<open>The second section, under the write lock, and the release of a buffer that lost the race or
  could not be inserted.\<close>

definition new_insert :: "grants \<Rightarrow> addr \<Rightarrow> pool_st \<Rightarrow> (addr \<times> pool_st) option" where
  "new_insert grants p s =
     Option.bind (heap s p) (\<lambda>b.
       let key = \<lparr>self = p, bytes = data b\<rparr> in
       (case lh_retrieve (bufs s) key of
          None \<Rightarrow>
            (case lh_insert grants (bufs s) key of
               (t, inserted, old) \<Rightarrow>
                 if old \<noteq> None then None
                 else if inserted then Some (p, s\<lparr>bufs := t\<rparr>)
                 else Some (0, s\<lparr>bufs := t, heap := (heap s)(p := None)\<rparr>))
        | Some dup \<Rightarrow>
            map_option (\<lambda>s. (self dup, s\<lparr>heap := (heap s)(p := None)\<rparr>)) (CRYPTO_BUFFER_up_ref (self dup) s)))"

definition CRYPTO_BUFFER_new ::
  "grants \<Rightarrow> addr \<Rightarrow> bool \<Rightarrow> byte list \<Rightarrow> bool \<Rightarrow> pool_st \<Rightarrow> (addr \<times> pool_st) option" where
  "CRYPTO_BUFFER_new grants p dup_ok d pooled s =
     Option.bind (if pooled then new_lookup d s else Some (0, s)) (\<lambda>(duplicate, s).
       if duplicate \<noteq> 0 then Some (duplicate, s)
       else
         (case new_alloc p dup_ok d pooled s of
            (buf, s) \<Rightarrow> if buf = 0 then Some (0, s) else if \<not> pooled then Some (buf, s) else new_insert grants buf s))"

definition CRYPTO_BUFFER_free :: "grants \<Rightarrow> addr \<Rightarrow> pool_st \<Rightarrow> pool_st option" where
  "CRYPTO_BUFFER_free grants buf s =
     (if buf = 0 then Some s
      else
        Option.bind (heap s buf) (\<lambda>b.
          Option.bind (refcount_dec_and_test_zero (references b)) (\<lambda>(c, is_zero).
            if \<not> is_zero then set_references buf c s
            else if \<not> in_pool b then Some (s\<lparr>heap := (heap s)(buf := None)\<rparr>)
            else
              (case lh_delete grants (bufs s) \<lparr>self = buf, bytes = data b\<rparr> of
                 (t, found) \<Rightarrow>
                   if map_option self found \<noteq> Some buf then None
                   else Some (s\<lparr>bufs := t, heap := (heap s)(buf := None)\<rparr>)))))"

section \<open>Clients and interleaving\<close>

text \<open>\<open>held p\<close> is the number of references the program's threads own to \<open>p\<close>, \<open>pending\<close> the buffers
  that calls of \<open>CRYPTO_BUFFER_new\<close> have allocated and not yet inserted.\<close>

record pool_sys =
  pool :: pool_st
  pending :: "addr set"
  held :: "addr \<Rightarrow> nat"

datatype pool_event =
    Lookup "byte list"
  | Alloc addr bool "byte list"
  | Insert_pending grants addr
  | New_unpooled addr bool "byte list"
  | Up_ref addr
  | Free grants addr

definition take_reference :: "addr \<Rightarrow> pool_sys \<Rightarrow> pool_sys" where
  "take_reference p s = (if p = 0 then s else s\<lparr>held := (held s)(p := held s p + 1)\<rparr>)"

fun pool_step :: "pool_event \<Rightarrow> pool_sys \<Rightarrow> pool_sys option" where
  "pool_step (Lookup d) s =
     map_option (\<lambda>(p, u). take_reference p (s\<lparr>pool := u\<rparr>)) (new_lookup d (pool s))"
| "pool_step (Alloc p ok d) s =
     (case new_alloc p ok d True (pool s) of
        (b, u) \<Rightarrow> Some (s\<lparr>pool := u, pending := (if b = 0 then pending s else insert b (pending s))\<rparr>))"
| "pool_step (Insert_pending g p) s =
     map_option (\<lambda>(b, u). take_reference b (s\<lparr>pool := u, pending := pending s - {p}\<rparr>)) (new_insert g p (pool s))"
| "pool_step (New_unpooled p ok d) s =
     (case new_alloc p ok d False (pool s) of (b, u) \<Rightarrow> Some (take_reference b (s\<lparr>pool := u\<rparr>)))"
| "pool_step (Up_ref p) s =
     map_option (\<lambda>u. take_reference p (s\<lparr>pool := u\<rparr>)) (CRYPTO_BUFFER_up_ref p (pool s))"
| "pool_step (Free g p) s =
     map_option (\<lambda>u. s\<lparr>pool := u, held := (held s)(p := held s p - 1)\<rparr>) (CRYPTO_BUFFER_free g p (pool s))"

text \<open>What the program and the allocator keep to: only held references are used, only the pending
  buffers are inserted, and memory that is in use is not handed out again.\<close>

fun permitted :: "pool_event \<Rightarrow> pool_sys \<Rightarrow> bool" where
  "permitted (Lookup d) s \<longleftrightarrow> True"
| "permitted (Alloc p ok d) s \<longleftrightarrow> heap (pool s) p = None"
| "permitted (Insert_pending g p) s \<longleftrightarrow> p \<in> pending s"
| "permitted (New_unpooled p ok d) s \<longleftrightarrow> heap (pool s) p = None"
| "permitted (Up_ref p) s \<longleftrightarrow> 0 < held s p"
| "permitted (Free g p) s \<longleftrightarrow> 0 < held s p"

inductive pool_reach :: "pool_sys \<Rightarrow> bool" where
  new: "CRYPTO_BUFFER_POOL_new g (\<lambda>_. None) = Some u \<Longrightarrow> pool_reach \<lparr>pool = u, pending = {}, held = (\<lambda>_. 0)\<rparr>"
| step: "pool_reach s \<Longrightarrow> permitted e s \<Longrightarrow> pool_step e s = Some s' \<Longrightarrow> pool_reach s'"

section \<open>The invariant\<close>

text \<open>The table by content.\<close>

definition table :: "pool_st \<Rightarrow> byte list \<Rightarrow> buffer_ptr option" where
  "table s d = lh_retrieve (bufs s) \<lparr>self = 0, bytes = d\<rparr>"

text \<open>What an entry of the table and an address of the heap satisfy.\<close>

definition entry_ok ::
  "(addr \<Rightarrow> crypto_buffer_st option) \<Rightarrow> addr set \<Rightarrow> byte list \<Rightarrow> buffer_ptr \<Rightarrow> bool" where
  "entry_ok hp P d x \<longleftrightarrow>
     bytes x = d \<and> self x \<notin> P \<and> (\<exists>c. hp (self x) = Some \<lparr>data = d, references = c, in_pool = True\<rparr>)"

definition address_ok ::
  "(byte list \<Rightarrow> buffer_ptr option) \<Rightarrow> addr set \<Rightarrow> nat \<Rightarrow> addr \<Rightarrow> crypto_buffer_st option \<Rightarrow> bool" where
  "address_ok T P n p x \<longleftrightarrow>
     (case x of
        None \<Rightarrow> n = 0 \<and> p \<notin> P
      | Some b \<Rightarrow>
          p \<noteq> 0 \<and> references b \<noteq> 0 \<and>
          (if p \<in> P then references b = 1 \<and> n = 0 \<and> in_pool b
           else (in_pool b \<longrightarrow> T (data b) = Some \<lparr>self = p, bytes = data b\<rparr>) \<and>
                (references b = CRYPTO_REFCOUNT_MAX \<or> unat (references b) = n)))"

lemma address_ok_other:
  "q \<noteq> p \<Longrightarrow> address_ok T (insert p P) n q x = address_ok T P n q x"
  "q \<noteq> p \<Longrightarrow> address_ok T (P - {p}) n q x = address_ok T P n q x"
  by (cases x; simp add: address_ok_def)+

definition pool_ok ::
  "(byte list \<Rightarrow> buffer_ptr option) \<Rightarrow> (addr \<Rightarrow> crypto_buffer_st option) \<Rightarrow> addr set \<Rightarrow> (addr \<Rightarrow> nat) \<Rightarrow> bool" where
  "pool_ok T hp P h \<longleftrightarrow>
     (\<forall>d x. T d = Some x \<longrightarrow> entry_ok hp P d x) \<and> (\<forall>p. address_ok T P (h p) p (hp p))"

definition pool_inv :: "pool_sys \<Rightarrow> bool" where
  "pool_inv s \<longleftrightarrow>
     dict_inv CRYPTO_BUFFER_hash CRYPTO_BUFFER_cmp (bufs (pool s)) \<and>
     pool_ok (table (pool s)) (heap (pool s)) (pending s) (held s)"

lemma unat_refcount_inc:
  "refcount_inc c = CRYPTO_REFCOUNT_MAX \<or> unat (refcount_inc c) = unat c + 1"
  using unat_increment [of c] by (auto simp: refcount_inc_def)

lemma refcount_inc_nonzero: "refcount_inc c \<noteq> 0"
  using unat_refcount_inc [of c] by (auto simp: CRYPTO_REFCOUNT_MAX_def)

lemma pool_ok_up_ref:
  assumes "pool_ok T hp P h" "hp p = Some b" "p \<notin> P"
  shows "pool_ok T (hp(p \<mapsto> b\<lparr>references := refcount_inc (references b)\<rparr>)) P (h(p := h p + 1))"
proof -
  have b: "address_ok T P (h p) p (Some b)" using assms(1,2) by (metis pool_ok_def)
  have "references b = CRYPTO_REFCOUNT_MAX \<Longrightarrow> refcount_inc (references b) = CRYPTO_REFCOUNT_MAX"
    by (simp add: refcount_inc_def)
  then have "address_ok T P (h p + 1) p (Some (b\<lparr>references := refcount_inc (references b)\<rparr>))"
    using b assms(3) unat_refcount_inc [of "references b"] by (auto simp: address_ok_def refcount_inc_nonzero)
  moreover have "entry_ok (hp(p \<mapsto> b\<lparr>references := refcount_inc (references b)\<rparr>)) P d x" if "entry_ok hp P d x" for d x
    using that assms(2) by (auto simp: entry_ok_def)
  ultimately show ?thesis using assms(1) by (simp add: pool_ok_def)
qed

lemma pool_ok_alloc:
  assumes "pool_ok T hp P h" "hp p = None" "p \<noteq> 0"
  shows "pool_ok T (hp(p \<mapsto> \<lparr>data = d, references = 1, in_pool = True\<rparr>)) (insert p P) h"
proof -
  have n: "address_ok T P (h p) p None" using assms(1,2) by (metis pool_ok_def)
  have "entry_ok (hp(p \<mapsto> \<lparr>data = d, references = 1, in_pool = True\<rparr>)) (insert p P) d' x" if "entry_ok hp P d' x" for d' x
    using that assms(2) by (auto simp: entry_ok_def)
  moreover have "address_ok T (insert p P) (h q) q (hp q)" if "q \<noteq> p" for q
    using assms(1) that by (simp add: pool_ok_def address_ok_other)
  ultimately show ?thesis using assms n by (auto simp: pool_ok_def) (auto simp: address_ok_def)
qed

lemma pool_ok_insert:
  assumes "pool_ok T hp P h" "p \<in> P" "hp p = Some b" "T (data b) = None"
  shows "pool_ok (T(data b \<mapsto> \<lparr>self = p, bytes = data b\<rparr>)) hp (P - {p}) (h(p := h p + 1))"
proof -
  have b: "address_ok T P (h p) p (Some b)" using assms(1,3) by (metis pool_ok_def)
  have "address_ok (T(data b \<mapsto> \<lparr>self = p, bytes = data b\<rparr>)) (P - {p}) (h q) q (hp q)" if "q \<noteq> p" for q
  proof -
    have "address_ok T P (h q) q (hp q)" using assms(1) by (simp add: pool_ok_def)
    then show ?thesis using that assms(4) by (auto simp: address_ok_def split: option.splits if_splits)
  qed
  moreover have "entry_ok hp (P - {p}) d x" if "entry_ok hp P d x" for d x using that by (auto simp: entry_ok_def)
  moreover have "entry_ok hp (P - {p}) (data b) \<lparr>self = p, bytes = data b\<rparr>"
    using b assms(2,3) by (cases b) (auto simp: entry_ok_def address_ok_def)
  moreover have "address_ok (T(data b \<mapsto> \<lparr>self = p, bytes = data b\<rparr>)) (P - {p}) (h p + 1) p (Some b)"
    using b assms(2) by (auto simp: address_ok_def)
  ultimately show ?thesis using assms(1,3) by (auto simp: pool_ok_def)
qed

lemma pool_ok_discard:
  assumes "pool_ok T hp P h" "p \<in> P"
  shows "pool_ok T (hp(p := None)) (P - {p}) h"
proof -
  have p: "address_ok T P (h p) p (hp p)" using assms(1) by (simp add: pool_ok_def)
  then have "address_ok T (P - {p}) (h p) p None" using assms(2) by (auto simp: address_ok_def split: option.splits)
  moreover have "address_ok T (P - {p}) (h q) q (hp q)" if "q \<noteq> p" for q
    using assms(1) that by (simp add: pool_ok_def address_ok_other)
  moreover have "entry_ok (hp(p := None)) (P - {p}) d x" if "entry_ok hp P d x" for d x
    using that assms(2) by (auto simp: entry_ok_def)
  ultimately show ?thesis using assms(1) by (simp add: pool_ok_def)
qed

lemma pool_ok_unpooled:
  assumes "pool_ok T hp P h" "hp p = None" "p \<noteq> 0"
  shows "pool_ok T (hp(p \<mapsto> \<lparr>data = d, references = 1, in_pool = False\<rparr>)) P (h(p := h p + 1))"
proof -
  have n: "address_ok T P (h p) p None" using assms(1,2) by (metis pool_ok_def)
  then have "address_ok T P (h p + 1) p (Some \<lparr>data = d, references = 1, in_pool = False\<rparr>)"
    using assms(3) by (simp add: address_ok_def)
  moreover have "entry_ok (hp(p \<mapsto> \<lparr>data = d, references = 1, in_pool = False\<rparr>)) P d' x" if "entry_ok hp P d' x" for d' x
    using that assms(2) by (auto simp: entry_ok_def)
  ultimately show ?thesis using assms(1) by (simp add: pool_ok_def)
qed

lemma pool_ok_decrement:
  assumes "pool_ok T hp P h" "hp p = Some b" "0 < h p"
    and "refcount_dec_and_test_zero (references b) = Some (c, False)"
  shows "pool_ok T (hp(p \<mapsto> b\<lparr>references := c\<rparr>)) P (h(p := h p - 1))"
proof -
  have b: "address_ok T P (h p) p (Some b)" using assms(1,2) by (metis pool_ok_def)
  then have "address_ok T P (h p - 1) p (Some (b\<lparr>references := c\<rparr>))"
    using assms(3,4)
    by (auto simp: address_ok_def refcount_dec_and_test_zero_def unat_minus_one split: if_splits)
  moreover have "entry_ok (hp(p \<mapsto> b\<lparr>references := c\<rparr>)) P d x" if "entry_ok hp P d x" for d x
    using that assms(2) by (auto simp: entry_ok_def)
  ultimately show ?thesis using assms(1) by (simp add: pool_ok_def)
qed

lemma pool_ok_free:
  assumes "pool_ok T hp P h" "hp p = Some b" "0 < h p"
    and "refcount_dec_and_test_zero (references b) = Some (c, True)"
  shows "pool_ok (if in_pool b then T(data b := None) else T) (hp(p := None)) P (h(p := h p - 1))"
proof -
  define T' where "T' = (if in_pool b then T(data b := None) else T)"
  have b: "address_ok T P (h p) p (Some b)" using assms(1,2) by (metis pool_ok_def)
  have one: "references b = 1" using assms(4) by (auto simp: refcount_dec_and_test_zero_def split: if_splits)
  then have hp: "h p = 1" "p \<notin> P" using b assms(3) by (auto simp: address_ok_def CRYPTO_REFCOUNT_MAX_def split: if_splits)
  have "address_ok T' P (h q) q (hp q)" if "q \<noteq> p" for q
  proof -
    have "address_ok T P (h q) q (hp q)" using assms(1) by (simp add: pool_ok_def)
    then show ?thesis using that b hp by (auto simp: T'_def address_ok_def split: option.splits if_splits)
  qed
  moreover have "entry_ok (hp(p := None)) P d x" if "T' d = Some x" for d x
  proof -
    have e: "entry_ok hp P d x" using that assms(1) by (auto simp: T'_def pool_ok_def split: if_splits)
    have "self x \<noteq> p"
      using that e assms(2) by (auto simp: T'_def entry_ok_def split: if_splits)
    then show ?thesis using e by (simp add: entry_ok_def)
  qed
  moreover have "address_ok T' P (h p - 1) p None" using hp by (simp add: address_ok_def)
  ultimately have "pool_ok T' (hp(p := None)) P (h(p := h p - 1))" by (simp add: pool_ok_def)
  then show ?thesis by (simp only: T'_def)
qed

text \<open>The table changes as a map does: the facts of the dictionary interface, for this table.\<close>

lemma retrieve_by_bytes:
  assumes "dict_inv CRYPTO_BUFFER_hash CRYPTO_BUFFER_cmp t" "bytes k = bytes k'"
  shows "lh_retrieve t k = lh_retrieve t k'"
  using buf_key.lh_retrieve_items [OF assms(1)] assms(2) by (intro option_eqI) (simp add: CRYPTO_BUFFER_cmp_0)

lemma table_insert:
  assumes "dict_inv CRYPTO_BUFFER_hash CRYPTO_BUFFER_cmp (bufs s)" "lh_insert g (bufs s) k = (t, r, old)"
  shows "dict_inv CRYPTO_BUFFER_hash CRYPTO_BUFFER_cmp t" "old = table s (bytes k)"
    "table (s\<lparr>bufs := t\<rparr>) = (if r then (table s)(bytes k \<mapsto> k) else table s)"
proof -
  note ins = buf_key.lh_insert_items [OF assms]
  show "dict_inv CRYPTO_BUFFER_hash CRYPTO_BUFFER_cmp t" using ins by simp
  show "old = table s (bytes k)" using ins retrieve_by_bytes [OF assms(1), of k "\<lparr>self = 0, bytes = bytes k\<rparr>"] by (simp add: table_def)
  show "table (s\<lparr>bufs := t\<rparr>) = (if r then (table s)(bytes k \<mapsto> k) else table s)"
  proof (cases r)
    case True
    then show ?thesis
      using buf_key.retrieve_insert [OF assms(1), of g k t old] assms(2)
      by (auto simp: table_def CRYPTO_BUFFER_cmp_0)
  qed (use ins in \<open>simp add: table_def fun_eq_iff\<close>)
qed

lemma table_delete:
  assumes "dict_inv CRYPTO_BUFFER_hash CRYPTO_BUFFER_cmp (bufs s)" "lh_delete g (bufs s) k = (t, found)"
  shows "dict_inv CRYPTO_BUFFER_hash CRYPTO_BUFFER_cmp t" "found = table s (bytes k)"
    "table (s\<lparr>bufs := t\<rparr>) = (table s)(bytes k := None)"
  using buf_key.lh_delete_items [OF assms] buf_key.retrieve_delete [OF assms] retrieve_by_bytes [OF assms(1), of k "\<lparr>self = 0, bytes = bytes k\<rparr>"]
  by (auto simp: table_def CRYPTO_BUFFER_cmp_0)

section \<open>Every step keeps it\<close>

lemma table_heap [simp]: "table (s\<lparr>heap := h\<rparr>) = table s"
  by (simp add: table_def fun_eq_iff)

text \<open>The count of a buffer that is in the table can be raised.\<close>

lemma up_ref_inv:
  assumes "pool_inv s" "heap (pool s) p = Some b" "p \<notin> pending s"
  shows "\<exists>u. CRYPTO_BUFFER_up_ref p (pool s) = Some u \<and> bufs u = bufs (pool s) \<and>
    map_option data (heap u p) = Some (data b) \<and>
    pool_inv (take_reference p (s\<lparr>pool := u\<rparr>))"
proof -
  let ?u = "(pool s)\<lparr>heap := (heap (pool s))(p \<mapsto> b\<lparr>references := refcount_inc (references b)\<rparr>)\<rparr>"
  have ok: "pool_ok (table (pool s)) (heap (pool s)) (pending s) (held s)" using assms(1) by (simp add: pool_inv_def)
  then have "address_ok (table (pool s)) (pending s) (held s p) p (Some b)" using assms(2) by (metis pool_ok_def)
  then have "p \<noteq> 0" by (simp add: address_ok_def)
  moreover have "CRYPTO_BUFFER_up_ref p (pool s) = Some ?u"
    using assms(2) by (simp add: CRYPTO_BUFFER_up_ref_def set_references_def)
  ultimately show ?thesis
    using pool_ok_up_ref [OF ok assms(2,3)] assms(1,2) by (simp add: pool_inv_def take_reference_def)
qed

lemma table_entry:
  assumes "pool_inv s" "table (pool s) d = Some x"
  shows "bytes x = d \<and> self x \<noteq> 0 \<and> self x \<notin> pending s \<and>
    (\<exists>b. heap (pool s) (self x) = Some b \<and> data b = d \<and> in_pool b)"
proof -
  have e: "entry_ok (heap (pool s)) (pending s) d x" using assms by (simp add: pool_inv_def pool_ok_def)
  then obtain c where c: "heap (pool s) (self x) = Some \<lparr>data = d, references = c, in_pool = True\<rparr>"
    by (auto simp: entry_ok_def)
  have "address_ok (table (pool s)) (pending s) (held s (self x)) (self x) (heap (pool s) (self x))"
    using assms(1) by (simp add: pool_inv_def pool_ok_def)
  then show ?thesis using c e by (auto simp: address_ok_def entry_ok_def)
qed

lemma lookup_inv:
  assumes "pool_inv s"
  shows "\<exists>p u. new_lookup d (pool s) = Some (p, u) \<and> bufs u = bufs (pool s) \<and>
    (if table (pool s) d = None then p = 0 \<and> u = pool s else p \<noteq> 0 \<and> map_option data (heap u p) = Some d) \<and>
    pool_inv (take_reference p (s\<lparr>pool := u\<rparr>))"
proof (cases "table (pool s) d")
  case None
  then show ?thesis using assms by (simp add: new_lookup_def take_reference_def flip: table_def)
next
  case (Some x)
  note x = table_entry [OF assms Some]
  then obtain b where b: "heap (pool s) (self x) = Some b" "data b = d" by auto
  obtain u where "CRYPTO_BUFFER_up_ref (self x) (pool s) = Some u" "bufs u = bufs (pool s)"
      "map_option data (heap u (self x)) = Some d" "pool_inv (take_reference (self x) (s\<lparr>pool := u\<rparr>))"
    using up_ref_inv [OF assms b(1)] x b by auto
  then show ?thesis using Some x by (simp add: new_lookup_def flip: table_def)
qed

lemma alloc_inv:
  assumes "pool_inv s" "heap (pool s) p = None"
  shows "pool_inv (the (pool_step (Alloc p ok d) s))" "pool_inv (the (pool_step (New_unpooled p ok d) s))"
  using assms pool_ok_alloc [of _ "heap (pool s)" _ _ p d] pool_ok_unpooled [of _ "heap (pool s)" _ _ p d]
  by (auto simp: pool_inv_def new_alloc_def take_reference_def)

lemma insert_inv:
  assumes "pool_inv s" "p \<in> pending s"
  shows "\<exists>b r u. heap (pool s) p = Some b \<and> new_insert g p (pool s) = Some (r, u) \<and>
    (r \<noteq> 0 \<longrightarrow> map_option data (heap u r) = Some (data b)) \<and>
    pool_inv (take_reference r (s\<lparr>pool := u, pending := pending s - {p}\<rparr>))"
proof -
  have dict: "dict_inv CRYPTO_BUFFER_hash CRYPTO_BUFFER_cmp (bufs (pool s))"
    and ok: "pool_ok (table (pool s)) (heap (pool s)) (pending s) (held s)" using assms(1) by (simp_all add: pool_inv_def)
  have p: "address_ok (table (pool s)) (pending s) (held s p) p (heap (pool s) p)" using ok by (simp add: pool_ok_def)
  then obtain b where b: "heap (pool s) p = Some b" "p \<noteq> 0" using assms(2) by (auto simp: address_ok_def split: option.splits)
  let ?key = "\<lparr>self = p, bytes = data b\<rparr>"
  have key: "lh_retrieve (bufs (pool s)) ?key = table (pool s) (data b)"
    unfolding table_def by (rule retrieve_by_bytes [OF dict]) simp
  show ?thesis
  proof (cases "table (pool s) (data b)")
    case None
    obtain t r old where i: "lh_insert g (bufs (pool s)) ?key = (t, r, old)" by (rule prod_cases3)
    note ins = table_insert [OF dict i]
    show ?thesis
    proof (cases r)
      case True
      then have "new_insert g p (pool s) = Some (p, (pool s)\<lparr>bufs := t\<rparr>)"
        using None key b i ins(2) by (simp add: new_insert_def)
      then show ?thesis
        using pool_ok_insert [OF ok assms(2) b(1) None] ins b True by (simp add: pool_inv_def take_reference_def)
    next
      case False
      then have "new_insert g p (pool s) = Some (0, (pool s)\<lparr>bufs := t, heap := (heap (pool s))(p := None)\<rparr>)"
        using None key b i ins(2) by (simp add: new_insert_def)
      then show ?thesis
        using pool_ok_discard [OF ok assms(2)] ins b False by (simp add: pool_inv_def take_reference_def)
    qed
  next
    case (Some x)
    note x = table_entry [OF assms(1) Some]
    then obtain bx where bx: "heap (pool s) (self x) = Some bx" "data bx = data b" by auto
    obtain u where u: "CRYPTO_BUFFER_up_ref (self x) (pool s) = Some u" "bufs u = bufs (pool s)"
        "map_option data (heap u (self x)) = Some (data b)" "pool_inv (take_reference (self x) (s\<lparr>pool := u\<rparr>))"
      using up_ref_inv [OF assms(1) bx(1)] x bx(2) by fastforce
    have "table u = table (pool s)" by (simp add: table_def fun_eq_iff u(2))
    moreover have "self x \<noteq> p" using x assms(2) by auto
    ultimately show ?thesis
      using u x b Some key assms(2) pool_ok_discard [of "table u" "heap u" "pending s" _ p]
      by (simp add: new_insert_def pool_inv_def take_reference_def)
  qed
qed

lemma free_inv:
  assumes "pool_inv s" "0 < held s p"
  shows "\<exists>u. CRYPTO_BUFFER_free g p (pool s) = Some u \<and>
    pool_inv (s\<lparr>pool := u, held := (held s)(p := held s p - 1)\<rparr>)"
proof -
  have dict: "dict_inv CRYPTO_BUFFER_hash CRYPTO_BUFFER_cmp (bufs (pool s))"
    and ok: "pool_ok (table (pool s)) (heap (pool s)) (pending s) (held s)" using assms(1) by (simp_all add: pool_inv_def)
  have p: "address_ok (table (pool s)) (pending s) (held s p) p (heap (pool s) p)" using ok by (simp add: pool_ok_def)
  then obtain b where b: "heap (pool s) p = Some b" "p \<noteq> 0" "references b \<noteq> 0" "p \<notin> pending s"
      "in_pool b \<longrightarrow> table (pool s) (data b) = Some \<lparr>self = p, bytes = data b\<rparr>"
    using assms(2) by (auto simp: address_ok_def split: option.splits if_splits)
  obtain c z where z: "refcount_dec_and_test_zero (references b) = Some (c, z)"
    using b(3) by (cases "refcount_dec_and_test_zero (references b)") (auto simp: refcount_dec_and_test_zero_def split: if_splits)
  show ?thesis
  proof (cases z)
    case False
    then have "CRYPTO_BUFFER_free g p (pool s) = Some ((pool s)\<lparr>heap := (heap (pool s))(p \<mapsto> b\<lparr>references := c\<rparr>)\<rparr>)"
      using b z by (simp add: CRYPTO_BUFFER_free_def set_references_def)
    then show ?thesis
      using pool_ok_decrement [OF ok b(1) assms(2)] z False dict by (simp add: pool_inv_def)
  next
    case True
    then have z': "refcount_dec_and_test_zero (references b) = Some (c, True)" using z by simp
    obtain t found where d: "lh_delete g (bufs (pool s)) \<lparr>self = p, bytes = data b\<rparr> = (t, found)" by fastforce
    note del = table_delete [OF dict d]
    show ?thesis
    proof (cases "in_pool b")
      case True
      then have "CRYPTO_BUFFER_free g p (pool s) = Some ((pool s)\<lparr>bufs := t, heap := (heap (pool s))(p := None)\<rparr>)"
        using b z' d del(2) by (simp add: CRYPTO_BUFFER_free_def)
      then show ?thesis
        using pool_ok_free [OF ok b(1) assms(2) z'] True del by (simp add: pool_inv_def)
    next
      case False
      then have "CRYPTO_BUFFER_free g p (pool s) = Some ((pool s)\<lparr>heap := (heap (pool s))(p := None)\<rparr>)"
        using b z' by (simp add: CRYPTO_BUFFER_free_def)
      then show ?thesis
        using pool_ok_free [OF ok b(1) assms(2) z'] False dict by (simp add: pool_inv_def)
    qed
  qed
qed

lemma held_live:
  assumes "pool_inv s" "0 < held s p"
  shows "p \<notin> pending s \<and> (\<exists>b. heap (pool s) p = Some b \<and> (references b = CRYPTO_REFCOUNT_MAX \<or> unat (references b) = held s p))"
proof -
  have "address_ok (table (pool s)) (pending s) (held s p) p (heap (pool s) p)"
    using assms(1) by (simp add: pool_inv_def pool_ok_def)
  then show ?thesis using assms(2) by (auto simp: address_ok_def split: option.splits if_splits)
qed

lemma pool_step_inv:
  assumes "pool_inv s" "permitted e s"
  shows "\<exists>s'. pool_step e s = Some s' \<and> pool_inv s'"
proof (cases e)
  case (Lookup d)
  then show ?thesis using lookup_inv [OF assms(1), of d] by auto
next
  case (Alloc p ok d)
  then show ?thesis using alloc_inv(1) [OF assms(1), of p ok d] assms(2) by (auto split: prod.splits)
next
  case (Insert_pending g p)
  then show ?thesis using insert_inv [OF assms(1), of p g] assms(2) by auto
next
  case (New_unpooled p ok d)
  then show ?thesis using alloc_inv(2) [OF assms(1), of p ok d] assms(2) by (auto split: prod.splits)
next
  case (Up_ref p)
  then show ?thesis using held_live [OF assms(1), of p] up_ref_inv [OF assms(1), of p] assms(2) by fastforce
next
  case (Free g p)
  then show ?thesis using free_inv [OF assms(1), of p g] assms(2) by auto
qed

lemma empty_table:
  assumes "dict_inv CRYPTO_BUFFER_hash CRYPTO_BUFFER_cmp (bufs u)"
  shows "table u = (\<lambda>_. None) \<longleftrightarrow> items (bufs u) = {#}"
proof
  assume t: "table u = (\<lambda>_. None)"
  show "items (bufs u) = {#}"
  proof (rule ccontr)
    assume "items (bufs u) \<noteq> {#}"
    then obtain it where "it \<in># items (bufs u)" by blast
    then have "table u (bytes (LHASH_ITEM.data it)) = Some (LHASH_ITEM.data it)"
      unfolding table_def buf_key.lh_retrieve_items [OF assms] by (auto simp: CRYPTO_BUFFER_cmp_0)
    then show False by (simp add: t)
  qed
next
  assume "items (bufs u) = {#}"
  then show "table u = (\<lambda>_. None)"
    using buf_key.lh_retrieve_items [OF assms] by (intro ext option_eqI) (simp add: table_def)
qed

lemma pool_reach_inv: "pool_reach s \<Longrightarrow> pool_inv s"
proof (induction rule: pool_reach.induct)
  case (new g u)
  then obtain t where t: "lh_new g CRYPTO_BUFFER_hash CRYPTO_BUFFER_cmp = Some t" "u = \<lparr>bufs = t, heap = (\<lambda>_. None)\<rparr>"
    by (auto simp: CRYPTO_BUFFER_POOL_new_def)
  then have "dict_inv CRYPTO_BUFFER_hash CRYPTO_BUFFER_cmp (bufs u)" "items (bufs u) = {#}"
    using buf_key.lh_new_ok by auto
  moreover from this have "table u = (\<lambda>_. None)" by (simp add: empty_table)
  ultimately show ?case using t by (simp add: pool_inv_def pool_ok_def address_ok_def)
next
  case (step s e s')
  then show ?case using pool_step_inv [of s e] by auto
qed

section \<open>Properties\<close>

text \<open>C10: in every state that threads using a pool can reach, however their calls interleave, no
  further call faults: nothing freed is used, no assertion of the code fails, no count aborts. Every
  reference a thread holds leads to a live buffer whose count is the number of references, unless it
  is saturated, and the pool never holds two buffers of the same content.\<close>

theorem pool_safe:
  assumes "pool_reach s"
  shows "(\<forall>e. permitted e s \<longrightarrow> pool_step e s \<noteq> None) \<and>
    (\<forall>p. 0 < held s p \<longrightarrow>
       (\<exists>b. heap (pool s) p = Some b \<and> (references b = CRYPTO_REFCOUNT_MAX \<or> unat (references b) = held s p))) \<and>
    (\<forall>p q b c. heap (pool s) p = Some b \<and> heap (pool s) q = Some c \<and> in_pool b \<and> in_pool c \<and>
       p \<notin> pending s \<and> q \<notin> pending s \<and> data b = data c \<longrightarrow> p = q)"
proof -
  have inv: "pool_inv s" by (rule pool_reach_inv [OF assms])
  have entry: "table (pool s) (data b) = Some \<lparr>self = p, bytes = data b\<rparr>"
    if "heap (pool s) p = Some b" "in_pool b" "p \<notin> pending s" for p b
  proof -
    have "address_ok (table (pool s)) (pending s) (held s p) p (heap (pool s) p)"
      using inv by (simp add: pool_inv_def pool_ok_def)
    then show ?thesis using that by (simp add: address_ok_def)
  qed
  have "p = q" if "heap (pool s) p = Some b" "heap (pool s) q = Some c" "in_pool b" "in_pool c"
      "p \<notin> pending s" "q \<notin> pending s" "data b = data c" for p q b c
    using entry [OF that(1,3,5)] entry [OF that(2,4,6)] that(7) by simp
  moreover have "\<forall>e. permitted e s \<longrightarrow> pool_step e s \<noteq> None" using pool_step_inv [OF inv] by auto
  ultimately show ?thesis using held_live [OF inv] by blast
qed

text \<open>C25: nothing leaks. Once every reference has been given back and no call is under way, every
  buffer whose count never saturated has been freed, and the pool is empty, as
  \<open>CRYPTO_BUFFER_POOL_free\<close> asserts.\<close>

theorem pool_drains:
  assumes "pool_reach s" "\<forall>p. held s p = 0" "pending s = {}"
    and "\<forall>p b. heap (pool s) p = Some b \<longrightarrow> references b \<noteq> CRYPTO_REFCOUNT_MAX"
  shows "heap (pool s) = (\<lambda>_. None) \<and> CRYPTO_BUFFER_POOL_free (pool s) = Some ()"
proof -
  have inv: "pool_inv s" by (rule pool_reach_inv [OF assms(1)])
  have none: "heap (pool s) p = None" for p
  proof -
    have "address_ok (table (pool s)) (pending s) (held s p) p (heap (pool s) p)"
      using inv by (simp add: pool_inv_def pool_ok_def)
    then show ?thesis
      using assms(2-) by (auto simp: address_ok_def unat_eq_0 split: option.splits)
  qed
  have "table (pool s) d = None" for d
    using table_entry [OF inv, of d] none by (cases "table (pool s) d") auto
  then have "items (bufs (pool s)) = {#}"
    using inv empty_table [of "pool s"] by (auto simp: pool_inv_def)
  then have "lh_num_items (bufs (pool s)) = 0"
    using inv by (simp add: pool_inv_def dict_inv_def table_inv_def lh_num_items_def)
  then show ?thesis using none by (auto simp: CRYPTO_BUFFER_POOL_free_def)
qed

lemma insert_granted:
  "lh_retrieve t k = None \<Longrightarrow> lh_insert g t k = (t', r, old) \<Longrightarrow> r = g 0 24"
  by (auto simp: lh_retrieve_def lh_insert_def Let_def split: prod.splits option.splits if_splits)

text \<open>\<open>CRYPTO_BUFFER_new\<close> returns a buffer with the content asked for, the one already in the
  pool when there is one, and \<open>NULL\<close> only when memory runs out.\<close>

lemma CRYPTO_BUFFER_new_content:
  assumes "pool_reach s" "heap (pool s) p = None"
  shows "\<exists>r u. CRYPTO_BUFFER_new g p ok d pooled (pool s) = Some (r, u) \<and>
    (r \<noteq> 0 \<longrightarrow> map_option data (heap u r) = Some d) \<and>
    (pooled \<longrightarrow> (\<forall>x. table (pool s) d = Some x \<longrightarrow> r = self x)) \<and>
    (r = 0 \<longrightarrow> p = 0 \<or> d \<noteq> [] \<and> \<not> ok \<or> \<not> g 0 24)"
proof (cases pooled)
  case False
  then show ?thesis by (simp add: CRYPTO_BUFFER_new_def new_alloc_def)
next
  case True
  have inv: "pool_inv s" by (rule pool_reach_inv [OF assms(1)])
  obtain q v where look: "new_lookup d (pool s) = Some (q, v)"
      "if table (pool s) d = None then q = 0 \<and> v = pool s else q \<noteq> 0 \<and> map_option data (heap v q) = Some d"
    using lookup_inv [OF inv, of d] by blast
  show ?thesis
  proof (cases "table (pool s) d")
    case (Some x)
    then have "q = self x"
      using look(1) by (auto simp: new_lookup_def simp flip: table_def)
    then show ?thesis using look Some True by (auto simp: CRYPTO_BUFFER_new_def)
  next
    case None
    show ?thesis
    proof (cases "p = 0 \<or> d \<noteq> [] \<and> \<not> ok")
      case True
      then show ?thesis using look None \<open>pooled\<close> by (auto simp: CRYPTO_BUFFER_new_def new_alloc_def)
    next
      case False
      let ?b = "\<lparr>data = d, references = 1, in_pool = True\<rparr>"
      define s1 where "s1 = s\<lparr>pool := (pool s)\<lparr>heap := (heap (pool s))(p \<mapsto> ?b)\<rparr>, pending := insert p (pending s)\<rparr>"
      have e: "the (pool_step (Alloc p ok d) s) = s1" using False by (auto simp: new_alloc_def s1_def)
      have inv1: "pool_inv s1" using alloc_inv(1) [OF inv assms(2), of ok d] unfolding e .
      obtain r u where r: "new_insert g p (pool s1) = Some (r, u)" "r \<noteq> 0 \<longrightarrow> map_option data (heap u r) = Some d"
        using insert_inv [OF inv1, of p g] by (auto simp: s1_def)
      have "CRYPTO_BUFFER_new g p ok d pooled (pool s) = Some (r, u)"
        using look None \<open>pooled\<close> False r(1) by (auto simp: CRYPTO_BUFFER_new_def new_alloc_def s1_def)
      moreover have "r = 0 \<longrightarrow> \<not> g 0 24"
      proof -
        have "lh_retrieve (bufs (pool s)) \<lparr>self = p, bytes = d\<rparr> = None"
          using None retrieve_by_bytes [of "bufs (pool s)" "\<lparr>self = p, bytes = d\<rparr>" "\<lparr>self = 0, bytes = d\<rparr>"] inv
          by (simp add: table_def pool_inv_def)
        then show ?thesis
          using r(1) insert_granted [of "bufs (pool s)" "\<lparr>self = p, bytes = d\<rparr>" g] False
          by (auto simp: new_insert_def s1_def split: prod.splits if_splits)
      qed
      ultimately show ?thesis using r(2) None by auto
    qed
  qed
qed

section \<open>Runs\<close>

fun pool_exec :: "pool_event list \<Rightarrow> pool_sys \<Rightarrow> pool_sys option" where
  "pool_exec [] s = Some s"
| "pool_exec (e # es) s = (if permitted e s then Option.bind (pool_step e s) (pool_exec es) else None)"

lemma pool_exec_reach: "pool_reach s \<Longrightarrow> pool_exec es s = Some s' \<Longrightarrow> pool_reach s'"
  by (induction es arbitrary: s) (auto split: if_splits Option.bind_splits intro: pool_reach.step)

definition new_sys :: pool_sys where
  "new_sys = \<lparr>pool = the (CRYPTO_BUFFER_POOL_new (\<lambda>_ _. True) (\<lambda>_. None)), pending = {}, held = (\<lambda>_. 0)\<rparr>"

lemma new_sys_reach: "pool_reach new_sys"
  unfolding new_sys_def by (rule pool_reach.new [of "\<lambda>_ _. True"]) (simp add: CRYPTO_BUFFER_POOL_new_def lh_new_def)

text \<open>Two threads intern the same bytes; both miss the pool and
  allocate before either inserts.\<close>

definition intern_race :: "pool_event list" where
  "intern_race = [Lookup [5], Alloc 100 True [5], Alloc 200 True [5],
     Insert_pending (\<lambda>_ _. True) 100, Insert_pending (\<lambda>_ _. True) 200]"

lemma intern_race_runs:
  "case pool_exec intern_race new_sys of None \<Rightarrow> False | Some s \<Rightarrow> held s 100 = 2"
  by code_simp

lemma intern_race_reach: "pool_reach (the (pool_exec intern_race new_sys))"
  using pool_exec_reach [OF new_sys_reach, of intern_race] intern_race_runs by (auto split: option.splits)

theorem pool_safe_witness:
  "\<exists>b. heap (pool (the (pool_exec intern_race new_sys))) 100 = Some b \<and>
    (references b = CRYPTO_REFCOUNT_MAX \<or> unat (references b) = 2)"
proof -
  have "held (the (pool_exec intern_race new_sys)) 100 = 2" using intern_race_runs by (auto split: option.splits)
  then show ?thesis
    using pool_safe [OF intern_race_reach, THEN conjunct2, THEN conjunct1, rule_format, of 100] by simp
qed

theorem pool_drains_witness:
  "CRYPTO_BUFFER_POOL_free (pool (the (pool_exec
     [New_unpooled 100 True [5], Up_ref 100, Free (\<lambda>_ _. True) 100, Free (\<lambda>_ _. True) 100] new_sys))) = Some ()"
proof -
  let ?es = "[New_unpooled 100 True [5], Up_ref 100, Free (\<lambda>_ _. True) 100, Free (\<lambda>_ _. True) 100]"
  obtain u where u: "pool new_sys = u" "heap u = (\<lambda>_. None)" "pending new_sys = {}" "held new_sys = (\<lambda>_. 0)"
    by (simp add: new_sys_def CRYPTO_BUFFER_POOL_new_def lh_new_def)
  have run: "pool_exec ?es new_sys = Some (new_sys\<lparr>pool := u\<lparr>heap := (\<lambda>_. None)\<rparr>, held := (\<lambda>_. 0)\<rparr>)"
    using u by (simp add: new_alloc_def take_reference_def CRYPTO_BUFFER_up_ref_def set_references_def CRYPTO_BUFFER_free_def
        refcount_inc_def refcount_dec_and_test_zero_def CRYPTO_REFCOUNT_MAX_def fun_upd_idem)
  show ?thesis
    using pool_drains [OF pool_exec_reach [OF new_sys_reach run]] u(3) by (simp only: run) simp
qed

end
