(* ===== verification/Crypto_Cbs.thy ===== *)
theory Crypto_Cbs
  imports Prelude
begin

text \<open>
  Reading byte strings: \<^verbatim>\<open>ios/Pods/BoringSSL-GRPC/src/crypto/bytestring/cbs.c\<close>. A \<open>CBS\<close>, a pointer
  and a length into memory that the parser does not change, is the list of the bytes it spans. A
  function that advances a \<open>CBS\<close> returns what it stores and the string that is left, also when it
  fails: several of them fail after they have moved. \<open>out\<close> is taken to be a different \<open>CBS\<close>.
\<close>

section \<open>Bytes and fixed-width integers\<close>

type_synonym cbs = "byte list"

definition cbs_get :: "cbs \<Rightarrow> size_t \<Rightarrow> cbs option \<times> cbs" where
  "cbs_get c n =
     (if length c < unat n then (None, c) else (Some (take (unat n) c), drop (unat n) c))"

definition CBS_skip :: "cbs \<Rightarrow> size_t \<Rightarrow> bool \<times> cbs" where
  "CBS_skip c n = (case cbs_get c n of (r, c) \<Rightarrow> (r \<noteq> None, c))"

definition CBS_contains_zero_byte :: "cbs \<Rightarrow> bool" where
  "CBS_contains_zero_byte c \<longleftrightarrow> 0 \<in> set c"

definition be_fold :: "cbs \<Rightarrow> u64" where
  "be_fold d = foldl (\<lambda>result b. push_bit 8 result OR ucast b) 0 d"

definition cbs_get_u :: "cbs \<Rightarrow> size_t \<Rightarrow> u64 option \<times> cbs" where
  "cbs_get_u c n =
     (case cbs_get c n of
        (None, c) \<Rightarrow> (None, c)
      | (Some d, c) \<Rightarrow> (Some (be_fold d), c))"

definition CBS_get_u8 :: "cbs \<Rightarrow> byte option \<times> cbs" where
  "CBS_get_u8 c = (case cbs_get c 1 of (v, c) \<Rightarrow> (map_option (\<lambda>d. d ! 0) v, c))"

definition CBS_get_u16 :: "cbs \<Rightarrow> 16 word option \<times> cbs" where
  "CBS_get_u16 c = (case cbs_get_u c 2 of (v, c) \<Rightarrow> (map_option ucast v, c))"

definition CBS_get_u24 :: "cbs \<Rightarrow> u32 option \<times> cbs" where
  "CBS_get_u24 c = (case cbs_get_u c 3 of (v, c) \<Rightarrow> (map_option ucast v, c))"

definition CBS_get_u32 :: "cbs \<Rightarrow> u32 option \<times> cbs" where
  "CBS_get_u32 c = (case cbs_get_u c 4 of (v, c) \<Rightarrow> (map_option ucast v, c))"

definition CBS_get_u64 :: "cbs \<Rightarrow> u64 option \<times> cbs" where
  "CBS_get_u64 c = cbs_get_u c 8"

text \<open>\<open>__builtin_bswap16\<close>, \<open>32\<close> and \<open>64\<close>: the bytes in the opposite order.\<close>

definition CRYPTO_bswap :: "nat \<Rightarrow> 'a::len word \<Rightarrow> 'a word" where
  "CRYPTO_bswap n w = le_val (rev (le_bytes n w))"

definition CBS_get_u16le :: "cbs \<Rightarrow> 16 word option \<times> cbs" where
  "CBS_get_u16le c = (case CBS_get_u16 c of (v, c) \<Rightarrow> (map_option (CRYPTO_bswap 2) v, c))"

definition CBS_get_u32le :: "cbs \<Rightarrow> u32 option \<times> cbs" where
  "CBS_get_u32le c = (case CBS_get_u32 c of (v, c) \<Rightarrow> (map_option (CRYPTO_bswap 4) v, c))"

definition CBS_get_u64le :: "cbs \<Rightarrow> u64 option \<times> cbs" where
  "CBS_get_u64le c = (case cbs_get_u c 8 of (v, c) \<Rightarrow> (map_option (CRYPTO_bswap 8) v, c))"

definition CBS_get_last_u8 :: "cbs \<Rightarrow> byte option \<times> cbs" where
  "CBS_get_last_u8 c = (if c = [] then (None, c) else (Some (last c), butlast c))"

definition CBS_get_bytes :: "cbs \<Rightarrow> size_t \<Rightarrow> cbs option \<times> cbs" where
  "CBS_get_bytes c n = cbs_get c n"

definition CBS_copy_bytes :: "mem \<Rightarrow> cbs \<Rightarrow> addr \<Rightarrow> size_t \<Rightarrow> bool \<times> mem \<times> cbs" where
  "CBS_copy_bytes m c out n =
     (case cbs_get c n of
        (None, c) \<Rightarrow> (False, m, c)
      | (Some d, c) \<Rightarrow> (True, mem_write m out d, c))"

definition cbs_get_length_prefixed :: "cbs \<Rightarrow> size_t \<Rightarrow> cbs option \<times> cbs" where
  "cbs_get_length_prefixed c len_len =
     (case cbs_get_u c len_len of
        (None, c) \<Rightarrow> (None, c)
      | (Some len, c) \<Rightarrow> CBS_get_bytes c len)"

definition CBS_get_u8_length_prefixed :: "cbs \<Rightarrow> cbs option \<times> cbs" where
  "CBS_get_u8_length_prefixed c = cbs_get_length_prefixed c 1"

definition CBS_get_u16_length_prefixed :: "cbs \<Rightarrow> cbs option \<times> cbs" where
  "CBS_get_u16_length_prefixed c = cbs_get_length_prefixed c 2"

definition CBS_get_u24_length_prefixed :: "cbs \<Rightarrow> cbs option \<times> cbs" where
  "CBS_get_u24_length_prefixed c = cbs_get_length_prefixed c 3"

section \<open>ASN.1 elements\<close>

definition CBS_ASN1_TAG_SHIFT :: nat where
  "CBS_ASN1_TAG_SHIFT = 24"

definition CBS_ASN1_CONSTRUCTED :: u32 where
  "CBS_ASN1_CONSTRUCTED = push_bit CBS_ASN1_TAG_SHIFT 0x20"

definition CBS_ASN1_TAG_NUMBER_MASK :: u32 where
  "CBS_ASN1_TAG_NUMBER_MASK = push_bit (5 + CBS_ASN1_TAG_SHIFT) 1 - 1"

definition CBS_ASN1_BOOLEAN :: u32 where "CBS_ASN1_BOOLEAN = 1"

definition CBS_ASN1_INTEGER :: u32 where "CBS_ASN1_INTEGER = 2"

definition CBS_ASN1_OCTETSTRING :: u32 where "CBS_ASN1_OCTETSTRING = 4"

fun base128_loop :: "cbs \<Rightarrow> u64 \<Rightarrow> u64 option \<times> cbs" where
  "base128_loop [] v = (None, [])"
| "base128_loop (b # c) v =
     (if drop_bit (64 - 7) v \<noteq> 0 then (None, c)
      else if v = 0 \<and> b = 0x80 then (None, c)
      else
        let v = push_bit 7 v OR ucast (b AND 0x7f)
        in if b AND 0x80 \<noteq> 0 then base128_loop c v else (Some v, c))"

definition parse_base128_integer :: "cbs \<Rightarrow> u64 option \<times> cbs" where
  "parse_base128_integer c = base128_loop c 0"

definition parse_asn1_tag :: "cbs \<Rightarrow> u32 option \<times> cbs" where
  "parse_asn1_tag c =
     (case CBS_get_u8 c of
        (None, c) \<Rightarrow> (None, c)
      | (Some tag_byte, c) \<Rightarrow>
          let tag = push_bit CBS_ASN1_TAG_SHIFT (ucast tag_byte AND 0xe0) :: u32;
              tag_number = ucast (tag_byte AND 0x1f) :: u32
          in
            if tag_number = 0x1f then
              (case parse_base128_integer c of
                 (None, c) \<Rightarrow> (None, c)
               | (Some v, c) \<Rightarrow>
                   if v > ucast CBS_ASN1_TAG_NUMBER_MASK \<or> v < 0x1f then (None, c)
                   else (Some (tag OR ucast v), c))
            else (Some (tag OR tag_number), c))"

text \<open>The result is the element, its tag and the length of its header. The header is read from a
  copy, so only a complete element moves the string.\<close>

definition cbs_get_any_asn1_element :: "cbs \<Rightarrow> bool \<Rightarrow> (cbs \<times> u32 \<times> size_t) option \<times> cbs" where
  "cbs_get_any_asn1_element c ber_ok =
     (let finish = (\<lambda>tag len header_len.
            case CBS_get_bytes c len of (r, c) \<Rightarrow> (map_option (\<lambda>out. (out, tag, header_len)) r, c))
      in
      case parse_asn1_tag c of
        (None, _) \<Rightarrow> (None, c)
      | (Some tag, header) \<Rightarrow>
          (case CBS_get_u8 header of
             (None, _) \<Rightarrow> (None, c)
           | (Some length_byte, header) \<Rightarrow>
               let header_len = (of_nat (length c) - of_nat (length header) :: size_t) in
               if length_byte AND 0x80 = 0
               then finish tag (ucast length_byte + header_len) header_len
               else
                 let num_bytes = (ucast (length_byte AND 0x7f) :: size_t) in
                 if ber_ok \<and> tag AND CBS_ASN1_CONSTRUCTED \<noteq> 0 \<and> num_bytes = 0
                 then finish tag header_len header_len
                 else if num_bytes = 0 \<or> num_bytes > 4 then (None, c)
                 else
                   (case cbs_get_u header num_bytes of
                      (None, _) \<Rightarrow> (None, c)
                    | (Some len64, header) \<Rightarrow>
                        if len64 < 128 then (None, c)
                        else if drop_bit (unat ((num_bytes - 1) * 8)) len64 = 0 then (None, c)
                        else if len64 + header_len + num_bytes < len64 then (None, c)
                        else finish tag (len64 + (header_len + num_bytes)) (header_len + num_bytes))))"

definition CBS_get_any_asn1_element :: "cbs \<Rightarrow> (cbs \<times> u32 \<times> size_t) option \<times> cbs" where
  "CBS_get_any_asn1_element c = cbs_get_any_asn1_element c False"

definition CBS_get_any_ber_asn1_element :: "cbs \<Rightarrow> (cbs \<times> u32 \<times> size_t) option \<times> cbs" where
  "CBS_get_any_ber_asn1_element c = cbs_get_any_asn1_element c True"

definition CBS_get_any_asn1 :: "cbs \<Rightarrow> (cbs \<times> u32) option \<times> cbs" where
  "CBS_get_any_asn1 c =
     (case CBS_get_any_asn1_element c of
        (None, c) \<Rightarrow> (None, c)
      | (Some (out, tag, header_len), c) \<Rightarrow>
          (case CBS_skip out header_len of (ok, out) \<Rightarrow> (if ok then Some (out, tag) else None, c)))"

definition cbs_get_asn1 :: "cbs \<Rightarrow> u32 \<Rightarrow> bool \<Rightarrow> cbs option \<times> cbs" where
  "cbs_get_asn1 c tag_value skip_header =
     (case CBS_get_any_asn1_element c of
        (None, c) \<Rightarrow> (None, c)
      | (Some (out, tag, header_len), c) \<Rightarrow>
          if tag \<noteq> tag_value then (None, c)
          else if skip_header then
            (case CBS_skip out header_len of (ok, out) \<Rightarrow> (if ok then Some out else None, c))
          else (Some out, c))"

definition CBS_get_asn1 :: "cbs \<Rightarrow> u32 \<Rightarrow> cbs option \<times> cbs" where
  "CBS_get_asn1 c tag_value = cbs_get_asn1 c tag_value True"

definition CBS_get_asn1_element :: "cbs \<Rightarrow> u32 \<Rightarrow> cbs option \<times> cbs" where
  "CBS_get_asn1_element c tag_value = cbs_get_asn1 c tag_value False"

definition CBS_peek_asn1_tag :: "cbs \<Rightarrow> u32 \<Rightarrow> bool" where
  "CBS_peek_asn1_tag c tag_value \<longleftrightarrow> c \<noteq> [] \<and> fst (parse_asn1_tag c) = Some tag_value"

section \<open>Values\<close>

fun uint64_loop :: "cbs \<Rightarrow> u64 \<Rightarrow> u64 option" where
  "uint64_loop [] out = Some out"
| "uint64_loop (b # c) out =
     (if drop_bit 56 out \<noteq> 0 then None else uint64_loop c (push_bit 8 out OR ucast b))"

definition CBS_get_asn1_uint64 :: "cbs \<Rightarrow> u64 option \<times> cbs" where
  "CBS_get_asn1_uint64 c =
     (case CBS_get_asn1 c CBS_ASN1_INTEGER of
        (None, c) \<Rightarrow> (None, c)
      | (Some d, c) \<Rightarrow>
          if d = [] then (None, c)
          else if d ! 0 AND 0x80 \<noteq> 0 then (None, c)
          else if d ! 0 = 0 \<and> length d > 1 \<and> d ! 1 AND 0x80 = 0 then (None, c)
          else (uint64_loop d 0, c))"

text \<open>The union of the integer and its eight bytes, on a little-endian machine; the word is read
  as a signed integer.\<close>

definition CBS_get_asn1_int64 :: "cbs \<Rightarrow> u64 option \<times> cbs" where
  "CBS_get_asn1_int64 c =
     (case CBS_get_asn1 c CBS_ASN1_INTEGER of
        (None, c) \<Rightarrow> (None, c)
      | (Some d, c) \<Rightarrow>
          if d = [] \<or> length d > 8 then (None, c)
          else if length d > 1 \<and> d ! 0 = 0 \<and> d ! 1 AND 0x80 = 0 then (None, c)
          else if length d > 1 \<and> d ! 0 = 0xff \<and> d ! 1 AND 0x80 \<noteq> 0 then (None, c)
          else
            let is_negative = d ! 0 AND 0x80 \<noteq> 0;
                bytes = rev d @ replicate (8 - length d) (if is_negative then 0xff else 0)
            in (Some (le_val bytes), c))"

definition CBS_get_asn1_bool :: "cbs \<Rightarrow> bool option \<times> cbs" where
  "CBS_get_asn1_bool c =
     (case CBS_get_asn1 c CBS_ASN1_BOOLEAN of
        (None, c) \<Rightarrow> (None, c)
      | (Some d, c) \<Rightarrow>
          if length d \<noteq> 1 then (None, c)
          else if d ! 0 \<noteq> 0 \<and> d ! 0 \<noteq> 0xff then (None, c)
          else (Some (d ! 0 \<noteq> 0), c))"

text \<open>The result of an optional field is \<open>None\<close> on failure and \<open>Some None\<close> when it is absent.\<close>

definition CBS_get_optional_asn1 :: "cbs \<Rightarrow> u32 \<Rightarrow> cbs option option \<times> cbs" where
  "CBS_get_optional_asn1 c tag =
     (if CBS_peek_asn1_tag c tag
      then (case CBS_get_asn1 c tag of (r, c) \<Rightarrow> (map_option Some r, c))
      else (Some None, c))"

definition CBS_get_optional_asn1_octet_string :: "cbs \<Rightarrow> u32 \<Rightarrow> cbs option option \<times> cbs" where
  "CBS_get_optional_asn1_octet_string c tag =
     (case CBS_get_optional_asn1 c tag of
        (Some (Some child), c) \<Rightarrow>
          (case CBS_get_asn1 child CBS_ASN1_OCTETSTRING of
             (Some out, child) \<Rightarrow> (if child = [] then Some (Some out) else None, c)
           | (None, child) \<Rightarrow> (None, c))
      | (r, c) \<Rightarrow> (r, c))"

definition CBS_get_optional_asn1_uint64 :: "cbs \<Rightarrow> u32 \<Rightarrow> u64 \<Rightarrow> u64 option \<times> cbs" where
  "CBS_get_optional_asn1_uint64 c tag default_value =
     (case CBS_get_optional_asn1 c tag of
        (None, c) \<Rightarrow> (None, c)
      | (Some None, c) \<Rightarrow> (Some default_value, c)
      | (Some (Some child), c) \<Rightarrow>
          (case CBS_get_asn1_uint64 child of
             (Some out, child) \<Rightarrow> (if child = [] then Some out else None, c)
           | (None, child) \<Rightarrow> (None, c)))"

definition CBS_get_optional_asn1_bool :: "cbs \<Rightarrow> u32 \<Rightarrow> bool \<Rightarrow> bool option \<times> cbs" where
  "CBS_get_optional_asn1_bool c tag default_value =
     (case CBS_get_optional_asn1 c tag of
        (None, c) \<Rightarrow> (None, c)
      | (Some None, c) \<Rightarrow> (Some default_value, c)
      | (Some (Some child), c) \<Rightarrow>
          (case CBS_get_asn1 child CBS_ASN1_BOOLEAN of
             (None, child) \<Rightarrow> (None, c)
           | (Some child2, child) \<Rightarrow>
               if length child2 \<noteq> 1 \<or> child \<noteq> [] then (None, c)
               else if child2 ! 0 = 0 then (Some False, c)
               else if child2 ! 0 = 0xff then (Some True, c)
               else (None, c)))"

definition CBS_is_valid_asn1_bitstring :: "cbs \<Rightarrow> bool" where
  "CBS_is_valid_asn1_bitstring c =
     (case CBS_get_u8 c of
        (None, _) \<Rightarrow> False
      | (Some num_unused_bits, c) \<Rightarrow>
          if num_unused_bits > 7 then False
          else if num_unused_bits = 0 then True
          else
            (case CBS_get_last_u8 c of
               (None, _) \<Rightarrow> False
             | (Some x, _) \<Rightarrow> x AND (push_bit (unat num_unused_bits) 1 - 1) = 0))"

definition CBS_asn1_bitstring_has_bit :: "cbs \<Rightarrow> u32 \<Rightarrow> bool" where
  "CBS_asn1_bitstring_has_bit c k =
     (if \<not> CBS_is_valid_asn1_bitstring c then False
      else
        let byte_num = drop_bit 3 k + 1;
            bit_num = 7 - (k AND 7)
        in unat byte_num < length c \<and> c ! unat byte_num AND push_bit (unat bit_num) 1 \<noteq> 0)"

end
