(* ===== verification/Crypto_Cbb.thy ===== *)
theory Crypto_Cbb
  imports Crypto_Cbs
begin

text \<open>
  Building byte strings: \<^verbatim>\<open>ios/Pods/BoringSSL-GRPC/src/crypto/bytestring/cbb.c\<close>. A top-level \<open>CBB\<close>
  owns a buffer, of which \<open>len\<close> bytes are valid, and the \<open>CBB\<close>s opened in it form a chain, since
  each has at most one child: \<open>children\<close> lists them from the outside in. A live \<open>CBB\<close> is named by
  its depth, 0 for the top level. \<open>env\<close> is the allocator: whether it allots the size asked for, and
  what new cells hold; in a fixed buffer nothing is allocated. Every operation returns its result
  and the state.
\<close>

section \<open>State\<close>

record cbb_buffer_st =
  buf :: "byte list"
  len :: size_t
  cap :: size_t
  can_resize :: bool
  failed :: bool

record cbb_child =
  offset :: size_t
  pending_len_len :: byte
  pending_is_asn1 :: bool

record cbb_st =
  base :: cbb_buffer_st
  children :: "cbb_child list"

text \<open>The allocator: which sizes it grants, the same ones for a whole run, and what is in fresh memory.\<close>

record allocator =
  allots :: "size_t \<Rightarrow> bool"
  fresh_cell :: "nat \<Rightarrow> byte"

section \<open>The buffer\<close>

definition CBB_init :: "allocator \<Rightarrow> size_t \<Rightarrow> cbb_st option" where
  "CBB_init env initial_capacity =
     (if initial_capacity > 0 \<and> \<not> allots env initial_capacity then None
      else if \<not> allots env 32 then None
      else Some \<lparr>base = \<lparr>buf = map (fresh_cell env) [0..<unat initial_capacity], len = 0, cap = initial_capacity,
                   can_resize = True, failed = False\<rparr>,
                 children = []\<rparr>)"

definition CBB_init_fixed :: "allocator \<Rightarrow> byte list \<Rightarrow> cbb_st option" where
  "CBB_init_fixed env b =
     (if \<not> allots env 32 then None
      else Some \<lparr>base = \<lparr>buf = b, len = 0, cap = of_nat (length b), can_resize = False, failed = False\<rparr>,
                 children = []\<rparr>)"

definition cbb_buffer_reserve :: "allocator \<Rightarrow> cbb_buffer_st \<Rightarrow> size_t \<Rightarrow> bool \<times> cbb_buffer_st" where
  "cbb_buffer_reserve env s n =
     (let newlen = len s + n; err = (False, s\<lparr>failed := True\<rparr>) in
      if newlen < len s then err
      else if newlen > cap s then
        if \<not> can_resize s then err
        else
          let newcap = cap s * 2;
              newcap = (if newcap < cap s \<or> newcap < newlen then newlen else newcap)
          in
            if \<not> allots env newcap then err
            else (True, s\<lparr>buf := buf s @ map (fresh_cell env) [unat (cap s)..<unat newcap], cap := newcap\<rparr>)
      else (True, s))"

text \<open>The bytes are added at the old length, which is what \<open>out\<close> points to; they hold what the
  buffer held.\<close>

definition cbb_buffer_add :: "allocator \<Rightarrow> cbb_buffer_st \<Rightarrow> size_t \<Rightarrow> bool \<times> cbb_buffer_st" where
  "cbb_buffer_add env s n =
     (case cbb_buffer_reserve env s n of
        (False, s) \<Rightarrow> (False, s)
      | (True, s) \<Rightarrow> (True, s\<lparr>len := len s + n\<rparr>))"

definition write_at :: "'a list \<Rightarrow> nat \<Rightarrow> 'a list \<Rightarrow> 'a list" where
  "write_at b i bs = take i b @ bs @ drop (i + length bs) b"

text \<open>\<open>len_len\<close> bytes of \<open>v\<close>, most significant first, and what is left of \<open>v\<close>.\<close>

fun put_u :: "nat \<Rightarrow> u64 \<Rightarrow> byte list \<times> u64" where
  "put_u 0 v = ([], v)"
| "put_u (Suc n) v = (case put_u n (drop_bit 8 v) of (bs, w) \<Rightarrow> (bs @ [ucast v], w))"

definition cbb_buffer_add_u :: "allocator \<Rightarrow> cbb_buffer_st \<Rightarrow> u64 \<Rightarrow> size_t \<Rightarrow> bool \<times> cbb_buffer_st" where
  "cbb_buffer_add_u env s v len_len =
     (if len_len = 0 then (True, s)
      else
        (case cbb_buffer_add env s len_len of
           (False, s1) \<Rightarrow> (False, s1)
         | (True, s1) \<Rightarrow>
             (case put_u (unat len_len) v of
                (bs, w) \<Rightarrow>
                  let s2 = s1\<lparr>buf := write_at (buf s1) (unat (len s)) bs\<rparr>
                  in if w \<noteq> 0 then (False, s2\<lparr>failed := True\<rparr>) else (True, s2))))"

section \<open>Length prefixes\<close>

text \<open>The octets of a DER length as \<open>CBB_flush\<close> chooses them: how many, the first one, and the
  value left for the others.\<close>

definition asn1_length :: "size_t \<Rightarrow> (byte \<times> byte \<times> size_t) option" where
  "asn1_length n =
     (if n > 0xfffffffe then None
      else if n > 0xffffff then Some (5, 0x80 OR 4, n)
      else if n > 0xffff then Some (4, 0x80 OR 3, n)
      else if n > 0xff then Some (3, 0x80 OR 2, n)
      else if n > 0x7f then Some (2, 0x80 OR 1, n)
      else Some (1, ucast n, 0))"

text \<open>Fill in the prefix of the child \<open>c\<close>, whose contents reach to the end of the buffer.\<close>

definition close_child :: "allocator \<Rightarrow> cbb_child \<Rightarrow> cbb_buffer_st \<Rightarrow> bool \<times> cbb_buffer_st" where
  "close_child env c s =
     (let child_start = offset c + ucast (pending_len_len c);
          err = (\<lambda>s. (False, s\<lparr>failed := True\<rparr>));
          fill = (\<lambda>off k n s.
             case put_u (unat (k :: byte)) n of
               (bs, w) \<Rightarrow>
                 let s = s\<lparr>buf := write_at (buf s) (unat (off :: size_t)) bs\<rparr>
                 in if w \<noteq> 0 then err s else (True, s))
      in
        if child_start < offset c \<or> len s < child_start then err s
        else
          let n = len s - child_start in
          if pending_is_asn1 c then
            (case asn1_length n of
               None \<Rightarrow> err s
             | Some (len_len, initial_length_byte, rest) \<Rightarrow>
                 let extra_bytes = (ucast len_len - 1 :: size_t);
                     put_initial = (\<lambda>s. s\<lparr>buf := (buf s)[unat (offset c) := initial_length_byte]\<rparr>)
                 in
                   if len_len \<noteq> 1 then
                     (case cbb_buffer_add env s extra_bytes of
                        (False, s) \<Rightarrow> err s
                      | (True, s1) \<Rightarrow>
                          let moved = take (unat n) (drop (unat child_start) (buf s1));
                              s2 = s1\<lparr>buf := write_at (buf s1) (unat (child_start + extra_bytes)) moved\<rparr>
                          in fill (offset c + 1) (len_len - 1) rest (put_initial s2))
                   else fill (offset c + 1) (len_len - 1) rest (put_initial s))
          else fill (offset c) (pending_len_len c) n s)"

text \<open>\<open>CBB_flush\<close> of the \<open>CBB\<close> whose descendants are the list: the innermost child is closed first.
  A child with no pending prefix stays open.\<close>

fun flush_children :: "allocator \<Rightarrow> cbb_child list \<Rightarrow> cbb_buffer_st \<Rightarrow> bool \<times> cbb_child list \<times> cbb_buffer_st" where
  "flush_children env cs s =
     (if failed s then (False, cs, s)
      else
        (case cs of
           [] \<Rightarrow> (True, [], s)
         | c # ds \<Rightarrow>
             if pending_len_len c = 0 then (True, c # ds, s)
             else
               (case flush_children env ds s of
                  (False, ds, s) \<Rightarrow> (False, c # ds, s\<lparr>failed := True\<rparr>)
                | (True, ds, s) \<Rightarrow>
                    (case close_child env c s of
                       (False, s) \<Rightarrow> (False, c # ds, s)
                     | (True, s) \<Rightarrow> (True, [], s)))))"

definition CBB_flush :: "allocator \<Rightarrow> nat \<Rightarrow> cbb_st \<Rightarrow> bool \<times> cbb_st" where
  "CBB_flush env k s =
     (case flush_children env (drop k (children s)) (base s) of
        (ok, cs, b) \<Rightarrow> (ok, s\<lparr>base := b, children := take k (children s) @ cs\<rparr>))"

section \<open>Operations\<close>

text \<open>Every operation flushes the children of its \<open>CBB\<close> first.\<close>

definition flushed :: "allocator \<Rightarrow> nat \<Rightarrow> (cbb_st \<Rightarrow> bool \<times> cbb_st) \<Rightarrow> cbb_st \<Rightarrow> bool \<times> cbb_st" where
  "flushed env k f s = (case CBB_flush env k s of (False, s) \<Rightarrow> (False, s) | (True, s) \<Rightarrow> f s)"

definition on_base :: "(cbb_buffer_st \<Rightarrow> bool \<times> cbb_buffer_st) \<Rightarrow> cbb_st \<Rightarrow> bool \<times> cbb_st" where
  "on_base f s = (case f (base s) of (ok, b) \<Rightarrow> (ok, s\<lparr>base := b\<rparr>))"

definition add_data :: "allocator \<Rightarrow> byte list \<Rightarrow> cbb_buffer_st \<Rightarrow> bool \<times> cbb_buffer_st" where
  "add_data env d b =
     (case cbb_buffer_add env b (of_nat (length d)) of
        (False, b1) \<Rightarrow> (False, b1)
      | (True, b1) \<Rightarrow> (True, b1\<lparr>buf := write_at (buf b1) (unat (len b)) d\<rparr>))"

definition CBB_add_bytes :: "allocator \<Rightarrow> nat \<Rightarrow> byte list \<Rightarrow> cbb_st \<Rightarrow> bool \<times> cbb_st" where
  "CBB_add_bytes env k d = flushed env k (on_base (add_data env d))"

definition CBB_add_space :: "allocator \<Rightarrow> nat \<Rightarrow> size_t \<Rightarrow> cbb_st \<Rightarrow> bool \<times> cbb_st" where
  "CBB_add_space env k n = flushed env k (on_base (\<lambda>b. cbb_buffer_add env b n))"

definition CBB_reserve :: "allocator \<Rightarrow> nat \<Rightarrow> size_t \<Rightarrow> cbb_st \<Rightarrow> bool \<times> cbb_st" where
  "CBB_reserve env k n = flushed env k (on_base (\<lambda>b. cbb_buffer_reserve env b n))"

definition CBB_did_write :: "nat \<Rightarrow> size_t \<Rightarrow> cbb_st \<Rightarrow> bool \<times> cbb_st" where
  "CBB_did_write k n s =
     (let newlen = len (base s) + n in
      if k < length (children s) \<or> newlen < len (base s) \<or> newlen > cap (base s) then (False, s)
      else (True, s\<lparr>base := (base s)\<lparr>len := newlen\<rparr>\<rparr>))"

definition add_u :: "allocator \<Rightarrow> nat \<Rightarrow> u64 \<Rightarrow> size_t \<Rightarrow> cbb_st \<Rightarrow> bool \<times> cbb_st" where
  "add_u env k v n = flushed env k (on_base (\<lambda>b. cbb_buffer_add_u env b v n))"

definition CBB_add_u8 :: "allocator \<Rightarrow> nat \<Rightarrow> byte \<Rightarrow> cbb_st \<Rightarrow> bool \<times> cbb_st" where
  "CBB_add_u8 env k v = add_u env k (ucast v) 1"

definition CBB_add_u16 :: "allocator \<Rightarrow> nat \<Rightarrow> 16 word \<Rightarrow> cbb_st \<Rightarrow> bool \<times> cbb_st" where
  "CBB_add_u16 env k v = add_u env k (ucast v) 2"

definition CBB_add_u24 :: "allocator \<Rightarrow> nat \<Rightarrow> u32 \<Rightarrow> cbb_st \<Rightarrow> bool \<times> cbb_st" where
  "CBB_add_u24 env k v = add_u env k (ucast v) 3"

definition CBB_add_u32 :: "allocator \<Rightarrow> nat \<Rightarrow> u32 \<Rightarrow> cbb_st \<Rightarrow> bool \<times> cbb_st" where
  "CBB_add_u32 env k v = add_u env k (ucast v) 4"

definition CBB_add_u64 :: "allocator \<Rightarrow> nat \<Rightarrow> u64 \<Rightarrow> cbb_st \<Rightarrow> bool \<times> cbb_st" where
  "CBB_add_u64 env k v = add_u env k v 8"

definition CBB_add_u16le :: "allocator \<Rightarrow> nat \<Rightarrow> 16 word \<Rightarrow> cbb_st \<Rightarrow> bool \<times> cbb_st" where
  "CBB_add_u16le env k v = CBB_add_u16 env k (CRYPTO_bswap 2 v)"

definition CBB_add_u32le :: "allocator \<Rightarrow> nat \<Rightarrow> u32 \<Rightarrow> cbb_st \<Rightarrow> bool \<times> cbb_st" where
  "CBB_add_u32le env k v = CBB_add_u32 env k (CRYPTO_bswap 4 v)"

definition CBB_add_u64le :: "allocator \<Rightarrow> nat \<Rightarrow> u64 \<Rightarrow> cbb_st \<Rightarrow> bool \<times> cbb_st" where
  "CBB_add_u64le env k v = CBB_add_u64 env k (CRYPTO_bswap 8 v)"

definition open_child :: "nat \<Rightarrow> cbb_child \<Rightarrow> cbb_st \<Rightarrow> cbb_st" where
  "open_child k c s = s\<lparr>children := take k (children s) @ [c]\<rparr>"

definition cbb_add_length_prefixed :: "allocator \<Rightarrow> nat \<Rightarrow> byte \<Rightarrow> cbb_st \<Rightarrow> bool \<times> cbb_st" where
  "cbb_add_length_prefixed env k len_len =
     flushed env k (\<lambda>s.
       case on_base (add_data env (replicate (unat len_len) 0)) s of
         (False, s1) \<Rightarrow> (False, s1)
       | (True, s1) \<Rightarrow>
           (True, open_child k \<lparr>offset = len (base s), pending_len_len = len_len, pending_is_asn1 = False\<rparr> s1))"

definition CBB_add_u8_length_prefixed :: "allocator \<Rightarrow> nat \<Rightarrow> cbb_st \<Rightarrow> bool \<times> cbb_st" where
  "CBB_add_u8_length_prefixed env k = cbb_add_length_prefixed env k 1"

definition CBB_add_u16_length_prefixed :: "allocator \<Rightarrow> nat \<Rightarrow> cbb_st \<Rightarrow> bool \<times> cbb_st" where
  "CBB_add_u16_length_prefixed env k = cbb_add_length_prefixed env k 2"

definition CBB_add_u24_length_prefixed :: "allocator \<Rightarrow> nat \<Rightarrow> cbb_st \<Rightarrow> bool \<times> cbb_st" where
  "CBB_add_u24_length_prefixed env k = cbb_add_length_prefixed env k 3"

text \<open>Calls in sequence, until one fails.\<close>

definition and_then :: "(cbb_st \<Rightarrow> bool \<times> cbb_st) \<Rightarrow> (cbb_st \<Rightarrow> bool \<times> cbb_st) \<Rightarrow> cbb_st \<Rightarrow> bool \<times> cbb_st" where
  "and_then f g s = (case f s of (False, s) \<Rightarrow> (False, s) | (True, s) \<Rightarrow> g s)"

fun base128_len :: "nat \<Rightarrow> u64 \<Rightarrow> nat" where
  "base128_len 0 copy = 0"
| "base128_len (Suc n) copy = (if copy > 0 then Suc (base128_len n (drop_bit 7 copy)) else 0)"

fun add_base128_loop :: "allocator \<Rightarrow> nat \<Rightarrow> nat \<Rightarrow> u64 \<Rightarrow> cbb_st \<Rightarrow> bool \<times> cbb_st" where
  "add_base128_loop env k 0 v = Pair True"
| "add_base128_loop env k (Suc i) v =
     and_then
       (CBB_add_u8 env k
          (let byte = ucast (drop_bit (7 * i) v AND 0x7f) in if i \<noteq> 0 then byte OR 0x80 else byte))
       (add_base128_loop env k i v)"

text \<open>A 64-bit value has no more than ten digits in base 128.\<close>

definition add_base128_integer :: "allocator \<Rightarrow> nat \<Rightarrow> u64 \<Rightarrow> cbb_st \<Rightarrow> bool \<times> cbb_st" where
  "add_base128_integer env k v =
     (let len_len = base128_len 10 v in add_base128_loop env k (if len_len = 0 then 1 else len_len) v)"

definition CBB_add_asn1 :: "allocator \<Rightarrow> nat \<Rightarrow> u32 \<Rightarrow> cbb_st \<Rightarrow> bool \<times> cbb_st" where
  "CBB_add_asn1 env k tag =
     flushed env k
       (let tag_bits = (ucast (drop_bit CBS_ASN1_TAG_SHIFT tag) AND 0xe0 :: byte);
            tag_number = tag AND CBS_ASN1_TAG_NUMBER_MASK
        in
          and_then
            (if tag_number \<ge> 0x1f
             then and_then (CBB_add_u8 env k (tag_bits OR 0x1f)) (add_base128_integer env k (ucast tag_number))
             else CBB_add_u8 env k (tag_bits OR ucast tag_number))
            (\<lambda>s.
               case CBB_add_u8 env k 0 s of
                 (False, s1) \<Rightarrow> (False, s1)
               | (True, s1) \<Rightarrow>
                   (True, open_child k \<lparr>offset = len (base s), pending_len_len = 1, pending_is_asn1 = True\<rparr> s1)))"

definition CBB_discard_child :: "nat \<Rightarrow> cbb_st \<Rightarrow> cbb_st" where
  "CBB_discard_child k s =
     (if length (children s) \<le> k then s
      else s\<lparr>base := (base s)\<lparr>len := offset (children s ! k)\<rparr>, children := take k (children s)\<rparr>)"

text \<open>\<open>want\<close>: neither \<open>out_data\<close> nor \<open>out_len\<close> is \<open>NULL\<close>.\<close>

definition CBB_finish :: "allocator \<Rightarrow> bool \<Rightarrow> cbb_st \<Rightarrow> byte list option" where
  "CBB_finish env want s =
     (case CBB_flush env 0 s of
        (False, s) \<Rightarrow> None
      | (True, s) \<Rightarrow>
          if can_resize (base s) \<and> \<not> want then None
          else Some (take (unat (len (base s))) (buf (base s))))"

section \<open>ASN.1 values\<close>

fun add_uint64_loop :: "allocator \<Rightarrow> nat \<Rightarrow> byte list \<Rightarrow> bool \<Rightarrow> cbb_st \<Rightarrow> bool \<times> cbb_st" where
  "add_uint64_loop env k [] started = (if \<not> started then CBB_add_u8 env k 0 else Pair True)"
| "add_uint64_loop env k (byte # bytes) started =
     (if \<not> started \<and> byte = 0 then add_uint64_loop env k bytes started
      else
        and_then
          (if \<not> started \<and> byte AND 0x80 \<noteq> 0 then CBB_add_u8 env k 0 else Pair True)
          (and_then (CBB_add_u8 env k byte) (add_uint64_loop env k bytes True)))"

definition CBB_add_asn1_uint64 :: "allocator \<Rightarrow> nat \<Rightarrow> u64 \<Rightarrow> cbb_st \<Rightarrow> bool \<times> cbb_st" where
  "CBB_add_asn1_uint64 env k v =
     and_then (CBB_add_asn1 env k CBS_ASN1_INTEGER)
       (and_then
          (add_uint64_loop env (k + 1) (map (\<lambda>i. ucast (drop_bit (8 * (7 - i)) v AND 0xff)) [0..<8]) False)
          (CBB_flush env k))"

fun add_u8s :: "allocator \<Rightarrow> nat \<Rightarrow> byte list \<Rightarrow> cbb_st \<Rightarrow> bool \<times> cbb_st" where
  "add_u8s env k [] = Pair True"
| "add_u8s env k (byte # bytes) = and_then (CBB_add_u8 env k byte) (add_u8s env k bytes)"

text \<open>The bytes of a negative number, from \<open>u.bytes[start]\<close> down: leading sign bytes are skipped.\<close>

fun int64_start :: "byte list \<Rightarrow> nat \<Rightarrow> nat" where
  "int64_start bytes 0 = 0"
| "int64_start bytes (Suc start) =
     (if bytes ! Suc start = 0xff \<and> bytes ! start AND 0x80 \<noteq> 0 then int64_start bytes start else Suc start)"

definition CBB_add_asn1_int64 :: "allocator \<Rightarrow> nat \<Rightarrow> u64 \<Rightarrow> cbb_st \<Rightarrow> bool \<times> cbb_st" where
  "CBB_add_asn1_int64 env k v =
     (if sint v \<ge> 0 then CBB_add_asn1_uint64 env k v
      else
        let bytes = le_bytes 8 v; start = int64_start bytes 7
        in and_then (CBB_add_asn1 env k CBS_ASN1_INTEGER)
             (and_then (add_u8s env (k + 1) (rev (take (start + 1) bytes))) (CBB_flush env k)))"

definition CBB_add_asn1_octet_string :: "allocator \<Rightarrow> nat \<Rightarrow> byte list \<Rightarrow> cbb_st \<Rightarrow> bool \<times> cbb_st" where
  "CBB_add_asn1_octet_string env k d =
     and_then (CBB_add_asn1 env k CBS_ASN1_OCTETSTRING)
       (and_then (CBB_add_bytes env (k + 1) d) (CBB_flush env k))"

definition CBB_add_asn1_bool :: "allocator \<Rightarrow> nat \<Rightarrow> bool \<Rightarrow> cbb_st \<Rightarrow> bool \<times> cbb_st" where
  "CBB_add_asn1_bool env k v =
     and_then (CBB_add_asn1 env k CBS_ASN1_BOOLEAN)
       (and_then (CBB_add_u8 env (k + 1) (if v then 0xff else 0)) (CBB_flush env k))"

end
