(* ===== verification/Crypto_Der.thy ===== *)
theory Crypto_Der
  imports Crypto_Cbs
begin

text \<open>
  The DER encodings of X.690, and that the parsers of \<open>Crypto_Cbs\<close> read exactly them: a parser
  accepts the encoding of a value, whatever follows it, and nothing else. That is the interface
  \<open>codec\<close>; tags, elements and integers are its instances, and that encodings are unique and do not
  begin with one another is proved once.
\<close>

section \<open>Big-endian numbers\<close>

primrec be_bytes :: "nat \<Rightarrow> nat \<Rightarrow> byte list" where
  "be_bytes 0 v = []"
| "be_bytes (Suc n) v = be_bytes n (v div 256) @ [of_nat v]"

definition be_val :: "byte list \<Rightarrow> nat" where
  "be_val bs = foldl (\<lambda>r b. 256 * r + unat b) 0 bs"

lemma length_be_bytes [simp]: "length (be_bytes n v) = n"
  by (induction n arbitrary: v) auto

lemma be_val_simps [simp]: "be_val [] = 0" "be_val (bs @ [b]) = 256 * be_val bs + unat b"
  by (simp_all add: be_val_def)

lemma be_val_less: "be_val bs < 256 ^ length bs"
proof (induction bs rule: rev_induct)
  case (snoc b bs)
  show ?case using snoc unat_byte_less [of b] by simp
qed simp

lemma unat_of_nat_byte: "unat (of_nat v :: byte) = v mod 256"
  by (simp add: unsigned_of_nat take_bit_eq_mod)

lemma be_val_be_bytes: "be_val (be_bytes n v) = v mod 256 ^ n"
proof (induction n arbitrary: v)
  case (Suc n)
  have "256 * (v div 256 mod 256 ^ n) + v mod 256 = v mod 256 ^ Suc n"
    using mod_mult2_eq [of v 256 "256 ^ n"] by simp
  then show ?case by (simp add: Suc unat_of_nat_byte)
qed simp

lemma of_nat_byte_step: "(of_nat (256 * n + unat b) :: byte) = b"
proof -
  have "(256 :: byte) = 0" by simp
  then show ?thesis by (simp only: of_nat_add of_nat_mult of_nat_numeral mult_zero_left add_0 of_nat_unat ucast_id)
qed

lemma be_bytes_be_val: "be_bytes (length bs) (be_val bs) = bs"
proof (induction bs rule: rev_induct)
  case (snoc b bs)
  have "(256 * be_val bs + unat b) div 256 = be_val bs" using unat_byte_less [of b] by simp
  then show ?case using snoc by (simp add: of_nat_byte_step del: of_nat_add of_nat_mult)
qed simp

lemma be_bytes_mod: "be_bytes n (v mod 256 ^ n) = be_bytes n v"
  using be_bytes_be_val [of "be_bytes n v"] by (simp add: be_val_be_bytes)

lemma be_fold_simps: "be_fold [] = 0" "be_fold (d @ [b]) = push_bit 8 (be_fold d) OR ucast b"
  by (simp_all add: be_fold_def)

lemma unat_be_fold: "length d \<le> 8 \<Longrightarrow> unat (be_fold d) = be_val d"
proof (induction d rule: rev_induct)
  case (snoc b d)
  have r: "unat (be_fold d) = be_val d" using snoc by simp
  have "be_val d < 256 ^ length d" by (rule be_val_less)
  also have "\<dots> \<le> 256 ^ 7" using snoc.prems by (intro power_increasing) simp_all
  finally have lt: "be_val d < 256 ^ 7" .
  have b: "unat b < 256" by (rule unat_byte_less)
  have "push_bit 8 (be_fold d) OR ucast b = push_bit 8 (be_fold d) + ucast b"
    by (rule disjunctive_add [symmetric]) (auto simp: bit_simps dest: bit_imp_le_length)
  moreover have "unat (push_bit 8 (be_fold d)) = 256 * be_val d"
    using lt by (simp add: push_bit_eq_mult unat_word_ariths r)
  moreover have "256 * be_val d + unat b < 2 ^ 64" using b lt by simp
  ultimately show ?case by (simp add: be_fold_simps unat_word_ariths unat_ucast_up)
qed (simp add: be_fold_simps)

lemma cbs_get_split: "cbs_get c n = (Some d, c') \<longleftrightarrow> length d = unat n \<and> c = d @ c'"
  by (auto simp: cbs_get_def)

lemma cbs_get_u_be:
  assumes "unat n \<le> 8"
  shows "cbs_get_u c n = (Some v, c') \<longleftrightarrow> unat v < 256 ^ unat n \<and> c = be_bytes (unat n) (unat v) @ c'"
proof
  assume "cbs_get_u c n = (Some v, c')"
  then obtain d where d: "length d = unat n" "c = d @ c'" "v = be_fold d"
    by (auto simp: cbs_get_u_def cbs_get_split split: prod.splits option.splits)
  then have v: "unat v = be_val d" using assms by (simp only: unat_be_fold)
  show "unat v < 256 ^ unat n \<and> c = be_bytes (unat n) (unat v) @ c'"
    using be_val_less [of d] be_bytes_be_val [of d] by (simp only: v d(1,2) simp_thms)
next
  assume v: "unat v < 256 ^ unat n \<and> c = be_bytes (unat n) (unat v) @ c'"
  let ?d = "be_bytes (unat n) (unat v)"
  have "unat (be_fold ?d) = unat v"
    by (subst unat_be_fold) (use assms v in \<open>simp_all only: length_be_bytes be_val_be_bytes mod_less\<close>)
  then have "be_fold ?d = v"
    by (simp only: word_eq_iff_unsigned [where ?'a = nat])
  moreover have "cbs_get c n = (Some ?d, c')" using v by (simp add: cbs_get_split)
  ultimately show "cbs_get_u c n = (Some v, c')" by (simp add: cbs_get_u_def)
qed

lemma CBS_get_u8_simps [simp]: "CBS_get_u8 [] = (None, [])" "CBS_get_u8 (b # c) = (Some b, c)"
  by (simp_all add: CBS_get_u8_def cbs_get_def)

section \<open>Codes\<close>

text \<open>A parser and the encoding it reads: it accepts \<open>enc x @ c\<close> for the values of \<open>valid\<close>, leaving
  \<open>c\<close>, and nothing but that.\<close>

locale codec =
  fixes enc :: "'a \<Rightarrow> byte list" and valid :: "'a \<Rightarrow> bool" and dec :: "cbs \<Rightarrow> 'a option \<times> cbs"
  assumes dec_enc: "valid x \<Longrightarrow> dec (enc x @ c) = (Some x, c)"
    and dec_sound: "dec c = (Some x, c') \<Longrightarrow> valid x \<and> c = enc x @ c'"
begin

lemma dec_iff: "dec c = (Some x, c') \<longleftrightarrow> valid x \<and> c = enc x @ c'"
  using dec_enc dec_sound by auto

lemma prefix_free:
  assumes "valid x" "valid y" "enc x @ c = enc y @ d"
  shows "x = y \<and> c = d"
proof -
  have "(Some x, c) = dec (enc x @ c)" by (rule dec_enc [OF assms(1), symmetric])
  also have "\<dots> = (Some y, d)" unfolding assms(3) by (rule dec_enc [OF assms(2)])
  finally show ?thesis by simp
qed

lemma enc_inj: "valid x \<Longrightarrow> valid y \<Longrightarrow> enc x = enc y \<Longrightarrow> x = y"
  using prefix_free [of x y "[]" "[]"] by simp

lemma concat_unique:
  assumes "\<forall>x \<in> set xs. valid x" "\<forall>y \<in> set ys. valid y" "length xs = length ys"
    "concat (map enc xs) @ c = concat (map enc ys) @ d"
  shows "xs = ys \<and> c = d"
  using assms
proof (induction xs arbitrary: ys)
  case (Cons x xs)
  then obtain y zs where ys: "ys = y # zs" by (cases ys) auto
  have e: "enc x @ concat (map enc xs) @ c = enc y @ concat (map enc zs) @ d"
    using Cons.prems(4) unfolding ys list.map concat.simps append_assoc .
  have "x = y \<and> concat (map enc xs) @ c = concat (map enc zs) @ d"
    using Cons.prems(1,2) e by (intro prefix_free) (simp_all only: ys list.set insert_iff ball_simps simp_thms)
  then show ?case using Cons.IH [of zs] Cons.prems(1-3) by (simp add: ys)
qed simp

end

section \<open>Base 128\<close>

fun base128_hi :: "nat \<Rightarrow> byte list" where
  "base128_hi v = (if v = 0 then [] else base128_hi (v div 128) @ [of_nat (128 + v mod 128)])"

declare base128_hi.simps [simp del]

definition base128 :: "nat \<Rightarrow> byte list" where
  "base128 v = base128_hi (v div 128) @ [of_nat (v mod 128)]"

lemma base128_hi_0 [simp]: "base128_hi 0 = []"
  by (simp add: base128_hi.simps)

text \<open>One digit: the bits of a byte, and the step of the accumulator.\<close>

lemma byte_digit:
  "unat (b AND 0x7f) = unat b mod 128" "b AND 0x80 \<noteq> 0 \<longleftrightarrow> 128 \<le> unat (b :: byte)"
proof -
  have "b AND 0x7f = take_bit 7 b" by (simp only: word_masks(6) take_bit_eq_mask)
  then have "unat (b AND 0x7f) = take_bit 7 (unat b)" by (simp only: unsigned_take_bit_eq)
  then show "unat (b AND 0x7f) = unat b mod 128" by (simp add: take_bit_eq_mod)
  have "b AND 0x80 = 0 \<longleftrightarrow> \<not> bit b 7"
  proof
    assume a: "b AND 0x80 = 0"
    have "bit (b AND 0x80) 7 = bit b 7" by (simp add: bit_simps)
    then show "\<not> bit b 7" by (simp only: a bit_0_eq bot_apply bot_bool_def) blast
  next
    assume "\<not> bit b 7"
    then show "b AND 0x80 = 0" by (intro bit_word_eqI) (auto simp: bit_simps)
  qed
  also have "bit b 7 \<longleftrightarrow> 128 \<le> unat b"
  proof -
    have "bit b 7 \<longleftrightarrow> bit (unat b) 7" by (simp add: bit_unsigned_iff)
    moreover have "unat b div 128 = (if 128 \<le> unat b then 1 else 0)"
      using unat_byte_less [of b] by (auto intro: div_nat_eqI)
    ultimately show ?thesis by (simp add: bit_iff_odd)
  qed
  finally show "b AND 0x80 \<noteq> 0 \<longleftrightarrow> 128 \<le> unat b" by simp
qed

lemma base128_step:
  assumes "drop_bit (64 - 7) v = (0 :: u64)"
  shows "unat (push_bit 7 v OR ucast (b AND 0x7f :: byte)) = 128 * unat v + unat b mod 128"
proof -
  have "unat v < 2 ^ 57"
  proof -
    have "unat (drop_bit (64 - 7) v) = unat v div unat (2 ^ (64 - 7) :: u64)"
      by (simp only: drop_bit_eq_div unat_div_distrib)
    then show ?thesis using assms by (simp add: div_eq_0_iff)
  qed
  moreover have "push_bit 7 v OR ucast (b AND 0x7f) = push_bit 7 v + ucast (b AND 0x7f)"
    by (rule disjunctive_add [symmetric]) (auto simp: bit_simps word_masks(6))
  moreover have "unat (push_bit 7 v) = 128 * unat v"
    using calculation(1) by (simp add: push_bit_eq_mult unat_word_ariths)
  moreover have "unat (ucast (b AND 0x7f) :: u64) = unat b mod 128"
    by (rule trans [OF unat_ucast_up byte_digit(1)]) simp
  moreover have "unat b mod 128 < 128" by simp
  ultimately show ?thesis by (simp only: unat_word_ariths) simp
qed

lemma base128_loop_sound:
  "base128_loop c v = (Some w, c') \<Longrightarrow> base128_hi (unat v) @ c = base128 (unat w) @ c'"
proof (induction c v rule: base128_loop.induct)
  case (2 b c v)
  let ?v = "push_bit 7 v OR ucast (b AND 0x7f) :: u64"
  have ok: "drop_bit (64 - 7) v = 0" "\<not> (v = 0 \<and> b = 0x80)" using 2(2) by (auto split: if_splits)
  have step: "unat ?v = 128 * unat v + unat b mod 128" by (rule base128_step [OF ok(1)])
  then have d: "unat ?v div 128 = unat v" "unat ?v mod 128 = unat b mod 128" by simp_all
  show ?case
  proof (cases "b AND 0x80 \<noteq> 0")
    case True
    then have hi: "128 \<le> unat b" by (simp only: byte_digit)
    then have b: "unat b mod 128 = unat b - 128" using unat_byte_less [of b] by (simp add: le_mod_geq)
    have "unat ?v \<noteq> 0"
    proof
      assume z: "unat ?v = 0"
      then have "unat v = 0" "unat b = 128" using step b hi by auto
      then have "v = 0" "b = 0x80" by (simp_all add: word_eq_iff_unsigned [where ?'a = nat])
      then show False using ok(2) by simp
    qed
    then have "base128_hi (unat ?v) = base128_hi (unat v) @ [of_nat (128 + unat b mod 128)]"
      by (subst base128_hi.simps) (simp only: d if_False)
    also have "(of_nat (128 + unat b mod 128) :: byte) = b" using hi by (simp only: b le_add_diff_inverse of_nat_unat ucast_id)
    finally have hi: "base128_hi (unat ?v) = base128_hi (unat v) @ [b]" .
    have "base128_loop (b # c) v = base128_loop c ?v" using ok True by (auto simp: Let_def)
    then have "base128_hi (unat ?v) @ c = base128 (unat w) @ c'"
      using 2(1) [OF _ ok(2) refl True] 2(2) ok(1) by simp
    then show ?thesis by (simp only: hi append_assoc append.simps)
  next
    case False
    then have lo: "unat b < 128" using byte_digit(2) [of b] by linarith
    have w: "w = ?v" "c' = c" using 2(2) ok False by (auto simp: Let_def)
    have "base128 (unat ?v) = base128_hi (unat v) @ [of_nat (unat b)]"
      using lo by (simp only: base128_def d mod_less)
    then show ?thesis by (simp add: w)
  qed
qed simp

lemma base128_loop_hi:
  "v < 2 ^ 64 \<Longrightarrow> base128_loop (base128_hi v @ c) 0 = base128_loop c (of_nat v)"
proof (induction v arbitrary: c rule: base128_hi.induct)
  case (1 v)
  show ?case
  proof (cases "v = 0")
    case False
    let ?b = "of_nat (128 + v mod 128) :: byte" and ?q = "of_nat (v div 128) :: u64"
    have lt: "128 + v mod 128 < 256" by simp
    have b: "unat ?b = 128 + v mod 128" using lt by (simp only: unat_of_nat_byte mod_less)
    have q: "unat ?q = v div 128" using 1(2) by (simp add: unsigned_of_nat take_bit_nat_eq_self)
    have small: "drop_bit (64 - 7) ?q = 0"
    proof -
      have "unat (drop_bit (64 - 7) ?q) = unat ?q div unat (2 ^ (64 - 7) :: u64)"
        by (simp only: drop_bit_eq_div unat_div_distrib)
      also have "\<dots> = 0" unfolding q using 1(2) by simp
      finally show ?thesis by (simp only: unat_eq_0)
    qed
    have not0: "\<not> (?q = 0 \<and> ?b = 0x80)"
    proof
      assume "?q = 0 \<and> ?b = 0x80"
      then have "unat ?q = 0" "unat ?b = 128" by simp_all
      then have "v div 128 = 0" "v mod 128 = 0" unfolding q b by simp_all
      then show False using False by (metis div_mult_mod_eq mult_0 add_0)
    qed
    have hi: "?b AND 0x80 \<noteq> 0" unfolding byte_digit b by simp
    have "unat (push_bit 7 ?q OR ucast (?b AND 0x7f)) = v"
      unfolding base128_step [OF small] q b by simp
    then have step: "push_bit 7 ?q OR ucast (?b AND 0x7f) = of_nat v"
      by (metis of_nat_unat ucast_id)
    have "base128_loop (base128_hi v @ c) 0 = base128_loop (base128_hi (v div 128) @ ?b # c) 0"
      using False by (subst base128_hi.simps) simp
    also have "\<dots> = base128_loop (?b # c) ?q" using False 1(2) by (intro 1(1)) auto
    also have "\<dots> = base128_loop c (of_nat v)"
      using small not0 hi step by (auto simp: Let_def)
    finally show ?thesis .
  qed simp
qed

lemma base128_loop_complete: "base128_loop (base128 (unat v) @ c) 0 = (Some v, c)"
proof -
  let ?q = "of_nat (unat v div 128) :: u64" and ?b = "of_nat (unat v mod 128) :: byte"
  have v: "unat v < 2 ^ 64" by (rule unat_u64_less)
  have b: "unat ?b = unat v mod 128" by (simp add: unsigned_of_nat take_bit_nat_eq_self)
  have q: "unat ?q = unat v div 128" using v by (simp add: unsigned_of_nat take_bit_nat_eq_self)
  have small: "drop_bit (64 - 7) ?q = 0"
  proof -
    have "unat (drop_bit (64 - 7) ?q) = unat ?q div unat (2 ^ (64 - 7) :: u64)"
      by (simp only: drop_bit_eq_div unat_div_distrib)
    also have "\<dots> = 0" unfolding q using v by simp
    finally show ?thesis by (simp only: unat_eq_0)
  qed
  have lo: "?b AND 0x80 = 0" using byte_digit(2) [of ?b] unfolding b by auto
  then have "?b \<noteq> 0x80" by auto
  have "unat (push_bit 7 ?q OR ucast (?b AND 0x7f)) = unat v"
    unfolding base128_step [OF small] q b by simp
  then have step: "push_bit 7 ?q OR ucast (?b AND 0x7f) = v"
    by (simp only: word_eq_iff_unsigned [where ?'a = nat])
  have "base128_loop (base128 (unat v) @ c) 0 = base128_loop (base128_hi (unat v div 128) @ ?b # c) 0"
    by (simp add: base128_def)
  also have "\<dots> = base128_loop (?b # c) ?q"
    using v by (intro base128_loop_hi) simp
  also have "\<dots> = (Some v, c)" using small lo \<open>?b \<noteq> 0x80\<close> step by (auto simp: Let_def)
  finally show ?thesis .
qed

interpretation base128: codec "\<lambda>v. base128 (unat v)" "\<lambda>_. True" parse_base128_integer
  by unfold_locales (auto simp: parse_base128_integer_def base128_loop_complete dest: base128_loop_sound)

section \<open>Tags\<close>

definition tag_octets :: "u32 \<Rightarrow> byte list" where
  "tag_octets t =
     (let bits = ucast (drop_bit 24 t) AND 0xe0 :: byte;
          number = take_bit 29 t
      in if unat number < 31 then [bits OR ucast number] else (bits OR 0x1f) # base128 (unat number))"

lemma tag_masks:
  "(0xe0 :: 'a::len word) = push_bit 5 (mask 3)" "(0x1f :: 'a::len word) = mask 5"
  "CBS_ASN1_TAG_NUMBER_MASK = mask 29"
  by (simp_all add: mask_eq_exp_minus_1 CBS_ASN1_TAG_NUMBER_MASK_def CBS_ASN1_TAG_SHIFT_def)

lemma small_number_bit:
  assumes "unat (n :: 'a::len word) < 2 ^ k" "bit n i"
  shows "i < k"
proof -
  have "take_bit k n = n"
    using assms(1) by (simp add: word_eq_iff_unsigned [where ?'a = nat] unsigned_take_bit_eq take_bit_nat_eq_self)
  then show ?thesis using assms(2) by (metis bit_take_bit_iff)
qed

text \<open>The tag byte and the number give back the tag.\<close>

lemma tag_octet_parts:
  fixes t :: u32
  defines "bits \<equiv> ucast (drop_bit 24 t) AND 0xe0 :: byte"
  shows "push_bit 24 (ucast bits AND 0xe0) OR take_bit 29 t = t" "bits AND 0x1f = 0"
  unfolding bits_def tag_masks by (rule bit_word_eqI; auto simp: bit_simps)+

lemma tag_of_parts:
  fixes b :: byte and n :: u32
  assumes "unat n < 2 ^ 29"
  defines "t \<equiv> push_bit 24 (ucast b AND 0xe0) OR n"
  shows "ucast (drop_bit 24 t) AND 0xe0 = b AND 0xe0" "take_bit 29 t = n"
proof -
  note n = small_number_bit [OF assms(1)]
  show "ucast (drop_bit 24 t) AND 0xe0 = b AND 0xe0"
    unfolding t_def tag_masks by (rule bit_word_eqI) (auto simp: bit_simps dest!: n)
  show "take_bit 29 t = n"
    unfolding t_def tag_masks by (rule bit_word_eqI) (auto simp: bit_simps dest: n)
qed

lemma parse_asn1_tag_octets: "parse_asn1_tag (tag_octets t @ c) = (Some t, c)"
proof -
  define bits where "bits = (ucast (drop_bit 24 t) AND 0xe0 :: byte)"
  define n where "n = take_bit 29 t"
  note parts = tag_octet_parts [of t, folded bits_def n_def]
  have n29: "unat n < 2 ^ 29" unfolding n_def unsigned_take_bit_eq by (rule take_bit_nat_less_exp)
  show ?thesis
  proof (cases "unat n < 31")
    case True
    let ?b = "bits OR ucast n :: byte"
    have n5: "i < 5" if "bit n i" for i
      using small_number_bit [of n 5 i] that True by simp
    have "?b AND 0x1f = ucast n"
      unfolding bits_def tag_masks by (rule bit_word_eqI) (auto simp: bit_simps dest: n5)
    then have lo: "(ucast (?b AND 0x1f) :: u32) = n"
      using True by (simp add: word_eq_iff_unsigned [where ?'a = nat] unsigned_ucast_eq take_bit_nat_eq_self)
    have hi: "(ucast ?b AND 0xe0 :: u32) = ucast bits AND 0xe0"
      unfolding bits_def tag_masks by (rule bit_word_eqI) (auto simp: bit_simps dest: n5)
    have "n \<noteq> 0x1f" using True by auto
    moreover have "tag_octets t = [?b]" using True by (simp add: tag_octets_def Let_def bits_def n_def)
    ultimately show ?thesis
      using parts(1) by (simp add: parse_asn1_tag_def Let_def lo hi CBS_ASN1_TAG_SHIFT_def)
  next
    case False
    let ?b = "bits OR 0x1f :: byte"
    have lo: "(ucast (?b AND 0x1f) :: u32) = 0x1f"
      unfolding bits_def tag_masks by (rule bit_word_eqI) (auto simp: bit_simps)
    have hi: "(ucast ?b AND 0xe0 :: u32) = ucast bits AND 0xe0"
      unfolding bits_def tag_masks by (rule bit_word_eqI) (auto simp: bit_simps)
    have v: "unat (ucast n :: u64) = unat n" by (simp add: unat_ucast_up)
    have p: "parse_base128_integer (base128 (unat n) @ c) = (Some (ucast n), c)"
      using base128.dec_enc [of "ucast n" c] by (simp only: v simp_thms)
    have "\<not> (ucast n :: u64) > ucast CBS_ASN1_TAG_NUMBER_MASK"
      using n29 by (simp add: word_less_nat_alt v CBS_ASN1_TAG_NUMBER_MASK_def CBS_ASN1_TAG_SHIFT_def)
    moreover have "\<not> (ucast n :: u64) < 0x1f" using False by (simp add: word_less_nat_alt v)
    moreover have "tag_octets t = ?b # base128 (unat n)" using False by (simp add: tag_octets_def Let_def bits_def n_def)
    moreover have "(ucast (ucast n :: u64) :: u32) = n"
      by (rule bit_word_eqI) (auto simp: bit_simps dest: bit_imp_le_length)
    ultimately show ?thesis
      using parts(1) by (simp add: parse_asn1_tag_def Let_def lo hi p CBS_ASN1_TAG_SHIFT_def)
  qed
qed

lemma parse_asn1_tag_sound:
  assumes "parse_asn1_tag c = (Some t, c')"
  shows "c = tag_octets t @ c'"
proof -
  obtain b r where c: "c = b # r" using assms by (cases c) (auto simp: parse_asn1_tag_def)
  let ?hi = "push_bit 24 (ucast b AND 0xe0) :: u32"
  have split: "(b AND 0xe0) OR (b AND 0x1f) = b" for b :: byte
    unfolding tag_masks by (rule bit_word_eqI) (auto simp: bit_simps)
  show ?thesis
  proof (cases "(ucast (b AND 0x1f) :: u32) = 0x1f")
    case False
    let ?n = "ucast (b AND 0x1f) :: u32"
    have t: "t = ?hi OR ?n" "c' = r"
      using assms False by (auto simp: c parse_asn1_tag_def Let_def CBS_ASN1_TAG_SHIFT_def)
    have "b AND 0x1f = take_bit 5 b" by (simp only: tag_masks(2) take_bit_eq_mask)
    then have "unat (b AND 0x1f) = take_bit 5 (unat b)" by (simp only: unsigned_take_bit_eq)
    moreover have "unat ?n = unat (b AND 0x1f)" by (rule unat_ucast_up) simp
    ultimately have n32: "unat ?n < 32" using take_bit_nat_less_exp [of 5 "unat b"] by simp
    then have "unat ?n < 31" using False by (simp add: word_eq_iff_unsigned [where ?'a = nat])
    moreover have "(ucast ?n :: byte) = b AND 0x1f"
      unfolding tag_masks by (rule bit_word_eqI) (auto simp: bit_simps dest: bit_imp_le_length)
    moreover have "unat ?n < 2 ^ 29" using n32 by simp
    note parts = tag_of_parts [OF this, of b]
    ultimately show ?thesis
      using split [of b] by (simp add: c t tag_octets_def parts Let_def)
  next
    case True
    obtain v where v: "parse_base128_integer r = (Some v, c')" "\<not> v > ucast CBS_ASN1_TAG_NUMBER_MASK" "\<not> v < 0x1f"
        "t = ?hi OR ucast v"
      using assms True
      by (auto simp: c parse_asn1_tag_def Let_def CBS_ASN1_TAG_SHIFT_def split: prod.splits option.splits if_splits)
    have r: "r = base128 (unat v) @ c'" using base128.dec_sound [OF v(1)] by simp
    have n29: "unat v < 2 ^ 29"
      using v(2) by (simp add: word_less_nat_alt CBS_ASN1_TAG_NUMBER_MASK_def CBS_ASN1_TAG_SHIFT_def)
    then have n: "unat (ucast v :: u32) = unat v" by (simp add: unsigned_ucast_eq take_bit_nat_eq_self)
    have "\<not> unat v < 31" using v(3) by (simp add: word_less_nat_alt)
    moreover have "(b AND 0xe0) OR 0x1f = b"
    proof -
      have "b AND 0x1f = 0x1f"
        using True by (simp add: word_eq_iff_unsigned [where ?'a = nat] unat_ucast_up)
      then show ?thesis using split [of b] by simp
    qed
    moreover have "unat (ucast v :: u32) < 2 ^ 29" using n29 n by simp
    note parts = tag_of_parts [OF this, of b]
    ultimately show ?thesis
      by (simp add: c r v(4) tag_octets_def parts n Let_def)
  qed
qed

interpretation asn1_tag: codec tag_octets "\<lambda>_. True" parse_asn1_tag
  by unfold_locales (auto simp: parse_asn1_tag_octets dest: parse_asn1_tag_sound)

section \<open>Elements\<close>

definition length_octets :: "nat \<Rightarrow> byte list" where
  "length_octets n =
     (if n < 128 then [of_nat n]
      else let k = (if n < 256 then 1 else if n < 65536 then 2 else if n < 16777216 then 3 else 4)
           in of_nat (128 + k) # be_bytes k n)"

definition asn1_header :: "u32 \<Rightarrow> nat \<Rightarrow> byte list" where
  "asn1_header t n = tag_octets t @ length_octets n"

definition element :: "u32 \<times> byte list \<Rightarrow> byte list" where
  "element x = (case x of (t, d) \<Rightarrow> asn1_header t (length d) @ d)"

lemma length_octets_long:
  assumes "1 \<le> k" "k \<le> 4" "128 \<le> n" "256 ^ (k - 1) \<le> n" "n < 256 ^ k"
  shows "length_octets n = of_nat (128 + k) # be_bytes k n"
proof -
  have "k = 1 \<or> k = 2 \<or> k = 3 \<or> k = 4" using assms(1,2) by auto
  then show ?thesis using assms(3-) by (elim disjE) (auto simp: length_octets_def Let_def)
qed

lemma long_length:
  fixes n :: nat
  assumes "128 \<le> n" "n < 2 ^ 32"
  obtains k where "1 \<le> k" "k \<le> 4" "256 ^ (k - 1) \<le> n" "n < 256 ^ k"
proof -
  let ?k = "if n < 256 then 1 else if n < 65536 then 2 else if n < 16777216 then 3 else 4 :: nat"
  have "1 \<le> ?k" "?k \<le> 4" "256 ^ (?k - 1) \<le> n" "n < 256 ^ ?k" using assms by auto
  then show ?thesis by (rule that)
qed

lemma length_base128_hi: "v < 128 ^ k \<Longrightarrow> length (base128_hi v) \<le> k"
proof (induction k arbitrary: v)
  case (Suc k)
  have "v div 128 < 128 ^ k" using Suc.prems by (simp add: less_mult_imp_div_less)
  then show ?case using Suc.IH [of "v div 128"] by (subst base128_hi.simps) simp
qed simp

lemma length_tag_octets: "1 \<le> length (tag_octets t)" "length (tag_octets t) \<le> 6"
proof -
  have "unat (take_bit 29 t) < 2 ^ 29" unfolding unsigned_take_bit_eq by (rule take_bit_nat_less_exp)
  then have "unat (take_bit 29 t) div 128 < 128 ^ 4" by simp
  from length_base128_hi [OF this] show "length (tag_octets t) \<le> 6"
    by (simp add: tag_octets_def Let_def base128_def)
qed (simp add: tag_octets_def Let_def)

lemma length_length_octets: "1 \<le> length (length_octets n)" "length (length_octets n) \<le> 5"
  by (simp_all add: length_octets_def Let_def)

lemma length_asn1_header: "2 \<le> length (asn1_header t n)" "length (asn1_header t n) \<le> 11"
  using length_tag_octets [of t] length_length_octets [of n] by (simp_all add: asn1_header_def)

text \<open>The end of the parse, once the header is known.\<close>

definition take_element :: "cbs \<Rightarrow> u32 \<Rightarrow> nat \<Rightarrow> nat \<Rightarrow> (cbs \<times> u32 \<times> size_t) option \<times> cbs" where
  "take_element c t n h =
     (if length c < n then (None, c) else (Some (take n c, t, of_nat h), drop n c))"

lemma unat_of_nat_size: "n < 2 ^ 64 \<Longrightarrow> unat (of_nat n :: size_t) = n"
  by (simp add: unsigned_of_nat take_bit_nat_eq_self)

lemma unat_power2: "m < 64 \<Longrightarrow> unat ((2 :: u64) ^ m) = 2 ^ m"
proof -
  assume "m < 64"
  then have "(2 :: nat) ^ m < 2 ^ 64" by (intro power_strict_increasing) simp_all
  from unat_of_nat_size [OF this] show ?thesis by simp
qed

lemma power_256: "(256 :: nat) ^ k = 2 ^ (8 * k)"
  by (simp add: power_mult)

lemma unat_times_8: "unat (w :: size_t) \<le> 4 \<Longrightarrow> unat (w * 8) = 8 * unat w"
  by (simp add: unat_word_ariths)

lemma any_element_header:
  assumes "n < 2 ^ 32"
  shows "CBS_get_any_asn1_element (asn1_header t n @ c) =
    take_element (asn1_header t n @ c) t (length (asn1_header t n) + n) (length (asn1_header t n))"
proof -
  let ?c = "asn1_header t n @ c"
  define h where "h = length (tag_octets t)"
  have h6: "h \<le> 6" using length_tag_octets [of t] by (simp add: h_def)
  have tag: "parse_asn1_tag ?c = (Some t, length_octets n @ c)"
    by (simp add: asn1_header_def parse_asn1_tag_octets)
  show ?thesis
  proof (cases "n < 128")
    case True
    then have lo: "length_octets n = [of_nat n]" by (simp add: length_octets_def)
    have b: "unat (of_nat n :: byte) = n" using True by (simp add: unat_of_nat_byte)
    then have "(of_nat n :: byte) AND 0x80 = 0" using byte_digit(2) [of "of_nat n"] True by auto
    moreover have "(of_nat (length ?c) - of_nat (length c) :: size_t) = of_nat (h + 1)"
      by (simp add: asn1_header_def lo h_def)
    moreover have "unat (ucast (of_nat n :: byte) + of_nat (h + 1) :: size_t) = h + 1 + n"
    proof -
      have n64: "n < 2 ^ 64" using True by simp
      have "(ucast (of_nat n :: byte) :: size_t) = of_nat n"
        by (simp add: word_eq_iff_unsigned [where ?'a = nat] unat_ucast_up b unat_of_nat_size [OF n64])
      then have e: "ucast (of_nat n :: byte) + of_nat (h + 1) = (of_nat (h + 1 + n) :: size_t)" by simp
      show ?thesis unfolding e using h6 True by (subst unat_of_nat_size) simp_all
    qed
    ultimately show ?thesis
      unfolding CBS_get_any_asn1_element_def cbs_get_any_asn1_element_def tag
      by (simp add: lo Let_def take_element_def CBS_get_bytes_def cbs_get_def asn1_header_def h_def)
  next
    case False
    then obtain k where k: "1 \<le> k" "k \<le> 4" "256 ^ (k - 1) \<le> n" "n < 256 ^ k"
      using long_length [of n] assms by auto
    define b where "b = (of_nat (128 + k) :: byte)"
    have lo: "length_octets n = b # be_bytes k n"
      using length_octets_long [of k n] False k by (simp add: b_def)
    have b: "unat b = 128 + k" unfolding b_def using k(2) by (simp only: unat_of_nat_byte) simp
    then have hi: "b AND 0x80 \<noteq> 0" by (simp only: byte_digit(2))
    define nb where "nb = (ucast (b AND 0x7f) :: size_t)"
    have nb: "unat nb = k"
      unfolding nb_def by (rule trans [OF unat_ucast_up]) (simp, simp only: byte_digit(1) b, use k in simp)
    have n64: "n < 2 ^ 64" using assms by simp
    have u: "cbs_get_u (be_bytes k n @ c) nb = (Some (of_nat n), c)"
      using k(2,4) n64 by (subst cbs_get_u_be) (simp_all add: nb unat_of_nat_size)
    have hl: "(of_nat (length ?c) - of_nat (length (be_bytes k n @ c)) :: size_t) = of_nat (h + 1)"
      by (simp add: asn1_header_def lo h_def)
    have sum: "of_nat (h + 1) + nb = (of_nat (h + 1 + k) :: size_t)"
      by (metis nb of_nat_add of_nat_unat ucast_id)
    have tot: "unat (of_nat n + of_nat (h + 1 + k) :: size_t) = h + 1 + k + n"
    proof -
      have e: "of_nat n + of_nat (h + 1 + k) = (of_nat (h + 1 + k + n) :: size_t)" by simp
      show ?thesis unfolding e using h6 k(2) assms by (subst unat_of_nat_size) simp_all
    qed
    have noov: "\<not> of_nat n + of_nat (h + 1) + nb < (of_nat n :: size_t)"
      using h6 k(2) assms tot by (simp only: add.assoc sum word_less_nat_alt tot unat_of_nat_size [OF n64])
    have d: "drop_bit (unat ((nb - 1) * 8)) (of_nat n :: u64) \<noteq> 0"
    proof -
      have "unat (nb - 1) = k - 1" using k(1) nb by (metis unat_minus_one unat_0 not_one_le_zero)
      then have "unat ((nb - 1) * 8) = 8 * (k - 1)" using k(2) unat_times_8 [of "nb - 1"] by simp
      moreover have "unat (drop_bit (8 * (k - 1)) (of_nat n :: u64)) = n div 256 ^ (k - 1)"
      proof -
        have "unat ((2 :: u64) ^ (8 * (k - 1))) = 256 ^ (k - 1)"
          using k(1,2) by (simp only: power_256) (rule unat_power2, simp)
        then show ?thesis by (simp only: drop_bit_eq_div unat_div_distrib unat_of_nat_size [OF n64])
      qed
      moreover have "n div 256 ^ (k - 1) \<noteq> 0" using k(3) by (simp add: div_eq_0_iff)
      ultimately show ?thesis by (metis unat_0)
    qed
    have small: "\<not> (of_nat n :: u64) < 128" using False n64 by (simp add: word_less_nat_alt unat_of_nat_size)
    have nb4: "nb \<noteq> 0" "\<not> nb > 4" using nb k by (auto simp: word_less_nat_alt)
    have hdr: "?c = tag_octets t @ (b # be_bytes k n) @ c" by (simp add: asn1_header_def lo)
    have "CBS_get_any_asn1_element ?c =
        (case CBS_get_bytes ?c (of_nat n + (of_nat (h + 1) + nb)) of
          (r, c) \<Rightarrow> (map_option (\<lambda>out. (out, t, of_nat (h + 1) + nb)) r, c))"
      unfolding CBS_get_any_asn1_element_def cbs_get_any_asn1_element_def tag lo
      by (simp only: Let_def prod.case option.case append_Cons CBS_get_u8_simps if_False simp_thms
          nb_def [symmetric] hi u hl noov d small nb4)
    then show ?thesis
      using tot by (simp only: sum) (simp add: take_element_def CBS_get_bytes_def cbs_get_def asn1_header_def h_def lo)
  qed
qed

text \<open>Conversely, what is accepted begins with such a header.\<close>

lemma any_element_parts:
  assumes "CBS_get_any_asn1_element c = (Some r, c')"
  obtains t n d where "n < 2 ^ 32" "c = asn1_header t n @ d"
proof -
  obtain t c1 where tag: "parse_asn1_tag c = (Some t, c1)"
    using assms by (auto simp: CBS_get_any_asn1_element_def cbs_get_any_asn1_element_def Let_def split: prod.splits option.splits)
  then have c: "c = tag_octets t @ c1" by (rule parse_asn1_tag_sound)
  obtain b c2 where c1: "c1 = b # c2"
    using assms tag by (cases c1) (auto simp: CBS_get_any_asn1_element_def cbs_get_any_asn1_element_def Let_def)
  show ?thesis
  proof (cases "b AND 0x80 = 0")
    case True
    then have lt: "unat b < 128" using byte_digit(2) [of b] by auto
    then have "length_octets (unat b) = [b]" by (simp add: length_octets_def)
    then have "c = asn1_header t (unat b) @ c2" by (simp add: asn1_header_def c c1)
    then show ?thesis using lt by (intro that [of "unat b" t c2]) auto
  next
    case False
    define nb where "nb = (ucast (b AND 0x7f) :: size_t)"
    have nb4: "nb \<noteq> 0" "\<not> nb > 4"
      using assms False by (auto simp: CBS_get_any_asn1_element_def cbs_get_any_asn1_element_def tag c1 Let_def simp flip: nb_def split: if_splits)
    then have k: "1 \<le> unat nb" "unat nb \<le> 4" by (auto simp: word_less_nat_alt Suc_le_eq unat_gt_0)
    obtain v c3 where v: "cbs_get_u c2 nb = (Some v, c3)" "\<not> v < 128" "drop_bit (unat ((nb - 1) * 8)) v \<noteq> 0"
      using assms False nb4
      by (auto simp: CBS_get_any_asn1_element_def cbs_get_any_asn1_element_def tag c1 Let_def simp flip: nb_def
          split: if_splits prod.splits option.splits)
    have c2: "unat v < 256 ^ unat nb" "c2 = be_bytes (unat nb) (unat v) @ c3"
      using v(1) k(2) cbs_get_u_be [of nb c2 v c3] by auto
    have "256 ^ (unat nb - 1) \<le> unat v"
    proof -
      have e: "unat (nb - 1) = unat nb - 1" by (rule unat_minus_one [OF nb4(1)])
      then have s: "unat ((nb - 1) * 8) = 8 * (unat nb - 1)" using k(2) unat_times_8 [of "nb - 1"] by simp
      have "unat ((2 :: u64) ^ (8 * (unat nb - 1))) = 256 ^ (unat nb - 1)"
        using k by (simp only: power_256) (rule unat_power2, simp)
      then have "unat (drop_bit (8 * (unat nb - 1)) v) = unat v div 256 ^ (unat nb - 1)"
        by (simp only: drop_bit_eq_div unat_div_distrib)
      moreover have "unat (drop_bit (8 * (unat nb - 1)) v) \<noteq> 0" using v(3) unfolding s by (simp only: unat_eq_0 not_False_eq_True)
      ultimately show ?thesis by (simp add: div_eq_0_iff not_less)
    qed
    moreover have "128 \<le> unat v" using v(2) by (simp add: word_less_nat_alt)
    ultimately have "length_octets (unat v) = of_nat (128 + unat nb) # be_bytes (unat nb) (unat v)"
      using length_octets_long [OF k] c2(1) by simp
    moreover have "of_nat (128 + unat nb) = b"
    proof -
      have "unat nb = unat b mod 128"
        unfolding nb_def by (rule trans [OF unat_ucast_up byte_digit(1)]) simp
      moreover have "128 \<le> unat b" using False by (simp only: byte_digit(2))
      ultimately have "128 + unat nb = unat b" using unat_byte_less [of b] by (simp add: le_mod_geq)
      then show ?thesis by (simp only: of_nat_unat ucast_id)
    qed
    ultimately have "c = asn1_header t (unat v) @ c3" by (simp add: asn1_header_def c c1 c2(2))
    moreover have "unat v < 2 ^ 32"
    proof -
      have "(256 :: nat) ^ unat nb \<le> 256 ^ 4" using k(2) by (intro power_increasing) simp_all
      then show ?thesis using c2(1) by simp
    qed
    ultimately show ?thesis by (intro that)
  qed
qed

lemma any_element_iff:
  "CBS_get_any_asn1_element c = (Some (out, t, h), c') \<longleftrightarrow>
     (\<exists>d. length d < 2 ^ 32 \<and> out = element (t, d) \<and> c = out @ c' \<and> unat h + length d = length out)"
proof
  assume r: "CBS_get_any_asn1_element c = (Some (out, t, h), c')"
  then obtain t' n d where n: "n < 2 ^ 32" "c = asn1_header t' n @ d" by (rule any_element_parts)
  have "length (asn1_header t' n) < 2 ^ 64" using length_asn1_header [of t' n] by simp
  then show "\<exists>d. length d < 2 ^ 32 \<and> out = element (t, d) \<and> c = out @ c' \<and> unat h + length d = length out"
    using r any_element_header [OF n(1), of t' d] n
    by (auto simp: take_element_def element_def unat_of_nat_size split: if_splits intro!: exI [of _ "take n d"])
next
  assume "\<exists>d. length d < 2 ^ 32 \<and> out = element (t, d) \<and> c = out @ c' \<and> unat h + length d = length out"
  then obtain d where d: "length d < 2 ^ 32" "out = asn1_header t (length d) @ d" "c = out @ c'" "unat h + length d = length out"
    by (auto simp: element_def)
  then have "unat h = length (asn1_header t (length d))" by simp
  then have "of_nat (length (asn1_header t (length d))) = h" by (metis of_nat_unat ucast_id)
  then show "CBS_get_any_asn1_element c = (Some (out, t, h), c')"
    using any_element_header [OF d(1), of t "d @ c'"] d(2,3) by (simp add: take_element_def)
qed

lemma any_element_fails: "fst (CBS_get_any_asn1_element c) = None \<Longrightarrow> snd (CBS_get_any_asn1_element c) = c"
  by (auto simp: CBS_get_any_asn1_element_def cbs_get_any_asn1_element_def CBS_get_bytes_def cbs_get_def Let_def
      split: prod.splits option.splits if_splits)

text \<open>C16: \<open>CBS_get_any_asn1_element\<close> is the parser of DER elements: it accepts a string exactly when
  it begins with a DER encoding, of any tag and of up to \<open>2 ^ 32 - 1\<close> bytes, with the tag and the
  length in their shortest forms; it then takes the element, tells its tag and the length of its
  header, and leaves what follows. It leaves the string alone when it fails.\<close>

theorem CBS_get_any_asn1_element_der:
  "(CBS_get_any_asn1_element c = (Some (out, t, h), c') \<longleftrightarrow>
      (\<exists>d. length d < 2 ^ 32 \<and> out = element (t, d) \<and> c = out @ c' \<and> unat h + length d = length out)) \<and>
   (fst (CBS_get_any_asn1_element c) = None \<longrightarrow> snd (CBS_get_any_asn1_element c) = c)"
  using any_element_iff any_element_fails by blast

text \<open>One more element than the string has bytes for: the length says 2 and one byte is there.\<close>

theorem CBS_get_any_asn1_element_der_witness:
  "CBS_get_any_asn1_element [4, 2, 7] = (None, [4, 2, 7]) \<and>
   CBS_get_any_asn1_element [4, 1, 7, 9] = (Some ([4, 1, 7], 4, 2), [9])"
proof
  have "fst (CBS_get_any_asn1_element [4, 2, 7]) = None" by code_simp
  then show "CBS_get_any_asn1_element [4, 2, 7] = (None, [4, 2, 7])"
    using CBS_get_any_asn1_element_der [of "[4, 2, 7]"] by (metis prod.collapse)
  have e: "element (4, [7]) = [4, 1, 7]" by code_simp
  have "\<exists>d. length d < 2 ^ 32 \<and> [4, 1, 7] = element (4, d) \<and> [4, 1, 7, 9] = [4, 1, 7] @ [9] \<and>
      unat (2 :: size_t) + length d = length [4, 1, 7 :: byte]"
    by (rule exI [of _ "[7]"]) (simp add: e)
  then show "CBS_get_any_asn1_element [4, 1, 7, 9] = (Some ([4, 1, 7], 4, 2), [9])"
    by (rule CBS_get_any_asn1_element_der [THEN conjunct1, THEN iffD2])
qed

lemma element_skip:
  assumes "out = element (t, d)" "unat h + length d = length out"
  shows "CBS_skip out h = (True, d)"
  using assms by (simp add: CBS_skip_def cbs_get_def element_def)

lemma any_asn1_iff:
  "CBS_get_any_asn1 c = (Some (d, t), c') \<longleftrightarrow> length d < 2 ^ 32 \<and> c = element (t, d) @ c'"
proof
  assume "CBS_get_any_asn1 c = (Some (d, t), c')"
  then obtain out h where h: "CBS_get_any_asn1_element c = (Some (out, t, h), c')" "CBS_skip out h = (True, d)"
    by (auto simp: CBS_get_any_asn1_def split: prod.splits option.splits if_splits)
  then obtain d' where d': "length d' < 2 ^ 32" "out = element (t, d')" "c = out @ c'" "unat h + length d' = length out"
    unfolding any_element_iff by auto
  then show "length d < 2 ^ 32 \<and> c = element (t, d) @ c'"
    using element_skip [OF d'(2,4)] h(2) by simp
next
  assume d: "length d < 2 ^ 32 \<and> c = element (t, d) @ c'"
  let ?h = "of_nat (length (asn1_header t (length d))) :: size_t"
  have "length (asn1_header t (length d)) < 2 ^ 64" using length_asn1_header [of t "length d"] by simp
  then have h: "unat ?h + length d = length (element (t, d))" by (simp only: unat_of_nat_size element_def prod.case length_append)
  then have "CBS_get_any_asn1_element c = (Some (element (t, d), t, ?h), c')"
    unfolding any_element_iff using d by auto
  then show "CBS_get_any_asn1 c = (Some (d, t), c')"
    using element_skip [OF refl h] by (simp add: CBS_get_any_asn1_def)
qed

lemma get_asn1_iff: "CBS_get_asn1 c t = (Some d, c') \<longleftrightarrow> CBS_get_any_asn1 c = (Some (d, t), c')"
  by (auto simp: CBS_get_asn1_def cbs_get_asn1_def CBS_get_any_asn1_def split: prod.splits option.splits if_splits)

lemmas asn1_iff = get_asn1_iff [unfolded any_asn1_iff]

interpretation asn1: codec element "\<lambda>(t, d). length d < 2 ^ 32"
  "\<lambda>c. case CBS_get_any_asn1 c of (r, c) \<Rightarrow> (map_option (\<lambda>(d, t). (t, d)) r, c)"
proof unfold_locales
  fix x :: "u32 \<times> byte list" and c
  assume "case x of (t, d) \<Rightarrow> length d < 2 ^ 32"
  then have "CBS_get_any_asn1 (element x @ c) = (Some (snd x, fst x), c)" by (cases x) (simp add: any_asn1_iff)
  then show "(case CBS_get_any_asn1 (element x @ c) of (r, c) \<Rightarrow> (map_option (\<lambda>(d, t). (t, d)) r, c)) = (Some x, c)"
    by simp
next
  fix c c' and x :: "u32 \<times> byte list"
  assume "(case CBS_get_any_asn1 c of (r, c) \<Rightarrow> (map_option (\<lambda>(d, t). (t, d)) r, c)) = (Some x, c')"
  then have "CBS_get_any_asn1 c = (Some (snd x, fst x), c')" by (auto split: prod.splits)
  then show "(case x of (t, d) \<Rightarrow> length d < 2 ^ 32) \<and> c = element x @ c'"
    unfolding any_asn1_iff by (cases x) simp
qed

section \<open>Unsigned integers\<close>

fun be_min :: "nat \<Rightarrow> byte list" where
  "be_min v = (if v = 0 then [] else be_min (v div 256) @ [of_nat v])"

declare be_min.simps [simp del]

definition uint_octets :: "nat \<Rightarrow> byte list" where
  "uint_octets v = (let d = be_min v in if d = [] \<or> 128 \<le> unat (hd d) then 0 # d else d)"

lemma be_val_Cons: "be_val (b # d) = unat b * 256 ^ length d + be_val d"
proof (induction d rule: rev_induct)
  case (snoc a d)
  show ?case using be_val_simps(2) [of "b # d" a] snoc by simp
qed (simp add: be_val_def)

lemma be_val_be_min: "be_val (be_min v) = v"
proof (induction v rule: be_min.induct)
  case (1 v)
  show ?case
  proof (cases "v = 0")
    case False
    then show ?thesis using 1 by (subst be_min.simps) (simp add: unat_of_nat_byte)
  qed (simp add: be_min.simps)
qed

lemma be_min_be_val: "d = [] \<or> hd d \<noteq> 0 \<Longrightarrow> be_min (be_val d) = d"
proof (induction d rule: rev_induct)
  case (snoc b d)
  have b: "unat b < 256" by (rule unat_byte_less)
  have d: "(256 * be_val d + unat b) div 256 = be_val d" using b by simp
  have w: "(of_nat (256 * be_val d + unat b) :: byte) = b" by (rule of_nat_byte_step)
  have nz: "256 * be_val d + unat b \<noteq> 0"
  proof (cases d)
    case Nil
    then show ?thesis using snoc.prems by (simp add: unat_eq_0)
  next
    case (Cons a e)
    then have "0 < unat a" using snoc.prems by (simp add: unat_gt_0)
    then show ?thesis by (simp add: Cons be_val_Cons)
  qed
  have "d = [] \<or> hd d \<noteq> 0" using snoc.prems by (cases d) auto
  then have "be_min (be_val d) = d" by (rule snoc.IH)
  then show ?case using nz w d by (simp only: be_val_simps) (subst be_min.simps, simp only: if_False d)
qed (simp add: be_min.simps)

lemma uint64_loop_iff:
  "uint64_loop d a = Some v \<longleftrightarrow> unat a * 256 ^ length d + be_val d = unat v"
proof (induction d arbitrary: a)
  case Nil
  then show ?case by (auto simp: word_eq_iff_unsigned [where ?'a = nat])
next
  case (Cons b d)
  have v: "unat v < 2 ^ 64" by (rule unat_u64_less)
  have dv: "unat (drop_bit 56 a) = unat a div 2 ^ 56"
    using unat_power2 [of 56] by (simp add: drop_bit_eq_div unat_div_distrib)
  show ?case
  proof (cases "drop_bit 56 a = 0")
    case True
    then have a: "unat a < 2 ^ 56" using dv by (simp add: div_eq_0_iff)
    have b: "unat b < 256" by (rule unat_byte_less)
    have "push_bit 8 a OR ucast b = push_bit 8 a + ucast b"
      by (rule disjunctive_add [symmetric]) (auto simp: bit_simps dest: bit_imp_le_length)
    moreover have "unat (push_bit 8 a) = 256 * unat a" using a by (simp add: push_bit_eq_mult unat_word_ariths)
    ultimately have "unat (push_bit 8 a OR ucast b) = 256 * unat a + unat b"
      using a b by (simp add: unat_word_ariths unat_ucast_up)
    then show ?thesis using True Cons [of "push_bit 8 a OR ucast b"] by (simp add: be_val_Cons algebra_simps)
  next
    case False
    then have "2 ^ 56 \<le> unat a" using dv by (metis div_less not_less unat_eq_0)
    then have "2 ^ 56 * 256 \<le> unat a * 256 ^ length (b # d)"
      by (intro mult_le_mono) (simp_all add: Suc_leI)
    then have "unat a * 256 ^ length (b # d) + be_val (b # d) \<noteq> unat v" using v by simp
    then show ?thesis using False by simp
  qed
qed

lemma length_be_min: "v < 256 ^ k \<Longrightarrow> length (be_min v) \<le> k"
proof (induction k arbitrary: v)
  case (Suc k)
  have "v div 256 < 256 ^ k" using Suc.prems by (simp add: less_mult_imp_div_less)
  then show ?case using Suc.IH [of "v div 256"] by (subst be_min.simps) simp
qed (simp add: be_min.simps)

lemma hd_be_min: "be_min v \<noteq> [] \<Longrightarrow> hd (be_min v) \<noteq> 0"
proof (induction v rule: be_min.induct)
  case (1 v)
  have v: "v \<noteq> 0"
  proof
    assume "v = 0"
    then show False using 1(2) by (simp add: be_min.simps [of 0])
  qed
  show ?case
  proof (cases "be_min (v div 256) = []")
    case True
    then have "v div 256 = 0" by (subst (asm) be_min.simps) (auto split: if_splits)
    then have "v < 256" by (simp add: div_eq_0_iff)
    then have "(of_nat v :: byte) \<noteq> 0" using v unat_of_nat_byte [of v] by auto
    then show ?thesis using v True by (subst be_min.simps) simp
  next
    case False
    then show ?thesis using 1(1) [OF v False] v by (subst be_min.simps) simp
  qed
qed

text \<open>The checks on the contents of an INTEGER, for numbers that are not negative.\<close>

definition uint_ok :: "byte list \<Rightarrow> bool" where
  "uint_ok d \<longleftrightarrow> d \<noteq> [] \<and> d ! 0 AND 0x80 = 0 \<and> \<not> (d ! 0 = 0 \<and> length d > 1 \<and> d ! 1 AND 0x80 = 0)"

lemma uint_ok_iff: "uint_ok d \<and> be_val d = n \<longleftrightarrow> d = uint_octets n"
proof
  assume d: "uint_ok d \<and> be_val d = n"
  obtain b e where be: "d = b # e" using d by (cases d) (auto simp: uint_ok_def)
  have lo: "\<not> 128 \<le> unat b" using d byte_digit(2) [of b] by (auto simp: uint_ok_def be)
  show "d = uint_octets n"
  proof (cases "b = 0")
    case True
    have "hd e \<noteq> 0 \<and> 128 \<le> unat (hd e)" if "e \<noteq> []"
    proof -
      have "e ! 0 AND 0x80 \<noteq> 0" using d True that by (auto simp: uint_ok_def be)
      then show ?thesis using that byte_digit(2) [of "hd e"] by (auto simp: hd_conv_nth)
    qed
    moreover from this have "be_min (be_val e) = e" by (intro be_min_be_val) auto
    ultimately show ?thesis using d True by (auto simp: uint_octets_def be be_val_Cons Let_def)
  next
    case False
    then have "be_min (be_val d) = d" by (intro be_min_be_val) (simp add: be)
    then have "be_min n = d" using d by simp
    then show ?thesis using lo by (simp add: uint_octets_def Let_def be)
  qed
next
  assume d: "d = uint_octets n"
  show "uint_ok d \<and> be_val d = n"
  proof (cases "be_min n = [] \<or> 128 \<le> unat (hd (be_min n))")
    case True
    then have "d = 0 # be_min n" by (simp add: d uint_octets_def Let_def)
    moreover have "be_min n \<noteq> [] \<longrightarrow> be_min n ! 0 AND 0x80 \<noteq> 0"
      using True byte_digit(2) [of "hd (be_min n)"] by (auto simp: hd_conv_nth)
    ultimately show ?thesis by (auto simp: uint_ok_def be_val_Cons be_val_be_min)
  next
    case False
    then have "d = be_min n" by (simp add: d uint_octets_def Let_def)
    moreover have "be_min n ! 0 = hd (be_min n)" using False by (simp add: hd_conv_nth)
    moreover have "hd (be_min n) AND 0x80 = 0" using False byte_digit(2) [of "hd (be_min n)"] by auto
    ultimately show ?thesis using False hd_be_min [of n] by (auto simp: uint_ok_def be_val_be_min)
  qed
qed

lemma length_uint_octets: "n < 2 ^ 64 \<Longrightarrow> length (uint_octets n) \<le> 9"
  using length_be_min [of n 8] by (simp add: uint_octets_def Let_def)

lemma get_asn1_uint64_iff:
  "CBS_get_asn1_uint64 c = (Some v, c') \<longleftrightarrow> c = element (CBS_ASN1_INTEGER, uint_octets (unat v)) @ c'"
proof -
  have "CBS_get_asn1_uint64 c = (Some v, c') \<longleftrightarrow>
      (\<exists>d. CBS_get_asn1 c CBS_ASN1_INTEGER = (Some d, c') \<and> uint_ok d \<and> uint64_loop d 0 = Some v)"
    by (auto simp: CBS_get_asn1_uint64_def uint_ok_def split: prod.splits option.splits if_splits)
  also have "\<dots> \<longleftrightarrow> (\<exists>d. CBS_get_asn1 c CBS_ASN1_INTEGER = (Some d, c') \<and> uint_ok d \<and> be_val d = unat v)"
    by (simp add: uint64_loop_iff)
  also have "\<dots> \<longleftrightarrow> CBS_get_asn1 c CBS_ASN1_INTEGER = (Some (uint_octets (unat v)), c')"
    using uint_ok_iff by auto
  also have "\<dots> \<longleftrightarrow> c = element (CBS_ASN1_INTEGER, uint_octets (unat v)) @ c'"
    using length_uint_octets [OF unat_u64_less, of v] by (simp add: asn1_iff)
  finally show ?thesis .
qed

text \<open>C31: \<open>CBS_get_asn1_uint64\<close> reads exactly the DER INTEGERs from 0 to \<open>2 ^ 64 - 1\<close>: it accepts a
  string when it begins with the shortest encoding of such a number and nothing else, no negative
  number, no extra zero, no wrapped value.\<close>

theorem CBS_get_asn1_uint64_der:
  "CBS_get_asn1_uint64 c = (Some v, c') \<longleftrightarrow> c = element (CBS_ASN1_INTEGER, uint_octets (unat v)) @ c'"
  by (rule get_asn1_uint64_iff)

end
