(* ===== verification/Crypto_Build.thy ===== *)
theory Crypto_Build
  imports Crypto_Cbb Crypto_Der
begin

text \<open>
  What the steps of \<open>cbb.c\<close> do to the byte string that is being built. The abstract state of a \<open>CBB\<close>
  is the contents of the buffer with the prefixes of the open children filled in, as \<open>seal\<close> does it;
  \<open>writes\<close> says that a step appends to it. The buffer keeps its invariant on every path, which is
  what confines the writes to it.
\<close>

section \<open>The buffer\<close>

definition buffer_ok :: "cbb_buffer_st \<Rightarrow> bool" where
  "buffer_ok b \<longleftrightarrow> length (buf b) = unat (cap b) \<and> len b \<le> cap b"

definition contents :: "cbb_buffer_st \<Rightarrow> byte list" where
  "contents b = take (unat (len b)) (buf b)"

text \<open>The longest string the buffer can come to hold.\<close>

definition limit :: "cbb_buffer_st \<Rightarrow> nat" where
  "limit b = (if can_resize b then 2 ^ 64 - 1 else unat (cap b))"

definition willing :: "allocator \<Rightarrow> bool" where
  "willing env \<longleftrightarrow> (\<forall>n. allots env n)"

text \<open>What every step on the buffer keeps, also when it fails.\<close>

definition buffer_step :: "cbb_buffer_st \<Rightarrow> cbb_buffer_st \<Rightarrow> bool" where
  "buffer_step b b' \<longleftrightarrow>
     buffer_ok b' \<and> can_resize b' = can_resize b \<and> (\<not> can_resize b \<longrightarrow> cap b' = cap b) \<and>
     len b \<le> len b' \<and> (failed b \<longrightarrow> failed b')"

lemma buffer_step_refl: "buffer_ok b \<Longrightarrow> buffer_step b b"
  by (simp add: buffer_step_def)

lemma buffer_step_trans: "buffer_step a b \<Longrightarrow> buffer_step b c \<Longrightarrow> buffer_step a c"
  by (auto simp: buffer_step_def)

lemma buffer_step_fail: "buffer_ok b \<Longrightarrow> buffer_step b (b\<lparr>failed := True\<rparr>)"
  by (simp add: buffer_step_def buffer_ok_def)

lemma limit_step: "buffer_step b b' \<Longrightarrow> limit b' = limit b"
  by (auto simp: buffer_step_def limit_def)

lemma length_contents: "buffer_ok b \<Longrightarrow> length (contents b) = unat (len b)"
  by (simp add: contents_def buffer_ok_def word_le_nat_alt)

lemma contents_limit: "buffer_ok b \<Longrightarrow> length (contents b) \<le> limit b"
  using unat_u64_less [of "len b"] by (simp add: length_contents limit_def buffer_ok_def word_le_nat_alt)

lemma length_write_at [simp]: "i + length bs \<le> length b \<Longrightarrow> length (write_at b i bs) = length b"
  by (simp add: write_at_def)

lemma write_at_Nil [simp]: "write_at b i [] = b"
  by (simp add: write_at_def)

lemma buffer_step_write:
  assumes "buffer_ok b" "i + length bs \<le> unat (len b)"
  shows "buffer_step b (b\<lparr>buf := write_at (buf b) i bs\<rparr>)"
  using assms by (simp add: buffer_step_def buffer_ok_def word_le_nat_alt)

lemma contents_write:
  assumes "buffer_ok b" "i + length bs \<le> unat (len b)"
  shows "contents (b\<lparr>buf := write_at (buf b) i bs\<rparr>) = write_at (contents b) i bs"
proof (cases "i = unat (len b)")
  case True
  then show ?thesis using assms by (simp add: contents_def buffer_ok_def write_at_def word_le_nat_alt)
next
  case False
  then have "i < unat (len b)" using assms(2) by simp
  then show ?thesis
    using assms by (simp add: contents_def buffer_ok_def write_at_def word_le_nat_alt min_def drop_take)
qed

lemma unat_add_no_overflow: "\<not> a + n < a \<Longrightarrow> unat (a + n) = unat a + unat (n :: u64)"
  by (simp add: not_less no_olen_add_nat unat_word_ariths)

lemma reserve_grown:
  assumes "buffer_ok b" "cap b \<le> newcap" "can_resize b"
  shows "buffer_step b (b\<lparr>buf := buf b @ map (fresh_cell env) [unat (cap b)..<unat newcap], cap := newcap\<rparr>)"
    "contents (b\<lparr>buf := buf b @ map (fresh_cell env) [unat (cap b)..<unat newcap], cap := newcap\<rparr>) = contents b"
  using assms by (auto simp: buffer_step_def buffer_ok_def contents_def word_le_nat_alt)

text \<open>Room for \<open>n\<close> more bytes.\<close>

definition granted :: "allocator \<Rightarrow> cbb_buffer_st \<Rightarrow> size_t \<Rightarrow> bool" where
  "granted env b n \<longleftrightarrow> \<not> len b + n < len b \<and>
     (len b + n \<le> cap b \<or> can_resize b \<and>
        allots env (if cap b * 2 < cap b \<or> cap b * 2 < len b + n then len b + n else cap b * 2))"

lemma reserve_ok:
  assumes "buffer_ok b" "granted env b n"
  obtains b' where "cbb_buffer_reserve env b n = (True, b')" "buffer_step b b'" "len b' = len b"
    "contents b' = contents b" "failed b' = failed b" "unat (len b) + unat n \<le> unat (cap b')"
proof (cases "len b + n \<le> cap b")
  case True
  then have "cbb_buffer_reserve env b n = (True, b)"
    using assms(2) by (auto simp: cbb_buffer_reserve_def granted_def Let_def)
  moreover have "unat (len b) + unat n \<le> unat (cap b)"
    using True assms(2) unat_add_no_overflow [of "len b" n] by (simp add: granted_def word_le_nat_alt)
  ultimately show ?thesis using assms(1) by (intro that) (simp_all add: buffer_step_refl)
next
  case False
  let ?newcap = "if cap b * 2 < cap b \<or> cap b * 2 < len b + n then len b + n else cap b * 2"
  let ?b = "b\<lparr>buf := buf b @ map (fresh_cell env) [unat (cap b)..<unat ?newcap], cap := ?newcap\<rparr>"
  have r: "cbb_buffer_reserve env b n = (True, ?b)"
    using False assms(2) by (auto simp: cbb_buffer_reserve_def granted_def Let_def)
  have newcap: "len b + n \<le> ?newcap" "cap b \<le> ?newcap" using False by auto
  have "unat (len b) + unat n \<le> unat ?newcap"
    using newcap(1) assms(2) unat_add_no_overflow [of "len b" n] by (simp only: granted_def word_le_nat_alt simp_thms)
  then show ?thesis
    using r reserve_grown [OF assms(1) newcap(2), of env] False assms(2) by (intro that [of ?b]) (simp_all add: granted_def)
qed

lemma reserve_fails: "\<not> granted env b n \<Longrightarrow> cbb_buffer_reserve env b n = (False, b\<lparr>failed := True\<rparr>)"
  by (auto simp: cbb_buffer_reserve_def granted_def Let_def)

lemma add_ok:
  assumes "buffer_ok b" "granted env b n"
  obtains b' where "cbb_buffer_add env b n = (True, b')" "buffer_step b b'"
    "unat (len b') = unat (len b) + unat n" "take (unat (len b)) (contents b') = contents b" "failed b' = failed b"
proof -
  obtain b' where r: "cbb_buffer_reserve env b n = (True, b')" "buffer_step b b'" "len b' = len b"
    "contents b' = contents b" "failed b' = failed b" "unat (len b) + unat n \<le> unat (cap b')"
    using reserve_ok [OF assms] .
  have l: "unat (len b + n) = unat (len b) + unat n"
    using assms(2) by (intro unat_add_no_overflow) (simp add: granted_def)
  have "buffer_step b (b'\<lparr>len := len b' + n\<rparr>)"
    using r(2,3,6) l by (simp add: buffer_step_def buffer_ok_def word_le_nat_alt)
  moreover have "take (unat (len b)) (contents (b'\<lparr>len := len b' + n\<rparr>)) = contents b'"
    using r(3) l by (simp add: contents_def)
  ultimately show ?thesis
    using r l by (intro that [of "b'\<lparr>len := len b' + n\<rparr>"]) (simp_all add: cbb_buffer_add_def)
qed

lemma add_fails: "\<not> granted env b n \<Longrightarrow> cbb_buffer_add env b n = (False, b\<lparr>failed := True\<rparr>)"
  by (simp add: cbb_buffer_add_def reserve_fails)

lemma willing_granted:
  assumes "willing env" "buffer_ok b" "unat (len b) + unat n \<le> limit b"
  shows "granted env b n"
proof -
  have "unat (len b) + unat n < 2 ^ 64"
    using assms(3) unat_u64_less [of "cap b"] by (auto simp: limit_def split: if_splits)
  then have l: "unat (len b + n) = unat (len b) + unat n" by (simp add: unat_word_ariths)
  then show ?thesis
    using assms by (auto simp: granted_def willing_def limit_def word_le_nat_alt word_less_nat_alt split: if_splits)
qed

section \<open>Numbers\<close>

lemma put_u_be: "fst (put_u n v) = be_bytes n (unat v) \<and> unat (snd (put_u n v)) = unat v div 256 ^ n"
proof (induction n arbitrary: v)
  case (Suc n)
  have d: "unat (drop_bit 8 v) = unat v div 256"
    using unat_power2 [of 8] by (simp add: drop_bit_eq_div unat_div_distrib)
  have b: "(of_nat (unat v) :: byte) = ucast v" by (rule of_nat_unat)
  show ?case using Suc [of "drop_bit 8 v"] by (simp add: d b split_beta div_mult2_eq)
qed simp

lemma put_u_rest: "snd (put_u n v) = 0 \<longleftrightarrow> unat v < 256 ^ n"
proof -
  have "snd (put_u n v) = 0 \<longleftrightarrow> unat (snd (put_u n v)) = 0" by (simp only: unat_eq_0)
  then show ?thesis by (simp only: put_u_be) (simp add: div_eq_0_iff)
qed

text \<open>A step that appends \<open>d\<close>, unless \<open>d\<close> is \<open>None\<close>; it succeeds when there is room.\<close>

definition appends_buf :: "allocator \<Rightarrow> (cbb_buffer_st \<Rightarrow> bool \<times> cbb_buffer_st) \<Rightarrow> byte list option \<Rightarrow> bool" where
  "appends_buf env f d \<longleftrightarrow>
     (\<forall>b ok b'. buffer_ok b \<longrightarrow> f b = (ok, b') \<longrightarrow>
        buffer_step b b' \<and> (\<not> ok \<longrightarrow> failed b') \<and>
        (ok \<longrightarrow> failed b' = failed b \<and> (\<exists>d'. d = Some d' \<and> contents b' = contents b @ d')) \<and>
        (\<not> ok \<longrightarrow> willing env \<longrightarrow> (case d of None \<Rightarrow> True | Some d \<Rightarrow> limit b < length (contents b) + length d)))"

lemma appends_bufD:
  assumes "appends_buf env f d" "buffer_ok b" "f b = (ok, b')"
  shows "buffer_step b b'" "\<not> ok \<Longrightarrow> failed b'" "ok \<Longrightarrow> failed b' = failed b"
    "ok \<Longrightarrow> \<exists>d'. d = Some d' \<and> contents b' = contents b @ d'"
    "willing env \<Longrightarrow> d = Some d' \<Longrightarrow> length (contents b) + length d' \<le> limit b \<Longrightarrow> ok"
  using assms by (auto simp: appends_buf_def split: option.splits)

text \<open>Reserve the room, then write over it.\<close>

lemma added_contents:
  assumes "buffer_ok b" "buffer_step b b'" "unat (len b') = unat (len b) + length d"
    "take (unat (len b)) (contents b') = contents b"
  shows "buffer_step b (b'\<lparr>buf := write_at (buf b') (unat (len b)) d\<rparr>)"
    "contents (b'\<lparr>buf := write_at (buf b') (unat (len b)) d\<rparr>) = contents b @ d"
proof -
  have ok: "buffer_ok b'" using assms(2) by (simp add: buffer_step_def)
  have i: "unat (len b) + length d \<le> unat (len b')" using assms(3) by simp
  show "buffer_step b (b'\<lparr>buf := write_at (buf b') (unat (len b)) d\<rparr>)"
    by (rule buffer_step_trans [OF assms(2) buffer_step_write [OF ok i]])
  show "contents (b'\<lparr>buf := write_at (buf b') (unat (len b)) d\<rparr>) = contents b @ d"
    unfolding contents_write [OF ok i] by (simp add: write_at_def assms(4) length_contents [OF ok] assms(3))
qed

lemma willing_refused:
  assumes "willing env" "buffer_ok b" "\<not> granted env b n" "unat n = length d"
  shows "limit b < length (contents b) + length d"
proof (rule ccontr)
  assume "\<not> limit b < length (contents b) + length d"
  then have "unat (len b) + unat n \<le> limit b" using assms(2,4) by (simp add: length_contents)
  from willing_granted [OF assms(1,2) this] show False using assms(3) by simp
qed

lemma add_data_appends:
  assumes "length d < 2 ^ 64"
  shows "appends_buf env (add_data env d) (Some d)"
  unfolding appends_buf_def
proof (intro allI impI)
  fix b ok b'
  assume b: "buffer_ok b" and r: "add_data env d b = (ok, b')"
  let ?n = "of_nat (length d) :: size_t"
  have n: "unat ?n = length d" by (rule unat_of_nat_size [OF assms])
  show "buffer_step b b' \<and> (\<not> ok \<longrightarrow> failed b') \<and>
      (ok \<longrightarrow> failed b' = failed b \<and> (\<exists>d'. Some d = Some d' \<and> contents b' = contents b @ d')) \<and>
      (\<not> ok \<longrightarrow> willing env \<longrightarrow> (case Some d of None \<Rightarrow> True | Some d \<Rightarrow> limit b < length (contents b) + length d))"
  proof (cases "granted env b ?n")
    case True
    then obtain b1 where b1: "cbb_buffer_add env b ?n = (True, b1)" "buffer_step b b1"
      "unat (len b1) = unat (len b) + unat ?n" "take (unat (len b)) (contents b1) = contents b" "failed b1 = failed b"
      by (rule add_ok [OF b])
    from added_contents [OF b b1(2) b1(3) [unfolded n] b1(4)]
    show ?thesis using r b1(1,5) by (auto simp: add_data_def)
  next
    case False
    then show ?thesis
      using r willing_refused [OF _ b False n] by (auto simp: add_data_def add_fails buffer_step_fail b)
  qed
qed

definition be_number :: "nat \<Rightarrow> nat \<Rightarrow> byte list option" where
  "be_number n v = (if v < 256 ^ n then Some (be_bytes n v) else None)"

lemma add_u_appends:
  assumes "0 < unat n"
  shows "appends_buf env (\<lambda>b. cbb_buffer_add_u env b v n) (be_number (unat n) (unat v))"
  unfolding appends_buf_def
proof (intro allI impI)
  fix b ok b'
  assume b: "buffer_ok b" and r: "cbb_buffer_add_u env b v n = (ok, b')"
  let ?d = "be_bytes (unat n) (unat v)"
  have nz: "n \<noteq> 0" using assms by auto
  show "buffer_step b b' \<and> (\<not> ok \<longrightarrow> failed b') \<and>
      (ok \<longrightarrow> failed b' = failed b \<and> (\<exists>d'. be_number (unat n) (unat v) = Some d' \<and> contents b' = contents b @ d')) \<and>
      (\<not> ok \<longrightarrow> willing env \<longrightarrow>
        (case be_number (unat n) (unat v) of None \<Rightarrow> True | Some d \<Rightarrow> limit b < length (contents b) + length d))"
  proof (cases "granted env b n")
    case True
    then obtain b1 where b1: "cbb_buffer_add env b n = (True, b1)" "buffer_step b b1"
      "unat (len b1) = unat (len b) + unat n" "take (unat (len b)) (contents b1) = contents b" "failed b1 = failed b"
      by (rule add_ok [OF b])
    have "unat (len b1) = unat (len b) + length ?d" using b1(3) by simp
    note c = added_contents [OF b b1(2) this b1(4)]
    let ?b = "b1\<lparr>buf := write_at (buf b1) (unat (len b)) ?d\<rparr>"
    have e: "cbb_buffer_add_u env b v n =
        (if unat v < 256 ^ unat n then (True, ?b) else (False, ?b\<lparr>failed := True\<rparr>))"
      using put_u_be [of "unat n" v] put_u_rest [of "unat n" v] nz
      by (simp add: cbb_buffer_add_u_def b1(1) split_beta Let_def)
    have "buffer_step b (?b\<lparr>failed := True\<rparr>)"
      by (rule buffer_step_trans [OF c(1) buffer_step_fail]) (use c(1) in \<open>simp add: buffer_step_def\<close>)
    then show ?thesis using r c b1(5) unfolding e by (auto simp: be_number_def split: if_splits)
  next
    case False
    have "cbb_buffer_add_u env b v n = (False, b\<lparr>failed := True\<rparr>)"
      using nz by (simp add: cbb_buffer_add_u_def add_fails False)
    then show ?thesis
      using r willing_refused [OF _ b False, of ?d] by (auto simp: buffer_step_fail b be_number_def)
  qed
qed

section \<open>Closing a child\<close>

definition child_ok :: "cbb_child \<Rightarrow> nat \<Rightarrow> bool" where
  "child_ok c n \<longleftrightarrow> pending_len_len c \<noteq> 0 \<and> (pending_is_asn1 c \<longrightarrow> pending_len_len c = 1) \<and>
     unat (offset c) + unat (pending_len_len c) \<le> n"

definition prefix_of :: "cbb_child \<Rightarrow> nat \<Rightarrow> byte list option" where
  "prefix_of c n =
     (if pending_is_asn1 c then if n \<le> 0xfffffffe then Some (length_octets n) else None
      else be_number (unat (pending_len_len c)) n)"

definition child_start :: "cbb_child \<Rightarrow> nat" where
  "child_start c = unat (offset c) + unat (pending_len_len c)"

definition seal_child :: "cbb_child \<Rightarrow> byte list \<Rightarrow> byte list option" where
  "seal_child c w =
     map_option (\<lambda>p. take (unat (offset c)) w @ p @ drop (child_start c) w) (prefix_of c (length w - child_start c))"

lemma write_at_one: "i < length b \<Longrightarrow> b[i := x] = write_at b i [x]"
  by (simp add: write_at_def upd_conv_take_nth_drop)

text \<open>The contents are moved up by \<open>k\<close> and the header is written in the gap.\<close>

lemma make_space:
  assumes "take n ws = w" "length w = n" "length ws = n + k" "i < n" "length d = k"
  shows "write_at (write_at (write_at ws (i + 1 + k) (drop (i + 1) w)) i [x]) (i + 1) d =
    take i w @ (x # d) @ drop (i + 1) w"
proof -
  define m where "m = drop (i + 1) w"
  define y where "y = take (i + 1 + k) ws"
  have m: "length m = n - (i + 1)" by (simp add: m_def assms(2))
  have "write_at ws (i + 1 + k) m = y @ m"
    using assms(3,4) by (simp add: write_at_def y_def m)
  moreover have "length y = i + 1 + k" using assms(3,4) by (simp add: y_def)
  moreover have "take i y = take i w"
    using assms(1,4) by (auto simp: y_def min_def)
  moreover have "length w > i" using assms(2,4) by simp
  ultimately show ?thesis
    unfolding m_def [symmetric] using assms(5) by (simp add: write_at_def min_def)
qed

lemma asn1_length_short:
  "unat n < 128 \<Longrightarrow> asn1_length n = Some (1, ucast n, 0) \<and> length_octets (unat n) = [ucast n]"
  by (simp add: asn1_length_def length_octets_def word_less_nat_alt of_nat_unat)

lemma asn1_length_long:
  assumes "128 \<le> unat n" "unat n \<le> 0xfffffffe"
  obtains k L x where "asn1_length n = Some (L, x, n)" "unat L = k + 1" "1 \<le> k" "k \<le> 4"
    "length_octets (unat n) = x # be_bytes k (unat n)" "unat n < 256 ^ k"
proof -
  have "\<exists>k L. asn1_length n = Some (L, 0x80 OR of_nat k, n) \<and> unat L = k + 1 \<and> 1 \<le> k \<and> k \<le> 4 \<and>
      256 ^ (k - 1) \<le> unat n \<and> unat n < 256 ^ k"
  proof -
    consider "unat n \<le> 0xff" | "0xff < unat n" "unat n \<le> 0xffff" | "0xffff < unat n" "unat n \<le> 0xffffff"
      | "0xffffff < unat n" by linarith
    then show ?thesis
    proof cases
      case 1
      then show ?thesis using assms by (intro exI [of _ 1] exI [of _ 2]) (simp add: asn1_length_def word_less_nat_alt)
    next
      case 2
      then show ?thesis using assms by (intro exI [of _ 2] exI [of _ 3]) (simp add: asn1_length_def word_less_nat_alt)
    next
      case 3
      then show ?thesis using assms by (intro exI [of _ 3] exI [of _ 4]) (simp add: asn1_length_def word_less_nat_alt)
    next
      case 4
      then show ?thesis using assms by (intro exI [of _ 4] exI [of _ 5]) (simp add: asn1_length_def word_less_nat_alt)
    qed
  qed
  then obtain k L where k: "asn1_length n = Some (L, 0x80 OR of_nat k, n)" "unat L = k + 1" "1 \<le> k" "k \<le> 4"
    "256 ^ (k - 1) \<le> unat n" "unat n < 256 ^ k" by blast
  have "k = 1 \<or> k = 2 \<or> k = 3 \<or> k = 4" using k(3,4) by auto
  then have "(0x80 OR of_nat k :: byte) = of_nat (128 + k)" by (elim disjE) simp_all
  then have "length_octets (unat n) = (0x80 OR of_nat k) # be_bytes k (unat n)"
    using length_octets_long [OF k(3,4) assms(1) k(5,6)] by simp
  with k show ?thesis by (intro that)
qed

lemma asn1_length_huge: "0xfffffffe < unat n \<Longrightarrow> asn1_length n = None"
  by (simp add: asn1_length_def word_less_nat_alt)

text \<open>What is shown of a close: the conclusion of \<open>appends_buf\<close> with \<open>seal_child\<close> for the appending.\<close>

definition closes :: "allocator \<Rightarrow> cbb_buffer_st \<Rightarrow> byte list option \<Rightarrow> bool \<times> cbb_buffer_st \<Rightarrow> bool" where
  "closes env b w r \<longleftrightarrow>
     (case r of (ok, b') \<Rightarrow>
        buffer_step b b' \<and> (\<not> ok \<longrightarrow> failed b') \<and>
        (ok \<longrightarrow> failed b' = failed b \<and> w = Some (contents b')) \<and>
        (\<not> ok \<longrightarrow> willing env \<longrightarrow> (case w of None \<Rightarrow> True | Some w \<Rightarrow> limit b < length w)))"

lemma closes_failed:
  assumes "buffer_step b b'" "\<And>w'. willing env \<Longrightarrow> w = Some w' \<Longrightarrow> limit b < length w'"
  shows "closes env b w (False, b'\<lparr>failed := True\<rparr>)"
proof -
  have "buffer_step b (b'\<lparr>failed := True\<rparr>)"
    by (rule buffer_step_trans [OF assms(1) buffer_step_fail]) (use assms(1) in \<open>simp add: buffer_step_def\<close>)
  then show ?thesis using assms(2) by (auto simp: closes_def split: option.splits)
qed

lemma child_start_word:
  assumes "child_ok c (unat (len b))"
  shows "unat (offset c + ucast (pending_len_len c)) = child_start c"
    "\<not> (offset c + ucast (pending_len_len c) < offset c \<or> len b < offset c + ucast (pending_len_len c))"
proof -
  have "unat (offset c) + unat (pending_len_len c) < 2 ^ 64"
    using assms unat_u64_less [of "len b"] by (simp add: child_ok_def)
  then show *: "unat (offset c + ucast (pending_len_len c)) = child_start c"
    by (simp add: unat_word_ariths child_start_def unat_ucast_up)
  show "\<not> (offset c + ucast (pending_len_len c) < offset c \<or> len b < offset c + ucast (pending_len_len c))"
    using assms unfolding word_less_nat_alt * by (simp add: child_ok_def child_start_def)
qed

text \<open>A prefix of fixed width is written over the zeros that hold its place.\<close>

lemma close_plain:
  assumes b: "buffer_ok b" and c: "child_ok c (unat (len b))" "\<not> pending_is_asn1 c"
  shows "closes env b (seal_child c (contents b)) (close_child env c b)"
proof -
  let ?k = "unat (pending_len_len c)" and ?o = "unat (offset c)"
  define n where "n = len b - (offset c + ucast (pending_len_len c))"
  have "offset c + ucast (pending_len_len c) \<le> len b" using child_start_word [OF c(1)] by (simp add: not_less)
  then have n: "unat n = unat (len b) - child_start c"
    unfolding n_def by (simp add: unat_sub child_start_word(1) [OF c(1)])
  define d where "d = be_bytes ?k (unat n)"
  have i: "?o + length d \<le> unat (len b)" using c(1) by (simp add: child_ok_def d_def)
  let ?b = "b\<lparr>buf := write_at (buf b) ?o d\<rparr>"
  have e: "close_child env c b = (if unat n < 256 ^ ?k then (True, ?b) else (False, ?b\<lparr>failed := True\<rparr>))"
    using put_u_be [of ?k n] put_u_rest [of ?k n] child_start_word(2) [OF c(1)] c(2)
    by (simp add: close_child_def n_def [symmetric] d_def split_beta Let_def)
  have "?o + length d = child_start c" by (simp add: d_def child_start_def)
  then have w: "contents ?b = take ?o (contents b) @ d @ drop (child_start c) (contents b)"
    using contents_write [OF b i] by (simp only: write_at_def)
  have s: "seal_child c (contents b) = (if unat n < 256 ^ ?k then Some (contents ?b) else None)"
    unfolding w by (simp add: seal_child_def prefix_of_def c(2) length_contents b be_number_def d_def n)
  show ?thesis
    unfolding e s using buffer_step_write [OF b i] closes_failed [OF buffer_step_write [OF b i]]
    by (auto simp: closes_def)
qed

lemma close_asn1:
  assumes b: "buffer_ok b" and c: "child_ok c (unat (len b))" "pending_is_asn1 c"
  shows "closes env b (seal_child c (contents b)) (close_child env c b)"
proof -
  let ?o = "unat (offset c)"
  have one: "pending_len_len c = 1" using c by (simp add: child_ok_def)
  define n where "n = len b - (offset c + 1)"
  note start = child_start_word [OF c(1), unfolded one, simplified]
  have cs: "child_start c = ?o + 1" by (simp add: child_start_def one)
  have "offset c + 1 \<le> len b" using start(2) by (simp add: not_less)
  then have n: "unat n = unat (len b) - (?o + 1)" unfolding n_def by (simp add: unat_sub start(1) cs)
  have i: "?o < unat (len b)" using c(1) by (simp add: child_ok_def one)
  have ib: "?o < length (buf b)" using i b by (simp add: buffer_ok_def word_le_nat_alt)
  have s: "seal_child c (contents b) =
      (if unat n \<le> 0xfffffffe then Some (take ?o (contents b) @ length_octets (unat n) @ drop (?o + 1) (contents b)) else None)"
    using c(2) by (simp add: seal_child_def prefix_of_def length_contents b cs n)
  consider "unat n < 128" | "128 \<le> unat n" "unat n \<le> 0xfffffffe" | "0xfffffffe < unat n" by linarith
  then show ?thesis
  proof cases
    case 1
    let ?b = "b\<lparr>buf := write_at (buf b) ?o [ucast n]\<rparr>"
    have i1: "?o + length [ucast n :: byte] \<le> unat (len b)" using i by simp
    have "close_child env c b = (True, ?b)"
      using start(2) c(2) asn1_length_short [OF 1] write_at_one [OF ib]
      by (simp add: close_child_def n_def [symmetric] one Let_def)
    then show ?thesis
      using 1 asn1_length_short [OF 1] buffer_step_write [OF b i1] contents_write [OF b i1]
      by (simp add: closes_def s write_at_def)
  next
    case 3
    then have "close_child env c b = (False, b\<lparr>failed := True\<rparr>)"
      using start(2) c(2) by (simp add: close_child_def n_def [symmetric] one Let_def asn1_length_huge)
    then show ?thesis using 3 closes_failed [OF buffer_step_refl [OF b], where w = None] by (simp add: s)
  next
    case 2
    obtain k L x where k: "asn1_length n = Some (L, x, n)" "unat L = k + 1" "1 \<le> k" "k \<le> 4"
      "length_octets (unat n) = x # be_bytes k (unat n)" "unat n < 256 ^ k"
      using asn1_length_long [OF 2] .
    define extra where "extra = (ucast L - 1 :: size_t)"
    define d where "d = be_bytes k (unat n)"
    have "L \<noteq> 0" using k(2) by auto
    then have L: "L \<noteq> 1" "unat (L - 1) = k" using k(2,3) unat_minus_one [of L] by auto
    have "unat (ucast L :: size_t) = k + 1" by (rule trans [OF unat_ucast_up k(2)]) simp
    then have x: "unat extra = k" unfolding extra_def by (subst unat_minus_one) auto
    show ?thesis
    proof (cases "granted env b extra")
      case False
      then have "close_child env c b = (False, b\<lparr>failed := True\<rparr>)"
        using start(2) c(2) k(1) L(1)
        by (simp add: close_child_def n_def [symmetric] one Let_def extra_def [symmetric] add_fails)
      moreover have "limit b < length w'" if "willing env" "seal_child c (contents b) = Some w'" for w'
      proof -
        have "length w' = unat (len b) + k"
          using that(2) 2(2) i unfolding s k(5) by (auto simp: length_contents b d_def)
        moreover have "\<not> unat (len b) + unat extra \<le> limit b" using willing_granted [OF that(1) b] False by auto
        ultimately show ?thesis using x by simp
      qed
      ultimately show ?thesis using closes_failed [OF buffer_step_refl [OF b]] by simp
    next
      case True
      then obtain b1 where b1: "cbb_buffer_add env b extra = (True, b1)" "buffer_step b b1"
        "unat (len b1) = unat (len b) + unat extra" "take (unat (len b)) (contents b1) = contents b" "failed b1 = failed b"
        by (rule add_ok [OF b])
      have b1ok: "buffer_ok b1" and len1: "unat (len b1) = unat (len b) + k"
        using b1(2,3) x by (simp_all add: buffer_step_def)
      define m where "m = drop (?o + 1) (contents b)"
      have m: "take (unat n) (drop (?o + 1) (buf b1)) = m"
      proof -
        have "take (unat (len b)) (buf b1) = take (unat (len b)) (contents b1)"
          using len1 by (simp add: contents_def)
        then have "m = drop (?o + 1) (take (unat (len b)) (buf b1))" unfolding m_def b1(4) by simp
        then show ?thesis by (simp add: drop_take n)
      qed
      have lm: "length m = unat n" using n by (simp add: m_def length_contents b)
      have up: "unat (offset c + 1 + extra) = ?o + 1 + k"
      proof -
        have "?o + 1 + k < 2 ^ 64" using i len1 unat_u64_less [of "len b1"] by simp
        then show ?thesis using start(1) x by (simp add: unat_word_ariths cs)
      qed
      let ?w1 = "write_at (buf b1) (?o + 1 + k) m"
      let ?w2 = "write_at ?w1 ?o [x]"
      let ?w3 = "write_at ?w2 (?o + 1) d"
      have bounds: "?o + 1 + k + length m \<le> unat (len b1)" "?o + length [x] \<le> unat (len b1)" "?o + 1 + length d \<le> unat (len b1)"
        using i len1 n lm by (simp_all add: d_def)
      let ?b2 = "b1\<lparr>buf := ?w1\<rparr>" and ?b3 = "b1\<lparr>buf := ?w2\<rparr>" and ?b4 = "b1\<lparr>buf := ?w3\<rparr>"
      have s2: "buffer_step b1 ?b2" by (rule buffer_step_write [OF b1ok bounds(1)])
      then have ok2: "buffer_ok ?b2" by (simp add: buffer_step_def)
      have s3: "buffer_step ?b2 ?b3" using buffer_step_write [OF ok2, of ?o "[x]"] bounds(2) by simp
      then have ok3: "buffer_ok ?b3" by (simp add: buffer_step_def)
      have s4: "buffer_step ?b3 ?b4" using buffer_step_write [OF ok3, of "?o + 1" d] bounds(3) by simp
      have "contents ?b4 = write_at (write_at (write_at (contents b1) (?o + 1 + k) m) ?o [x]) (?o + 1) d"
        using contents_write [OF ok3, of "?o + 1" d] contents_write [OF ok2, of ?o "[x]"]
          contents_write [OF b1ok bounds(1)] bounds(2,3) by simp
      also have "\<dots> = take ?o (contents b) @ (x # d) @ drop (?o + 1) (contents b)"
        unfolding m_def using b1(4) i len1
        by (intro make_space [where n = "unat (len b)"]) (simp_all add: length_contents b b1ok d_def)
      finally have w: "seal_child c (contents b) = Some (contents ?b4)"
        using 2(2) by (simp add: s k(5) d_def)
      have "?o < length ?w1"
        using bounds(1) i b1ok len1 by (simp add: buffer_ok_def word_le_nat_alt)
      then have "close_child env c b = (True, ?b4)"
        using start c(2) k(1,6) L put_u_be [of k n] put_u_rest [of k n]
        by (simp add: close_child_def n_def [symmetric] one Let_def extra_def [symmetric] b1(1) m [simplified] cs up
            write_at_one split_beta d_def)
      then show ?thesis
        using w b1(5) buffer_step_trans [OF b1(2) buffer_step_trans [OF s2 buffer_step_trans [OF s3 s4]]]
        by (simp add: closes_def)
    qed
  qed
qed

lemma close_child_seals:
  "buffer_ok b \<Longrightarrow> child_ok c (unat (len b)) \<Longrightarrow> closes env b (seal_child c (contents b)) (close_child env c b)"
  using close_plain close_asn1 by blast

section \<open>Flushing\<close>

fun seal :: "cbb_child list \<Rightarrow> byte list \<Rightarrow> byte list option" where
  "seal [] w = Some w"
| "seal (c # cs) w = Option.bind (seal cs w) (seal_child c)"

text \<open>The children start one after the other, from \<open>lo\<close> on.\<close>

fun children_ok :: "nat \<Rightarrow> cbb_child list \<Rightarrow> nat \<Rightarrow> bool" where
  "children_ok lo [] n \<longleftrightarrow> lo \<le> n"
| "children_ok lo (c # cs) n \<longleftrightarrow> lo \<le> unat (offset c) \<and> child_ok c n \<and> children_ok (child_start c) cs n"

definition after_children :: "nat \<Rightarrow> cbb_child list \<Rightarrow> nat" where
  "after_children lo cs = (if cs = [] then lo else child_start (last cs))"

lemma children_ok_le: "children_ok lo cs n \<Longrightarrow> lo \<le> n"
  by (induction cs arbitrary: lo) (force simp: child_start_def)+

lemma children_ok_mono: "children_ok lo cs n \<Longrightarrow> n \<le> n' \<Longrightarrow> children_ok lo cs n'"
  by (induction cs arbitrary: lo) (auto simp: child_ok_def)

lemma children_ok_append:
  "children_ok lo (cs @ ds) n \<longleftrightarrow> children_ok lo cs n \<and> children_ok (after_children lo cs) ds n"
  by (induction cs arbitrary: lo) (auto simp: after_children_def dest: children_ok_le)

lemma children_ok_shrink:
  "children_ok lo cs n \<Longrightarrow> after_children lo cs \<le> m \<Longrightarrow> children_ok lo cs m"
proof (induction cs arbitrary: lo)
  case (Cons c cs)
  have "after_children lo (c # cs) = after_children (child_start c) cs" by (simp add: after_children_def)
  then have "children_ok (child_start c) cs m" using Cons by simp
  moreover from this have "child_start c \<le> m" by (rule children_ok_le)
  ultimately show ?case using Cons.prems(1) by (simp add: child_ok_def child_start_def)
qed (simp add: after_children_def)

lemma prefix_length: "prefix_of c n = Some p \<Longrightarrow> child_ok c m \<Longrightarrow> unat (pending_len_len c) \<le> length p"
  using length_length_octets [of n] by (auto simp: prefix_of_def be_number_def child_ok_def split: if_splits)

lemma seal_child_length:
  "seal_child c w = Some w' \<Longrightarrow> child_ok c (length w) \<Longrightarrow> length w \<le> length w'"
  by (auto simp: seal_child_def child_start_def child_ok_def dest!: prefix_length [of _ _ _ "length w"])

lemma seal_length: "seal cs w = Some w' \<Longrightarrow> children_ok lo cs (length w) \<Longrightarrow> length w \<le> length w'"
proof (induction cs arbitrary: lo w')
  case (Cons c cs)
  then obtain v where v: "seal cs w = Some v" "seal_child c v = Some w'" by (auto simp: bind_eq_Some_conv)
  have le: "length w \<le> length v" using Cons.IH [OF v(1)] Cons.prems(2) by auto
  moreover have "child_ok c (length v)" using Cons.prems(2) le by (auto simp: child_ok_def)
  ultimately show ?case using seal_child_length [OF v(2)] by simp
qed simp

text \<open>A flush fills in all the prefixes, or fails because one of them does not fit or for want of
  memory; a buffer that failed before is left alone.\<close>

lemma flush_children_seals:
  assumes "buffer_ok b" "children_ok lo cs (unat (len b))" "flush_children env cs b = (ok, cs', b')"
  shows "buffer_step b b' \<and> children_ok lo cs' (unat (len b')) \<and> (\<not> ok \<longrightarrow> failed b') \<and>
    (ok \<longrightarrow> \<not> failed b \<and> \<not> failed b' \<and> cs' = [] \<and> seal cs (contents b) = Some (contents b')) \<and>
    (\<not> ok \<longrightarrow> \<not> failed b \<longrightarrow> willing env \<longrightarrow>
      (case seal cs (contents b) of None \<Rightarrow> True | Some w \<Rightarrow> limit b < length w))"
  using assms
proof (induction cs arbitrary: lo b ok cs' b')
  case Nil
  then show ?case by (auto simp: buffer_step_refl split: if_splits)
next
  case (Cons c ds)
  show ?case
  proof (cases "failed b")
    case True
    then show ?thesis using Cons.prems by (auto simp: buffer_step_refl)
  next
    case False
    obtain ok1 ds1 b1 where f: "flush_children env ds b = (ok1, ds1, b1)" by (rule prod_cases3)
    have c: "child_ok c (unat (len b))" "children_ok (child_start c) ds (unat (len b))" "lo \<le> unat (offset c)"
      using Cons.prems(2) by auto
    note ih = Cons.IH [OF Cons.prems(1) c(2) f]
    have le: "unat (len b) \<le> unat (len b1)" and b1: "buffer_ok b1"
      using ih by (auto simp: buffer_step_def word_le_nat_alt)
    have c1: "child_ok c (unat (len b1))" using c(1) le by (auto simp: child_ok_def)
    have lim: "limit b1 = limit b" using ih limit_step by blast
    have pl: "pending_len_len c \<noteq> 0" using c(1) by (simp add: child_ok_def)
    show ?thesis
    proof (cases ok1)
      case False
      then have r: "ok = False" "cs' = c # ds1" "b' = b1\<lparr>failed := True\<rparr>"
        using Cons.prems(3) \<open>\<not> failed b\<close> pl f by auto
      have "limit b < length w" if w: "willing env" "seal (c # ds) (contents b) = Some w" for w
      proof -
        obtain v where v: "seal ds (contents b) = Some v" "seal_child c v = Some w"
          using w(2) by (auto simp: bind_eq_Some_conv)
        then have "limit b < length v" using ih False \<open>\<not> failed b\<close> w(1) by auto
        moreover have "length (contents b) \<le> length v"
          using seal_length [OF v(1)] c(2) by (auto simp: length_contents Cons.prems(1))
        then have "child_ok c (length v)" using c(1) by (auto simp: child_ok_def length_contents Cons.prems(1))
        ultimately show ?thesis using seal_child_length [OF v(2)] by simp
      qed
      moreover have "buffer_step b b'"
        using ih r(3) buffer_step_fail [OF b1] buffer_step_trans by blast
      ultimately show ?thesis
        using r ih c1 c(3) \<open>\<not> failed b\<close> by (auto split: option.splits simp del: seal.simps)
    next
      case True
      obtain ok2 b2 where cl: "close_child env c b1 = (ok2, b2)" by (rule prod.exhaust)
      have r: "ok = ok2" "cs' = (if ok2 then [] else c # ds1)" "b' = b2"
        using Cons.prems(3) \<open>\<not> failed b\<close> pl f True cl by (auto split: bool.splits)
      have ds: "ds1 = []" "\<not> failed b1" "seal ds (contents b) = Some (contents b1)" using ih True by auto
      have s: "buffer_step b1 b2" "\<not> ok2 \<Longrightarrow> failed b2" "ok2 \<Longrightarrow> failed b2 = failed b1 \<and> seal_child c (contents b1) = Some (contents b2)"
        "\<not> ok2 \<Longrightarrow> willing env \<Longrightarrow> (case seal_child c (contents b1) of None \<Rightarrow> True | Some w \<Rightarrow> limit b1 < length w)"
        using close_child_seals [OF b1 c1, of env] cl by (auto simp: closes_def)
      have "unat (len b1) \<le> unat (len b2)" using s(1) by (simp add: buffer_step_def word_le_nat_alt)
      then have "children_ok lo cs' (unat (len b'))"
        using c1 c(3) children_ok_le [OF c(2)] le by (auto simp: r ds(1) child_ok_def child_start_def)
      then show ?thesis
        using s [unfolded lim] ds r ih \<open>\<not> failed b\<close> buffer_step_trans [OF _ s(1), of b]
        by (cases ok2) simp_all
    qed
  qed
qed

section \<open>Writers\<close>

definition state_ok :: "cbb_st \<Rightarrow> bool" where
  "state_ok s \<longleftrightarrow> buffer_ok (base s) \<and> children_ok 0 (children s) (unat (len (base s)))"

text \<open>What the \<open>CBB\<close> of depth \<open>k\<close> holds once its children are closed.\<close>

definition view :: "nat \<Rightarrow> cbb_st \<Rightarrow> byte list option" where
  "view k s = seal (drop k (children s)) (contents (base s))"

definition cat :: "byte list option \<Rightarrow> byte list option \<Rightarrow> byte list option" where
  "cat a b = Option.bind a (\<lambda>x. map_option (\<lambda>y. x @ y) b)"

lemma cat_simps [simp]: "cat (Some []) d = d" "cat d (Some []) = d" "cat None d = None" "cat d None = None"
    "cat (Some x) (Some y) = Some (x @ y)"
  by (cases d; simp add: cat_def)+

lemma cat_assoc: "cat (cat a b) c = cat a (cat b c)"
  by (cases a; cases b; cases c) (simp_all add: cat_def)

definition too_long :: "cbb_st \<Rightarrow> byte list option \<Rightarrow> bool" where
  "too_long s d \<longleftrightarrow> (case d of None \<Rightarrow> True | Some w \<Rightarrow> limit (base s) < length w)"

lemma too_long_cat: "too_long s d \<Longrightarrow> too_long s (cat d e)"
  by (cases d; cases e) (simp_all add: too_long_def cat_def)

text \<open>A step on the \<open>CBB\<close> of depth \<open>k\<close> that keeps the ones around it. The result of \<open>step_to\<close> is
  the view after it; it may fail only when that is \<open>None\<close>, does not fit, or memory is refused.\<close>

definition step_ok :: "nat \<Rightarrow> cbb_st \<Rightarrow> bool \<times> cbb_st \<Rightarrow> bool" where
  "step_ok k s r \<longleftrightarrow>
     (case r of (ok, s') \<Rightarrow>
        state_ok s' \<and> buffer_step (base s) (base s') \<and>
        (if ok then failed (base s') = failed (base s) \<and> k \<le> length (children s') \<and> take k (children s') = take k (children s)
         else failed (base s')))"

definition step_to :: "allocator \<Rightarrow> nat \<Rightarrow> cbb_st \<Rightarrow> byte list option \<Rightarrow> bool \<times> cbb_st \<Rightarrow> bool" where
  "step_to env k s d r \<longleftrightarrow>
     step_ok k s r \<and>
     (case r of (ok, s') \<Rightarrow>
        (ok \<longrightarrow> view k s' = d) \<and> (\<not> ok \<longrightarrow> \<not> failed (base s) \<longrightarrow> willing env \<longrightarrow> too_long s d))"

definition writes :: "allocator \<Rightarrow> nat \<Rightarrow> (cbb_st \<Rightarrow> bool \<times> cbb_st) \<Rightarrow> byte list option \<Rightarrow> bool" where
  "writes env k f d \<longleftrightarrow>
     (\<forall>s. state_ok s \<longrightarrow> k \<le> length (children s) \<longrightarrow> step_to env k s (cat (view k s) d) (f s))"

lemma writesD:
  "writes env k f d \<Longrightarrow> state_ok s \<Longrightarrow> k \<le> length (children s) \<Longrightarrow> step_to env k s (cat (view k s) d) (f s)"
  by (simp add: writes_def)

lemma step_okD:
  assumes "step_ok k s (ok, s')"
  shows "state_ok s'" "buffer_step (base s) (base s')" "limit (base s') = limit (base s)" "too_long s' d \<longleftrightarrow> too_long s d"
    "ok \<Longrightarrow> failed (base s') = failed (base s)" "ok \<Longrightarrow> k \<le> length (children s')"
    "ok \<Longrightarrow> take k (children s') = take k (children s)" "\<not> ok \<Longrightarrow> failed (base s')"
  using assms limit_step [of "base s" "base s'"] by (auto simp: step_ok_def too_long_def split: option.splits)

lemma step_ok_trans:
  assumes "step_ok k s (True, s1)" "step_ok k s1 r"
  shows "step_ok k s r"
  using assms buffer_step_trans [of "base s" "base s1"] by (auto simp: step_ok_def split: prod.splits if_splits)

lemma writes_skip: "writes env k (Pair True) (Some [])"
  by (simp add: writes_def step_to_def step_ok_def buffer_step_refl state_ok_def)

lemma writes_and_then:
  assumes f: "writes env k f d" and g: "writes env k g e"
  shows "writes env k (and_then f g) (cat d e)"
  unfolding writes_def
proof (intro allI impI)
  fix s
  assume s: "state_ok s" "k \<le> length (children s)"
  obtain ok s1 where r: "f s = (ok, s1)" by (rule prod.exhaust)
  note f = writesD [OF f s, unfolded r]
  show "step_to env k s (cat (view k s) (cat d e)) (and_then f g s)"
  proof (cases ok)
    case False
    then have e: "and_then f g s = (False, s1)" using r by (simp add: and_then_def)
    show ?thesis
      using f False too_long_cat [of s "cat (view k s) d" e]
      unfolding e step_to_def cat_assoc [symmetric] by auto
  next
    case True
    then have e: "and_then f g s = g s1" using r by (simp add: and_then_def)
    have f1: "step_ok k s (True, s1)" "view k s1 = cat (view k s) d" using f True by (auto simp: step_to_def)
    note s1 = step_okD [OF f1(1)]
    have "step_to env k s1 (cat (cat (view k s) d) e) (g s1)"
      using writesD [OF g s1(1)] s1(6) f1(2) by simp
    then show ?thesis
      using step_ok_trans [OF f1(1)] s1(4,5) unfolding e cat_assoc [symmetric]
      by (auto simp: step_to_def split: prod.splits)
  qed
qed

lemma writes_cong: "writes env k f d \<Longrightarrow> d = e \<Longrightarrow> writes env k f e"
  by simp

lemma and_then_assoc: "and_then (and_then f g) h = and_then f (and_then g h)"
  by (rule ext) (auto simp: and_then_def split: prod.splits bool.splits)

text \<open>\<open>CBB_flush\<close> changes nothing but the representation, and leaves no child.\<close>

lemma children_after:
  "state_ok s \<Longrightarrow> k \<le> length (children s) \<Longrightarrow>
     children_ok 0 (take k (children s)) (unat (len (base s))) \<and>
     children_ok (after_children 0 (take k (children s))) (drop k (children s)) (unat (len (base s)))"
  using children_ok_append [of 0 "take k (children s)" "drop k (children s)"] by (simp add: state_ok_def)

lemma flush_view:
  assumes "state_ok s" "k \<le> length (children s)" "CBB_flush env k s = (ok, s')"
  shows "step_to env k s (view k s) (ok, s')"
    "ok \<Longrightarrow> children s' = take k (children s) \<and> view k s = Some (contents (base s'))"
proof -
  obtain ok1 cs b where f: "flush_children env (drop k (children s)) (base s) = (ok1, cs, b)" by (rule prod_cases3)
  then have r: "ok = ok1" "s' = s\<lparr>base := b, children := take k (children s) @ cs\<rparr>"
    using assms(3) by (auto simp: CBB_flush_def)
  have b: "buffer_ok (base s)" using assms(1) by (simp add: state_ok_def)
  note ch = children_after [OF assms(1,2)]
  note fl = flush_children_seals [OF b conjunct2 [OF ch] f]
  have le: "unat (len (base s)) \<le> unat (len b)" using fl by (auto simp: buffer_step_def word_le_nat_alt)
  have "state_ok s'"
    using fl children_ok_mono [OF conjunct1 [OF ch] le] by (auto simp: state_ok_def r children_ok_append buffer_step_def)
  moreover have "min (length (children s)) k = k" using assms(2) by simp
  ultimately show "step_to env k s (view k s) (ok, s')"
    using fl assms(2) unfolding step_to_def step_ok_def r view_def too_long_def by auto
  show "children s' = take k (children s) \<and> view k s = Some (contents (base s'))" if ok
    using fl that by (auto simp: r view_def)
qed

lemma writes_flush: "writes env k (CBB_flush env k) (Some [])"
  unfolding writes_def
proof (intro allI impI)
  fix s
  assume s: "state_ok s" "k \<le> length (children s)"
  obtain ok s' where r: "CBB_flush env k s = (ok, s')" by (rule prod.exhaust)
  show "step_to env k s (cat (view k s) (Some [])) (CBB_flush env k s)"
    unfolding r using flush_view(1) [OF s r] by simp
qed

lemma flushed_and_then: "flushed env k f = and_then (CBB_flush env k) f"
  by (rule ext) (simp add: flushed_def and_then_def)

lemma writes_flushed:
  assumes f: "\<And>s. state_ok s \<Longrightarrow> length (children s) = k \<Longrightarrow> step_to env k s (cat (Some (contents (base s))) d) (f s)"
  shows "writes env k (flushed env k f) d"
  unfolding writes_def
proof (intro allI impI)
  fix s
  assume s: "state_ok s" "k \<le> length (children s)"
  obtain ok s1 where r: "CBB_flush env k s = (ok, s1)" by (rule prod.exhaust)
  note fl = flush_view [OF s r]
  show "step_to env k s (cat (view k s) d) (flushed env k f s)"
  proof (cases ok)
    case False
    then show ?thesis using fl(1) too_long_cat [of s "view k s" d] r by (auto simp: flushed_def step_to_def)
  next
    case True
    then have e: "flushed env k f s = f s1" using r by (simp add: flushed_def)
    have so: "step_ok k s (True, s1)" using fl(1) True by (simp add: step_to_def)
    note s1 = step_okD [OF so]
    have "length (children s1) = k" using fl(2) True s(2) by simp
    then have "step_to env k s1 (cat (view k s) d) (f s1)" using f [OF s1(1)] fl(2) True by simp
    then show ?thesis
      using step_ok_trans [OF so] s1(4,5) unfolding e by (auto simp: step_to_def split: prod.splits)
  qed
qed

lemma on_base_appends:
  assumes f: "appends_buf env f d" and s: "state_ok s" "length (children s) = k"
  shows "step_to env k s (cat (Some (contents (base s))) d) (on_base f s)"
proof -
  obtain ok b where r: "f (base s) = (ok, b)" by (rule prod.exhaust)
  have b: "buffer_ok (base s)" using s(1) by (simp add: state_ok_def)
  note fd = appends_bufD [OF f b r]
  have "children_ok 0 (children s) (unat (len b))"
    using s(1) fd(1) children_ok_mono by (auto simp: state_ok_def buffer_step_def word_le_nat_alt)
  then have "step_ok k s (ok, s\<lparr>base := b\<rparr>)"
    using s fd(1-3) by (auto simp: step_ok_def state_ok_def buffer_step_def)
  moreover have "view k (s\<lparr>base := b\<rparr>) = cat (Some (contents (base s))) d" if ok
    using fd(4) [OF that] s(2) by (auto simp: view_def)
  moreover have "too_long s (cat (Some (contents (base s))) d)" if "\<not> ok" "willing env"
    using fd(5) [OF that(2)] that(1) by (cases d) (force simp: too_long_def)+
  ultimately show ?thesis by (simp add: step_to_def on_base_def r)
qed

lemma writes_on_base: "appends_buf env f d \<Longrightarrow> writes env k (flushed env k (on_base f)) d"
  by (intro writes_flushed on_base_appends)

section \<open>Children\<close>

text \<open>A step that flushes, appends \<open>pre\<close> and opens a child whose prefix is zero so far.\<close>

definition opens :: "allocator \<Rightarrow> nat \<Rightarrow> (cbb_st \<Rightarrow> bool \<times> cbb_st) \<Rightarrow> byte list \<Rightarrow> bool \<Rightarrow> byte \<Rightarrow> bool" where
  "opens env k f pre asn1 n \<longleftrightarrow>
     (\<forall>s ok s'. state_ok s \<longrightarrow> k \<le> length (children s) \<longrightarrow> f s = (ok, s') \<longrightarrow>
        step_ok k s (ok, s') \<and>
        (ok \<longrightarrow> (\<exists>w c. view k s = Some w \<and> children s' = take k (children s) @ [c] \<and>
           contents (base s') = w @ pre @ replicate (unat n) 0 \<and> unat (offset c) = length (w @ pre) \<and>
           pending_len_len c = n \<and> pending_is_asn1 c = asn1)) \<and>
        (\<not> ok \<longrightarrow> \<not> failed (base s) \<longrightarrow> willing env \<longrightarrow>
           too_long s (cat (view k s) (Some (pre @ replicate (unat n) 0)))))"

text \<open>The body with its prefix in front of it.\<close>

definition framed :: "bool \<Rightarrow> byte \<Rightarrow> byte list \<Rightarrow> byte list option \<Rightarrow> byte list option" where
  "framed asn1 n pre d =
     Option.bind d (\<lambda>e. map_option (\<lambda>p. pre @ p @ e)
       (prefix_of \<lparr>offset = 0, pending_len_len = n, pending_is_asn1 = asn1\<rparr> (length e)))"

lemma prefix_of_cong:
  "pending_len_len c = pending_len_len c' \<Longrightarrow> pending_is_asn1 c = pending_is_asn1 c' \<Longrightarrow> prefix_of c = prefix_of c'"
  by (rule ext) (simp add: prefix_of_def)

lemma seal_framed:
  assumes "unat (offset c) = length (w @ pre)" "length z = unat (pending_len_len c)"
  shows "Option.bind (cat (Some (w @ pre @ z)) d) (seal_child c) =
    cat (Some w) (framed (pending_is_asn1 c) (pending_len_len c) pre d)"
proof (cases d)
  case (Some e)
  let ?c = "\<lparr>offset = 0, pending_len_len = pending_len_len c, pending_is_asn1 = pending_is_asn1 c\<rparr>"
  have "prefix_of c = prefix_of ?c" by (rule prefix_of_cong) simp_all
  then show ?thesis
    using assms by (cases "prefix_of ?c (length e)") (simp_all add: Some framed_def seal_child_def child_start_def)
qed (simp add: framed_def)

lemma framed_length:
  assumes "framed asn1 n pre (Some e) = Some d" "n \<noteq> 0" "asn1 \<longrightarrow> n = 1"
  shows "length pre + unat n + length e \<le> length d"
proof -
  let ?c = "\<lparr>offset = 0, pending_len_len = n, pending_is_asn1 = asn1\<rparr>"
  obtain p where p: "prefix_of ?c (length e) = Some p" "d = pre @ p @ e"
    using assms(1) by (auto simp: framed_def)
  have "child_ok ?c (unat n)" using assms(2,3) by (simp add: child_ok_def)
  from prefix_length [OF p(1) this] show ?thesis by (simp add: p(2))
qed

lemma drop_take_snoc:
  assumes "take (k + 1) xs = ys @ [x]" "length ys = k"
  shows "drop k xs = x # drop (k + 1) xs"
proof -
  have "drop k xs = drop k (take (k + 1) xs @ drop (k + 1) xs)" by simp
  also have "\<dots> = x # drop (k + 1) xs" unfolding assms(1) using assms(2) by simp
  finally show ?thesis .
qed

lemma writes_child:
  assumes f: "opens env k f pre asn1 n" and g: "writes env (k + 1) g e" and n: "n \<noteq> 0" "asn1 \<longrightarrow> n = 1"
  shows "writes env k (and_then f g) (framed asn1 n pre e)"
  unfolding writes_def
proof (intro allI impI)
  fix s
  assume s: "state_ok s" "k \<le> length (children s)"
  obtain ok s1 where r: "f s = (ok, s1)" by (rule prod.exhaust)
  let ?z = "replicate (unat n) 0 :: byte list"
  have f: "step_ok k s (ok, s1)"
    "ok \<Longrightarrow> \<exists>w c. view k s = Some w \<and> children s1 = take k (children s) @ [c] \<and>
       contents (base s1) = w @ pre @ ?z \<and> unat (offset c) = length (w @ pre) \<and>
       pending_len_len c = n \<and> pending_is_asn1 c = asn1"
    "\<not> ok \<Longrightarrow> \<not> failed (base s) \<Longrightarrow> willing env \<Longrightarrow> too_long s (cat (view k s) (Some (pre @ ?z)))"
    using f s r by (auto simp: opens_def)
  note s1 = step_okD [OF f(1)]
  have long: "too_long s (cat (Some w) (framed asn1 n pre e))"
    if "too_long s (cat (Some (w @ pre @ ?z)) e)" for w
  proof (cases e)
    case (Some e')
    then show ?thesis
      using that framed_length [OF _ n, of pre e'] by (cases "framed asn1 n pre e") (force simp: too_long_def)+
  qed (simp add: too_long_def framed_def)
  show "step_to env k s (cat (view k s) (framed asn1 n pre e)) (and_then f g s)"
  proof (cases ok)
    case False
    have "too_long s (cat (view k s) (framed asn1 n pre e))" if "\<not> failed (base s)" "willing env"
    proof (cases "view k s")
      case (Some w)
      then show ?thesis
        using long [of w] too_long_cat [OF f(3) [OF False that], of e] by (simp add: cat_assoc)
    qed (simp add: too_long_def)
    then show ?thesis using f(1) False r by (simp add: step_to_def and_then_def)
  next
    case True
    then obtain w c where c: "view k s = Some w" "children s1 = take k (children s) @ [c]"
      "contents (base s1) = w @ pre @ ?z" "unat (offset c) = length (w @ pre)" "pending_len_len c = n" "pending_is_asn1 c = asn1"
      using f(2) by blast
    have len1: "length (children s1) = k + 1" using c(2) s(2) by simp
    have v: "view (k + 1) s1 = Some (w @ pre @ ?z)" using len1 c(3) by (simp add: view_def)
    obtain ok2 s2 where r2: "g s1 = (ok2, s2)" by (rule prod.exhaust)
    have g: "step_ok (k + 1) s1 (ok2, s2)" "ok2 \<Longrightarrow> view (k + 1) s2 = cat (Some (w @ pre @ ?z)) e"
      "\<not> ok2 \<Longrightarrow> \<not> failed (base s1) \<Longrightarrow> willing env \<Longrightarrow> too_long s1 (cat (Some (w @ pre @ ?z)) e)"
      using writesD [OF g s1(1)] len1 r2 v by (auto simp: step_to_def)
    note s2 = step_okD [OF g(1)]
    have e: "and_then f g s = (ok2, s2)" using True r r2 by (simp add: and_then_def)
    have ch: "take (k + 1) (children s2) = take k (children s) @ [c]" if ok2
      using s2(7) [OF that] c(2) len1 by simp
    have "step_ok k s (ok2, s2)"
    proof (cases ok2)
      case True
      then have "take k (children s2) = take k (children s)"
        using arg_cong [OF ch [OF True], of "take k"] s(2) by (simp add: min_def)
      then show ?thesis
        using s2 s1 \<open>ok\<close> True buffer_step_trans [OF s1(2) s2(2)] by (auto simp: step_ok_def)
    qed (use s2 buffer_step_trans [OF s1(2) s2(2)] in \<open>simp add: step_ok_def\<close>)
    moreover have "view k s2 = cat (view k s) (framed asn1 n pre e)" if ok2
    proof -
      have "drop k (children s2) = c # drop (k + 1) (children s2)"
        by (rule drop_take_snoc [OF ch [OF that]]) (use s(2) in simp)
      then have "view k s2 = Option.bind (view (k + 1) s2) (seal_child c)" by (simp add: view_def)
      then show ?thesis
        using seal_framed [OF c(4), of ?z e] g(2) [OF that] c(1,5,6) by simp
    qed
    moreover have "too_long s (cat (view k s) (framed asn1 n pre e))" if "\<not> ok2" "\<not> failed (base s)" "willing env"
      using long [of w] g(3) that s1(4,5) True c(1) by simp
    ultimately show ?thesis unfolding e by (simp add: step_to_def)
  qed
qed

end
