(* ===== verification/Crypto_Document.thy ===== *)
theory Crypto_Document
  imports Crypto_Build
begin

text \<open>
  The documents that calls of \<open>cbb.c\<close> describe: every operation of \<open>Crypto_Cbb\<close> appends the encoding of
  its argument, a sequence of calls with nested children appends what the nested description stands
  for, and \<open>CBB_finish\<close> returns just that. The parsers of \<open>Crypto_Cbs\<close> read it back.
\<close>

section \<open>Operations\<close>

lemma writes_bytes: "length d < 2 ^ 64 \<Longrightarrow> writes env k (CBB_add_bytes env k d) (Some d)"
  unfolding CBB_add_bytes_def by (intro writes_on_base add_data_appends)

lemma writes_u: "0 < unat n \<Longrightarrow> writes env k (add_u env k v n) (be_number (unat n) (unat v))"
  unfolding add_u_def by (intro writes_on_base add_u_appends)

lemma be_number_full: "be_number n v = (if v < 256 ^ n then Some (be_bytes n v) else None)"
  by (simp add: be_number_def)

lemma unat_u16_less: "unat (w :: 16 word) < 2 ^ 16"
  by (rule less_le_trans [OF unsigned_less]) simp

lemma writes_u8: "writes env k (CBB_add_u8 env k v) (Some [v])"
  unfolding CBB_add_u8_def
  by (rule writes_cong [OF writes_u]) (simp_all add: be_number_def unat_ucast_up unat_byte_less)

lemma writes_u16: "writes env k (CBB_add_u16 env k v) (Some (be_bytes 2 (unat v)))"
  unfolding CBB_add_u16_def
  by (rule writes_cong [OF writes_u]) (use unat_u16_less [of v] in \<open>simp_all add: be_number_def unat_ucast_up\<close>)

lemma writes_u24: "writes env k (CBB_add_u24 env k v) (be_number 3 (unat v))"
  unfolding CBB_add_u24_def
  by (rule writes_cong [OF writes_u]) (simp_all add: be_number_def unat_ucast_up)

lemma writes_u32: "writes env k (CBB_add_u32 env k v) (Some (be_bytes 4 (unat v)))"
  unfolding CBB_add_u32_def
  by (rule writes_cong [OF writes_u]) (use unat_u32_less [of v] in \<open>simp_all add: be_number_def unat_ucast_up\<close>)

lemma writes_u64: "writes env k (CBB_add_u64 env k v) (Some (be_bytes 8 (unat v)))"
  unfolding CBB_add_u64_def
  by (rule writes_cong [OF writes_u]) (use unat_u64_less [of v] in \<open>simp_all add: be_number_def\<close>)

text \<open>The swapped number has the bytes in the opposite order.\<close>

lemma be_bytes_le_bytes: "be_bytes n (unat (w :: 'a::len word)) = rev (le_bytes n w)"
proof (induction n arbitrary: w)
  case (Suc n)
  have "unat w div 256 = unat (drop_bit 8 w)"
    by (rule bit_eqI) (simp add: bit_simps flip: drop_bit_eq_div [of 8 "unat w", simplified])
  moreover have "(of_nat (unat w) :: byte) = ucast w" by (rule of_nat_unat)
  ultimately show ?case by (simp add: Suc)
qed simp

lemma be_bytes_bswap:
  "8 * n \<le> LENGTH('a) \<Longrightarrow> be_bytes n (unat (CRYPTO_bswap n (w :: 'a::len word))) = le_bytes n w"
  by (simp only: be_bytes_le_bytes CRYPTO_bswap_def) (subst le_bytes_le_val, simp_all)

lemma writes_u16le: "writes env k (CBB_add_u16le env k v) (Some (le_bytes 2 v))"
  unfolding CBB_add_u16le_def by (rule writes_cong [OF writes_u16]) (simp add: be_bytes_bswap)

lemma writes_u32le: "writes env k (CBB_add_u32le env k v) (Some (le_bytes 4 v))"
  unfolding CBB_add_u32le_def by (rule writes_cong [OF writes_u32]) (simp add: be_bytes_bswap)

lemma writes_u64le: "writes env k (CBB_add_u64le env k v) (Some (le_bytes 8 v))"
  unfolding CBB_add_u64le_def by (rule writes_cong [OF writes_u64]) (simp add: be_bytes_bswap)

lemma writes_u8s: "writes env k (add_u8s env k d) (Some d)"
proof (induction d)
  case (Cons b d)
  show ?case using writes_and_then [OF writes_u8 Cons] by simp
qed (simp add: writes_skip)

subsection \<open>Base 128\<close>

definition digit128 :: "u64 \<Rightarrow> nat \<Rightarrow> byte" where
  "digit128 v i = (let byte = ucast (drop_bit (7 * i) v AND 0x7f) in if i \<noteq> 0 then byte OR 0x80 else byte)"

lemma writes_base128_loop: "writes env k (add_base128_loop env k n v) (Some (map (digit128 v) (rev [0..<n])))"
proof (induction n)
  case (Suc n)
  show ?case using writes_and_then [OF writes_u8 Suc] by (simp add: digit128_def Let_def)
qed (simp add: writes_skip)

definition hi_digits :: "nat \<Rightarrow> nat \<Rightarrow> byte list" where
  "hi_digits n w = map (\<lambda>i. of_nat (128 + w div 128 ^ i mod 128)) (rev [0..<n])"

lemma rev_upt_Suc: "rev [0..<Suc n] = map Suc (rev [0..<n]) @ [0]"
proof -
  have "[0..<Suc n] = 0 # map Suc [0..<n]" by (subst upt_conv_Cons) (simp_all only: map_Suc_upt zero_less_Suc)
  then show ?thesis by (simp only: rev.simps rev_map)
qed

lemma hi_digits_Suc: "hi_digits (Suc n) w = hi_digits n (w div 128) @ [of_nat (128 + w mod 128)]"
  by (simp add: hi_digits_def rev_upt_Suc div_mult2_eq del: upt_Suc)

lemma base128_hi_digits: "w < 128 ^ n \<Longrightarrow> n = 0 \<or> 128 ^ (n - 1) \<le> w \<Longrightarrow> base128_hi w = hi_digits n w"
proof (induction n arbitrary: w)
  case (Suc n)
  have "0 < (128 :: nat) ^ n" by simp
  also have "\<dots> \<le> w" using Suc.prems(2) by simp
  finally have "w \<noteq> 0" by simp
  moreover have "base128_hi (w div 128) = hi_digits n (w div 128)"
  proof (rule Suc.IH)
    show "w div 128 < 128 ^ n" using Suc.prems(1) by (simp add: less_mult_imp_div_less)
    show "n = 0 \<or> 128 ^ (n - 1) \<le> w div 128"
      using Suc.prems(2) by (cases n) (simp_all add: less_eq_div_iff_mult_less_eq mult.commute)
  qed
  ultimately show ?case by (subst base128_hi.simps) (simp add: hi_digits_Suc)
qed (simp add: hi_digits_def)

lemma base128_len_digits:
  "unat v < 128 ^ n \<Longrightarrow> unat v < 128 ^ base128_len n v \<and> (base128_len n v = 0 \<or> 128 ^ (base128_len n v - 1) \<le> unat v)"
proof (induction n arbitrary: v)
  case (Suc n)
  have d: "unat (drop_bit 7 v) = unat v div 128"
    using unat_power2 [of 7] by (simp add: drop_bit_eq_div unat_div_distrib)
  show ?case
  proof (cases "v > 0")
    case True
    have "unat (drop_bit 7 v) < 128 ^ n" using Suc.prems by (simp add: d less_mult_imp_div_less)
    from Suc.IH [OF this] show ?thesis
      using True by (cases "base128_len n (drop_bit 7 v)")
        (auto simp: d less_eq_div_iff_mult_less_eq div_less_iff_less_mult mult.commute word_less_nat_alt)
  qed (simp add: word_greater_zero_iff)
qed simp

lemma digit128_value:
  assumes "i < 10"
  shows "digit128 v i = of_nat ((if i = 0 then 0 else 128) + unat v div 128 ^ i mod 128)"
proof -
  have p: "(128 :: nat) ^ i = 2 ^ (7 * i)" by (simp add: power_mult)
  have "unat (drop_bit (7 * i) v) = unat v div 128 ^ i"
    unfolding p using unat_power2 [of "7 * i"] assms by (simp add: drop_bit_eq_div unat_div_distrib)
  moreover have "unat (drop_bit (7 * i) v AND 0x7f) = unat (drop_bit (7 * i) v) mod 128"
    using unsigned_take_bit_eq [of 7 "drop_bit (7 * i) v", where ?'a = nat]
    by (simp only: take_bit_eq_mask [symmetric] word_masks(6)) (simp add: take_bit_eq_mod)
  ultimately have x: "drop_bit (7 * i) v AND 0x7f = of_nat (unat v div 128 ^ i mod 128)"
    by (metis of_nat_unat ucast_id)
  have b: "(of_nat (m mod 128) :: byte) OR 0x80 = of_nat (128 + m mod 128)" for m :: nat
  proof -
    have "(of_nat (m mod 128) :: byte) = take_bit 7 (of_nat m)"
      by (simp only: word_eq_iff_unsigned [where ?'a = nat] unsigned_take_bit_eq unat_of_nat_byte)
        (simp add: take_bit_eq_mod mod_mod_cancel)
    then have "(of_nat (m mod 128) :: byte) OR 0x80 = of_nat (m mod 128) + 0x80"
      by (intro disjunctive_add [symmetric]) (auto simp: bit_simps)
    then show ?thesis by simp
  qed
  have "ucast (of_nat m :: u64) = (of_nat m :: byte)" for m
    by (simp only: word_eq_iff_unsigned [where ?'a = nat] unsigned_ucast_eq unsigned_of_nat take_bit_take_bit) simp
  then show ?thesis by (simp add: digit128_def x b Let_def del: of_nat_add)
qed

lemma writes_base128: "writes env k (add_base128_integer env k v) (Some (base128 (unat v)))"
proof -
  define n where "n = base128_len 10 v"
  have "unat v < 128 ^ 10" using unat_u64_less [of v] by simp
  from base128_len_digits [OF this] have n: "unat v < 128 ^ n" "n = 0 \<or> 128 ^ (n - 1) \<le> unat v"
    by (simp_all add: n_def)
  have "n \<le> 10"
  proof (rule ccontr)
    assume "\<not> n \<le> 10"
    then have "(128 :: nat) ^ 10 \<le> 128 ^ (n - 1)" by (intro power_increasing) auto
    then show False using n(2) \<open>\<not> n \<le> 10\<close> unat_u64_less [of v] by simp
  qed
  obtain i where i: "(if n = 0 then 1 else n) = Suc i" by (cases n) auto
  have i10: "i < 10" using i \<open>n \<le> 10\<close> by (auto split: if_splits)
  have "base128_hi (unat v div 128) = hi_digits i (unat v div 128)"
  proof (rule base128_hi_digits)
    show "unat v div 128 < 128 ^ i" using n(1) i by (auto simp: less_mult_imp_div_less split: if_splits)
    show "i = 0 \<or> 128 ^ (i - 1) \<le> unat v div 128"
      using n(2) i by (cases i) (auto simp: less_eq_div_iff_mult_less_eq mult.commute split: if_splits)
  qed
  moreover have "map (digit128 v) (rev [0..<Suc i]) = hi_digits i (unat v div 128) @ [of_nat (unat v mod 128)]"
  proof -
    have "map (digit128 v \<circ> Suc) (rev [0..<i]) = hi_digits i (unat v div 128)"
      unfolding hi_digits_def using i10 by (auto simp: digit128_value div_mult2_eq simp del: of_nat_add)
    then show ?thesis by (simp add: digit128_value rev_upt_Suc del: upt_Suc)
  qed
  ultimately have "map (digit128 v) (rev [0..<Suc i]) = base128 (unat v)" by (simp add: base128_def)
  moreover have "add_base128_integer env k v = add_base128_loop env k (Suc i) v"
    unfolding add_base128_integer_def Let_def n_def [symmetric] i ..
  ultimately show ?thesis using writes_base128_loop [of env k "Suc i" v] by (simp only:)
qed

subsection \<open>Children and elements\<close>

text \<open>A child is opened where the flushed \<open>CBB\<close> ends, after zeros have been added for its prefix.\<close>

lemma opened_child:
  assumes s: "state_ok s" "length (children s) = k" and n: "n \<noteq> 0" "is_asn \<longrightarrow> n = 1"
    and f: "step_to env k s (Some (contents (base s) @ replicate (unat n) 0)) (True, s1)" "length (children s1) = k"
    and c: "offset c = len (base s)" "pending_len_len c = n" "pending_is_asn1 c = is_asn"
  shows "step_ok k s (True, open_child k c s1)" "children (open_child k c s1) = children s @ [c]"
    "contents (base (open_child k c s1)) = contents (base s) @ replicate (unat n) 0"
proof -
  let ?s = "open_child k c s1"
  have so: "step_ok k s (True, s1)" and v: "view k s1 = Some (contents (base s) @ replicate (unat n) 0)"
    using f(1) by (simp_all add: step_to_def)
  note s1 = step_okD [OF so]
  have same: "children s1 = children s" using s1(7) f(2) s(2) by simp
  then show ch: "children ?s = children s @ [c]" using s(2) by (simp add: open_child_def)
  show w: "contents (base ?s) = contents (base s) @ replicate (unat n) 0"
    using v f(2) by (simp add: open_child_def view_def)
  have ok: "buffer_ok (base s)" "buffer_ok (base s1)" using s(1) s1(1) by (simp_all add: state_ok_def)
  have lens: "unat (len (base s1)) = unat (len (base s)) + unat n"
    using arg_cong [OF w, of length] ok by (simp add: open_child_def length_contents)
  have "children_ok 0 (children s) (unat (len (base s)))" using s(1) by (simp add: state_ok_def)
  moreover have "children_ok 0 (children s) (unat (len (base s1)))" using s1(1) by (simp add: state_ok_def same)
  moreover have "after_children 0 (children s) \<le> unat (len (base s))"
    using children_ok_append [of 0 "children s" "[]" "unat (len (base s))"] calculation(1) by simp
  ultimately have "state_ok ?s"
    using n c lens ok by (simp add: state_ok_def open_child_def same s(2) children_ok_append child_ok_def child_start_def)
  then show "step_ok k s (True, ?s)" using so s(2) ch by (simp add: step_ok_def open_child_def)
qed

text \<open>The steps that leave no child open.\<close>

definition leaf :: "nat \<Rightarrow> (cbb_st \<Rightarrow> bool \<times> cbb_st) \<Rightarrow> bool" where
  "leaf k f \<longleftrightarrow> (\<forall>s s'. state_ok s \<longrightarrow> k \<le> length (children s) \<longrightarrow> f s = (True, s') \<longrightarrow> length (children s') = k)"

lemma leaf_on_base: "leaf k (flushed env k (on_base f))"
  using flush_view(2) by (fastforce simp: leaf_def flushed_def on_base_def split: prod.splits bool.splits)

lemma leaf_u8: "leaf k (CBB_add_u8 env k v)"
  unfolding CBB_add_u8_def add_u_def by (rule leaf_on_base)

lemma leaf_and_then:
  assumes "writes env k f d" "leaf k g"
  shows "leaf k (and_then f g)"
  unfolding leaf_def
proof (intro allI impI)
  fix s s'
  assume s: "state_ok s" "k \<le> length (children s)" and r: "and_then f g s = (True, s')"
  obtain s1 where s1: "f s = (True, s1)" "g s1 = (True, s')"
    using r by (auto simp: and_then_def split: prod.splits bool.splits)
  then have "step_ok k s (True, s1)" using writesD [OF assms(1) s] by (simp add: step_to_def)
  then have "state_ok s1" "k \<le> length (children s1)" by (simp_all add: step_ok_def)
  then show "length (children s') = k" using assms(2) s1(2) by (simp add: leaf_def)
qed

lemma leaf_base128_loop: "leaf k (add_base128_loop env k (Suc n) v)"
proof (induction n)
  case 0
  show ?case using leaf_u8 by (simp add: leaf_def and_then_def split: prod.splits bool.splits)
next
  case (Suc n)
  show ?case unfolding add_base128_loop.simps(2) [of env k "Suc n"] by (rule leaf_and_then [OF writes_u8 Suc])
qed

lemma leaf_base128: "leaf k (add_base128_integer env k v)"
  using leaf_base128_loop [of k env "base128_len 10 v - 1" v] leaf_base128_loop [of k env 0 v]
  by (cases "base128_len 10 v") (simp_all add: add_base128_integer_def Let_def)

lemma opens_length_prefixed:
  assumes "n \<noteq> 0"
  shows "opens env k (cbb_add_length_prefixed env k n) [] False n"
  unfolding opens_def
proof (intro allI impI)
  fix s ok s'
  assume s: "state_ok s" "k \<le> length (children s)" and r: "cbb_add_length_prefixed env k n s = (ok, s')"
  obtain ok1 s1 where f: "CBB_flush env k s = (ok1, s1)" by (rule prod.exhaust)
  note fl = flush_view [OF s f]
  show "step_ok k s (ok, s') \<and>
      (ok \<longrightarrow> (\<exists>w c. view k s = Some w \<and> children s' = take k (children s) @ [c] \<and>
         contents (base s') = w @ [] @ replicate (unat n) 0 \<and> unat (offset c) = length (w @ []) \<and>
         pending_len_len c = n \<and> pending_is_asn1 c = False)) \<and>
      (\<not> ok \<longrightarrow> \<not> failed (base s) \<longrightarrow> willing env \<longrightarrow> too_long s (cat (view k s) (Some ([] @ replicate (unat n) 0))))"
  proof (cases ok1)
    case False
    then have "ok = False" "s' = s1" using r f by (simp_all add: cbb_add_length_prefixed_def flushed_def)
    then show ?thesis using fl(1) False too_long_cat by (simp add: step_to_def)
  next
    case True
    have so: "step_ok k s (True, s1)" using fl(1) True by (simp add: step_to_def)
    note s1 = step_okD [OF so]
    have v: "children s1 = take k (children s)" "view k s = Some (contents (base s1))" using fl(2) True by auto
    have k1: "length (children s1) = k" using v(1) s(2) by simp
    let ?c = "\<lparr>offset = len (base s1), pending_len_len = n, pending_is_asn1 = False\<rparr>"
    obtain ok2 s2 where f2: "on_base (add_data env (replicate (unat n) 0)) s1 = (ok2, s2)" by (rule prod.exhaust)
    have z: "length (replicate (unat n) 0 :: byte list) < 2 ^ 64" using unat_byte_less [of n] by simp
    have st: "step_to env k s1 (Some (contents (base s1) @ replicate (unat n) 0)) (ok2, s2)"
      using on_base_appends [OF add_data_appends [OF z] s1(1) k1, of env] f2 by simp
    have k2: "length (children s2) = k" using f2 k1 by (auto simp: on_base_def split: prod.splits)
    have e: "ok = ok2" "s' = (if ok2 then open_child k ?c s2 else s2)"
      using r f True f2 by (auto simp: cbb_add_length_prefixed_def flushed_def split: bool.splits)
    have l1: "length (contents (base s1)) = unat (len (base s1))" using s1(1) by (simp add: state_ok_def length_contents)
    show ?thesis
    proof (cases ok2)
      case True
      note o = opened_child [OF s1(1) k1 assms _ st [unfolded eqTrueI [OF True]] k2, where is_asn = False and c = ?c, simplified]
      show ?thesis
        using o(2,3) step_ok_trans [OF so o(1)] v l1 True by (simp add: e)
    next
      case False
      then show ?thesis
        using st step_ok_trans [OF so] s1(4,5) v by (simp add: e step_to_def)
    qed
  qed
qed

text \<open>The tag, in its short or its long form.\<close>

lemma tag_byte_or:
  fixes t :: u32
  assumes "unat (take_bit 29 t) < 31"
  shows "unat (t AND CBS_ASN1_TAG_NUMBER_MASK) = unat (take_bit 29 t)"
  by (simp add: tag_masks take_bit_eq_mask)

lemma writes_tag:
  "writes env k
     (let tag_bits = (ucast (drop_bit CBS_ASN1_TAG_SHIFT tag) AND 0xe0 :: byte);
          tag_number = tag AND CBS_ASN1_TAG_NUMBER_MASK
      in if tag_number \<ge> 0x1f
         then and_then (CBB_add_u8 env k (tag_bits OR 0x1f)) (add_base128_integer env k (ucast tag_number))
         else CBB_add_u8 env k (tag_bits OR ucast tag_number))
     (Some (tag_octets tag))"
proof -
  have m: "tag AND CBS_ASN1_TAG_NUMBER_MASK = take_bit 29 tag" by (simp add: tag_masks take_bit_eq_mask)
  have u: "unat (ucast (take_bit 29 tag) :: u64) = unat (take_bit 29 tag)" by (rule unat_ucast_up) simp
  show ?thesis
  proof (cases "unat (take_bit 29 tag) < 31")
    case True
    then have "\<not> 0x1f \<le> take_bit 29 tag" by (simp add: word_le_nat_alt)
    then show ?thesis
      using writes_u8 True by (simp add: m Let_def tag_octets_def CBS_ASN1_TAG_SHIFT_def)
  next
    case False
    then have "0x1f \<le> take_bit 29 tag" by (simp add: word_le_nat_alt)
    then show ?thesis
      using writes_and_then [OF writes_u8 writes_base128, of env k _ "ucast (take_bit 29 tag)"] False
      by (simp add: m u Let_def tag_octets_def CBS_ASN1_TAG_SHIFT_def)
  qed
qed

text \<open>A writer, and then a zero for the length of an ASN.1 child.\<close>

lemma opens_after:
  assumes w: "writes env k f (Some pre)" and leaf: "leaf k f"
  shows "opens env k
    (flushed env k (and_then f (\<lambda>s.
       case CBB_add_u8 env k 0 s of
         (False, s1) \<Rightarrow> (False, s1)
       | (True, s1) \<Rightarrow> (True, open_child k \<lparr>offset = len (base s), pending_len_len = 1, pending_is_asn1 = True\<rparr> s1))))
    pre True 1" (is "opens env k (flushed env k (and_then f ?g)) pre True 1")
  unfolding opens_def
proof (intro allI impI)
  fix s ok s'
  assume s: "state_ok s" "k \<le> length (children s)" and r: "flushed env k (and_then f ?g) s = (ok, s')"
  let ?h = "and_then (CBB_flush env k) f"
  have h: "writes env k ?h (Some pre)" using writes_and_then [OF writes_flush w] by simp
  have r': "and_then ?h ?g s = (ok, s')" using r by (simp add: flushed_and_then and_then_assoc)
  obtain ok1 s1 where f1: "?h s = (ok1, s1)" by (rule prod.exhaust)
  have st1: "step_to env k s (cat (view k s) (Some pre)) (ok1, s1)" using writesD [OF h s] f1 by simp
  show "step_ok k s (ok, s') \<and>
      (ok \<longrightarrow> (\<exists>w c. view k s = Some w \<and> children s' = take k (children s) @ [c] \<and>
         contents (base s') = w @ pre @ replicate (unat (1 :: byte)) 0 \<and> unat (offset c) = length (w @ pre) \<and>
         pending_len_len c = 1 \<and> pending_is_asn1 c = True)) \<and>
      (\<not> ok \<longrightarrow> \<not> failed (base s) \<longrightarrow> willing env \<longrightarrow> too_long s (cat (view k s) (Some (pre @ replicate (unat (1 :: byte)) 0))))"
  proof (cases ok1)
    case False
    then have "ok = False" "s' = s1" using r' f1 by (simp_all add: and_then_def [of ?h])
    then show ?thesis
      using st1 False too_long_cat [of s "cat (view k s) (Some pre)" "Some [0]"] by (auto simp: step_to_def cat_assoc)
  next
    case True
    have so: "step_ok k s (True, s1)" and v1: "view k s1 = cat (view k s) (Some pre)" using st1 True by (simp_all add: step_to_def)
    note s1 = step_okD [OF so]
    have "length (children s1) = k"
      using leaf_and_then [OF writes_flush leaf] f1 True s by (auto simp: leaf_def)
    note k1 = this
    then have c1: "view k s1 = Some (contents (base s1))" by (simp add: view_def)
    obtain w where w: "view k s = Some w" "contents (base s1) = w @ pre"
      using v1 unfolding c1 by (cases "view k s") auto
    let ?c = "\<lparr>offset = len (base s1), pending_len_len = 1, pending_is_asn1 = True\<rparr>"
    obtain ok2 s2 where f2: "CBB_add_u8 env k 0 s1 = (ok2, s2)" by (rule prod.exhaust)
    have st: "step_to env k s1 (Some (contents (base s1) @ replicate (unat (1 :: byte)) 0)) (ok2, s2)"
      using writesD [OF writes_u8 s1(1), of k env 0] k1 f2 c1 by simp
    have e: "ok = ok2" "s' = (if ok2 then open_child k ?c s2 else s2)"
      using r' f1 True f2 by (auto simp: and_then_def [of ?h] split: bool.splits)
    have l1: "length (contents (base s1)) = unat (len (base s1))" using s1(1) by (simp add: state_ok_def length_contents)
    show ?thesis
    proof (cases ok2)
      case True
      have k2: "length (children s2) = k" using leaf_u8 [of k env 0] f2 True s1(1) k1 by (auto simp: leaf_def)
      note o = opened_child [OF s1(1) k1 _ _ st [unfolded eqTrueI [OF True]] k2, where is_asn = True and c = ?c, simplified]
      have "children s1 = take k (children s)" using s1(7) k1 by simp
      then show ?thesis
        using o(2,3) step_ok_trans [OF so o(1)] w l1 True by (simp add: e)
    next
      case False
      then show ?thesis
        using st step_ok_trans [OF so] s1(4,5) w by (simp add: e step_to_def)
    qed
  qed
qed

lemma leaf_tag:
  "leaf k
     (let tag_bits = (ucast (drop_bit CBS_ASN1_TAG_SHIFT tag) AND 0xe0 :: byte);
          tag_number = tag AND CBS_ASN1_TAG_NUMBER_MASK
      in if tag_number \<ge> 0x1f
         then and_then (CBB_add_u8 env k (tag_bits OR 0x1f)) (add_base128_integer env k (ucast tag_number))
         else CBB_add_u8 env k (tag_bits OR ucast tag_number))"
  using leaf_and_then [OF writes_u8 leaf_base128] leaf_u8 by (simp add: Let_def)

lemma opens_asn1: "opens env k (CBB_add_asn1 env k tag) (tag_octets tag) True 1"
proof -
  show ?thesis
    using opens_after [OF writes_tag leaf_tag, of env k tag] unfolding CBB_add_asn1_def Let_def .
qed

section \<open>Values\<close>

text \<open>An element with the contents \<open>d\<close>; the builder makes none of \<open>2 ^ 32 - 1\<close> bytes or more.\<close>

definition der :: "u32 \<Rightarrow> byte list \<Rightarrow> byte list option" where
  "der t d = (if length d \<le> 0xfffffffe then Some (element (t, d)) else None)"

lemma framed_asn1: "framed True 1 (tag_octets t) d = Option.bind d (der t)"
  by (cases d) (simp_all add: framed_def prefix_of_def der_def element_def asn1_header_def)

lemma framed_plain: "framed False n [] d = Option.bind d (\<lambda>e. cat (be_number (unat n) (length e)) (Some e))"
  by (cases d) (simp_all add: framed_def prefix_of_def cat_def be_number_def)

lemma writes_asn1: "writes env (k + 1) g d \<Longrightarrow> writes env k (and_then (CBB_add_asn1 env k t) g) (Option.bind d (der t))"
  using writes_child [OF opens_asn1, of env k g d t] by (simp add: framed_asn1)

lemma writes_prefixed:
  "writes env (k + 1) g d \<Longrightarrow> n \<noteq> 0 \<Longrightarrow>
     writes env k (and_then (cbb_add_length_prefixed env k n) g)
       (Option.bind d (\<lambda>e. cat (be_number (unat n) (length e)) (Some e)))"
  using writes_child [OF opens_length_prefixed, of n env k g d] by (simp add: framed_plain)

text \<open>An element that is closed at once.\<close>

lemma writes_value:
  assumes "writes env (k + 1) g (Some d)" "length d \<le> 0xfffffffe"
  shows "writes env k (and_then (CBB_add_asn1 env k t) (and_then g (CBB_flush env k))) (Some (element (t, d)))"
  using writes_and_then [OF writes_asn1 [OF assms(1), of t] writes_flush] assms(2)
  by (simp add: and_then_assoc der_def)

lemma writes_asn1_bool:
  "writes env k (CBB_add_asn1_bool env k v) (Some (element (CBS_ASN1_BOOLEAN, [if v then 0xff else 0])))"
  unfolding CBB_add_asn1_bool_def by (rule writes_value [OF writes_u8]) simp

lemma writes_asn1_octet_string:
  assumes "length d < 2 ^ 64"
  shows "writes env k (CBB_add_asn1_octet_string env k d) (der CBS_ASN1_OCTETSTRING d)"
  using writes_and_then [OF writes_asn1 [OF writes_bytes [OF assms], of env k CBS_ASN1_OCTETSTRING] writes_flush]
  by (simp add: CBB_add_asn1_octet_string_def and_then_assoc)

text \<open>The bytes of a number without the leading zeros, but with one when it would look negative.\<close>

fun drop_zeros :: "byte list \<Rightarrow> byte list" where
  "drop_zeros [] = []"
| "drop_zeros (b # d) = (if b = 0 then drop_zeros d else b # d)"

lemma writes_uint64_loop:
  "writes env k (add_uint64_loop env k d True) (Some d)"
  "writes env k (add_uint64_loop env k d False)
     (Some (let e = drop_zeros d in if e = [] \<or> 128 \<le> unat (hd e) then 0 # e else e))"
proof -
  show started: "writes env k (add_uint64_loop env k d True) (Some d)" for d
  proof (induction d)
    case (Cons b d)
    show ?case using writes_and_then [OF writes_skip writes_and_then [OF writes_u8 Cons]] by simp
  qed (simp add: writes_skip)
  show "writes env k (add_uint64_loop env k d False)
     (Some (let e = drop_zeros d in if e = [] \<or> 128 \<le> unat (hd e) then 0 # e else e))"
  proof (induction d)
    case (Cons b d)
    show ?case
    proof (cases "b = 0")
      case False
      have "writes env k (if b AND 0x80 \<noteq> 0 then CBB_add_u8 env k 0 else Pair True) (Some (if 128 \<le> unat b then [0] else []))"
        using writes_u8 writes_skip byte_digit(2) [of b] by (auto split: if_splits)
      from writes_and_then [OF this writes_and_then [OF writes_u8 started], of b d] False byte_digit(2) [of b]
      show ?thesis by (cases "128 \<le> unat b") (simp_all add: Let_def)
    qed (use Cons in simp)
  qed (use writes_u8 in simp)
qed

lemma be_min_be_bytes: "v < 256 ^ n \<Longrightarrow> drop_zeros (be_bytes n v) = be_min v"
proof (induction n arbitrary: v)
  case (Suc n)
  have q: "drop_zeros (be_bytes n (v div 256)) = be_min (v div 256)"
    using Suc.prems by (intro Suc.IH) (simp add: less_mult_imp_div_less)
  have app: "drop_zeros (d @ [b]) = (if drop_zeros d = [] then drop_zeros [b] else drop_zeros d @ [b])" for d b
    by (induction d) auto
  show ?case
  proof (cases "v = 0")
    case True
    then show ?thesis using q by (simp add: app be_min.simps [of 0])
  next
    case False
    have "be_min (v div 256) = [] \<Longrightarrow> (of_nat v :: byte) \<noteq> 0"
    proof -
      assume "be_min (v div 256) = []"
      then have "v div 256 = 0" by (subst (asm) be_min.simps) (auto split: if_splits)
      then have "v < 256" by (simp add: div_eq_0_iff)
      then show ?thesis using False unat_of_nat_byte [of v] by auto
    qed
    then show ?thesis using False q by (subst be_min.simps) (auto simp: app)
  qed
qed (simp add: be_min.simps)

lemma uint64_bytes: "map (\<lambda>i. ucast (drop_bit (8 * (7 - i)) v AND 0xff)) [0..<8] = be_bytes 8 (unat (v :: u64))"
  unfolding be_bytes_le_bytes
  by (rule nth_equalityI) (auto simp: rev_nth nth_le_bytes)

lemma writes_asn1_uint64:
  "writes env k (CBB_add_asn1_uint64 env k v) (Some (element (CBS_ASN1_INTEGER, uint_octets (unat v))))"
proof -
  have "drop_zeros (be_bytes 8 (unat v)) = be_min (unat v)"
    using unat_u64_less [of v] by (intro be_min_be_bytes) simp
  then have "writes env (k + 1) (add_uint64_loop env (k + 1) (map (\<lambda>i. ucast (drop_bit (8 * (7 - i)) v AND 0xff)) [0..<8]) False)
      (Some (uint_octets (unat v)))"
    using writes_uint64_loop(2) [of env "k + 1" "be_bytes 8 (unat v)"] by (simp only: uint64_bytes uint_octets_def)
  moreover have "length (uint_octets (unat v)) \<le> 0xfffffffe"
    using length_uint_octets [OF unat_u64_less, of v] by simp
  ultimately show ?thesis unfolding CBB_add_asn1_uint64_def by (rule writes_value)
qed

section \<open>Documents\<close>

datatype item =
    Bytes "byte list"
  | U8 byte
  | U16 "16 word"
  | U24 u32
  | U32 u32
  | U64 u64
  | U16le "16 word"
  | U32le u32
  | U64le u64
  | U8_prefixed "item list"
  | U16_prefixed "item list"
  | U24_prefixed "item list"
  | Asn1 u32 "item list"
  | Asn1_uint64 u64
  | Asn1_octet_string "byte list"
  | Asn1_bool bool

text \<open>The calls that a client makes for them, each child used until its parent is used again.\<close>

fun emit :: "allocator \<Rightarrow> nat \<Rightarrow> item \<Rightarrow> cbb_st \<Rightarrow> bool \<times> cbb_st"
  and emits :: "allocator \<Rightarrow> nat \<Rightarrow> item list \<Rightarrow> cbb_st \<Rightarrow> bool \<times> cbb_st" where
  "emit env k (Bytes d) = CBB_add_bytes env k d"
| "emit env k (U8 v) = CBB_add_u8 env k v"
| "emit env k (U16 v) = CBB_add_u16 env k v"
| "emit env k (U24 v) = CBB_add_u24 env k v"
| "emit env k (U32 v) = CBB_add_u32 env k v"
| "emit env k (U64 v) = CBB_add_u64 env k v"
| "emit env k (U16le v) = CBB_add_u16le env k v"
| "emit env k (U32le v) = CBB_add_u32le env k v"
| "emit env k (U64le v) = CBB_add_u64le env k v"
| "emit env k (U8_prefixed xs) = and_then (CBB_add_u8_length_prefixed env k) (emits env (k + 1) xs)"
| "emit env k (U16_prefixed xs) = and_then (CBB_add_u16_length_prefixed env k) (emits env (k + 1) xs)"
| "emit env k (U24_prefixed xs) = and_then (CBB_add_u24_length_prefixed env k) (emits env (k + 1) xs)"
| "emit env k (Asn1 tag xs) = and_then (CBB_add_asn1 env k tag) (emits env (k + 1) xs)"
| "emit env k (Asn1_uint64 v) = CBB_add_asn1_uint64 env k v"
| "emit env k (Asn1_octet_string d) = CBB_add_asn1_octet_string env k d"
| "emit env k (Asn1_bool v) = CBB_add_asn1_bool env k v"
| "emits env k [] = Pair True"
| "emits env k (x # xs) = and_then (emit env k x) (emits env k xs)"

text \<open>What they stand for: \<open>None\<close> when a number or a length does not fit its field.\<close>

definition prefixed :: "nat \<Rightarrow> byte list option \<Rightarrow> byte list option" where
  "prefixed n d = Option.bind d (\<lambda>e. cat (be_number n (length e)) (Some e))"

fun encoding :: "item \<Rightarrow> byte list option" and encodings :: "item list \<Rightarrow> byte list option" where
  "encoding (Bytes d) = Some d"
| "encoding (U8 v) = Some [v]"
| "encoding (U16 v) = Some (be_bytes 2 (unat v))"
| "encoding (U24 v) = be_number 3 (unat v)"
| "encoding (U32 v) = Some (be_bytes 4 (unat v))"
| "encoding (U64 v) = Some (be_bytes 8 (unat v))"
| "encoding (U16le v) = Some (le_bytes 2 v)"
| "encoding (U32le v) = Some (le_bytes 4 v)"
| "encoding (U64le v) = Some (le_bytes 8 v)"
| "encoding (U8_prefixed xs) = prefixed 1 (encodings xs)"
| "encoding (U16_prefixed xs) = prefixed 2 (encodings xs)"
| "encoding (U24_prefixed xs) = prefixed 3 (encodings xs)"
| "encoding (Asn1 tag xs) = Option.bind (encodings xs) (der tag)"
| "encoding (Asn1_uint64 v) = Some (element (CBS_ASN1_INTEGER, uint_octets (unat v)))"
| "encoding (Asn1_octet_string d) = der CBS_ASN1_OCTETSTRING d"
| "encoding (Asn1_bool v) = Some (element (CBS_ASN1_BOOLEAN, [if v then 0xff else 0]))"
| "encodings [] = Some []"
| "encodings (x # xs) = cat (encoding x) (encodings xs)"

text \<open>Strings that fit in memory.\<close>

fun in_memory :: "item \<Rightarrow> bool" and all_in_memory :: "item list \<Rightarrow> bool" where
  "in_memory (Bytes d) \<longleftrightarrow> length d < 2 ^ 64"
| "in_memory (Asn1_octet_string d) \<longleftrightarrow> length d < 2 ^ 64"
| "in_memory (U8_prefixed xs) \<longleftrightarrow> all_in_memory xs"
| "in_memory (U16_prefixed xs) \<longleftrightarrow> all_in_memory xs"
| "in_memory (U24_prefixed xs) \<longleftrightarrow> all_in_memory xs"
| "in_memory (Asn1 _ xs) \<longleftrightarrow> all_in_memory xs"
| "in_memory _ \<longleftrightarrow> True"
| "all_in_memory [] \<longleftrightarrow> True"
| "all_in_memory (x # xs) \<longleftrightarrow> in_memory x \<and> all_in_memory xs"

lemmas writers = writes_bytes writes_u8 writes_u16 writes_u24 writes_u32 writes_u64 writes_u16le writes_u32le
  writes_u64le writes_asn1 writes_asn1_uint64 writes_asn1_octet_string writes_skip writes_and_then

lemma writes_asn1_bools:
  "writes env k (CBB_add_asn1_bool env k True) (Some (element (CBS_ASN1_BOOLEAN, [255])))"
  "writes env k (CBB_add_asn1_bool env k False) (Some (element (CBS_ASN1_BOOLEAN, [0])))"
  using writes_asn1_bool [of env k True] writes_asn1_bool [of env k False] by simp_all

lemma writes_document:
  "in_memory x \<Longrightarrow> writes env k (emit env k x) (encoding x)"
  "all_in_memory xs \<Longrightarrow> writes env k (emits env k xs) (encodings xs)"
proof (induction x and xs arbitrary: k and k rule: encoding_encodings.induct)
qed (use writes_prefixed [of env _ _ _ 1] writes_prefixed [of env _ _ _ 2] writes_prefixed [of env _ _ _ 3] in
  \<open>auto simp: prefixed_def CBB_add_u8_length_prefixed_def CBB_add_u16_length_prefixed_def CBB_add_u24_length_prefixed_def
    intro: writers writes_asn1_bools\<close>)

text \<open>Build a document in a buffer that grows, and in one of the caller's.\<close>

definition finish_with :: "allocator \<Rightarrow> bool \<Rightarrow> (cbb_st \<Rightarrow> bool \<times> cbb_st) \<Rightarrow> cbb_st \<Rightarrow> byte list option" where
  "finish_with env want f s =
     (case f s of
        (False, s) \<Rightarrow> None
      | (True, s) \<Rightarrow> CBB_finish env want s)"

definition finish_document :: "allocator \<Rightarrow> bool \<Rightarrow> item list \<Rightarrow> cbb_st \<Rightarrow> byte list option" where
  "finish_document env want xs = finish_with env want (emits env 0 xs)"

definition build_document :: "allocator \<Rightarrow> size_t \<Rightarrow> item list \<Rightarrow> byte list option" where
  "build_document env n xs = Option.bind (CBB_init env n) (finish_document env True xs)"

definition build_fixed :: "allocator \<Rightarrow> byte list \<Rightarrow> item list \<Rightarrow> byte list option" where
  "build_fixed env b xs = Option.bind (CBB_init_fixed env b) (finish_document env False xs)"

lemma CBB_finish_view:
  assumes s: "state_ok s" and want: "can_resize (base s) \<longrightarrow> want"
  shows "(\<forall>bs. CBB_finish env want s = Some bs \<longrightarrow> view 0 s = Some bs) \<and>
    (CBB_finish env want s = None \<longrightarrow> \<not> failed (base s) \<longrightarrow> willing env \<longrightarrow> too_long s (view 0 s))"
proof -
  obtain ok s' where r: "CBB_flush env 0 s = (ok, s')" by (rule prod.exhaust)
  note fl = flush_view [OF s _ r, simplified]
  have "can_resize (base s') = can_resize (base s)" using fl(1) by (simp add: step_to_def step_ok_def buffer_step_def)
  then have f: "CBB_finish env want s = (if ok then Some (contents (base s')) else None)"
    using want r by (cases ok) (simp_all add: CBB_finish_def contents_def)
  show ?thesis using fl unfolding f by (auto simp: step_to_def)
qed

lemma finish_with_view:
  assumes f: "writes env 0 f d" and s: "state_ok s" "children s = []" "contents (base s) = []" "\<not> failed (base s)"
    and want: "can_resize (base s) \<longrightarrow> want"
  shows "finish_with env want f s = Some bs \<Longrightarrow> d = Some bs \<and> length bs \<le> limit (base s)"
    and "willing env \<Longrightarrow> finish_with env want f s =
      (case d of None \<Rightarrow> None | Some bs \<Rightarrow> if length bs \<le> limit (base s) then Some bs else None)"
proof -
  obtain ok s1 where r: "f s = (ok, s1)" by (rule prod.exhaust)
  have st: "step_to env 0 s (d) (ok, s1)"
    using writesD [OF f s(1)] s(2,3) r by (simp add: view_def)
  then have so: "step_ok 0 s (ok, s1)" by (simp add: step_to_def)
  note s1 = step_okD [OF so]
  have "can_resize (base s1) = can_resize (base s)" using s1(2) by (simp add: buffer_step_def)
  note fin = CBB_finish_view [OF s1(1), of want env, unfolded this, OF want]
  have some: "finish_with env want f s = Some bs \<Longrightarrow> d = Some bs \<and> length bs \<le> limit (base s)" for bs
  proof -
    assume r1: "finish_with env want f s = Some bs"
    then have ok: ok "CBB_finish env want s1 = Some bs" by (auto simp: finish_with_def r split: bool.splits)
    then have e: "d = Some bs" using fin st by (simp add: step_to_def)
    obtain s2 where "CBB_flush env 0 s1 = (True, s2)" "bs = contents (base s2)"
      using ok(2) by (auto simp: CBB_finish_def contents_def split: prod.splits bool.splits if_splits)
    then have "step_ok 0 s1 (True, s2)" using flush_view(1) [OF s1(1)] by (simp add: step_to_def)
    note s2 = step_okD [OF this]
    have "length bs \<le> limit (base s2)" using contents_limit s2(1) \<open>bs = contents (base s2)\<close> by (simp add: state_ok_def)
    then show ?thesis using e s1(3) s2(3) by simp
  qed
  then show "finish_with env want f s = Some bs \<Longrightarrow> d = Some bs \<and> length bs \<le> limit (base s)" .
  show "finish_with env want f s =
      (case d of None \<Rightarrow> None | Some bs \<Rightarrow> if length bs \<le> limit (base s) then Some bs else None)"
    if w: "willing env"
  proof (cases "finish_with env want f s")
    case None
    have "too_long s (d)"
    proof (cases ok)
      case True
      then show ?thesis
        using None fin st s(4) s1(4,5) w by (simp add: finish_with_def r step_to_def)
    next
      case False
      then show ?thesis using st s(4) w by (simp add: step_to_def)
    qed
    then show ?thesis using None by (auto simp: too_long_def split: option.splits)
  next
    case (Some bs)
    then show ?thesis using some by simp
  qed
qed

lemma finish_document_view:
  assumes xs: "all_in_memory xs" and s: "state_ok s" "children s = []" "contents (base s) = []" "\<not> failed (base s)"
    and want: "can_resize (base s) \<longrightarrow> want"
  shows "finish_document env want xs s = Some bs \<Longrightarrow> encodings xs = Some bs \<and> length bs \<le> limit (base s)"
    and "willing env \<Longrightarrow> finish_document env want xs s =
      (case encodings xs of None \<Rightarrow> None | Some bs \<Rightarrow> if length bs \<le> limit (base s) then Some bs else None)"
  unfolding finish_document_def by (rule finish_with_view [OF writes_document(2) [OF xs] s want], assumption)+

lemma init_state:
  assumes "CBB_init env n = Some s"
  shows "state_ok s" "children s = []" "contents (base s) = []" "\<not> failed (base s)" "can_resize (base s)"
  using assms by (auto simp: CBB_init_def state_ok_def buffer_ok_def contents_def split: if_splits)

text \<open>A writer on its own, in a buffer that grows.\<close>

lemma finish_new:
  assumes f: "writes env 0 f (Some d)" and s: "CBB_init env n = Some s"
  shows "finish_with env True f s = Some bs \<Longrightarrow> bs = d"
    and "willing env \<Longrightarrow> length d < 2 ^ 64 \<Longrightarrow> finish_with env True f s = Some d"
proof -
  note i = init_state [OF s]
  have "limit (base s) = 2 ^ 64 - 1" using i(5) by (simp add: limit_def)
  then show "finish_with env True f s = Some bs \<Longrightarrow> bs = d"
    "willing env \<Longrightarrow> length d < 2 ^ 64 \<Longrightarrow> finish_with env True f s = Some d"
    using finish_with_view(1) [OF f i(1-4), of True bs] finish_with_view(2) [OF f i(1-4), of True] by simp_all
qed

lemma init_fixed_state:
  assumes "CBB_init_fixed env b = Some s" "length b < 2 ^ 64"
  shows "state_ok s" "children s = []" "contents (base s) = []" "\<not> failed (base s)" "\<not> can_resize (base s)"
    "limit (base s) = length b"
  using assms
  by (auto simp: CBB_init_fixed_def state_ok_def buffer_ok_def contents_def limit_def unat_of_nat_size split: if_splits)

text \<open>C4: A \<open>CBB\<close> builds the document that its calls describe, with every length prefix filled in to any
  depth. What \<open>CBB_finish\<close> returns is always the encoding, whatever memory is refused on the way.
  When none is refused, the building fails only if a number or a length does not fit its field or the
  document is longer than memory, in a growing buffer, or than the buffer, in a fixed one.\<close>

theorem CBB_builds_document:
  assumes "all_in_memory xs" "length b < 2 ^ 64"
  shows "(\<forall>bs. build_document env n xs = Some bs \<longrightarrow> encodings xs = Some bs) \<and>
    (\<forall>bs. build_fixed env b xs = Some bs \<longrightarrow> encodings xs = Some bs \<and> length bs \<le> length b) \<and>
    (willing env \<longrightarrow>
      build_document env n xs =
        (case encodings xs of None \<Rightarrow> None | Some bs \<Rightarrow> if length bs < 2 ^ 64 then Some bs else None) \<and>
      build_fixed env b xs =
        (case encodings xs of None \<Rightarrow> None | Some bs \<Rightarrow> if length bs \<le> length b then Some bs else None))"
proof (intro conjI allI impI)
  show "encodings xs = Some bs" if r: "build_document env n xs = Some bs" for bs
  proof -
    obtain s where s: "CBB_init env n = Some s" "finish_document env True xs s = Some bs"
      using r by (auto simp: build_document_def bind_eq_Some_conv)
    show ?thesis using finish_document_view(1) [OF assms(1) init_state(1-4) [OF s(1)] _ s(2)] by simp
  qed
  show "encodings xs = Some bs" "length bs \<le> length b" if r: "build_fixed env b xs = Some bs" for bs
  proof -
    obtain s where s: "CBB_init_fixed env b = Some s" "finish_document env False xs s = Some bs"
      using r by (auto simp: build_fixed_def bind_eq_Some_conv)
    note i = init_fixed_state [OF s(1) assms(2)]
    show "encodings xs = Some bs" "length bs \<le> length b"
      using finish_document_view(1) [OF assms(1) i(1-4) _ s(2)] i(5,6) by simp_all
  qed
  assume w: "willing env"
  obtain s where s: "CBB_init env n = Some s" using w by (simp add: CBB_init_def willing_def)
  note i = init_state [OF s]
  have "limit (base s) = 2 ^ 64 - 1" using i(5) by (simp add: limit_def)
  then have "(length d \<le> limit (base s)) = (length d < 2 ^ 64)" for d :: "byte list" by auto
  then show "build_document env n xs =
        (case encodings xs of None \<Rightarrow> None | Some bs \<Rightarrow> if length bs < 2 ^ 64 then Some bs else None)"
    using finish_document_view(2) [OF assms(1) i(1-4) _ w, of True] s by (simp add: build_document_def split: option.splits)
  obtain s where s: "CBB_init_fixed env b = Some s" using w by (simp add: CBB_init_fixed_def willing_def)
  note i = init_fixed_state [OF s assms(2)]
  show "build_fixed env b xs =
        (case encodings xs of None \<Rightarrow> None | Some bs \<Rightarrow> if length bs \<le> length b then Some bs else None)"
    using finish_document_view(2) [OF assms(1) i(1-4) _ w, of False] i(5,6) s by (simp add: build_fixed_def split: option.splits)
qed

text \<open>A sequence of 203 bytes, whose length takes two bytes after the contents have been moved; the
  document does not fit a buffer of 206 bytes.\<close>

definition sample :: "item list" where
  "sample = [U8 7, Asn1 0x20000010 [Asn1_bool True, Asn1_octet_string (replicate 197 9)]]"

definition generous :: allocator where
  "generous = \<lparr>allots = \<lambda>_. True, fresh_cell = \<lambda>_. 0\<rparr>"

theorem CBB_builds_document_witness:
  "build_document generous 1 sample =
     Some ([7, 0x30, 0x81, 203, 1, 1, 0xff, 4, 0x81, 197] @ replicate 197 9) \<and>
   build_fixed generous (replicate 206 0) sample = None"
proof -
  have mem: "all_in_memory sample" by (simp add: sample_def)
  have fixed: "length (replicate 206 0 :: byte list) < 2 ^ 64" "willing generous" by (simp_all add: willing_def generous_def)
  define d :: "byte list" where "d = [7, 0x30, 0x81, 203, 1, 1, 0xff, 4, 0x81, 197] @ replicate 197 9"
  have len: "length d = 207" by (simp add: d_def)
  have e: "encodings sample = Some d"
  proof -
    have t: "tag_octets 0x20000010 = [0x30]" "tag_octets CBS_ASN1_BOOLEAN = [1]" "tag_octets CBS_ASN1_OCTETSTRING = [4]"
      by (simp_all add: tag_octets_def Let_def CBS_ASN1_BOOLEAN_def CBS_ASN1_OCTETSTRING_def)
    have l: "length_octets (Suc 0) = [1]" "length_octets 197 = [0x81, 197]" "length_octets 203 = [0x81, 203]"
      by (simp_all add: length_octets_def)
    show ?thesis by (simp add: sample_def der_def element_def asn1_header_def t l d_def)
  qed
  have "build_document generous 1 sample = (if length d < 2 ^ 64 then Some d else None) \<and>
      build_fixed generous (replicate 206 0) sample = (if length d \<le> length (replicate 206 (0 :: byte)) then Some d else None)"
    using CBB_builds_document [OF mem fixed(1), of generous 1] fixed(2) unfolding e option.case by blast
  moreover have "(207 :: nat) < 2 ^ 64" "\<not> (207 :: nat) \<le> 206" by simp_all
  ultimately show ?thesis unfolding d_def [symmetric] by (simp only: len length_replicate if_True if_False simp_thms)
qed

section \<open>Reading a document\<close>

text \<open>The calls that read an item back and compare the values, and what is left of the input.\<close>

definition expect :: "'a \<Rightarrow> 'a option \<times> cbs \<Rightarrow> cbs option" where
  "expect v r = (case r of (w, c) \<Rightarrow> if w = Some v then Some c else None)"

definition within :: "(cbs \<Rightarrow> cbs option) \<Rightarrow> cbs option \<times> cbs \<Rightarrow> cbs option" where
  "within f r = (case r of (w, c) \<Rightarrow> if Option.bind w f = Some [] then Some c else None)"

fun read_item :: "item \<Rightarrow> cbs \<Rightarrow> cbs option" and read_items :: "item list \<Rightarrow> cbs \<Rightarrow> cbs option" where
  "read_item (Bytes d) c = expect d (CBS_get_bytes c (of_nat (length d)))"
| "read_item (U8 v) c = expect v (CBS_get_u8 c)"
| "read_item (U16 v) c = expect v (CBS_get_u16 c)"
| "read_item (U24 v) c = expect v (CBS_get_u24 c)"
| "read_item (U32 v) c = expect v (CBS_get_u32 c)"
| "read_item (U64 v) c = expect v (CBS_get_u64 c)"
| "read_item (U16le v) c = expect v (CBS_get_u16le c)"
| "read_item (U32le v) c = expect v (CBS_get_u32le c)"
| "read_item (U64le v) c = expect v (CBS_get_u64le c)"
| "read_item (U8_prefixed xs) c = within (read_items xs) (CBS_get_u8_length_prefixed c)"
| "read_item (U16_prefixed xs) c = within (read_items xs) (CBS_get_u16_length_prefixed c)"
| "read_item (U24_prefixed xs) c = within (read_items xs) (CBS_get_u24_length_prefixed c)"
| "read_item (Asn1 tag xs) c = within (read_items xs) (CBS_get_asn1 c tag)"
| "read_item (Asn1_uint64 v) c = expect v (CBS_get_asn1_uint64 c)"
| "read_item (Asn1_octet_string d) c = expect d (CBS_get_asn1 c CBS_ASN1_OCTETSTRING)"
| "read_item (Asn1_bool v) c = expect v (CBS_get_asn1_bool c)"
| "read_items [] c = Some c"
| "read_items (x # xs) c = Option.bind (read_item x c) (read_items xs)"

lemma get_u_be_bytes:
  "unat n \<le> 8 \<Longrightarrow> v < 256 ^ unat n \<Longrightarrow> cbs_get_u (be_bytes (unat n) v @ c) n = (Some (of_nat v), c)"
proof -
  assume n: "unat n \<le> 8" and v: "v < 256 ^ unat n"
  have "(256 :: nat) ^ unat n \<le> 256 ^ 8" using n by (intro power_increasing) simp_all
  then have "unat (of_nat v :: u64) = v" using v by (intro unat_of_nat_size) simp
  then show ?thesis using cbs_get_u_be [OF n, of _ "of_nat v" c] v by simp
qed

lemma ucast_back: "LENGTH('a) \<le> LENGTH('b) \<Longrightarrow> ucast (ucast (w :: 'a::len word) :: 'b::len word) = w"
  by (rule bit_word_eqI) (auto simp: bit_simps dest: bit_imp_le_length)

lemma get_be_bytes:
  "CBS_get_u16 (be_bytes 2 (unat v) @ c) = (Some v, c)"
  "be_number 3 (unat x) = Some d \<Longrightarrow> CBS_get_u24 (d @ c) = (Some x, c)"
  "CBS_get_u32 (be_bytes 4 (unat x) @ c) = (Some x, c)"
  "CBS_get_u64 (be_bytes 8 (unat y) @ c) = (Some y, c)"
proof -
  show "CBS_get_u16 (be_bytes 2 (unat v) @ c) = (Some v, c)"
    using get_u_be_bytes [of 2 "unat v" c] unat_u16_less [of v] by (simp add: CBS_get_u16_def ucast_back)
  show "be_number 3 (unat x) = Some d \<Longrightarrow> CBS_get_u24 (d @ c) = (Some x, c)"
    using get_u_be_bytes [of 3 "unat x" c] by (auto simp: CBS_get_u24_def be_number_def ucast_back split: if_splits)
  show "CBS_get_u32 (be_bytes 4 (unat x) @ c) = (Some x, c)"
    using get_u_be_bytes [of 4 "unat x" c] unat_u32_less [of x] by (simp add: CBS_get_u32_def ucast_back)
  show "CBS_get_u64 (be_bytes 8 (unat y) @ c) = (Some y, c)"
    using get_u_be_bytes [of 8 "unat y" c] unat_u64_less [of y] by (simp add: CBS_get_u64_def)
qed

lemma bswap_bswap: "8 * n = LENGTH('a) \<Longrightarrow> CRYPTO_bswap n (CRYPTO_bswap n (w :: 'a::len word)) = w"
  by (simp add: CRYPTO_bswap_def le_bytes_le_val le_val_le_bytes_full)

lemma get_le_bytes:
  "CBS_get_u16le (le_bytes 2 v @ c) = (Some v, c)"
  "CBS_get_u32le (le_bytes 4 x @ c) = (Some x, c)"
  "CBS_get_u64le (le_bytes 8 y @ c) = (Some y, c)"
  using get_be_bytes(1) [of "CRYPTO_bswap 2 v" c] get_be_bytes(3) [of "CRYPTO_bswap 4 x" c]
    get_be_bytes(4) [of "CRYPTO_bswap 8 y" c]
  by (simp_all add: be_bytes_bswap bswap_bswap CBS_get_u16le_def CBS_get_u32le_def CBS_get_u64le_def CBS_get_u64_def)

lemma get_prefixed:
  assumes "prefixed (unat n) (Some e) = Some d" "unat n \<le> 7"
  shows "cbs_get_length_prefixed (d @ c) n = (Some e, c)"
proof -
  have d: "length e < 256 ^ unat n" "d = be_bytes (unat n) (length e) @ e"
    using assms(1) by (auto simp: prefixed_def be_number_def split: if_splits)
  have "(256 :: nat) ^ unat n \<le> 256 ^ 7" using assms(2) by (intro power_increasing) simp_all
  then have "unat (of_nat (length e) :: u64) = length e" using d(1) by (intro unat_of_nat_size) simp
  then show ?thesis
    using get_u_be_bytes [OF _ d(1), of "e @ c"] assms(2)
    by (simp add: cbs_get_length_prefixed_def d(2) CBS_get_bytes_def cbs_get_def)
qed

lemma get_der: "der t d = Some bs \<Longrightarrow> CBS_get_asn1 (bs @ c) t = (Some d, c)"
  by (auto simp: der_def asn1_iff split: if_splits)

lemma get_bool: "CBS_get_asn1_bool (element (CBS_ASN1_BOOLEAN, [if v then 0xff else 0]) @ c) = (Some v, c)"
  using get_der [of CBS_ASN1_BOOLEAN "[if v then 0xff else 0]"] by (auto simp: CBS_get_asn1_bool_def der_def)

lemma get_uint64: "CBS_get_asn1_uint64 (element (CBS_ASN1_INTEGER, uint_octets (unat v)) @ c) = (Some v, c)"
  by (simp only: get_asn1_uint64_iff)

lemma within_Some: "f e = Some [] \<Longrightarrow> within f (Some e, c) = Some c"
  by (simp add: within_def)

lemma read_prefixed:
  assumes "prefixed (unat n) (encodings xs) = Some d" "unat n \<le> 7" "\<And>e. encodings xs = Some e \<Longrightarrow> read_items xs e = Some []"
  shows "within (read_items xs) (cbs_get_length_prefixed (d @ c) n) = Some c"
proof -
  obtain e where e: "encodings xs = Some e" using assms(1) by (cases "encodings xs") (simp_all add: prefixed_def)
  have "cbs_get_length_prefixed (d @ c) n = (Some e, c)" using assms(1,2) unfolding e by (rule get_prefixed)
  then show ?thesis using assms(3) [OF e] by (simp add: within_Some)
qed

lemma read_encoding:
  "in_memory x \<Longrightarrow> encoding x = Some d \<Longrightarrow> read_item x (d @ c) = Some c"
  "all_in_memory xs \<Longrightarrow> encodings xs = Some d \<Longrightarrow> read_items xs (d @ c) = Some c"
proof (induction x and xs arbitrary: d c and d c rule: encoding_encodings.induct)
  case (1 b)
  then show ?case by (simp add: expect_def CBS_get_bytes_def cbs_get_def unat_of_nat_size)
next
  case (10 xs)
  show ?case
    unfolding read_item.simps CBS_get_u8_length_prefixed_def
    by (rule read_prefixed) (use 10(2,3) 10(1) [where c = "[]"] in simp_all)
next
  case (11 xs)
  show ?case
    unfolding read_item.simps CBS_get_u16_length_prefixed_def
    by (rule read_prefixed) (use 11(2,3) 11(1) [where c = "[]"] in simp_all)
next
  case (12 xs)
  show ?case
    unfolding read_item.simps CBS_get_u24_length_prefixed_def
    by (rule read_prefixed) (use 12(2,3) 12(1) [where c = "[]"] in simp_all)
next
  case (13 tag xs)
  then obtain e where e: "encodings xs = Some e" "der tag e = Some d" by (auto simp: bind_eq_Some_conv)
  then show ?case using 13(1) [of e "[]"] 13(2) by (simp add: get_der within_Some)
next
  case (16 v)
  then show ?case using get_bool [of v c] by (auto simp: expect_def)
next
  case (18 x xs)
  then obtain d1 d2 where "encoding x = Some d1" "encodings xs = Some d2" "d = d1 @ d2"
    by (auto simp: cat_def bind_eq_Some_conv)
  then show ?case using 18 by simp
qed (auto simp: expect_def get_be_bytes get_le_bytes get_der get_uint64)

text \<open>C5: What a \<open>CBB\<close> has built, the \<open>CBS\<close> functions read back: from the finished document with
  anything after it, the corresponding calls get every value that was put in, in order and to any
  depth, each nested string is used up exactly, and what followed the document is left.\<close>

theorem CBB_CBS_round_trip:
  assumes "all_in_memory xs" "build_document env n xs = Some bs"
  shows "read_items xs (bs @ c) = Some c"
proof -
  obtain s where s: "CBB_init env n = Some s" "finish_document env True xs s = Some bs"
    using assms(2) by (auto simp: build_document_def bind_eq_Some_conv)
  have "encodings xs = Some bs" using finish_document_view(1) [OF assms(1) init_state(1-4) [OF s(1)] _ s(2)] by simp
  then show ?thesis by (rule read_encoding(2) [OF assms(1)])
qed

theorem CBB_CBS_round_trip_witness:
  "\<exists>bs. build_document generous 1 [U8 7, Asn1 0x20000010 [Asn1_uint64 128, U16_prefixed [U24 9]]] = Some bs \<and>
     read_items [U8 7, Asn1 0x20000010 [Asn1_uint64 128, U16_prefixed [U24 9]]] (bs @ [1, 2]) = Some [1, 2]"
proof -
  let ?xs = "[U8 7, Asn1 0x20000010 [Asn1_uint64 128, U16_prefixed [U24 9]]]"
  have "build_document generous 1 ?xs \<noteq> None" by code_simp
  then obtain bs where bs: "build_document generous 1 ?xs = Some bs" by blast
  have "read_items ?xs (bs @ [1, 2]) = Some [1, 2]" by (rule CBB_CBS_round_trip [OF _ bs]) simp
  with bs show ?thesis by blast
qed

end
