(* ===== verification/Crypto_Int64.thy ===== *)
theory Crypto_Int64
  imports Crypto_Document
begin

text \<open>
  Signed DER integers: \<open>CBS_get_asn1_int64\<close> reads, and \<open>CBB_add_asn1_int64\<close> writes, the shortest
  two's complement encoding of a 64-bit value.
\<close>

section \<open>Two's complement\<close>

definition tc_val :: "byte list \<Rightarrow> int" where
  "tc_val d = int (be_val d) - (if d \<noteq> [] \<and> 128 \<le> unat (hd d) then 256 ^ length d else 0)"

text \<open>No first byte that only repeats the sign.\<close>

definition tc_shortest :: "byte list \<Rightarrow> bool" where
  "tc_shortest d \<longleftrightarrow> d \<noteq> [] \<and>
     \<not> (length d > 1 \<and> d ! 0 = 0 \<and> d ! 1 AND 0x80 = 0) \<and> \<not> (length d > 1 \<and> d ! 0 = 0xff \<and> d ! 1 AND 0x80 \<noteq> 0)"

lemma be_val_append: "be_val (d @ e) = be_val d * 256 ^ length e + be_val e"
proof (induction e rule: rev_induct)
  case (snoc b e)
  show ?case using be_val_simps(2) [of "d @ e" b] snoc by simp
qed simp

lemma be_val_replicate_0: "be_val (replicate k 0) = 0"
  by (induction k) (simp_all add: be_val_Cons)

lemma be_val_replicate_ff: "be_val (replicate k 0xff) + 1 = 256 ^ k"
  by (induction k) (simp_all add: be_val_Cons)

lemma unat_le_val: "length bs = 8 \<Longrightarrow> unat (le_val bs :: u64) = be_val (rev bs)"
proof -
  assume l: "length bs = 8"
  let ?w = "le_val bs :: u64"
  have "be_bytes 8 (unat ?w) = rev bs" using le_bytes_le_val [OF l, where ?'a = 64] by (simp add: be_bytes_le_bytes)
  then have "be_val (rev bs) = unat ?w mod 256 ^ 8" using be_val_be_bytes [of 8 "unat ?w"] by simp
  then show ?thesis using unat_u64_less [of ?w] by simp
qed

lemma sint_unat: "sint (w :: u64) = int (unat w) - (if 2 ^ 63 \<le> unat w then 2 ^ 64 else 0)"
proof -
  have r: "- (2 ^ 63) \<le> sint w" "sint w < 2 ^ 63" using sint_greater_eq [of w] sint_less [of w] by simp_all
  obtain n where n: "unat w = n" by simp
  have u: "int n = sint w mod 2 ^ 64" using uint_sint [of w] unfolding uint_nat take_bit_eq_mod n by simp
  show ?thesis
  proof (cases "0 \<le> sint w")
    case True
    then have "int n = sint w" unfolding u using r by (intro mod_pos_pos_trivial) simp_all
    then show ?thesis unfolding n using r by auto
  next
    case False
    have "sint w mod 2 ^ 64 = (sint w + 2 ^ 64) mod 2 ^ 64" by simp
    also have "\<dots> = sint w + 2 ^ 64" using False r by (intro mod_pos_pos_trivial) simp_all
    finally show ?thesis unfolding n using u r by auto
  qed
qed

lemma sint_small: "unat w < 2 ^ 63 \<Longrightarrow> sint (w :: u64) = int (unat w)"
  by (simp only: sint_unat not_le [symmetric] if_False diff_zero)

lemma sint_large: "2 ^ 63 \<le> unat w \<Longrightarrow> sint (w :: u64) = int (unat w) - 2 ^ 64"
  by (simp only: sint_unat if_True)

lemma sint_negative_iff: "sint (w :: u64) < 0 \<longleftrightarrow> 2 ^ 63 \<le> unat w"
proof (cases "2 ^ 63 \<le> unat w")
  case True
  have "int (unat w) < int (2 ^ 64)" by (simp only: of_nat_less_iff unat_u64_less)
  then show ?thesis using sint_large [OF True] True by simp
next
  case False
  then have "sint w = int (unat w)" by (intro sint_small) simp
  then show ?thesis using False by simp
qed

lemma tc_val_bounds:
  assumes "d = b # e"
  shows "unat b < 128 \<Longrightarrow> tc_val d = int (be_val d) \<and> be_val d < 128 * 256 ^ length e"
    and "128 \<le> unat b \<Longrightarrow> tc_val d = int (be_val d) - 256 ^ length d \<and> 128 * 256 ^ length e \<le> be_val d"
proof -
  have e: "be_val e < 256 ^ length e" by (rule be_val_less)
  have "be_val d < 128 * 256 ^ length e" if "unat b < 128"
  proof -
    have "be_val d < unat b * 256 ^ length e + 256 ^ length e" using e by (simp add: assms be_val_Cons)
    also have "\<dots> = (unat b + 1) * 256 ^ length e" by simp
    also have "\<dots> \<le> 128 * 256 ^ length e" using that by (intro mult_right_mono) simp_all
    finally show ?thesis .
  qed
  then show "unat b < 128 \<Longrightarrow> tc_val d = int (be_val d) \<and> be_val d < 128 * 256 ^ length e"
    by (simp add: tc_val_def assms)
  show "128 \<le> unat b \<Longrightarrow> tc_val d = int (be_val d) - 256 ^ length d \<and> 128 * 256 ^ length e \<le> be_val d"
    by (simp add: tc_val_def assms be_val_Cons trans_le_add1)
qed

text \<open>Sign extension to eight bytes.\<close>

lemma sint_extended:
  assumes "d \<noteq> []" "length d \<le> 8"
  shows "sint (le_val (rev d @ replicate (8 - length d) (if d ! 0 AND 0x80 \<noteq> 0 then 0xff else 0)) :: u64) = tc_val d"
proof -
  let ?x = "if d ! 0 AND 0x80 \<noteq> 0 then 0xff else 0 :: byte" and ?k = "8 - length d"
  obtain b e where d: "d = b # e" using assms(1) by (cases d) auto
  let ?w = "le_val (rev d @ replicate ?k ?x) :: u64"
  have "unat ?w = be_val (replicate ?k ?x @ d)"
    using assms(2) by (subst unat_le_val) simp_all
  then have w: "unat ?w = be_val (replicate ?k ?x) * 256 ^ length d + be_val d" by (simp only: be_val_append)
  have p: "(256 :: nat) ^ ?k * 256 ^ length d = 256 ^ 8" using assms(2) by (simp flip: power_add)
  have le: "(256 :: nat) ^ length e \<le> 256 ^ 7" using assms(2) d by (intro power_increasing) simp_all
  show ?thesis
  proof (cases "128 \<le> unat b")
    case True
    have x: "?x = 0xff" using True byte_digit(2) [of b] by (simp add: d)
    have "unat ?w + 256 ^ length d = 256 ^ 8 + be_val d"
    proof -
      have "unat ?w + 256 ^ length d = (be_val (replicate ?k 0xff) + 1) * 256 ^ length d + be_val d"
        by (simp only: w [unfolded x] x add_mult_distrib add_mult_distrib2 mult_1 mult_1_right ac_simps)
      then show ?thesis by (simp only: be_val_replicate_ff p)
    qed
    moreover have "be_val d < 256 ^ length d" by (rule be_val_less)
    moreover have "2 ^ 63 \<le> unat ?w"
    proof -
      have "256 ^ length d \<le> 128 * (256 :: nat) ^ length e + 128 * 256 ^ length e" by (simp add: d)
      moreover have "128 * 256 ^ length e \<le> be_val d" using tc_val_bounds(2) [OF d True] by simp
      moreover have "(128 :: nat) * 256 ^ length e \<le> 2 ^ 63" using le by simp
      ultimately show ?thesis using \<open>unat ?w + 256 ^ length d = 256 ^ 8 + be_val d\<close> by simp
    qed
    moreover obtain n where n: "unat ?w = n" by simp
    ultimately have "int (n + 256 ^ length d) = int (256 ^ 8 + be_val d)" "2 ^ 63 \<le> unat ?w" by simp_all
    then show ?thesis using tc_val_bounds(2) [OF d True] sint_large [of ?w] by (simp add: n)
  next
    case False
    have x: "?x = 0" using False byte_digit(2) [of b] by (simp add: d)
    have u: "unat ?w = be_val d" by (simp only: w [unfolded x] x be_val_replicate_0 mult_0 add_0)
    have "be_val d < 2 ^ 63" using tc_val_bounds(1) [OF d] False le by simp
    then show ?thesis using tc_val_bounds(1) [OF d] False u by (simp add: sint_unat)
  qed
qed

text \<open>Longer encodings stand for values outside the range.\<close>

lemma tc_shortest_length:
  assumes "tc_shortest d" "tc_val d = sint (w :: u64)"
  shows "length d \<le> 8"
proof (rule ccontr)
  assume "\<not> length d \<le> 8"
  then obtain b a e where d: "d = b # a # e" "7 \<le> length e"
    by (cases d; cases "tl d") auto
  have r: "- (2 ^ 63) \<le> tc_val d" "tc_val d < 2 ^ 63"
    using sint_greater_eq [of w] sint_less [of w] by (simp_all add: assms(2))
  have le: "(2 :: nat) ^ 63 \<le> 128 * 256 ^ length e"
  proof -
    have "(256 :: nat) ^ 7 \<le> 256 ^ length e" using d(2) by (intro power_increasing) simp_all
    then show ?thesis by simp
  qed
  have v: "be_val d = unat b * (256 * 256 ^ length e) + (unat a * 256 ^ length e + be_val e)" by (simp add: d(1) be_val_Cons)
  have e: "be_val e < 256 ^ length e" by (rule be_val_less)
  have s: "\<not> (b = 0 \<and> unat a < 128)" "\<not> (b = 0xff \<and> 128 \<le> unat a)"
    using assms(1) byte_digit(2) [of a] by (auto simp: tc_shortest_def d(1))
  have a: "unat a < 256" by (rule unat_byte_less)
  show False
  proof (cases "unat b < 128")
    case True
    have "2 ^ 63 \<le> be_val d"
    proof (cases "b = 0")
      case True
      then have "128 * 256 ^ length e \<le> be_val d" using s(1) by (simp add: v trans_le_add1)
      then show ?thesis using le by simp
    next
      case False
      then have "1 * (256 * 256 ^ length e) \<le> unat b * (256 * 256 ^ length e)"
        by (intro mult_right_mono) (simp_all add: Suc_leI unat_gt_0)
      then show ?thesis using le unfolding v by linarith
    qed
    then show False using tc_val_bounds(1) [OF d(1) True] r(2) by simp
  next
    case False
    then have tc: "tc_val d = int (be_val d) - 256 ^ length d" using tc_val_bounds(2) [OF d(1)] by simp
    define P where "P = (256 :: nat) ^ length e"
    have low: "unat a * P + be_val e < (unat a + 1) * P" using e by (simp add: P_def)
    have "be_val d + 2 ^ 63 < 65536 * P"
    proof (cases "unat b = 255")
      case True
      then have "b = 0xff" by (simp add: word_eq_iff_unsigned [where ?'a = nat])
      then have "(unat a + 1) * P \<le> 128 * P" using s(2) by (intro mult_right_mono) simp_all
      then show ?thesis using le low unfolding v True P_def [symmetric] by linarith
    next
      case False
      then have "unat b * (256 * P) \<le> 254 * (256 * P)"
        using unat_byte_less [of b] by (intro mult_right_mono) simp_all
      moreover have "(unat a + 1) * P \<le> 256 * P" using a by (intro mult_right_mono) simp_all
      ultimately show ?thesis using le low unfolding v P_def [symmetric] by linarith
    qed
    then have "int (be_val d + 2 ^ 63) < int (65536 * P)" by (simp only: of_nat_less_iff)
    then show False using tc r(1) by (simp add: d(1) P_def)
  qed
qed

section \<open>The functions\<close>

definition sign_extended :: "byte list \<Rightarrow> byte list" where
  "sign_extended d = rev d @ replicate (8 - length d) (if d ! 0 AND 0x80 \<noteq> 0 then 0xff else 0)"

lemma CBS_get_asn1_int64_checks:
  "CBS_get_asn1_int64 c =
    (case CBS_get_asn1 c CBS_ASN1_INTEGER of
       (None, c) \<Rightarrow> (None, c)
     | (Some d, c) \<Rightarrow>
         (if tc_shortest d \<and> length d \<le> 8 then Some (le_val (sign_extended d)) else None, c))"
proof -
  obtain r c' where r: "CBS_get_asn1 c CBS_ASN1_INTEGER = (r, c')" by (rule prod.exhaust)
  show ?thesis
  proof (cases r)
    case (Some d)
    show ?thesis
      by (cases "d = []"; cases "length d \<le> 8")
        (simp_all add: r Some CBS_get_asn1_int64_def tc_shortest_def sign_extended_def Let_def)
  qed (simp add: r CBS_get_asn1_int64_def)
qed

lemma get_asn1_int64_iff:
  "CBS_get_asn1_int64 c = (Some v, c') \<longleftrightarrow>
     (\<exists>d. c = element (CBS_ASN1_INTEGER, d) @ c' \<and> tc_shortest d \<and> tc_val d = sint v)"
proof -
  have "CBS_get_asn1_int64 c = (Some v, c') \<longleftrightarrow>
      (\<exists>d. CBS_get_asn1 c CBS_ASN1_INTEGER = (Some d, c') \<and> tc_shortest d \<and> length d \<le> 8 \<and> le_val (sign_extended d) = v)"
    by (auto simp: CBS_get_asn1_int64_checks split: prod.splits option.splits if_splits)
  also have "\<dots> \<longleftrightarrow>
      (\<exists>d. CBS_get_asn1 c CBS_ASN1_INTEGER = (Some d, c') \<and> tc_shortest d \<and> length d \<le> 8 \<and> tc_val d = sint v)"
  proof (intro ex_cong1 conj_cong refl)
    fix d
    assume "tc_shortest d" "length d \<le> 8"
    then have "sint (le_val (sign_extended d) :: u64) = tc_val d"
      unfolding sign_extended_def by (intro sint_extended) (simp_all add: tc_shortest_def)
    then show "(le_val (sign_extended d) = v) = (tc_val d = sint v)" by (metis signed_word_eqI)
  qed
  also have "\<dots> \<longleftrightarrow> (\<exists>d. c = element (CBS_ASN1_INTEGER, d) @ c' \<and> tc_shortest d \<and> tc_val d = sint v)"
  proof (intro ex_cong1 iffI)
    fix d
    assume a: "c = element (CBS_ASN1_INTEGER, d) @ c' \<and> tc_shortest d \<and> tc_val d = sint v"
    then have "length d \<le> 8" by (intro tc_shortest_length) simp_all
    then show "CBS_get_asn1 c CBS_ASN1_INTEGER = (Some d, c') \<and> tc_shortest d \<and> length d \<le> 8 \<and> tc_val d = sint v"
      using a by (simp add: asn1_iff)
  qed (simp add: asn1_iff)
  finally show ?thesis .
qed

lemma int64_start_spec:
  assumes "b ! n AND 0x80 \<noteq> 0"
  shows "int64_start b n \<le> n \<and> b ! int64_start b n AND 0x80 \<noteq> 0 \<and> (\<forall>i. int64_start b n < i \<and> i \<le> n \<longrightarrow> b ! i = 0xff) \<and>
    (int64_start b n = 0 \<or> \<not> (b ! int64_start b n = 0xff \<and> b ! (int64_start b n - 1) AND 0x80 \<noteq> 0))"
  using assms by (induction b n rule: int64_start.induct) (auto simp: le_Suc_eq)

lemma negative_octets:
  fixes v :: u64
  assumes "sint v < 0"
  defines "d \<equiv> rev (take (int64_start (le_bytes 8 v) 7 + 1) (le_bytes 8 v))"
  shows "tc_shortest d" "tc_val d = sint v" "length d \<le> 8"
proof -
  let ?b = "le_bytes 8 v"
  define r where "r = int64_start ?b 7"
  have "2 ^ 63 \<le> unat v" using assms(1) by (simp only: sint_negative_iff)
  moreover have "?b ! 7 = ucast (drop_bit 56 v)" by (simp add: nth_le_bytes)
  moreover have "unat (drop_bit 56 v) = unat v div 2 ^ 56"
    using unat_power2 [of 56] by (simp add: drop_bit_eq_div unat_div_distrib)
  ultimately have "128 \<le> unat (?b ! 7)"
    using unat_u64_less [of v] by (simp add: unsigned_ucast_eq take_bit_nat_eq_self div_less_iff_less_mult less_eq_div_iff_mult_less_eq)
  then have "?b ! 7 AND 0x80 \<noteq> 0" by (simp only: byte_digit(2))
  from int64_start_spec [OF this, folded r_def]
  have r: "r \<le> 7" "?b ! r AND 0x80 \<noteq> 0" "\<And>i. r < i \<Longrightarrow> i \<le> 7 \<Longrightarrow> ?b ! i = 0xff"
    "r = 0 \<or> \<not> (?b ! r = 0xff \<and> ?b ! (r - 1) AND 0x80 \<noteq> 0)" by auto
  have d: "length d = r + 1" "d ! 0 = ?b ! r" "r \<noteq> 0 \<Longrightarrow> d ! 1 = ?b ! (r - 1)"
    using r(1) by (simp_all add: d_def r_def [symmetric] rev_nth min_def)
  show "length d \<le> 8" using d(1) r(1) by simp
  show "tc_shortest d" using d r by (cases "r = 0") (auto simp: tc_shortest_def)
  have "rev d @ replicate (8 - length d) 0xff = ?b"
    by (rule nth_equalityI)
      (use r d in \<open>auto simp: d_def r_def [symmetric] nth_append min_def\<close>)
  then have "le_val (rev d @ replicate (8 - length d) 0xff) = v" by (simp add: le_val_le_bytes_full)
  moreover have "d \<noteq> []" using d(1) by auto
  ultimately show "tc_val d = sint v" using sint_extended [of d] \<open>length d \<le> 8\<close> d(2) r(2) by simp
qed

lemma nonnegative_octets:
  fixes v :: u64
  assumes "0 \<le> sint v"
  shows "tc_shortest (uint_octets (unat v))" "tc_val (uint_octets (unat v)) = sint v"
proof -
  let ?d = "uint_octets (unat v)"
  have d: "uint_ok ?d" "be_val ?d = unat v" using uint_ok_iff [of ?d "unat v"] by simp_all
  obtain b e where be: "?d = b # e" using d(1) by (cases ?d) (auto simp: uint_ok_def)
  have "b AND 0x80 = 0" using d(1) by (simp add: uint_ok_def be)
  then have lo: "unat b < 128" using byte_digit(2) [of b] by linarith
  then have "b \<noteq> 0xff" by auto
  then show "tc_shortest ?d" using d(1) by (auto simp: tc_shortest_def uint_ok_def be)
  have "unat v < 2 ^ 63" using assms sint_negative_iff [of v] by linarith
  then have "sint v = int (unat v)" by (rule sint_small)
  then show "tc_val ?d = sint v" using tc_val_bounds(1) [OF be lo] d(2) by simp
qed

lemma writes_asn1_int64:
  "\<exists>d. tc_shortest d \<and> tc_val d = sint v \<and> length d \<le> 9 \<and>
     writes env k (CBB_add_asn1_int64 env k v) (Some (element (CBS_ASN1_INTEGER, d)))"
proof (cases "0 \<le> sint v")
  case True
  then show ?thesis
    using nonnegative_octets [OF True] writes_asn1_uint64 [of env k v] length_uint_octets [OF unat_u64_less, of v]
    by (intro exI [of _ "uint_octets (unat v)"]) (simp add: CBB_add_asn1_int64_def)
next
  case False
  let ?d = "rev (take (int64_start (le_bytes 8 v) 7 + 1) (le_bytes 8 v))"
  have "sint v < 0" using False by simp
  note d = negative_octets [OF this]
  have "writes env k (CBB_add_asn1_int64 env k v) (Some (element (CBS_ASN1_INTEGER, ?d)))"
    using writes_value [OF writes_u8s, of ?d env k CBS_ASN1_INTEGER] d(3) False
    by (simp add: CBB_add_asn1_int64_def Let_def)
  with d show ?thesis by (intro exI [of _ ?d]) simp
qed

section \<open>Properties\<close>

text \<open>C18: \<open>CBS_get_asn1_int64\<close> reads exactly the shortest two's complement INTEGERs that are in the range of
  an \<open>int64_t\<close>, and gives their value; and what \<open>CBB_add_asn1_int64\<close> writes, after anything and for
  any value, is such an encoding of it, so it is read back.\<close>

theorem asn1_int64_round_trip:
  "(CBS_get_asn1_int64 c = (Some v, c') \<longleftrightarrow>
      (\<exists>d. c = element (CBS_ASN1_INTEGER, d) @ c' \<and> tc_shortest d \<and> tc_val d = sint v)) \<and>
   (CBB_init env n = Some s \<longrightarrow> CBB_add_asn1_int64 env 0 v s = (True, s') \<longrightarrow> CBB_finish env True s' = Some bs \<longrightarrow>
      CBS_get_asn1_int64 (bs @ c') = (Some v, c'))"
proof (intro conjI impI)
  show "CBS_get_asn1_int64 c = (Some v, c') \<longleftrightarrow>
      (\<exists>d. c = element (CBS_ASN1_INTEGER, d) @ c' \<and> tc_shortest d \<and> tc_val d = sint v)"
    by (rule get_asn1_int64_iff)
  assume init: "CBB_init env n = Some s" and add: "CBB_add_asn1_int64 env 0 v s = (True, s')"
    and fin: "CBB_finish env True s' = Some bs"
  obtain d where d: "tc_shortest d" "tc_val d = sint v"
    "writes env 0 (CBB_add_asn1_int64 env 0 v) (Some (element (CBS_ASN1_INTEGER, d)))"
    using writes_asn1_int64 [of v env 0] by blast
  have "finish_with env True (CBB_add_asn1_int64 env 0 v) s = Some bs" using add fin by (simp add: finish_with_def)
  then have "bs = element (CBS_ASN1_INTEGER, d)" by (rule finish_new(1) [OF d(3) init])
  then show "CBS_get_asn1_int64 (bs @ c') = (Some v, c')" using d(1,2) by (auto simp: get_asn1_int64_iff)
qed

theorem asn1_int64_round_trip_witness:
  "\<exists>s s' bs. CBB_init generous 4 = Some s \<and> CBB_add_asn1_int64 generous 0 (- 129) s = (True, s') \<and>
     CBB_finish generous True s' = Some bs \<and> CBS_get_asn1_int64 (bs @ [5]) = (Some (- 129), [5])"
proof -
  let ?s = "the (CBB_init generous 4)"
  let ?r = "CBB_add_asn1_int64 generous 0 (- 129) ?s"
  have s: "CBB_init generous 4 = Some ?s" by (simp add: CBB_init_def generous_def)
  have "fst ?r" "CBB_finish generous True (snd ?r) \<noteq> None" by code_simp+
  then obtain s' bs where r: "?r = (True, s')" "CBB_finish generous True s' = Some bs" by (cases ?r) auto
  have "CBS_get_asn1_int64 (bs @ [5]) = (Some (- 129), [5])"
    using asn1_int64_round_trip [where c' = "[5]", THEN conjunct2, THEN mp, THEN mp, THEN mp, OF s r] .
  then show ?thesis using s r by blast
qed

end
