(* ===== verification/Crypto_Oid.thy ===== *)
theory Crypto_Oid
  imports Crypto_Document
begin

text \<open>
  Object identifiers: \<open>CBB_add_asn1_oid_from_text\<close> of \<^verbatim>\<open>bytestring/cbb.c\<close> reads the dotted decimal
  form, and \<open>CBS_asn1_oid_to_text\<close> of \<^verbatim>\<open>bytestring/cbs.c\<close> writes it. Both are shown to be what the
  arcs stand for, and so inverse to each other.
\<close>

section \<open>The code\<close>

definition UINT64_MAX :: u64 where
  "UINT64_MAX = - 1"

fun dotted_loop :: "cbs \<Rightarrow> u64 \<Rightarrow> bool \<Rightarrow> u64 option \<times> cbs" where
  "dotted_loop [] out seen_digit = (if seen_digit then Some out else None, [])"
| "dotted_loop (u # c) out seen_digit =
     (if u = 0x2e \<and> c \<noteq> [] then (if seen_digit then Some out else None, c)
      else if u < 0x30 \<or> u > 0x39 \<or> seen_digit \<and> out = 0 \<or> out > UINT64_MAX div 10 \<or>
              out * 10 > UINT64_MAX - ucast (u - 0x30)
      then (None, c)
      else dotted_loop c (out * 10 + ucast (u - 0x30)) True)"

definition parse_dotted_decimal :: "cbs \<Rightarrow> u64 option \<times> cbs" where
  "parse_dotted_decimal c = dotted_loop c 0 False"

lemma dotted_loop_rest: "length (snd (dotted_loop c out seen)) \<le> length c"
  by (induction c out seen rule: dotted_loop.induct) (auto simp: Let_def le_Suc_eq)

lemma dotted_loop_less: "c \<noteq> [] \<Longrightarrow> length (snd (dotted_loop c out seen)) < length c"
  by (cases c) (use dotted_loop_rest in \<open>auto simp: less_Suc_eq_le\<close>)

function oid_components :: "allocator \<Rightarrow> nat \<Rightarrow> cbs \<Rightarrow> cbb_st \<Rightarrow> bool \<times> cbb_st" where
  "oid_components env k c =
     (if c = [] then Pair True
      else
        (case parse_dotted_decimal c of
           (None, _) \<Rightarrow> Pair False
         | (Some a, c') \<Rightarrow> and_then (add_base128_integer env k a) (oid_components env k c')))"
  by auto
termination
  by (relation "measure (\<lambda>(env, k, c). length c)")
    (simp, metis dotted_loop_less in_measure parse_dotted_decimal_def prod.simps(2) snd_conv)

declare oid_components.simps [simp del]

definition CBB_add_asn1_oid_from_text :: "allocator \<Rightarrow> nat \<Rightarrow> byte list \<Rightarrow> cbb_st \<Rightarrow> bool \<times> cbb_st" where
  "CBB_add_asn1_oid_from_text env k txt =
     flushed env k
       (case parse_dotted_decimal txt of
          (None, _) \<Rightarrow> Pair False
        | (Some a, c) \<Rightarrow>
            (case parse_dotted_decimal c of
               (None, _) \<Rightarrow> Pair False
             | (Some b, c) \<Rightarrow>
                 if a > 2 \<or> a < 2 \<and> b > 39 \<or> b > UINT64_MAX - 80 then Pair False
                 else and_then (add_base128_integer env k (40 * a + b)) (oid_components env k c)))"

text \<open>\<open>"%" PRIu64\<close>, of which the buffer of \<open>DECIMAL_SIZE\<close> holds every value.\<close>

fun decimal :: "nat \<Rightarrow> byte list" where
  "decimal v = (if v < 10 then [of_nat (48 + v)] else decimal (v div 10) @ [of_nat (48 + v mod 10)])"

declare decimal.simps [simp del]

definition add_decimal :: "allocator \<Rightarrow> nat \<Rightarrow> u64 \<Rightarrow> cbb_st \<Rightarrow> bool \<times> cbb_st" where
  "add_decimal env k v = CBB_add_bytes env k (decimal (unat v))"

lemma base128_loop_rest: "length (snd (base128_loop c v)) \<le> length c"
  by (induction c v rule: base128_loop.induct) (auto simp: Let_def le_Suc_eq)

lemma base128_loop_less: "c \<noteq> [] \<Longrightarrow> length (snd (base128_loop c v)) < length c"
  by (cases c) (use base128_loop_rest in \<open>auto simp: less_Suc_eq_le Let_def\<close>)

function text_components :: "allocator \<Rightarrow> cbs \<Rightarrow> cbb_st \<Rightarrow> bool \<times> cbb_st" where
  "text_components env c =
     (if c = [] then Pair True
      else
        (case parse_base128_integer c of
           (None, _) \<Rightarrow> Pair False
         | (Some v, c') \<Rightarrow> and_then (CBB_add_u8 env 0 0x2e) (and_then (add_decimal env 0 v) (text_components env c'))))"
  by auto
termination
  by (relation "measure (\<lambda>(env, c). length c)")
    (simp, metis base128_loop_less in_measure parse_base128_integer_def prod.simps(2) snd_conv)

declare text_components.simps [simp del]

text \<open>The text, with its terminator.\<close>

definition CBS_asn1_oid_to_text :: "allocator \<Rightarrow> cbs \<Rightarrow> byte list option" where
  "CBS_asn1_oid_to_text env c =
     (case CBB_init env 32 of
        None \<Rightarrow> None
      | Some s \<Rightarrow>
          (case parse_base128_integer c of
             (None, _) \<Rightarrow> None
           | (Some v, c) \<Rightarrow>
               finish_with env True
                 (and_then
                   (if v \<ge> 80 then and_then (CBB_add_bytes env 0 [0x32, 0x2e]) (add_decimal env 0 (v - 80))
                    else and_then (add_decimal env 0 (v div 40)) (and_then (CBB_add_u8 env 0 0x2e) (add_decimal env 0 (v mod 40))))
                   (and_then (text_components env c) (CBB_add_u8 env 0 0))) s))"

section \<open>Decimal numbers\<close>

lemma decimal_digits: "d \<in> set (decimal v) \<Longrightarrow> 0x30 \<le> d \<and> d \<le> 0x39"
proof (induction v rule: decimal.induct)
  case (1 v)
  have dig: "0x30 \<le> (of_nat (48 + n) :: byte) \<and> (of_nat (48 + n) :: byte) \<le> 0x39" if "n < 10" for n
    using that unat_of_nat_byte [of "48 + n"] by (simp add: word_le_nat_alt del: of_nat_add)
  show ?case
    using 1 dig [of v] dig [of "v mod 10"] by (subst (asm) (2) decimal.simps) (auto split: if_splits)
qed

lemma decimal_snoc: "n \<noteq> 0 \<Longrightarrow> d < 10 \<Longrightarrow> decimal (10 * n + d) = decimal n @ [of_nat (48 + d)]"
  by (subst decimal.simps) simp

lemma length_decimal: "v < 10 ^ Suc n \<Longrightarrow> 1 \<le> length (decimal v) \<and> length (decimal v) \<le> Suc n"
proof (induction n arbitrary: v)
  case (Suc n)
  have "v div 10 < 10 ^ Suc n" using Suc.prems by (simp add: less_mult_imp_div_less)
  then show ?case using Suc.IH [of "v div 10"] by (subst (1 2) decimal.simps) simp
qed (simp add: decimal.simps)

lemma decimal_not_Nil [simp]: "decimal v \<noteq> []"
  by (simp add: decimal.simps)

lemma length_decimal_u64: "length (decimal (unat (v :: u64))) \<le> 20"
  using length_decimal [of "unat v" 19] unat_u64_less [of v] by simp

lemma unat_UINT64_MAX: "unat UINT64_MAX = 2 ^ 64 - 1"
  by (simp add: UINT64_MAX_def unsigned_minus_1_eq_mask mask_eq_exp_minus_1)

text \<open>One digit.\<close>

lemma digit_step:
  assumes "0x30 \<le> u" "u \<le> (0x39 :: byte)"
  shows "out > UINT64_MAX div 10 \<or> out * 10 > UINT64_MAX - ucast (u - 0x30) \<longleftrightarrow> 2 ^ 64 \<le> 10 * unat out + (unat u - 48)"
    "10 * unat out + (unat u - 48) < 2 ^ 64 \<Longrightarrow> unat (out * 10 + ucast (u - 0x30)) = 10 * unat out + (unat u - 48)"
proof -
  have d: "unat (ucast (u - 0x30) :: u64) = unat u - 48"
    using assms(1) by (simp add: unat_ucast_up unat_sub word_le_nat_alt)
  have "unat u \<le> 57" using assms(2) by (simp add: word_le_nat_alt)
  then have d9: "unat u - 48 \<le> 9" by simp
  define n where "n = unat out"
  define k where "k = unat u - 48"
  have q: "unat (UINT64_MAX div 10) = (2 ^ 64 - 1) div 10" by (simp add: unat_div_distrib unat_UINT64_MAX)
  have big: "out > UINT64_MAX div 10 \<longleftrightarrow> (2 ^ 64 - 1) div 10 < n"
    by (simp only: word_less_nat_alt q n_def)
  have m: "unat (UINT64_MAX - ucast (u - 0x30)) = 2 ^ 64 - 1 - k"
    using d d9 by (subst unat_sub) (simp_all add: word_le_nat_alt unat_UINT64_MAX k_def)
  have small: "unat (out * 10) = 10 * n" if "n \<le> (2 ^ 64 - 1) div 10"
    using that by (simp add: unat_word_ariths n_def)
  show "out > UINT64_MAX div 10 \<or> out * 10 > UINT64_MAX - ucast (u - 0x30) \<longleftrightarrow> 2 ^ 64 \<le> 10 * unat out + (unat u - 48)"
  proof (cases "(2 ^ 64 - 1) div 10 < n")
    case True
    then show ?thesis using big by (simp add: n_def)
  next
    case False
    then have "out * 10 > UINT64_MAX - ucast (u - 0x30) \<longleftrightarrow> 2 ^ 64 - 1 - k < 10 * n"
      using small by (simp only: word_less_nat_alt m not_less)
    then show ?thesis using big False d9 unfolding n_def [symmetric] k_def [symmetric] by auto
  qed
  show "10 * unat out + (unat u - 48) < 2 ^ 64 \<Longrightarrow> unat (out * 10 + ucast (u - 0x30)) = 10 * unat out + (unat u - 48)"
    by (simp add: unat_word_ariths d)
qed

definition dot :: "byte list \<Rightarrow> byte list" where
  "dot c = (if c = [] then [] else 0x2e # c)"

lemma dotted_loop_digits:
  "v < 2 ^ 64 \<Longrightarrow> dotted_loop (decimal v @ c) 0 False = dotted_loop c (of_nat v) True"
proof (induction v arbitrary: c rule: decimal.induct)
  case (1 v)
  let ?u = "of_nat (48 + v mod 10) :: byte"
  have u: "unat ?u = 48 + v mod 10" using unat_of_nat_byte [of "48 + v mod 10"] by (simp del: of_nat_add)
  have ur: "0x30 \<le> ?u" "?u \<le> 0x39" unfolding word_le_nat_alt u by simp_all
  have "?u \<noteq> 0x2e"
  proof
    assume "?u = 0x2e"
    then have "unat ?u = 46" by (simp only: unsigned_numeral) simp
    then show False using u by simp
  qed
  then have u1: "?u \<noteq> 0x2e" "\<not> ?u < 0x30" "\<not> ?u > 0x39" using ur by (simp_all only: not_less simp_thms)
  have q: "unat (of_nat (v div 10) :: u64) = v div 10" using 1(2) by (intro unat_of_nat_size) simp
  have sum: "10 * unat (of_nat (v div 10) :: u64) + (unat ?u - 48) = v" by (simp only: q u) simp
  have no: "\<not> ((of_nat (v div 10) :: u64) > UINT64_MAX div 10 \<or> of_nat (v div 10) * 10 > UINT64_MAX - ucast (?u - 0x30))"
    using digit_step(1) [OF ur, of "of_nat (v div 10)"] 1(2) unfolding sum by simp
  have "unat (of_nat (v div 10) * 10 + ucast (?u - 0x30) :: u64) = v"
    using digit_step(2) [OF ur, of "of_nat (v div 10)"] 1(2) unfolding sum by simp
  then have step: "of_nat (v div 10) * 10 + ucast (?u - 0x30) = (of_nat v :: u64)" by (metis of_nat_unat ucast_id)
  have one: "dotted_loop (?u # c) (of_nat (v div 10)) seen = dotted_loop c (of_nat v) True"
    if "seen \<longrightarrow> v div 10 \<noteq> 0" for seen
  proof -
    have nz: "\<not> (seen \<and> (of_nat (v div 10) :: u64) = 0)" using that q by (auto simp: unat_eq_0 [symmetric])
    show ?thesis using u1 no nz step by (simp only: dotted_loop.simps simp_thms if_False)
  qed
  show ?case
  proof (cases "v < 10")
    case True
    then show ?thesis using one [of False] by (subst decimal.simps) simp
  next
    case False
    have "dotted_loop (decimal (v div 10) @ ?u # c) 0 False = dotted_loop (?u # c) (of_nat (v div 10)) True"
      using False 1(2) by (intro 1(1)) simp_all
    then show ?thesis using one [of True] False by (subst decimal.simps) simp
  qed
qed

lemma dotted_loop_sound:
  assumes "dotted_loop c out seen = (Some v, c')" "\<not> seen \<longrightarrow> out = 0"
  shows "(if seen then decimal (unat out) else []) @ c = decimal (unat v) @ dot c'"
  using assms
proof (induction c out seen rule: dotted_loop.induct)
  case (1 out seen)
  then show ?case by (simp add: dot_def split: if_splits)
next
  case (2 u c out seen)
  show ?case
  proof (cases "u = 0x2e \<and> c \<noteq> []")
    case True
    then show ?thesis using 2(2) by (auto simp: dot_def split: if_splits)
  next
    case False
    let ?out = "out * 10 + ucast (u - 0x30) :: u64"
    have ok: "\<not> (u < 0x30 \<or> u > 0x39 \<or> seen \<and> out = 0 \<or> out > UINT64_MAX div 10 \<or> out * 10 > UINT64_MAX - ucast (u - 0x30))"
      and r: "dotted_loop c ?out True = (Some v, c')"
      using 2(2) False by (auto split: if_splits)
    have u: "0x30 \<le> u" "u \<le> 0x39" using ok by auto
    have lt: "10 * unat out + (unat u - 48) < 2 ^ 64" using digit_step(1) [OF u, of out] ok by auto
    note o = digit_step(2) [OF u lt]
    have u9: "48 \<le> unat u" "unat u - 48 < 10" using u by (simp_all add: word_le_nat_alt)
    have w: "(of_nat (48 + (unat u - 48)) :: byte) = u" using u9(1) by (simp only: le_add_diff_inverse of_nat_unat ucast_id)
    have "(if seen then decimal (unat out) else []) @ [u] = decimal (unat ?out)"
    proof (cases seen)
      case True
      then have "unat out \<noteq> 0" using ok by (auto simp: unat_eq_0)
      then show ?thesis using True decimal_snoc [of "unat out" "unat u - 48"] u9 w by (simp add: o del: of_nat_add)
    next
      case False
      then have "unat out = 0" using 2(3) by simp
      then show ?thesis using False u9 w decimal.simps [of "unat u - 48"] by (simp add: o del: of_nat_add)
    qed
    then show ?thesis using 2(1) [OF False ok r] by (metis append.assoc append_Cons append_Nil)
  qed
qed

lemma parse_dotted_iff: "parse_dotted_decimal c = (Some v, c') \<longleftrightarrow> c = decimal (unat v) @ dot c'"
proof
  assume "parse_dotted_decimal c = (Some v, c')"
  then show "c = decimal (unat v) @ dot c'" using dotted_loop_sound [of c 0 False v c'] by (simp add: parse_dotted_decimal_def)
next
  assume c: "c = decimal (unat v) @ dot c'"
  show "parse_dotted_decimal c = (Some v, c')"
    unfolding parse_dotted_decimal_def c dotted_loop_digits [OF unat_u64_less] by (simp add: dot_def)
qed

section \<open>Arcs\<close>

text \<open>An identifier is a list of arcs; these are its text and the contents of its DER encoding.\<close>

fun dotted :: "u64 list \<Rightarrow> byte list" where
  "dotted [] = []"
| "dotted (x # xs) = decimal (unat x) @ dot (dotted xs)"

fun oid_ok :: "u64 list \<Rightarrow> bool" where
  "oid_ok (a # b # xs) \<longleftrightarrow> a \<le> 2 \<and> (a < 2 \<longrightarrow> b \<le> 39) \<and> b \<le> UINT64_MAX - 80"
| "oid_ok _ \<longleftrightarrow> False"

definition arc_octets :: "u64 list \<Rightarrow> byte list" where
  "arc_octets xs = concat (map (\<lambda>x. base128 (unat x)) xs)"

fun oid_octets :: "u64 list \<Rightarrow> byte list" where
  "oid_octets (a # b # xs) = base128 (40 * unat a + unat b) @ arc_octets xs"
| "oid_octets _ = []"

lemma oid_okE:
  assumes "oid_ok arcs"
  obtains a b xs where "arcs = a # b # xs" "a \<le> 2" "a < 2 \<Longrightarrow> b \<le> 39" "b \<le> UINT64_MAX - 80"
    "unat (40 * a + b) = 40 * unat a + unat b"
proof -
  obtain a b xs where arcs: "arcs = a # b # xs" "a \<le> 2" "a < 2 \<Longrightarrow> b \<le> 39" "b \<le> UINT64_MAX - 80"
    using assms by (cases arcs rule: oid_ok.cases) auto
  have "unat a \<le> 2" using arcs(2) by (simp add: word_le_nat_alt)
  moreover have "unat b \<le> 2 ^ 64 - 81"
    using arcs(4) unat_sub [of 80 UINT64_MAX] by (simp add: word_le_nat_alt unat_UINT64_MAX)
  ultimately have "unat (40 * a + b) = 40 * unat a + unat b" by (simp add: unat_word_ariths)
  with arcs show ?thesis by (intro that)
qed

subsection \<open>From text\<close>

lemma writes_components: "writes env k (oid_components env k (dotted xs)) (Some (arc_octets xs))"
proof (induction xs)
  case (Cons x xs)
  have "parse_dotted_decimal (dotted (x # xs)) = (Some x, dotted xs)" by (simp add: parse_dotted_iff)
  then show ?case
    using writes_and_then [OF writes_base128 Cons] by (subst oid_components.simps) (simp add: arc_octets_def)
qed (simp add: oid_components.simps writes_skip arc_octets_def)

lemma components_sound: "oid_components env k c s = (True, s') \<Longrightarrow> \<exists>xs. c = dotted xs"
proof (induction env k c arbitrary: s rule: oid_components.induct)
  case (1 env k c)
  show ?case
  proof (cases "c = []")
    case True
    then show ?thesis by (intro exI [of _ "[]"]) simp
  next
    case False
    obtain a c1 where p: "parse_dotted_decimal c = (Some a, c1)"
      using 1(2) False by (subst (asm) oid_components.simps) (auto split: prod.splits option.splits)
    obtain s1 where "oid_components env k c1 s1 = (True, s')"
      using 1(2) False p by (subst (asm) oid_components.simps) (auto simp: and_then_def split: prod.splits bool.splits)
    then obtain xs where "c1 = dotted xs" using 1(1) [OF False p [symmetric] refl] by blast
    then show ?thesis using p unfolding parse_dotted_iff by (intro exI [of _ "a # xs"]) simp
  qed
qed

lemma writes_oid:
  assumes "oid_ok arcs"
  shows "writes env k (CBB_add_asn1_oid_from_text env k (dotted arcs)) (Some (oid_octets arcs))"
  using assms
proof (rule oid_okE)
  fix a b xs
  assume a: "arcs = a # b # xs" "a \<le> 2" "a < 2 \<Longrightarrow> b \<le> 39" "b \<le> UINT64_MAX - 80" "unat (40 * a + b) = 40 * unat a + unat b"
  have p: "parse_dotted_decimal (dotted arcs) = (Some a, dotted (b # xs))" "parse_dotted_decimal (dotted (b # xs)) = (Some b, dotted xs)"
    by (simp_all add: parse_dotted_iff a(1))
  have "\<not> (a > 2 \<or> a < 2 \<and> b > 39 \<or> b > UINT64_MAX - 80)" using a(2-4) by (meson leD)
  then have e: "CBB_add_asn1_oid_from_text env k (dotted arcs) =
      and_then (CBB_flush env k) (and_then (add_base128_integer env k (40 * a + b)) (oid_components env k (dotted xs)))"
    by (simp only: CBB_add_asn1_oid_from_text_def flushed_and_then p prod.case option.case if_False)
  show ?thesis
    unfolding e
    using writes_and_then [OF writes_flush [of env k]
      writes_and_then [OF writes_base128 [of env k "40 * a + b"] writes_components [of env k xs]]]
    by (simp add: a(1,5))
qed

lemma oid_from_text_sound:
  assumes "CBB_add_asn1_oid_from_text env k txt s = (True, s')"
  shows "\<exists>arcs. oid_ok arcs \<and> txt = dotted arcs"
proof -
  obtain a c where a: "parse_dotted_decimal txt = (Some a, c)"
    using assms by (auto simp: CBB_add_asn1_oid_from_text_def flushed_def split: prod.splits option.splits bool.splits)
  obtain b c1 where b: "parse_dotted_decimal c = (Some b, c1)"
    using assms by (auto simp: CBB_add_asn1_oid_from_text_def flushed_def a split: prod.splits option.splits bool.splits)
  have ok: "\<not> (a > 2 \<or> a < 2 \<and> b > 39 \<or> b > UINT64_MAX - 80)"
    using assms by (auto simp: CBB_add_asn1_oid_from_text_def flushed_def a b split: prod.splits bool.splits)
  obtain s1 where "oid_components env k c1 s1 = (True, s')"
    using assms ok by (auto simp: CBB_add_asn1_oid_from_text_def flushed_def and_then_def a b split: prod.splits bool.splits)
  then obtain xs where xs: "c1 = dotted xs" using components_sound by blast
  have "txt = dotted (a # b # xs)" using a b unfolding parse_dotted_iff by (simp add: xs)
  moreover have "oid_ok (a # b # xs)" using ok by (auto simp: not_less)
  ultimately show ?thesis by blast
qed

subsection \<open>To text\<close>

lemma writes_decimal: "writes env k (add_decimal env k v) (Some (decimal (unat v)))"
  unfolding add_decimal_def using length_decimal_u64 [of v] by (intro writes_bytes) simp

lemma arc_octets_Cons: "arc_octets (x # xs) = base128 (unat x) @ arc_octets xs"
  by (simp add: arc_octets_def)

lemma base128_not_Nil [simp]: "base128 v \<noteq> []"
  by (simp add: base128_def)

lemma writes_text_components: "writes env 0 (text_components env (arc_octets xs)) (Some (dot (dotted xs)))"
proof (induction xs)
  case (Cons x xs)
  have "parse_base128_integer (arc_octets (x # xs)) = (Some x, arc_octets xs)"
    by (simp add: base128.dec_iff arc_octets_Cons)
  moreover have "arc_octets (x # xs) \<noteq> []" by (simp add: arc_octets_Cons)
  ultimately show ?case
    using writes_and_then [OF writes_u8 [of env 0 "0x2e"] writes_and_then [OF writes_decimal [of env 0 x] Cons]]
    by (subst text_components.simps) (simp add: dot_def)
qed (simp add: text_components.simps writes_skip arc_octets_def dot_def)

lemma text_components_sound: "text_components env c s = (True, s') \<Longrightarrow> \<exists>xs. c = arc_octets xs"
proof (induction env c arbitrary: s rule: text_components.induct)
  case (1 env c)
  show ?case
  proof (cases "c = []")
    case True
    then show ?thesis by (intro exI [of _ "[]"]) (simp add: arc_octets_def)
  next
    case False
    obtain a c1 where p: "parse_base128_integer c = (Some a, c1)"
      using 1(2) False by (subst (asm) text_components.simps) (auto split: prod.splits option.splits)
    obtain s1 where "text_components env c1 s1 = (True, s')"
      using 1(2) False p by (subst (asm) text_components.simps) (auto simp: and_then_def split: prod.splits bool.splits)
    then obtain xs where "c1 = arc_octets xs" using 1(1) [OF False p [symmetric] refl] by blast
    then show ?thesis using p unfolding base128.dec_iff by (intro exI [of _ "a # xs"]) (simp add: arc_octets_Cons)
  qed
qed

lemma u64_div_mod: "unat (v div 40 :: u64) = unat v div 40" "unat (v mod 40 :: u64) = unat v mod 40"
  by (simp_all add: unat_div_distrib unat_mod_distrib)

text \<open>The first number is split into the first two arcs.\<close>

definition first_arcs :: "u64 \<Rightarrow> u64 list" where
  "first_arcs v = (if v \<ge> 80 then [2, v - 80] else [v div 40, v mod 40])"

lemma first_arcs_ok: "oid_ok (first_arcs v @ xs) \<and> oid_octets (first_arcs v @ xs) = base128 (unat v) @ arc_octets xs"
proof (cases "v \<ge> 80")
  case True
  then have u: "unat (v - 80) = unat v - 80" "80 \<le> unat v" by (simp_all add: unat_sub word_le_nat_alt)
  have "v - 80 \<le> UINT64_MAX - 80"
    using u unat_u64_less [of v] unat_sub [of 80 UINT64_MAX] by (simp add: word_le_nat_alt unat_UINT64_MAX)
  then show ?thesis using True u by (simp add: first_arcs_def)
next
  case False
  then have v: "unat v < 80" by (simp add: word_le_nat_alt)
  have "unat v div 40 \<le> 1" using v by simp
  moreover have "unat (v mod 40) \<le> 39" "40 * unat (v div 40) + unat (v mod 40) = unat v" by (simp_all add: u64_div_mod)
  moreover have "v mod 40 \<le> UINT64_MAX - 80"
    using unat_sub [of 80 UINT64_MAX] by (simp add: word_le_nat_alt unat_UINT64_MAX u64_div_mod)
  ultimately show ?thesis using False by (simp add: first_arcs_def word_le_nat_alt u64_div_mod)
qed

lemma first_arcs_of:
  assumes "oid_ok (a # b # xs)"
  shows "first_arcs (40 * a + b) = [a, b]"
proof -
  obtain a': "a \<le> 2" "a < 2 \<Longrightarrow> b \<le> 39" "unat (40 * a + b) = 40 * unat a + unat b"
    using assms by (rule oid_okE) simp
  then have a2: "unat a \<le> 2" "unat a < 2 \<Longrightarrow> unat b \<le> 39" by (simp_all add: word_le_nat_alt word_less_nat_alt)
  show ?thesis
  proof (cases "unat a = 2")
    case True
    then have "a = 2" by (simp add: word_eq_iff_unsigned [where ?'a = nat])
    moreover have "80 \<le> 40 * a + b" using a'(3) True by (simp add: word_le_nat_alt)
    ultimately show ?thesis by (simp add: first_arcs_def)
  next
    case False
    then have b: "unat a \<le> 1" "unat b \<le> 39" using a2 by auto
    then have "\<not> 80 \<le> 40 * a + b" using a'(3) by (simp add: word_le_nat_alt)
    moreover have "(40 * a + b) div 40 = a" "(40 * a + b) mod 40 = b"
      using b by (simp_all add: word_eq_iff_unsigned [where ?'a = nat] u64_div_mod a'(3) div_mult_self4)
    ultimately show ?thesis by (simp add: first_arcs_def)
  qed
qed

lemma writes_first:
  "writes env 0
     (if v \<ge> 80 then and_then (CBB_add_bytes env 0 [0x32, 0x2e]) (add_decimal env 0 (v - 80))
      else and_then (add_decimal env 0 (v div 40)) (and_then (CBB_add_u8 env 0 0x2e) (add_decimal env 0 (v mod 40))))
     (Some (dotted (first_arcs v)))"
proof (cases "v \<ge> 80")
  case True
  have "decimal 2 = [0x32]" by (simp add: decimal.simps)
  then show ?thesis
    using True writes_and_then [OF writes_bytes [of "[0x32, 0x2e]" env 0] writes_decimal [of env 0 "v - 80"]]
    by (simp add: first_arcs_def dot_def)
next
  case False
  then show ?thesis
    using writes_and_then [OF writes_decimal [of env 0 "v div 40"] writes_and_then [OF writes_u8 [of env 0 "0x2e"] writes_decimal [of env 0 "v mod 40"]]]
    by (simp add: first_arcs_def dot_def)
qed

lemma dotted_append: "dotted (first_arcs v @ xs) = dotted (first_arcs v) @ dot (dotted xs)"
  by (simp add: first_arcs_def dot_def)

lemma writes_text:
  "writes env 0
     (and_then
       (if v \<ge> 80 then and_then (CBB_add_bytes env 0 [0x32, 0x2e]) (add_decimal env 0 (v - 80))
        else and_then (add_decimal env 0 (v div 40)) (and_then (CBB_add_u8 env 0 0x2e) (add_decimal env 0 (v mod 40))))
       (and_then (text_components env (arc_octets xs)) (CBB_add_u8 env 0 0)))
     (Some (dotted (first_arcs v @ xs) @ [0]))"
  using writes_and_then [OF writes_first writes_and_then [OF writes_text_components writes_u8 [of env 0 0]], of v xs]
  by (simp add: dotted_append)

lemma oid_to_text_sound:
  assumes "CBS_asn1_oid_to_text env c = Some t"
  shows "\<exists>arcs. oid_ok arcs \<and> c = oid_octets arcs \<and> t = dotted arcs @ [0]"
proof -
  obtain s where s: "CBB_init env 32 = Some s" using assms by (auto simp: CBS_asn1_oid_to_text_def split: option.splits)
  obtain v c1 where p: "parse_base128_integer c = (Some v, c1)"
    using assms s by (auto simp: CBS_asn1_oid_to_text_def split: prod.splits option.splits)
  let ?first = "if v \<ge> 80 then and_then (CBB_add_bytes env 0 [0x32, 0x2e]) (add_decimal env 0 (v - 80))
      else and_then (add_decimal env 0 (v div 40)) (and_then (CBB_add_u8 env 0 0x2e) (add_decimal env 0 (v mod 40)))"
  have f: "finish_with env True (and_then ?first (and_then (text_components env c1) (CBB_add_u8 env 0 0))) s = Some t"
    using assms by (simp add: CBS_asn1_oid_to_text_def s p)
  obtain s1 s2 where "text_components env c1 s1 = (True, s2)"
  proof (cases "?first s")
    fix ok1 s1
    assume r1: "?first s = (ok1, s1)"
    then have ok1 using f by (cases ok1) (simp_all add: finish_with_def and_then_def)
    obtain ok2 s2 where r2: "text_components env c1 s1 = (ok2, s2)" by (rule prod.exhaust)
    have ok2 using f r1 r2 \<open>ok1\<close> by (cases ok2) (simp_all add: finish_with_def and_then_def)
    then show thesis using that r2 by simp
  qed
  then obtain xs where xs: "c1 = arc_octets xs" using text_components_sound by blast
  have t: "t = dotted (first_arcs v @ xs) @ [0]" by (rule finish_new(1) [OF writes_text s f [unfolded xs]])
  have "c = oid_octets (first_arcs v @ xs)" using p first_arcs_ok [of v xs] by (simp add: base128.dec_iff xs)
  then show ?thesis using t first_arcs_ok [of v xs] by blast
qed

lemma oid_to_text_complete:
  assumes "willing env" "oid_ok arcs" "length (dotted arcs) + 1 < 2 ^ 64"
  shows "CBS_asn1_oid_to_text env (oid_octets arcs) = Some (dotted arcs @ [0])"
proof -
  obtain s where s: "CBB_init env 32 = Some s" using assms(1) by (simp add: CBB_init_def willing_def)
  obtain a b xs where a: "arcs = a # b # xs" "unat (40 * a + b) = 40 * unat a + unat b" using assms(2) by (rule oid_okE)
  have f: "first_arcs (40 * a + b) = [a, b]" using assms(2) by (intro first_arcs_of) (simp add: a(1))
  have "parse_base128_integer (oid_octets arcs) = (Some (40 * a + b), arc_octets xs)"
    by (simp add: base128.dec_iff a)
  then show ?thesis
    using finish_new(2) [OF writes_text s assms(1), of "40 * a + b" xs] assms(3)
    by (simp add: CBS_asn1_oid_to_text_def s f a(1))
qed

section \<open>Properties\<close>

text \<open>A new \<open>CBB\<close> with the identifier in it.\<close>

definition oid_from_text :: "allocator \<Rightarrow> size_t \<Rightarrow> byte list \<Rightarrow> byte list option" where
  "oid_from_text env n txt =
     Option.bind (CBB_init env n) (finish_with env True (CBB_add_asn1_oid_from_text env 0 txt))"

lemma oid_from_text_octets:
  assumes "oid_from_text env n txt = Some d"
  shows "\<exists>arcs. oid_ok arcs \<and> txt = dotted arcs \<and> d = oid_octets arcs"
proof -
  obtain s where s: "CBB_init env n = Some s" "finish_with env True (CBB_add_asn1_oid_from_text env 0 txt) s = Some d"
    using assms by (auto simp: oid_from_text_def bind_eq_Some_conv)
  obtain s1 where "CBB_add_asn1_oid_from_text env 0 txt s = (True, s1)"
    using s(2) by (auto simp: finish_with_def split: prod.splits bool.splits)
  then obtain arcs where arcs: "oid_ok arcs" "txt = dotted arcs" using oid_from_text_sound by blast
  have "d = oid_octets arcs" by (rule finish_new(1) [OF writes_oid [OF arcs(1)] s(1) s(2) [unfolded arcs(2)]])
  then show ?thesis using arcs by blast
qed

lemma oid_from_text_complete:
  assumes "willing env" "oid_ok arcs" "length (oid_octets arcs) < 2 ^ 64"
  shows "oid_from_text env n (dotted arcs) = Some (oid_octets arcs)"
proof -
  obtain s where s: "CBB_init env n = Some s" using assms(1) by (simp add: CBB_init_def willing_def)
  show ?thesis using finish_new(2) [OF writes_oid [OF assms(2)] s assms(1,3)] by (simp add: oid_from_text_def s)
qed

lemma dotted_inj: "dotted xs = dotted ys \<Longrightarrow> xs = ys"
proof (induction xs arbitrary: ys)
  case Nil
  then show ?case by (cases ys) simp_all
next
  case (Cons x xs)
  then obtain y zs where ys: "ys = y # zs" by (cases ys) simp_all
  have "parse_dotted_decimal (dotted (x # xs)) = (Some x, dotted xs)" "parse_dotted_decimal (dotted ys) = (Some y, dotted zs)"
    by (simp_all add: parse_dotted_iff ys)
  then show ?case using Cons by (simp add: ys del: dotted.simps)
qed

lemma arc_octets_inj: "arc_octets xs = arc_octets ys \<Longrightarrow> xs = ys"
proof (induction xs arbitrary: ys)
  case Nil
  then show ?case by (cases ys) (simp_all add: arc_octets_Cons, simp add: arc_octets_def)
next
  case (Cons x xs)
  then obtain y zs where ys: "ys = y # zs" by (cases ys) (simp_all add: arc_octets_Cons, simp add: arc_octets_def)
  have "x = y \<and> arc_octets xs = arc_octets zs"
    using Cons.prems unfolding ys arc_octets_Cons by (rule base128.prefix_free [OF TrueI TrueI])
  then show ?case using Cons.IH by (simp add: ys)
qed

lemma oid_octets_inj:
  assumes "oid_ok xs" "oid_ok ys" "oid_octets xs = oid_octets ys"
  shows "xs = ys"
proof -
  obtain a b r where x: "xs = a # b # r" "unat (40 * a + b) = 40 * unat a + unat b" using assms(1) by (rule oid_okE)
  obtain c d q where y: "ys = c # d # q" "unat (40 * c + d) = 40 * unat c + unat d" using assms(2) by (rule oid_okE)
  have "40 * a + b = 40 * c + d \<and> arc_octets r = arc_octets q"
    using assms(3) by (intro base128.prefix_free [OF TrueI TrueI]) (simp add: x y)
  moreover have "first_arcs (40 * a + b) = [a, b]" "first_arcs (40 * c + d) = [c, d]"
    using assms(1,2) by (intro first_arcs_of; simp add: x(1) y(1))+
  ultimately have "[a, b] = [c, d]" "r = q" using arc_octets_inj by metis+
  then show ?thesis by (simp add: x(1) y(1))
qed

text \<open>C20: Object identifiers in both forms are what their arcs stand for. Whatever memory is refused, the
  text that \<open>CBB_add_asn1_oid_from_text\<close> accepts is the dotted decimal form, without leading zeros or
  stray dots, of at least two arcs in range, and it writes their DER octets; the octets that
  \<open>CBS_asn1_oid_to_text\<close> accepts are those of such arcs, and it returns the dotted form. When no
  memory is refused, both accept all of them.\<close>

theorem oid_text_forms:
  "(oid_from_text env n txt = Some d \<longrightarrow> (\<exists>arcs. oid_ok arcs \<and> txt = dotted arcs \<and> d = oid_octets arcs)) \<and>
   (CBS_asn1_oid_to_text env c = Some t \<longrightarrow> (\<exists>arcs. oid_ok arcs \<and> c = oid_octets arcs \<and> t = dotted arcs @ [0])) \<and>
   (willing env \<longrightarrow> oid_ok arcs \<longrightarrow>
     (length (oid_octets arcs) < 2 ^ 64 \<longrightarrow> oid_from_text env n (dotted arcs) = Some (oid_octets arcs)) \<and>
     (length (dotted arcs) + 1 < 2 ^ 64 \<longrightarrow> CBS_asn1_oid_to_text env (oid_octets arcs) = Some (dotted arcs @ [0])))"
  using oid_from_text_octets [of env n "txt" d] oid_to_text_sound [of env c t]
    oid_from_text_complete [of env arcs n] oid_to_text_complete [of env arcs] by blast

text \<open>\<open>"1.2.840.113549"\<close>.\<close>

theorem oid_text_forms_witness:
  "oid_from_text generous 1 [0x31, 0x2e, 0x32, 0x2e, 0x38, 0x34, 0x30, 0x2e, 0x31, 0x31, 0x33, 0x35, 0x34, 0x39] =
     Some [0x2a, 0x86, 0x48, 0x86, 0xf7, 0x0d]"
proof -
  let ?arcs = "[1, 2, 840, 113549] :: u64 list"
  have t: "dotted ?arcs = [0x31, 0x2e, 0x32, 0x2e, 0x38, 0x34, 0x30, 0x2e, 0x31, 0x31, 0x33, 0x35, 0x34, 0x39]"
    by (simp add: decimal.simps dot_def)
  have o: "oid_octets ?arcs = [0x2a, 0x86, 0x48, 0x86, 0xf7, 0x0d]"
    by (simp add: arc_octets_def base128_def base128_hi.simps)
  have "oid_ok ?arcs" by (simp add: UINT64_MAX_def)
  then show ?thesis
    using oid_text_forms [where env = generous and n = 1 and arcs = ?arcs] unfolding t o
    by (simp add: willing_def generous_def)
qed

text \<open>C17: The two functions are inverse to each other: the text of the octets of a text is that text, and
  the octets of the text of octets are those octets.\<close>

theorem oid_text_round_trip:
  "(oid_from_text env n txt = Some d \<longrightarrow> CBS_asn1_oid_to_text env' d = Some t \<longrightarrow> t = txt @ [0]) \<and>
   (CBS_asn1_oid_to_text env' c = Some (txt @ [0]) \<longrightarrow> oid_from_text env n txt = Some d \<longrightarrow> d = c)"
proof (intro conjI impI)
  assume r: "oid_from_text env n txt = Some d" "CBS_asn1_oid_to_text env' d = Some t"
  obtain xs where xs: "oid_ok xs" "txt = dotted xs" "d = oid_octets xs" using oid_from_text_octets [OF r(1)] by blast
  obtain ys where ys: "oid_ok ys" "d = oid_octets ys" "t = dotted ys @ [0]" using oid_to_text_sound [OF r(2)] by blast
  show "t = txt @ [0]" using oid_octets_inj [OF xs(1) ys(1)] xs(2,3) ys(2,3) by simp
next
  assume r: "CBS_asn1_oid_to_text env' c = Some (txt @ [0])" "oid_from_text env n txt = Some d"
  obtain xs where xs: "oid_ok xs" "txt = dotted xs" "d = oid_octets xs" using oid_from_text_octets [OF r(2)] by blast
  obtain ys where ys: "oid_ok ys" "c = oid_octets ys" "txt @ [0] = dotted ys @ [0]" using oid_to_text_sound [OF r(1)] by blast
  show "d = c" using dotted_inj [of xs ys] xs(2,3) ys(2,3) by simp
qed

theorem oid_text_round_trip_witness:
  "\<exists>d. oid_from_text generous 4 [0x30, 0x2e, 0x39] = Some d \<and> CBS_asn1_oid_to_text generous d = Some [0x30, 0x2e, 0x39, 0]"
proof -
  have "oid_from_text generous 4 [0x30, 0x2e, 0x39] \<noteq> None" by code_simp
  then obtain d where d: "oid_from_text generous 4 [0x30, 0x2e, 0x39] = Some d" by blast
  obtain xs where "oid_ok xs" "[0x30, 0x2e, 0x39] = dotted xs" "d = oid_octets xs" using oid_from_text_octets [OF d] by blast
  then have "CBS_asn1_oid_to_text generous d \<noteq> None"
    using oid_to_text_complete [of generous xs] by (auto simp: willing_def generous_def dest: arg_cong [of _ _ length])
  then obtain t where t: "CBS_asn1_oid_to_text generous d = Some t" by blast
  then have "t = [0x30, 0x2e, 0x39] @ [0]" using oid_text_round_trip d by blast
  with d t show ?thesis by simp
qed

end
