(* ===== verification/Crypto_Set_Of.thy ===== *)
theory Crypto_Set_Of
  imports Crypto_Document Crypto_Stack "HOL-Library.List_Lexorder"
begin

text \<open>
  \<open>CBB_flush_asn1_set_of\<close> of \<^verbatim>\<open>bytestring/cbb.c\<close>: the contents of a \<open>CBB\<close>, a sequence of DER elements,
  are put into the order that DER wants of a SET OF. \<open>qs\<close> is \<open>qsort\<close>, a parameter as in
  \<open>Crypto_Stack\<close>.
\<close>

section \<open>The code\<close>

definition compare_set_of_element :: "cbs \<Rightarrow> cbs \<Rightarrow> int" where
  "compare_set_of_element a b =
     (let a_len = length a; b_len = length b;
          min_len = (if a_len < b_len then a_len else b_len);
          ret = memcmp (take min_len a) (take min_len b)
      in if ret \<noteq> 0 then ret else if a_len = b_len then 0 else if a_len < b_len then -1 else 1)"

text \<open>The two loops over the elements run over the same bytes.\<close>

lemma any_element_less: "CBS_get_any_asn1_element c = (Some (d, t, h), c') \<Longrightarrow> length c' < length c"
  using length_asn1_header(1) [of t "length c"] length_asn1_header(1) [of t 0]
  by (fastforce simp: any_element_iff element_def dest: arg_cong [of _ _ length])

function set_of_elements :: "cbs \<Rightarrow> cbs list option" where
  "set_of_elements c =
     (if c = [] then Some []
      else
        (case CBS_get_any_asn1_element c of
           (None, _) \<Rightarrow> None
         | (Some (out, _, _), c') \<Rightarrow> map_option (\<lambda>ds. out # ds) (set_of_elements c')))"
  by auto
termination
  by (relation "measure length") (simp, metis any_element_less in_measure)

declare set_of_elements.simps [simp del]

text \<open>Where the contents of the \<open>CBB\<close> of depth \<open>k\<close> start: \<open>CBB_data\<close> and \<open>CBB_len\<close>.\<close>

definition cbb_start :: "nat \<Rightarrow> cbb_st \<Rightarrow> size_t" where
  "cbb_start k s =
     (if k = 0 then 0 else offset (children s ! (k - 1)) + ucast (pending_len_len (children s ! (k - 1))))"

definition CBB_len :: "nat \<Rightarrow> cbb_st \<Rightarrow> size_t" where
  "CBB_len k s = len (base s) - cbb_start k s"

definition CBB_data :: "nat \<Rightarrow> cbb_st \<Rightarrow> cbs" where
  "CBB_data k s = take (unat (CBB_len k s)) (drop (unat (cbb_start k s)) (buf (base s)))"

fun add_elements :: "allocator \<Rightarrow> nat \<Rightarrow> cbs list \<Rightarrow> cbb_st \<Rightarrow> bool \<times> cbb_st" where
  "add_elements env k [] = Pair True"
| "add_elements env k (d # ds) = and_then (CBB_add_bytes env k d) (add_elements env k ds)"

definition CBB_flush_asn1_set_of ::
  "allocator \<Rightarrow> ((cbs \<Rightarrow> cbs \<Rightarrow> int) \<Rightarrow> cbs list \<Rightarrow> cbs list) \<Rightarrow> nat \<Rightarrow> cbb_st \<Rightarrow> bool \<times> cbb_st" where
  "CBB_flush_asn1_set_of env qs k =
     flushed env k (\<lambda>s.
       case set_of_elements (CBB_data k s) of
         None \<Rightarrow> (False, s)
       | Some ds \<Rightarrow>
           let num_children = length ds in
           if num_children < 2 then (True, s)
           else if num_children > (2 ^ 64 - 1) div 16 then (False, s)
           else if \<not> allots env (CBB_len k s) \<or> \<not> allots env (of_nat num_children * 16) then (False, s)
           else add_elements env k (qs compare_set_of_element ds) (s\<lparr>base := (base s)\<lparr>len := cbb_start k s\<rparr>\<rparr>))"

section \<open>The order\<close>

lemma memcmp_le:
  "length a = length b \<Longrightarrow> (memcmp a b < 0 \<longleftrightarrow> a < b) \<and> (memcmp a b = 0 \<longleftrightarrow> a = b)"
  by (induction a b rule: list_induct2) (auto simp: Cons_less_Cons)

lemma compare_le: "compare_set_of_element a b \<le> 0 \<longleftrightarrow> a \<le> b"
proof (induction a arbitrary: b)
  case Nil
  show ?case by (cases b) (simp_all add: compare_set_of_element_def Let_def)
next
  case (Cons x a)
  show ?case
  proof (cases b)
    case Nil
    then show ?thesis by (simp add: compare_set_of_element_def Let_def)
  next
    case b: (Cons y b')
    have "compare_set_of_element (x # a) (y # b') =
        (if x = y then compare_set_of_element a b' else if x < y then -1 else 1)"
      by (simp add: compare_set_of_element_def Let_def)
    then show ?thesis using Cons [of b'] by (auto simp: b Cons_le_Cons)
  qed
qed

text \<open>What is relied on of \<open>qsort\<close>; the comparison is a total order.\<close>

definition sorts :: "((cbs \<Rightarrow> cbs \<Rightarrow> int) \<Rightarrow> cbs list \<Rightarrow> cbs list) \<Rightarrow> bool" where
  "sorts qs \<longleftrightarrow>
     (\<forall>xs. mset (qs compare_set_of_element xs) = mset xs \<and>
        sorted_wrt (\<lambda>x y. compare_set_of_element x y \<le> 0) (qs compare_set_of_element xs))"

lemma sorts_sort: "sorts qs \<Longrightarrow> qs compare_set_of_element xs = sort xs"
  by (rule properties_for_sort [symmetric]) (simp_all add: sorts_def compare_le)

lemma sorts_example: "sorts example_qsort"
proof -
  have "insort_cmp compare_set_of_element x ys = insort x ys" for x ys
    by (induction ys) (simp_all add: compare_le)
  then have "example_qsort compare_set_of_element xs = sort xs" for xs
    by (induction xs) (simp_all add: example_qsort_def)
  then show ?thesis by (simp add: sorts_def compare_le)
qed

lemma concat_elements: "set_of_elements c = Some ds \<Longrightarrow> concat ds = c \<and> (\<forall>d \<in> set ds. \<exists>x. d = element x)"
proof (induction c arbitrary: ds rule: set_of_elements.induct)
  case (1 c)
  show ?case
  proof (cases "c = []")
    case True
    then show ?thesis using 1(2) by (simp add: set_of_elements.simps)
  next
    case False
    obtain out t h c' ds' where r: "CBS_get_any_asn1_element c = (Some (out, t, h), c')" "set_of_elements c' = Some ds'" "ds = out # ds'"
      using 1(2) False by (subst (asm) set_of_elements.simps) (auto split: prod.splits option.splits)
    then have "concat ds' = c' \<and> (\<forall>d \<in> set ds'. \<exists>x. d = element x)" using 1(1) [OF False] by simp
    moreover have "c = out @ c'" "\<exists>x. out = element x" using r(1) by (auto simp: any_element_iff)
    ultimately show ?thesis using r(3) by simp
  qed
qed

lemma set_of_elements_complete:
  "\<forall>(t, d) \<in> set xs. length d < 2 ^ 32 \<Longrightarrow> set_of_elements (concat (map element xs)) = Some (map element xs)"
proof (induction xs)
  case (Cons x xs)
  obtain t d where x: "x = (t, d)" by (cases x)
  let ?c = "concat (map element (x # xs))" and ?h = "of_nat (length (asn1_header t (length d))) :: size_t"
  have "length (asn1_header t (length d)) < 2 ^ 64" using length_asn1_header [of t "length d"] by simp
  then have h: "unat ?h + length d = length (element (t, d))" by (simp only: unat_of_nat_size element_def prod.case length_append)
  have "CBS_get_any_asn1_element ?c = (Some (element (t, d), t, ?h), concat (map element xs))"
    unfolding any_element_iff using Cons.prems h by (auto simp: x)
  moreover have "?c \<noteq> []" using length_asn1_header(1) [of t "length d"] by (auto simp: x element_def)
  ultimately show ?case using Cons by (subst set_of_elements.simps) (simp add: x)
qed (simp add: set_of_elements.simps)

section \<open>Rewriting the contents\<close>

text \<open>In the room that is there already, nothing is allocated and nothing fails.\<close>

lemma add_bytes_fits:
  assumes s: "state_ok s" "length (children s) = k" "\<not> failed (base s)"
    and d: "unat (len (base s)) + length d \<le> unat (cap (base s))"
  obtains s' where "CBB_add_bytes env k d s = (True, s')" "state_ok s'" "children s' = children s" "\<not> failed (base s')"
    "cap (base s') = cap (base s) \<and> can_resize (base s') = can_resize (base s)" "contents (base s') = contents (base s) @ d"
proof -
  let ?b = "base s"
  have l: "length d < 2 ^ 64" using d unat_u64_less [of "cap ?b"] by simp
  then have n: "unat (of_nat (length d) :: size_t) = length d" by (rule unat_of_nat_size)
  have "unat (len ?b + of_nat (length d)) = unat (len ?b) + length d"
    using d n unat_u64_less [of "cap ?b"] by (simp add: unat_word_ariths)
  then have "\<not> len ?b + of_nat (length d) < len ?b" "\<not> len ?b + of_nat (length d) > cap ?b"
    using d by (simp_all add: word_less_nat_alt)
  then have r: "cbb_buffer_reserve env ?b (of_nat (length d)) = (True, ?b)"
    by (simp only: cbb_buffer_reserve_def Let_def if_False)
  let ?s = "snd (CBB_add_bytes env k d s)"
  have e: "CBB_add_bytes env k d s = (True, ?s)" "children ?s = children s" "cap (base ?s) = cap ?b \<and> can_resize (base ?s) = can_resize ?b"
    "failed (base ?s) = failed ?b"
    using s(2,3) r by (simp_all add: CBB_add_bytes_def flushed_def CBB_flush_def on_base_def add_data_def cbb_buffer_add_def)
  have "step_to env k s (Some (contents ?b @ d)) (True, ?s)"
    using writesD [OF writes_bytes [OF l] s(1), of k env] s(2) e(1) by (simp add: view_def)
  then have "state_ok ?s" "contents (base ?s) = contents ?b @ d"
    using s(2) e(2) by (simp_all add: step_to_def step_ok_def view_def)
  then show ?thesis using e s(3) by (intro that [of ?s]) simp_all
qed

lemma add_elements_fits:
  assumes "state_ok s" "length (children s) = k" "\<not> failed (base s)"
    "unat (len (base s)) + length (concat ds) \<le> unat (cap (base s))"
  shows "\<exists>s'. add_elements env k ds s = (True, s') \<and> state_ok s' \<and> children s' = children s \<and> \<not> failed (base s') \<and>
    cap (base s') = cap (base s) \<and> can_resize (base s') = can_resize (base s) \<and> contents (base s') = contents (base s) @ concat ds"
  using assms
proof (induction ds arbitrary: s)
  case (Cons d ds)
  have "unat (len (base s)) + length d \<le> unat (cap (base s))" using Cons.prems(4) by simp
  then obtain s1 where s1: "CBB_add_bytes env k d s = (True, s1)" "state_ok s1" "children s1 = children s" "\<not> failed (base s1)"
    "cap (base s1) = cap (base s) \<and> can_resize (base s1) = can_resize (base s)" "contents (base s1) = contents (base s) @ d"
    by (rule add_bytes_fits [OF Cons.prems(1-3)])
  have "unat (len (base s1)) = unat (len (base s)) + length d"
    using arg_cong [OF s1(6), of length] s1(2) Cons.prems(1) by (simp add: state_ok_def length_contents)
  then show ?case using Cons.IH [OF s1(2) _ s1(4)] Cons.prems(2,4) s1 by (simp add: and_then_def)
qed simp

lemma cbb_start_after:
  assumes "state_ok s" "length (children s) = k"
  shows "unat (cbb_start k s) = after_children 0 (children s)" "after_children 0 (children s) \<le> unat (len (base s))"
proof -
  show "after_children 0 (children s) \<le> unat (len (base s))"
  proof -
    have "children_ok 0 (children s @ []) (unat (len (base s)))" using assms(1) by (simp add: state_ok_def)
    then show ?thesis unfolding children_ok_append by simp
  qed
  note le = this
  show "unat (cbb_start k s) = after_children 0 (children s)"
  proof (cases "children s = []")
    case True
    then show ?thesis using assms(2) by (simp add: cbb_start_def after_children_def)
  next
    case False
    let ?c = "last (children s)"
    have c: "children s ! (k - 1) = ?c" "k \<noteq> 0" using False assms(2) by (auto simp: last_conv_nth)
    have "unat (offset ?c) + unat (pending_len_len ?c) < 2 ^ 64"
      using le False unat_u64_less [of "len (base s)"] by (simp add: after_children_def child_start_def)
    then have "unat (offset ?c + ucast (pending_len_len ?c)) = unat (offset ?c) + unat (pending_len_len ?c)"
      by (simp add: unat_word_ariths unat_ucast_up)
    then show ?thesis using c False by (simp add: cbb_start_def after_children_def child_start_def)
  qed
qed

lemma CBB_data_contents:
  assumes "state_ok s" "length (children s) = k"
  shows "CBB_data k s = drop (after_children 0 (children s)) (contents (base s))"
proof -
  note a = cbb_start_after [OF assms]
  have "cbb_start k s \<le> len (base s)" using a by (simp add: word_le_nat_alt)
  then have "unat (CBB_len k s) = unat (len (base s)) - after_children 0 (children s)"
    using a by (simp add: CBB_len_def unat_sub)
  then show ?thesis using a by (simp add: CBB_data_def contents_def drop_take)
qed

lemma sort_short: "length xs < 2 \<Longrightarrow> sort xs = xs"
  by (cases xs; cases "tl xs") auto

text \<open>The step after the flush.\<close>

lemma set_of_step:
  assumes s: "state_ok s" "length (children s) = k" "\<not> failed (base s)" and qs: "sorts qs"
    and ds: "set_of_elements (CBB_data k s) = Some ds" and n: "2 \<le> length ds"
  shows "\<exists>s'. add_elements env k (qs compare_set_of_element ds) (s\<lparr>base := (base s)\<lparr>len := cbb_start k s\<rparr>\<rparr>) = (True, s') \<and>
    state_ok s' \<and> children s' = children s \<and> \<not> failed (base s') \<and>
    cap (base s') = cap (base s) \<and> can_resize (base s') = can_resize (base s) \<and>
    contents (base s') = take (after_children 0 (children s)) (contents (base s)) @ concat (sort ds)"
proof -
  let ?s = "s\<lparr>base := (base s)\<lparr>len := cbb_start k s\<rparr>\<rparr>" and ?o = "after_children 0 (children s)"
  note a = cbb_start_after [OF s(1,2)]
  have le: "cbb_start k s \<le> len (base s)" using a by (simp add: word_le_nat_alt)
  have b: "buffer_ok (base s)" using s(1) by (simp add: state_ok_def)
  have "children_ok 0 (children s) (unat (cbb_start k s))"
    using children_ok_shrink [of 0 "children s" "unat (len (base s))"] s(1) a by (simp add: state_ok_def)
  then have ok: "state_ok ?s" using b le by (auto simp: state_ok_def buffer_ok_def)
  have w: "contents (base ?s) = take ?o (contents (base s))"
    using a by (simp add: contents_def min_def)
  have "length (concat (sort ds)) = length (concat ds)"
    by (simp add: length_concat sum_list.rev flip: sum_mset_sum_list)
  also have "\<dots> = unat (len (base s)) - ?o"
    using concat_elements [OF ds] CBB_data_contents [OF s(1,2)] by (simp add: length_contents b)
  finally have "unat (len (base ?s)) + length (concat (sort ds)) \<le> unat (cap (base ?s))"
    using a b by (simp add: buffer_ok_def word_le_nat_alt)
  from add_elements_fits [OF ok _ _ this, of k env] s(2,3) show ?thesis
    by (simp add: sorts_sort [OF qs] w [simplified])
qed

section \<open>Properties\<close>

text \<open>C21: \<open>CBB_flush_asn1_set_of\<close> on a \<open>CBB\<close> that holds DER elements, at any depth, leaves the same
  elements in ascending order of their encodings, the order that X.690 wants, and what lies before
  them as it was. It cannot fail after it has begun to rewrite: when it fails without a failure of
  the buffer, the contents are untouched; and it succeeds when memory is granted and the elements are
  no more than an array can hold.\<close>

theorem CBB_flush_asn1_set_of_sorts:
  assumes s: "state_ok s" "k \<le> length (children s)" "\<not> failed (base s)" and qs: "sorts qs"
    and w: "view k s = Some (p @ concat (map element xs))" "length p = after_children 0 (take k (children s))"
    and xs: "\<forall>(t, d) \<in> set xs. length d < 2 ^ 32"
    and r: "CBB_flush_asn1_set_of env qs k s = (ok, s')"
  shows "(ok \<longrightarrow> view k s' = Some (p @ concat (sort (map element xs))) \<and> take k (children s') = take k (children s)) \<and>
    (\<not> ok \<longrightarrow> \<not> failed (base s') \<longrightarrow> view k s' = view k s) \<and>
    (willing env \<longrightarrow> length p + length (concat (map element xs)) \<le> limit (base s) \<longrightarrow> length xs \<le> (2 ^ 64 - 1) div 16 \<longrightarrow> ok)"
proof -
  obtain ok1 s1 where f: "CBB_flush env k s = (ok1, s1)" by (rule prod.exhaust)
  note fl = flush_view [OF s(1,2) f]
  show ?thesis
  proof (cases ok1)
    case False
    then have "ok = False" "s' = s1" using r f by (simp_all add: CBB_flush_asn1_set_of_def flushed_def)
    then show ?thesis using fl(1) False s(3) w(1) by (auto simp: step_to_def step_ok_def too_long_def)
  next
    case True
    have so: "step_ok k s (True, s1)" "view k s1 = view k s" using fl(1) True by (simp_all add: step_to_def)
    have s1: "state_ok s1" "\<not> failed (base s1)" using so(1) s(3) by (simp_all add: step_ok_def)
    have v: "children s1 = take k (children s)" "contents (base s1) = p @ concat (map element xs)"
      using fl(2) True w(1) by auto
    have k1: "length (children s1) = k" using v(1) s(2) by simp
    have d: "CBB_data k s1 = concat (map element xs)"
      using CBB_data_contents [OF s1(1) k1] w(2) v by simp
    have ds: "set_of_elements (CBB_data k s1) = Some (map element xs)" unfolding d by (rule set_of_elements_complete [OF xs])
    have r1: "(ok, s') = (if length xs < 2 then (True, s1)
        else if length xs > (2 ^ 64 - 1) div 16 then (False, s1)
        else if \<not> allots env (CBB_len k s1) \<or> \<not> allots env (of_nat (length xs) * 16) then (False, s1)
        else add_elements env k (qs compare_set_of_element (map element xs)) (s1\<lparr>base := (base s1)\<lparr>len := cbb_start k s1\<rparr>\<rparr>))"
      using r f True ds by (simp add: CBB_flush_asn1_set_of_def flushed_def Let_def)
    show ?thesis
    proof (cases "length xs < 2")
      case True
      then have "ok" "s' = s1" using r1 by simp_all
      then show ?thesis using so(2) w(1) v(1) s(2) sort_short [of "map element xs"] True by simp
    next
      case False
      then obtain t where t: "add_elements env k (qs compare_set_of_element (map element xs)) (s1\<lparr>base := (base s1)\<lparr>len := cbb_start k s1\<rparr>\<rparr>) = (True, t)"
        "state_ok t" "children t = children s1" "contents (base t) = p @ concat (sort (map element xs))"
        using set_of_step [OF s1(1) k1 s1(2) qs ds, of env] v w(2) by auto
      have "view k t = Some (p @ concat (sort (map element xs)))" using t(3,4) k1 by (simp add: view_def)
      moreover have "take k (children t) = take k (children s)" using t(3) v(1) by simp
      ultimately show ?thesis using r1 t(1) False so(2) by (auto simp: willing_def split: if_splits)
    qed
  qed
qed

text \<open>Three INTEGERs and a NULL, out of order, in a SET.\<close>

theorem CBB_flush_asn1_set_of_sorts_witness:
  "\<exists>s s'. emits generous 0 [Bytes [5, 0, 2, 1, 9, 2, 1, 3]] (the (CBB_init generous 4)) = (True, s) \<and>
     CBB_flush_asn1_set_of generous example_qsort 0 s = (True, s') \<and>
     view 0 s' = Some [2, 1, 3, 2, 1, 9, 5, 0]"
proof -
  let ?s0 = "the (CBB_init generous 4)" and ?xs = "[(5, []), (2, [9]), (2, [3])] :: (u32 \<times> byte list) list"
  have "CBB_init generous 4 = Some ?s0" by (simp add: CBB_init_def generous_def)
  note i = init_state [OF this]
  let ?r = "emits generous 0 [Bytes [5, 0, 2, 1, 9, 2, 1, 3]] ?s0"
  have f: "fst ?r" "\<not> failed (base (snd ?r))" by code_simp+
  then obtain s where s: "?r = (True, s)" "\<not> failed (base s)" by (cases ?r) simp
  have el: "map element ?xs = [[5, 0], [2, 1, 9], [2, 1, 3]]"
    by (simp add: element_def asn1_header_def tag_octets_def length_octets_def Let_def)
  have "step_to generous 0 ?s0 (Some [5, 0, 2, 1, 9, 2, 1, 3]) (True, s)"
    using writesD [OF writes_document(2) i(1), of "[Bytes [5, 0, 2, 1, 9, 2, 1, 3]]" 0 generous] i(2,3) s(1)
    by (simp add: view_def)
  then have st: "state_ok s" "view 0 s = Some ([] @ concat (map element ?xs))" "can_resize (base s)"
    using i(5) unfolding el by (simp_all add: step_to_def step_ok_def buffer_step_def)
  obtain ok s' where r: "CBB_flush_asn1_set_of generous example_qsort 0 s = (ok, s')" by (rule prod.exhaust)
  have lim: "length ([] :: byte list) + length (concat (map element ?xs)) \<le> limit (base s)"
    unfolding el using st(3) by (simp add: limit_def)
  have "sort (map element ?xs) = [[2, 1, 3], [2, 1, 9], [5, 0]]" unfolding el by (simp add: list_le_def Cons_less_Cons)
  then show ?thesis
    using CBB_flush_asn1_set_of_sorts [OF st(1) _ s(2) sorts_example st(2) _ _ r] lim s(1) r
    by (auto simp: after_children_def willing_def generous_def)
qed

end
