(* ===== verification/Crypto_Cbb_Safe.thy ===== *)
theory Crypto_Cbb_Safe
  imports Crypto_Int64 Crypto_Oid Crypto_Set_Of
begin

text \<open>
  Every sequence of calls on a \<open>CBB\<close>, on any of the live ones, with any results of the allocator: the
  writes stay in the buffer, a failure is never forgotten, and what \<open>CBB_discard_child\<close> leaves.
\<close>

section \<open>Calls\<close>

inductive cbb_call :: "allocator \<Rightarrow> nat \<Rightarrow> (cbb_st \<Rightarrow> bool \<times> cbb_st) \<Rightarrow> bool" for env k where
  "cbb_call env k (CBB_flush env k)"
| "length d < 2 ^ 64 \<Longrightarrow> cbb_call env k (CBB_add_bytes env k d)"
| "cbb_call env k (CBB_add_space env k n)"
| "cbb_call env k (CBB_reserve env k n)"
| "cbb_call env k (CBB_did_write k n)"
| "cbb_call env k (CBB_add_u8 env k v8)"
| "cbb_call env k (CBB_add_u16 env k v16)"
| "cbb_call env k (CBB_add_u24 env k v32)"
| "cbb_call env k (CBB_add_u32 env k v32)"
| "cbb_call env k (CBB_add_u64 env k v64)"
| "cbb_call env k (CBB_add_u16le env k v16)"
| "cbb_call env k (CBB_add_u32le env k v32)"
| "cbb_call env k (CBB_add_u64le env k v64)"
| "cbb_call env k (CBB_add_u8_length_prefixed env k)"
| "cbb_call env k (CBB_add_u16_length_prefixed env k)"
| "cbb_call env k (CBB_add_u24_length_prefixed env k)"
| "cbb_call env k (CBB_add_asn1 env k tag)"
| "cbb_call env k (\<lambda>s. (True, CBB_discard_child k s))"
| "cbb_call env k (CBB_add_asn1_uint64 env k v64)"
| "cbb_call env k (CBB_add_asn1_int64 env k v64)"
| "length d < 2 ^ 64 \<Longrightarrow> cbb_call env k (CBB_add_asn1_octet_string env k d)"
| "cbb_call env k (CBB_add_asn1_bool env k b)"
| "cbb_call env k (CBB_add_asn1_oid_from_text env k oid)"
| "sorts qs \<Longrightarrow> cbb_call env k (CBB_flush_asn1_set_of env qs k)"

text \<open>Only the \<open>CBB\<close>s that are open may be named.\<close>

inductive cbb_run :: "allocator \<Rightarrow> cbb_st \<Rightarrow> cbb_st \<Rightarrow> bool" for env where
  run_refl: "cbb_run env s s"
| run_call: "cbb_run env s s1 \<Longrightarrow> k \<le> length (children s1) \<Longrightarrow> cbb_call env k f \<Longrightarrow> cbb_run env s (snd (f s1))"

definition keeps :: "cbb_st \<Rightarrow> cbb_st \<Rightarrow> bool" where
  "keeps s s' \<longleftrightarrow> state_ok s' \<and> can_resize (base s') = can_resize (base s) \<and>
     (\<not> can_resize (base s) \<longrightarrow> cap (base s') = cap (base s)) \<and> (failed (base s) \<longrightarrow> failed (base s'))"

lemma keeps_refl: "state_ok s \<Longrightarrow> keeps s s"
  by (simp add: keeps_def)

lemma keeps_trans: "keeps s s1 \<Longrightarrow> keeps s1 s2 \<Longrightarrow> keeps s s2"
  by (auto simp: keeps_def)

lemma keeps_step: "step_ok k s r \<Longrightarrow> keeps s (snd r)"
  by (auto simp: step_ok_def keeps_def buffer_step_def split: prod.splits if_splits)

lemma keeps_writes: "writes env k f d \<Longrightarrow> state_ok s \<Longrightarrow> k \<le> length (children s) \<Longrightarrow> keeps s (snd (f s))"
  by (rule keeps_step [of k], drule (2) writesD) (simp add: step_to_def)

lemma keeps_opens: "opens env k f p a n \<Longrightarrow> state_ok s \<Longrightarrow> k \<le> length (children s) \<Longrightarrow> keeps s (snd (f s))"
  by (rule keeps_step [of k]) (cases "f s", simp add: opens_def)

lemma keeps_on_base:
  assumes f: "\<And>b. buffer_ok b \<Longrightarrow> buffer_step b (snd (f b))" and s: "state_ok s" "k \<le> length (children s)"
  shows "keeps s (snd (flushed env k (on_base f) s))"
proof -
  obtain ok s1 where r: "CBB_flush env k s = (ok, s1)" by (rule prod.exhaust)
  have so: "step_ok k s (ok, s1)" using flush_view(1) [OF s r] by (simp add: step_to_def)
  then have s1: "keeps s s1" "state_ok s1" using keeps_step [OF so] by (simp_all add: keeps_def)
  have "keeps s1 (snd (on_base f s1))"
  proof -
    obtain ok1 b where b: "f (base s1) = (ok1, b)" by (rule prod.exhaust)
    then have st: "buffer_step (base s1) b" using f [of "base s1"] s1(2) by (simp add: state_ok_def)
    then have "children_ok 0 (children s1) (unat (len b))"
      using s1(2) children_ok_mono by (auto simp: state_ok_def buffer_step_def word_le_nat_alt)
    then show ?thesis using st by (simp add: on_base_def b keeps_def state_ok_def buffer_step_def)
  qed
  then show ?thesis using keeps_trans [OF s1(1)] s1(1) by (cases ok) (simp_all add: flushed_def r)
qed

lemma reserve_step: "buffer_ok b \<Longrightarrow> buffer_step b (snd (cbb_buffer_reserve env b n))"
proof (cases "granted env b n")
  case True
  assume b: "buffer_ok b"
  show ?thesis by (rule reserve_ok [OF b True]) simp
qed (simp add: reserve_fails buffer_step_fail)

lemma add_step: "buffer_ok b \<Longrightarrow> buffer_step b (snd (cbb_buffer_add env b n))"
proof (cases "granted env b n")
  case True
  assume b: "buffer_ok b"
  show ?thesis by (rule add_ok [OF b True]) simp
qed (simp add: add_fails buffer_step_fail)

lemma keeps_did_write:
  assumes "state_ok s" "k \<le> length (children s)"
  shows "keeps s (snd (CBB_did_write k n s))"
proof (cases "len (base s) + n < len (base s) \<or> len (base s) + n > cap (base s)")
  case False
  then have l: "unat (len (base s)) \<le> unat (len (base s) + n)" by (simp add: not_less word_le_nat_alt)
  have "children_ok 0 (children s) (unat (len (base s) + n))"
    using assms(1) children_ok_mono [OF _ l] by (simp add: state_ok_def)
  then show ?thesis
    using assms(1) False by (auto simp: CBB_did_write_def Let_def keeps_def state_ok_def buffer_ok_def not_less)
qed (use keeps_refl [OF assms(1)] in \<open>auto simp: CBB_did_write_def Let_def\<close>)

lemma keeps_discard:
  assumes "state_ok s"
  shows "keeps s (CBB_discard_child k s)"
proof (cases "k < length (children s)")
  case True
  let ?cs = "children s" and ?n = "unat (len (base s))"
  have "?cs = take k ?cs @ ?cs ! k # drop (Suc k) ?cs" using True by (rule id_take_nth_drop)
  then have c: "children_ok 0 (take k ?cs) ?n" "after_children 0 (take k ?cs) \<le> unat (offset (?cs ! k))" "child_ok (?cs ! k) ?n"
    using assms children_ok_append [of 0 "take k ?cs" "?cs ! k # drop (Suc k) ?cs" ?n] by (auto simp: state_ok_def)
  have "offset (?cs ! k) \<le> len (base s)" using c(3) by (simp add: child_ok_def word_le_nat_alt)
  then show ?thesis
    using True assms children_ok_shrink [OF c(1,2)] by (auto simp: CBB_discard_child_def keeps_def state_ok_def buffer_ok_def)
qed (use keeps_refl [OF assms] in \<open>simp add: CBB_discard_child_def\<close>)

text \<open>Sequences that may stop on their own account.\<close>

definition safe_step :: "nat \<Rightarrow> (cbb_st \<Rightarrow> bool \<times> cbb_st) \<Rightarrow> bool" where
  "safe_step k f \<longleftrightarrow> (\<forall>s. state_ok s \<longrightarrow> k \<le> length (children s) \<longrightarrow>
     keeps s (snd (f s)) \<and> (fst (f s) \<longrightarrow> k \<le> length (children (snd (f s)))))"

lemma safe_writes: "writes env k f d \<Longrightarrow> safe_step k f"
  unfolding safe_step_def
proof (intro allI impI)
  fix s
  assume w: "writes env k f d" and s: "state_ok s" "k \<le> length (children s)"
  obtain ok s1 where r: "f s = (ok, s1)" by (rule prod.exhaust)
  have so: "step_ok k s (ok, s1)" using writesD [OF w s] by (simp add: step_to_def r)
  show "keeps s (snd (f s)) \<and> (fst (f s) \<longrightarrow> k \<le> length (children (snd (f s))))"
    using keeps_step [OF so] step_okD(6) [OF so] by (simp add: r)
qed

lemma safe_Pair: "safe_step k (Pair ok)"
  by (simp add: safe_step_def keeps_refl)

lemma safe_and_then:
  assumes "safe_step k f" "safe_step k g"
  shows "safe_step k (and_then f g)"
  unfolding safe_step_def
proof (intro allI impI)
  fix s
  assume s: "state_ok s" "k \<le> length (children s)"
  obtain ok s1 where r: "f s = (ok, s1)" by (rule prod.exhaust)
  then have s1: "keeps s s1" "ok \<Longrightarrow> k \<le> length (children s1)" using assms(1) s by (force simp: safe_step_def)+
  then have "state_ok s1" by (simp add: keeps_def)
  then show "keeps s (snd (and_then f g s)) \<and> (fst (and_then f g s) \<longrightarrow> k \<le> length (children (snd (and_then f g s))))"
    using assms(2) s1 keeps_trans [OF s1(1)] by (cases ok) (simp_all add: and_then_def r safe_step_def)
qed

lemma safe_components: "safe_step k (oid_components env k c)"
proof (induction env k c rule: oid_components.induct)
  case (1 env k c)
  then show ?case
    by (subst oid_components.simps)
      (auto simp: safe_Pair intro!: safe_and_then safe_writes [OF writes_base128] split: prod.splits option.splits)
qed

lemma safe_oid: "safe_step k (CBB_add_asn1_oid_from_text env k c)"
  unfolding CBB_add_asn1_oid_from_text_def flushed_and_then
  by (intro safe_and_then safe_writes [OF writes_flush])
    (auto simp: safe_Pair intro!: safe_and_then safe_writes [OF writes_base128] safe_components split: prod.splits option.splits)

lemma keeps_set_of:
  assumes qs: "sorts qs" and s: "state_ok s" "k \<le> length (children s)"
  shows "keeps s (snd (CBB_flush_asn1_set_of env qs k s))"
proof -
  obtain ok s1 where f: "CBB_flush env k s = (ok, s1)" by (rule prod.exhaust)
  note fl = flush_view [OF s f]
  have so: "step_ok k s (ok, s1)" using fl(1) by (simp add: step_to_def)
  note k1 = keeps_step [OF so, simplified]
  show ?thesis
  proof (cases "ok \<and> (case set_of_elements (CBB_data k s1) of None \<Rightarrow> False | Some ds \<Rightarrow> 2 \<le> length ds)")
    case False
    then show ?thesis
      using k1 by (cases ok) (auto simp: CBB_flush_asn1_set_of_def flushed_def f Let_def split: option.splits)
  next
    case True
    then obtain ds where ok: ok and ds: "set_of_elements (CBB_data k s1) = Some ds" "2 \<le> length ds"
      by (auto split: option.splits)
    have "\<not> failed (base s)"
      using f ok by (cases "drop k (children s)") (auto simp: CBB_flush_def)
    then have nf: "\<not> failed (base s1)" using so ok by (simp add: step_ok_def)
    have s1: "state_ok s1" "length (children s1) = k" using k1 fl(2) [OF ok] s(2) by (simp_all add: keeps_def)
    obtain t where t: "add_elements env k (qs compare_set_of_element ds) (s1\<lparr>base := (base s1)\<lparr>len := cbb_start k s1\<rparr>\<rparr>) = (True, t)"
      "state_ok t" "cap (base t) = cap (base s1)" "can_resize (base t) = can_resize (base s1)" "\<not> failed (base t)"
      using set_of_step [OF s1 nf qs ds, of env] by blast
    have "keeps s1 t" using t nf by (simp add: keeps_def)
    from keeps_trans [OF k1 this] k1 show ?thesis
      using ok ds t(1) by (simp add: CBB_flush_asn1_set_of_def flushed_def f Let_def)
  qed
qed

lemmas keeps_ops = keeps_writes [OF writes_flush] keeps_writes [OF writes_bytes] keeps_writes [OF writes_u8]
  keeps_writes [OF writes_u16] keeps_writes [OF writes_u24] keeps_writes [OF writes_u32] keeps_writes [OF writes_u64]
  keeps_writes [OF writes_u16le] keeps_writes [OF writes_u32le] keeps_writes [OF writes_u64le]
  keeps_writes [OF writes_asn1_uint64] keeps_writes [OF writes_asn1_octet_string] keeps_writes [OF writes_asn1_bool]
  keeps_opens [OF opens_asn1] keeps_opens [OF opens_length_prefixed] keeps_did_write keeps_discard
  keeps_set_of

lemma keeps_call:
  assumes "cbb_call env k f" "state_ok s" "k \<le> length (children s)"
  shows "keeps s (snd (f s))"
  using assms(1)
proof cases
  case (3 n)
  then show ?thesis using keeps_on_base [OF add_step assms(2,3)] by (simp add: CBB_add_space_def)
next
  case (4 n)
  then show ?thesis using keeps_on_base [OF reserve_step assms(2,3)] by (simp add: CBB_reserve_def)
next
  case (20 v)
  obtain d where "writes env k (CBB_add_asn1_int64 env k v) d" using writes_asn1_int64 by blast
  then show ?thesis using keeps_writes assms(2,3) 20 by blast
next
  case (23 c)
  then show ?thesis using safe_oid assms(2,3) by (simp add: safe_step_def)
qed (use assms(2,3) in \<open>simp_all add: keeps_ops CBB_add_u8_length_prefixed_def CBB_add_u16_length_prefixed_def
    CBB_add_u24_length_prefixed_def\<close>)

lemma keeps_run: "cbb_run env s s' \<Longrightarrow> state_ok s \<Longrightarrow> keeps s s'"
proof (induction rule: cbb_run.induct)
  case (run_call s s1 k f)
  then have k: "keeps s s1" by simp
  then have "state_ok s1" by (simp add: keeps_def)
  from keeps_call [OF run_call(3) this run_call(2)] k show ?case by (rule keeps_trans [rotated])
qed (rule keeps_refl)

section \<open>Properties\<close>

text \<open>C15: After any calls on a \<open>CBB\<close> and the ones open in it, whatever sizes the allocator grants and whatever
  failed: the valid bytes lie in the buffer, whose array has the size \<open>cap\<close>, so no call has written
  past its end; a fixed buffer has kept its size; and the children lie one in the other within the
  valid bytes. Once a call has failed on the buffer, no later one makes \<open>CBB_finish\<close> return
  anything.\<close>

theorem cbb_run_safe:
  assumes init: "CBB_init env n = Some s \<or> CBB_init_fixed env b = Some s \<and> length b < 2 ^ 64"
    and run: "cbb_run env s s1" "cbb_run env s1 s2"
  shows "state_ok s2 \<and> unat (len (base s2)) \<le> length (buf (base s2)) \<and> length (buf (base s2)) = unat (cap (base s2)) \<and>
    (\<not> can_resize (base s) \<longrightarrow> length (buf (base s2)) = length b) \<and>
    (failed (base s1) \<longrightarrow> failed (base s2) \<and> CBB_finish env want s2 = None)"
proof -
  have s: "state_ok s" using init init_state(1) init_fixed_state(1) by blast
  have k1: "keeps s s1" by (rule keeps_run [OF run(1) s])
  then have "state_ok s1" by (simp add: keeps_def)
  from keeps_run [OF run(2) this] have k2: "keeps s1 s2" .
  have k: "keeps s s2" by (rule keeps_trans [OF k1 k2])
  have ok: "state_ok s2" "length (buf (base s2)) = unat (cap (base s2))" "unat (len (base s2)) \<le> unat (cap (base s2))"
    using k by (simp_all add: keeps_def state_ok_def buffer_ok_def word_le_nat_alt)
  moreover have "length (buf (base s2)) = length b" if "\<not> can_resize (base s)"
  proof -
    have "CBB_init_fixed env b = Some s" "length b < 2 ^ 64" using init that init_state(5) by blast+
    then have "unat (cap (base s)) = length b"
      by (auto simp: CBB_init_fixed_def unat_of_nat_size split: if_splits)
    then show ?thesis using k that ok(2) by (simp add: keeps_def)
  qed
  moreover have "failed (base s2) \<and> CBB_finish env want s2 = None" if "failed (base s1)"
  proof -
    have "failed (base s2)" using k2 that by (simp add: keeps_def)
    then show ?thesis by (cases "children s2") (simp_all add: CBB_finish_def CBB_flush_def)
  qed
  ultimately show ?thesis by simp
qed

text \<open>Five bytes into a buffer of four, and then two more.\<close>

theorem cbb_run_safe_witness:
  "\<exists>s s1 s2. CBB_init_fixed generous [1, 2, 3, 4] = Some s \<and> cbb_run generous s s1 \<and> cbb_run generous s1 s2 \<and>
     failed (base s1) \<and> length (buf (base s2)) = 4 \<and> CBB_finish generous True s2 = None"
proof -
  let ?s = "the (CBB_init_fixed generous [1, 2, 3, 4])"
  have s: "CBB_init_fixed generous [1, 2, 3, 4] = Some ?s" by (simp add: CBB_init_fixed_def generous_def)
  let ?s1 = "snd (CBB_add_bytes generous 0 [5, 6, 7, 8, 9] ?s)" and ?call = "CBB_add_u16 generous 0 258"
  have r1: "cbb_run generous ?s ?s1" by (rule run_call [OF run_refl, where k = 0]) (auto intro: cbb_call.intros)
  have r2: "cbb_run generous ?s1 (snd (?call ?s1))" by (rule run_call [OF run_refl, where k = 0]) (auto intro: cbb_call.intros)
  have f: "failed (base ?s1)" "\<not> can_resize (base ?s)" by code_simp+
  have "length (buf (base (snd (?call ?s1)))) = 4 \<and> CBB_finish generous True (snd (?call ?s1)) = None"
    using cbb_run_safe [of generous 0 ?s "[1, 2, 3, 4]", OF _ r1 r2, of True] s f by simp
  then show ?thesis using s r1 r2 f(1) by blast
qed

text \<open>Closing children changes nothing before them.\<close>

lemma seal_prefix: "seal cs w = Some w' \<Longrightarrow> children_ok lo cs (length w) \<Longrightarrow> take lo w' = take lo w"
proof (induction cs arbitrary: lo w')
  case (Cons c cs)
  then obtain v where v: "seal cs w = Some v" "seal_child c v = Some w'" by (auto simp: bind_eq_Some_conv)
  have c: "lo \<le> unat (offset c)" "children_ok (child_start c) cs (length w)" using Cons.prems(2) by auto
  have "lo \<le> child_start c" using c(1) by (simp add: child_start_def)
  have "length w \<le> length v" by (rule seal_length [OF v(1) c(2)])
  then have "unat (offset c) \<le> length v" using children_ok_le [OF c(2)] by (simp add: child_start_def)
  then have "take lo w' = take lo v" using v(2) c(1) by (auto simp: seal_child_def min_def)
  also have "\<dots> = take lo (take (child_start c) v)" using \<open>lo \<le> child_start c\<close> by (simp add: min_def)
  also have "\<dots> = take lo w" using Cons.IH [OF v(1) c(2)] \<open>lo \<le> child_start c\<close> by (simp add: min_def)
  finally show ?case .
qed simp

lemma discard_contents:
  assumes o: "opens env 0 f pre a n" and s: "state_ok s" "view 0 s = Some w"
    and xs: "all_in_memory xs" "encodings xs = Some e" and r: "and_then f (emits env 1 xs) s = (True, s2)"
  shows "contents (base (CBB_discard_child 0 s2)) = w @ pre"
proof -
  obtain s1 where f: "f s = (True, s1)" "emits env 1 xs s1 = (True, s2)"
    using r by (auto simp: and_then_def split: prod.splits bool.splits)
  obtain c where c: "step_ok 0 s (True, s1)" "children s1 = [c]" "contents (base s1) = w @ pre @ replicate (unat n) 0"
    "unat (offset c) = length (w @ pre)"
    using o [unfolded opens_def, rule_format, OF s(1) _ f(1)] s(2) by auto
  have s1: "state_ok s1" using c(1) by (simp add: step_ok_def)
  have "step_to env 1 s1 (Some (w @ pre @ replicate (unat n) 0 @ e)) (True, s2)"
    using writesD [OF writes_document(2) [OF xs(1)] s1, of 1 env] f(2) c(2,3) xs(2) by (simp add: view_def)
  then have s2: "state_ok s2" "take 1 (children s2) = [c]" "1 \<le> length (children s2)"
    "seal (drop 1 (children s2)) (contents (base s2)) = Some (w @ pre @ replicate (unat n) 0 @ e)"
    by (simp_all add: step_to_def step_ok_def c(2) view_def)
  have ch: "children s2 = c # drop 1 (children s2)" using s2(2) append_take_drop_id [of 1 "children s2"] by simp
  have b: "buffer_ok (base s2)" using s2(1) by (simp add: state_ok_def)
  have ok: "children_ok (child_start c) (drop 1 (children s2)) (length (contents (base s2)))" "unat (offset c) \<le> unat (len (base s2))"
    using s2(1) children_ok.simps(2) [of 0 c "drop 1 (children s2)"] unfolding state_ok_def ch [symmetric]
    by (simp_all add: length_contents b child_ok_def)
  let ?o = "unat (offset c)"
  have "take ?o (contents (base s2)) = take ?o (take (child_start c) (contents (base s2)))"
    by (simp add: child_start_def min_def)
  also have "\<dots> = take ?o (take (child_start c) (w @ pre @ replicate (unat n) 0 @ e))"
    by (simp only: seal_prefix [OF s2(4) ok(1)])
  also have "\<dots> = w @ pre" using c(4) by (simp add: child_start_def min_def)
  finally have "take ?o (contents (base s2)) = w @ pre" .
  moreover have "children s2 ! 0 = c" "children s2 \<noteq> []" using ch by (metis nth_Cons_0, auto)
  ultimately show ?thesis
    using ok(2) by (simp add: CBB_discard_child_def contents_def min_def)
qed

text \<open>C39: \<open>CBB_discard_child\<close> takes back a length-prefixed child with all that has been put in it: the
  contents are what they were. Of an ASN.1 child it leaves the tag behind, with no length and no
  contents, although the documentation promises that nothing of the child is output.\<close>

theorem CBB_discard_child_leaves_tag:
  assumes "state_ok s" "view 0 s = Some w" "all_in_memory xs" "encodings xs = Some e"
  shows "(and_then (CBB_add_u16_length_prefixed env 0) (emits env 1 xs) s = (True, t) \<longrightarrow>
      contents (base (CBB_discard_child 0 t)) = w) \<and>
    (and_then (CBB_add_asn1 env 0 tag) (emits env 1 xs) s = (True, t) \<longrightarrow>
      contents (base (CBB_discard_child 0 t)) = w @ tag_octets tag)"
  using discard_contents [OF opens_length_prefixed [of 2] assms] discard_contents [OF opens_asn1 assms]
  by (simp add: CBB_add_u16_length_prefixed_def)

theorem CBB_discard_child_leaves_tag_witness:
  "contents (base (CBB_discard_child 0
     (snd (and_then (CBB_add_asn1 generous 0 0x20000010) (emits generous 1 [U8 1, Asn1_bool True]) (the (CBB_init generous 4)))))) =
   [0x30]"
proof -
  let ?s = "the (CBB_init generous 4)" and ?xs = "[U8 1, Asn1_bool True]"
  let ?r = "and_then (CBB_add_asn1 generous 0 0x20000010) (emits generous 1 ?xs) ?s"
  have "CBB_init generous 4 = Some ?s" by (simp add: CBB_init_def generous_def)
  note i = init_state [OF this]
  have v: "view 0 ?s = Some []" using i(2,3) by (simp add: view_def)
  obtain e where e: "encodings ?xs = Some e" by simp
  have "fst ?r" by code_simp
  then obtain s2 where r: "?r = (True, s2)" by (cases ?r) simp
  have "contents (base (CBB_discard_child 0 s2)) = [] @ tag_octets 0x20000010"
    using CBB_discard_child_leaves_tag [OF i(1) v _ e, where t = s2 and tag = "0x20000010" and env = generous] r by simp
  moreover have "tag_octets 0x20000010 = [0x30]" by (simp add: tag_octets_def Let_def)
  ultimately show ?thesis unfolding r by simp
qed

end
