(* ===== verification/Crypto_Ber.thy ===== *)
theory Crypto_Ber
  imports Crypto_Document
begin

text \<open>
  From BER to DER: \<^verbatim>\<open>ios/Pods/BoringSSL-GRPC/src/crypto/bytestring/ber.c\<close>. The walk that looks for BER and
  the conversion, which reads a \<open>CBS\<close> and writes a \<open>CBB\<close> as they are modelled in \<open>Crypto_Cbs\<close> and
  \<open>Crypto_Cbb\<close>. Against them stand trees of BER elements, their octets and their DER form: what is
  converted is the octets of a tree, and the result is its DER form. Two theorems show where that fails: BER
  that the walk does not see, and BIT STRINGs in several pieces.
\<close>

section \<open>Elements\<close>

text \<open>An element with a length, or the header of one without, whose end is marked in what follows.\<close>

lemma octet_0x80:
  assumes "(b :: byte) AND 0x80 \<noteq> 0" "b AND 0x7f = 0"
  shows "b = 0x80"
proof -
  have "128 \<le> unat b" "unat b mod 128 = 0" using assms byte_digit [of b] by simp_all
  then have "unat b = unat (0x80 :: byte)" using unat_byte_less [of b] by auto
  then show ?thesis by (simp only: word_eq_iff_unsigned [where ?'a = nat])
qed

lemma ucast_byte_0: "(ucast (b :: byte) :: size_t) = 0 \<longleftrightarrow> b = 0"
  by (simp add: word_eq_iff_unsigned [where ?'a = nat] unat_ucast_up)

lemma any_ber_element_cases:
  obtains (definite) "CBS_get_any_ber_asn1_element c = CBS_get_any_asn1_element c"
      "\<And>t rest. t AND CBS_ASN1_CONSTRUCTED \<noteq> 0 \<Longrightarrow> c \<noteq> tag_octets t @ 0x80 # rest"
  | (header) t h rest where "t AND CBS_ASN1_CONSTRUCTED \<noteq> 0" "c = tag_octets t @ 0x80 # rest" "unat h = length (tag_octets t) + 1"
      "CBS_get_any_ber_asn1_element c = (Some (tag_octets t @ [0x80], t, h), rest)" "CBS_get_any_asn1_element c = (None, c)"
proof -
  obtain p header where p: "parse_asn1_tag c = (p, header)" by (rule prod.exhaust)
  show ?thesis
  proof (cases "\<exists>t rest. p = Some t \<and> header = 0x80 # rest \<and> t AND CBS_ASN1_CONSTRUCTED \<noteq> 0")
    case False
    have "cbs_get_any_asn1_element c True = cbs_get_any_asn1_element c False"
      using False octet_0x80 unfolding cbs_get_any_asn1_element_def p
      by (cases p; cases header) (auto simp: Let_def ucast_byte_0)
    then have "CBS_get_any_ber_asn1_element c = CBS_get_any_asn1_element c"
      by (simp add: CBS_get_any_ber_asn1_element_def CBS_get_any_asn1_element_def)
    moreover have "c \<noteq> tag_octets t @ 0x80 # rest" if "t AND CBS_ASN1_CONSTRUCTED \<noteq> 0" for t rest
      using that False p parse_asn1_tag_octets [of t "0x80 # rest"] by auto
    ultimately show ?thesis using definite by blast
  next
    case True
    then obtain u rest where u: "p = Some u" "header = 0x80 # rest" "u AND CBS_ASN1_CONSTRUCTED \<noteq> 0" by blast
    have c: "c = tag_octets u @ 0x80 # rest" using parse_asn1_tag_sound [of c u "0x80 # rest"] p u by simp
    define k where "k = length (tag_octets u) + 1"
    have h: "(of_nat (length c) - of_nat (length rest) :: size_t) = of_nat k" by (simp add: c k_def)
    have uk: "unat (of_nat k :: size_t) = k" using length_tag_octets(2) [of u] by (intro unat_of_nat_size) (simp add: k_def)
    have "CBS_get_any_asn1_element c = (None, c)"
      by (simp add: CBS_get_any_asn1_element_def cbs_get_any_asn1_element_def p u(1,2) Let_def)
    moreover have "CBS_get_any_ber_asn1_element c = (Some (tag_octets u @ [0x80], u, of_nat k), rest)"
      using u(3) h uk unfolding k_def by (simp add: CBS_get_any_ber_asn1_element_def cbs_get_any_asn1_element_def p u(1,2) Let_def
          CBS_get_bytes_def cbs_get_def) (simp add: c)
    ultimately show ?thesis using header u(3) c uk unfolding k_def by blast
  qed
qed

lemma any_ber_element_fails: "fst (CBS_get_any_ber_asn1_element c) = None \<Longrightarrow> snd (CBS_get_any_ber_asn1_element c) = c"
  by (cases c rule: any_ber_element_cases) (simp_all add: any_element_fails)

lemma any_ber_element_definite:
  assumes "CBS_get_any_asn1_element c = (Some r, c')"
  shows "CBS_get_any_ber_asn1_element c = (Some r, c')"
  by (cases c rule: any_ber_element_cases) (use assms in simp_all)

lemma any_ber_element_header:
  assumes "t AND CBS_ASN1_CONSTRUCTED \<noteq> 0"
  obtains h where "unat h = length (tag_octets t) + 1"
    "CBS_get_any_ber_asn1_element (tag_octets t @ 0x80 # c) = (Some (tag_octets t @ [0x80], t, h), c)"
proof (cases "tag_octets t @ 0x80 # c" rule: any_ber_element_cases)
  case (header u h rest)
  then show ?thesis using that asn1_tag.prefix_free [where x = t and y = u and c = "0x80 # c" and d = "0x80 # rest"] by auto
qed (use assms in blast)

lemma any_ber_element_less:
  assumes "CBS_get_any_ber_asn1_element c = (Some (out, t, h), c')"
  shows "length c' < length c" "c = out @ c'" "2 \<le> unat h" "unat h \<le> length out"
proof -
  have "c = out @ c' \<and> 2 \<le> unat h \<and> unat h \<le> length out"
  proof (cases c rule: any_ber_element_cases)
    case definite
    then have "CBS_get_any_asn1_element c = (Some (out, t, h), c')" using assms by simp
    then show ?thesis using length_asn1_header(1) [of t] by (auto simp: any_element_iff element_def)
  next
    case (header u k rest)
    then show ?thesis using assms length_tag_octets(1) [of t] by auto
  qed
  then show "length c' < length c" "c = out @ c'" "2 \<le> unat h" "unat h \<le> length out" by auto
qed

section \<open>The code\<close>

definition kMaxDepth :: nat where "kMaxDepth = 2048"

definition CBS_ASN1_BITSTRING :: u32 where "CBS_ASN1_BITSTRING = 0x3"
definition CBS_ASN1_UTF8STRING :: u32 where "CBS_ASN1_UTF8STRING = 0xc"
definition CBS_ASN1_NUMERICSTRING :: u32 where "CBS_ASN1_NUMERICSTRING = 0x12"
definition CBS_ASN1_PRINTABLESTRING :: u32 where "CBS_ASN1_PRINTABLESTRING = 0x13"
definition CBS_ASN1_T61STRING :: u32 where "CBS_ASN1_T61STRING = 0x14"
definition CBS_ASN1_VIDEOTEXSTRING :: u32 where "CBS_ASN1_VIDEOTEXSTRING = 0x15"
definition CBS_ASN1_IA5STRING :: u32 where "CBS_ASN1_IA5STRING = 0x16"
definition CBS_ASN1_GRAPHICSTRING :: u32 where "CBS_ASN1_GRAPHICSTRING = 0x19"
definition CBS_ASN1_VISIBLESTRING :: u32 where "CBS_ASN1_VISIBLESTRING = 0x1a"
definition CBS_ASN1_GENERALSTRING :: u32 where "CBS_ASN1_GENERALSTRING = 0x1b"
definition CBS_ASN1_UNIVERSALSTRING :: u32 where "CBS_ASN1_UNIVERSALSTRING = 0x1c"
definition CBS_ASN1_BMPSTRING :: u32 where "CBS_ASN1_BMPSTRING = 0x1e"

definition is_string_type :: "u32 \<Rightarrow> bool" where
  "is_string_type tag \<longleftrightarrow>
     tag AND NOT CBS_ASN1_CONSTRUCTED \<in>
       {CBS_ASN1_BITSTRING, CBS_ASN1_OCTETSTRING, CBS_ASN1_UTF8STRING, CBS_ASN1_NUMERICSTRING,
        CBS_ASN1_PRINTABLESTRING, CBS_ASN1_T61STRING, CBS_ASN1_VIDEOTEXSTRING, CBS_ASN1_IA5STRING,
        CBS_ASN1_GRAPHICSTRING, CBS_ASN1_VISIBLESTRING, CBS_ASN1_GENERALSTRING, CBS_ASN1_UNIVERSALSTRING,
        CBS_ASN1_BMPSTRING}"

text \<open>The test for an element that is no more than a header of indefinite length.\<close>

definition indefinite :: "size_t \<Rightarrow> cbs \<Rightarrow> bool" where
  "indefinite header_len elem \<longleftrightarrow>
     length elem = unat header_len \<and> header_len > 0 \<and> elem ! (unat header_len - 1) = 0x80"

text \<open>The walk: success, and \<open>ber_found\<close>, which every call sets to 0 when it starts.\<close>

function cbs_find_ber :: "cbs \<Rightarrow> bool \<Rightarrow> nat \<Rightarrow> bool \<times> bool"
  and find_ber_loop :: "cbs \<Rightarrow> bool \<Rightarrow> nat \<Rightarrow> bool \<times> bool" where
  "cbs_find_ber orig_in ber_found depth =
     (if depth > kMaxDepth then (False, ber_found) else find_ber_loop orig_in False depth)"
| "find_ber_loop inp ber_found depth =
     (if inp = [] then (True, ber_found)
      else
        (case CBS_get_any_ber_asn1_element inp of
           (None, _) \<Rightarrow> (False, ber_found)
         | (Some (elem, tag, header_len), inp) \<Rightarrow>
             if indefinite header_len elem then (True, True)
             else if tag AND CBS_ASN1_CONSTRUCTED \<noteq> 0 then
               if is_string_type tag then (True, True)
               else
                 (case CBS_skip elem header_len of
                    (False, _) \<Rightarrow> (False, ber_found)
                  | (True, elem) \<Rightarrow>
                      (case cbs_find_ber elem ber_found (depth + 1) of
                         (False, ber_found) \<Rightarrow> (False, ber_found)
                       | (True, ber_found) \<Rightarrow> find_ber_loop inp ber_found depth))
             else find_ber_loop inp ber_found depth))"
  by pat_completeness auto
termination
proof (relation "measure (case_sum (\<lambda>(c, _, _). 2 * length c + 1) (\<lambda>(c, _, _). 2 * length c))", goal_cases)
  case (3 inp ber_found depth r inp' x elem y tag header_len ok elem')
  have e: "CBS_get_any_ber_asn1_element inp = (Some (elem, tag, header_len), inp')" using 3 by simp
  have "length elem' < length inp"
    using any_ber_element_less(2-4) [OF e] 3(2-) by (auto simp: CBS_skip_def cbs_get_def split: if_splits)
  then show ?case by simp
next
  case (4 inp ber_found depth r inp')
  then have "length inp' < length inp" by (metis any_ber_element_less(1))
  then show ?case by simp
next
  case (5 inp ber_found depth r inp')
  then have "length inp' < length inp" by (metis any_ber_element_less(1))
  then show ?case by simp
qed simp_all

declare cbs_find_ber.simps [simp del] find_ber_loop.simps [simp del]

definition is_eoc :: "size_t \<Rightarrow> cbs \<Rightarrow> bool" where
  "is_eoc header_len elem \<longleftrightarrow> header_len = 2 \<and> length elem = 2 \<and> memcmp elem [0, 0] = 0"

text \<open>The tag of an element that starts outside a constructed string, the string tag of what is in it, and the
  \<open>CBB\<close> that its contents go to.\<close>

definition starts_string :: "u32 \<Rightarrow> bool" where
  "starts_string tag \<longleftrightarrow> tag AND CBS_ASN1_CONSTRUCTED \<noteq> 0 \<and> is_string_type tag"

definition out_tag :: "u32 \<Rightarrow> u32" where
  "out_tag tag = (if starts_string tag then tag AND NOT CBS_ASN1_CONSTRUCTED else tag)"

definition child_string_tag :: "u32 \<Rightarrow> u32 \<Rightarrow> u32" where
  "child_string_tag string_tag tag = (if string_tag = 0 \<and> starts_string tag then out_tag tag else string_tag)"

definition out_contents :: "u32 \<Rightarrow> nat \<Rightarrow> nat" where
  "out_contents string_tag k = (if string_tag \<noteq> 0 then k else k + 1)"

definition open_contents :: "allocator \<Rightarrow> nat \<Rightarrow> u32 \<Rightarrow> u32 \<Rightarrow> cbb_st \<Rightarrow> bool \<times> cbb_st" where
  "open_contents env k string_tag tag = (if string_tag \<noteq> 0 then Pair True else CBB_add_asn1 env k (out_tag tag))"

text \<open>The conversion: success, what is left of the input, and the state of \<open>out\<close>, the \<open>CBB\<close> of depth \<open>k\<close>.\<close>

function cbs_convert_ber ::
  "allocator \<Rightarrow> nat \<Rightarrow> cbs \<Rightarrow> u32 \<Rightarrow> bool \<Rightarrow> nat \<Rightarrow> cbb_st \<Rightarrow> bool \<times> cbs \<times> cbb_st" where
  "cbs_convert_ber env k inp string_tag looking_for_eoc depth s =
     (if depth > kMaxDepth then (False, inp, s)
      else if inp = [] then (\<not> looking_for_eoc, inp, s)
      else
        (case CBS_get_any_ber_asn1_element inp of
           (None, inp) \<Rightarrow> (False, inp, s)
         | (Some (elem, tag, header_len), inp) \<Rightarrow>
             if is_eoc header_len elem then (looking_for_eoc, inp, s)
             else if string_tag \<noteq> 0 \<and> tag AND NOT CBS_ASN1_CONSTRUCTED \<noteq> string_tag then (False, inp, s)
             else
               (case open_contents env k string_tag tag s of
                  (False, s) \<Rightarrow> (False, inp, s)
                | (True, s) \<Rightarrow>
                    if indefinite header_len elem then
                      (case cbs_convert_ber env (out_contents string_tag k) inp (child_string_tag string_tag tag) True (depth + 1) s of
                         (False, inp, s) \<Rightarrow> (False, inp, s)
                       | (True, inp, s) \<Rightarrow>
                           (case CBB_flush env k s of
                              (False, s) \<Rightarrow> (False, inp, s)
                            | (True, s) \<Rightarrow> cbs_convert_ber env k inp string_tag looking_for_eoc depth s))
                    else
                      (case CBS_skip elem header_len of
                         (False, _) \<Rightarrow> (False, inp, s)
                       | (True, body) \<Rightarrow>
                           (case (if tag AND CBS_ASN1_CONSTRUCTED \<noteq> 0
                                  then (case cbs_convert_ber env (out_contents string_tag k) body
                                               (child_string_tag string_tag tag) False (depth + 1) s of
                                          (ok, _, s) \<Rightarrow> (ok, s))
                                  else CBB_add_bytes env (out_contents string_tag k) body s) of
                              (False, s) \<Rightarrow> (False, inp, s)
                            | (True, s) \<Rightarrow>
                                (case CBB_flush env k s of
                                   (False, s) \<Rightarrow> (False, inp, s)
                                 | (True, s) \<Rightarrow> cbs_convert_ber env k inp string_tag looking_for_eoc depth s))))))"
  by pat_completeness auto

text \<open>The loop ends because an inner call does not lengthen the input.\<close>

lemma convert_ber_shrinks:
  assumes "cbs_convert_ber_dom (env, k, inp, string_tag, looking_for_eoc, depth, s)"
    "cbs_convert_ber env k inp string_tag looking_for_eoc depth s = (ok, inp', s')"
  shows "length inp' \<le> length inp"
  using assms
proof (induction arbitrary: ok inp' s' rule: cbs_convert_ber.pinduct)
  case (1 env k inp string_tag looking_for_eoc depth s)
  let ?call = "cbs_convert_ber env k inp string_tag looking_for_eoc depth s"
  note call = 1(6) [unfolded cbs_convert_ber.psimps [OF 1(1)]]
  show ?case
  proof (cases "depth > kMaxDepth \<or> inp = []")
    case True
    then show ?thesis using call by (auto split: if_splits)
  next
    case False
    then have go: "\<not> depth > kMaxDepth" "inp \<noteq> []" by simp_all
    obtain r inp1 where g: "CBS_get_any_ber_asn1_element inp = (r, inp1)" by (rule prod.exhaust)
    show ?thesis
    proof (cases r)
      case None
      then show ?thesis using call go g any_ber_element_fails [of inp] by simp
    next
      case (Some x)
      obtain elem tag h where x: "x = (elem, tag, h)" by (rule prod_cases3)
      have less: "length inp1 < length inp" using g Some x by (simp add: any_ber_element_less(1))
      obtain ok1 s1 where o: "open_contents env k string_tag tag s = (ok1, s1)" by (rule prod.exhaust)
      show ?thesis
      proof (cases "is_eoc h elem \<or> (string_tag \<noteq> 0 \<and> tag AND NOT CBS_ASN1_CONSTRUCTED \<noteq> string_tag) \<or> \<not> ok1")
        case True
        then show ?thesis using call less by (auto simp: go g Some x o split: if_splits bool.splits)
      next
        case False
        then have go1: "\<not> is_eoc h elem" "\<not> (string_tag \<noteq> 0 \<and> tag AND NOT CBS_ASN1_CONSTRUCTED \<noteq> string_tag)" "ok1 = True"
          by auto
        note IH = 1(2-5) [OF go g [symmetric] Some x [symmetric] refl go1(1,2) o [symmetric] go1(3)]
        note call = call [unfolded g Some x o go1(3) prod.case option.case bool.case if_not_P [OF go(1)] if_not_P [OF go(2)]
            if_not_P [OF go1(1)] if_not_P [OF go1(2)]]
        show ?thesis
        proof (cases "indefinite h elem")
          case True
          obtain ok2 inp2 s2 where c: "cbs_convert_ber env (out_contents string_tag k) inp1 (child_string_tag string_tag tag) True (depth + 1) s1 = (ok2, inp2, s2)"
            by (rule prod_cases3)
          obtain ok3 s3 where f: "CBB_flush env k s2 = (ok3, s3)" by (rule prod.exhaust)
          have "length inp2 \<le> length inp1" by (rule IH(1) [OF True c])
          moreover have "length inp' \<le> length inp2"
            using call True IH(2) [OF True c [symmetric] _ refl f [symmetric]] by (cases ok2; cases ok3) (simp_all add: c [simplified] f)
          ultimately show ?thesis using less by simp
        next
          case False
          have "length inp' \<le> length inp1"
            using call False IH(4) [OF False] by (auto split: prod.splits bool.splits if_splits)
          then show ?thesis using less by simp
        qed
      qed
    qed
  qed
qed

lemma depth_decreases:
  "\<not> depth > kMaxDepth \<Longrightarrow>
     ((env', k', inp', t', l', depth + 1, s'), env, k, inp, t, l, depth, s) \<in>
       measures [\<lambda>(_, _, _, _, _, depth, _). 2049 - depth, \<lambda>(_, _, inp, _). length inp]"
  by (simp add: kMaxDepth_def) linarith

lemma input_decreases:
  "length inp' < length inp \<Longrightarrow>
     ((env', k', inp', t', l', depth, s'), env, k, inp, t, l, depth, s) \<in>
       measures [\<lambda>(_, _, _, _, _, depth, _). 2049 - depth, \<lambda>(_, _, inp, _). length inp]"
  by simp

termination cbs_convert_ber
proof (relation "measures [\<lambda>(_, _, _, _, _, depth, _). 2049 - depth, \<lambda>(_, _, inp, _). length inp]", goal_cases)
  case (3 env k inp string_tag looking depth s r inp1 x elem y tag h ok s1 ok2 inp2s inp2)
  have "length inp1 < length inp" using 3(3-6) by (metis any_ber_element_less(1))
  moreover have "length inp2 \<le> length inp1" using convert_ber_shrinks [OF 3(17)] 3(12,14) by metis
  ultimately show ?case by (intro input_decreases) simp
next
  case (5 env k inp)
  show ?case by (rule input_decreases) (use 5(3-6) any_ber_element_less(1) in metis)
qed (simp, (intro depth_decreases, assumption)+)

declare cbs_convert_ber.simps [simp del]

text \<open>The result is \<open>out\<close> with \<open>*out_storage\<close>, \<open>None\<close> when that is set to \<open>NULL\<close>.\<close>

definition CBS_asn1_ber_to_der :: "allocator \<Rightarrow> cbs \<Rightarrow> (cbs \<times> byte list option) option \<times> cbs" where
  "CBS_asn1_ber_to_der env inp =
     (case cbs_find_ber inp False 0 of
        (False, _) \<Rightarrow> (None, inp)
      | (True, conversion_needed) \<Rightarrow>
          if \<not> conversion_needed then
            (case CBS_get_any_asn1_element inp of (r, inp) \<Rightarrow> (map_option (\<lambda>(out, _, _). (out, None)) r, inp))
          else
            (case CBB_init env (of_nat (length inp)) of
               None \<Rightarrow> (None, inp)
             | Some cbb \<Rightarrow>
                 (case cbs_convert_ber env 0 inp 0 False 0 cbb of
                    (False, inp, _) \<Rightarrow> (None, inp)
                  | (True, inp, cbb) \<Rightarrow>
                      (map_option (\<lambda>storage. (storage, Some storage)) (CBB_finish env True cbb), inp))))"

lemma get_asn1_less: "CBS_get_asn1 c t = (Some d, c') \<Longrightarrow> length c' < length c"
  using length_asn1_header(1) [of t "length d"] by (auto simp: asn1_iff element_def)

function implicit_chunks :: "allocator \<Rightarrow> u32 \<Rightarrow> cbs \<Rightarrow> cbb_st \<Rightarrow> bool \<times> cbb_st" where
  "implicit_chunks env inner_tag child s =
     (if child = [] then (True, s)
      else
        (case CBS_get_asn1 child inner_tag of
           (None, _) \<Rightarrow> (False, s)
         | (Some chunk, child) \<Rightarrow>
             (case CBB_add_bytes env 0 chunk s of
                (False, s) \<Rightarrow> (False, s)
              | (True, s) \<Rightarrow> implicit_chunks env inner_tag child s)))"
  by pat_completeness auto
termination
  by (relation "measure (\<lambda>(_, _, child, _). length child)") (simp, metis get_asn1_less case_prod_conv in_measure)

declare implicit_chunks.simps [simp del]

definition CBS_get_asn1_implicit_string ::
  "allocator \<Rightarrow> cbs \<Rightarrow> u32 \<Rightarrow> u32 \<Rightarrow> (cbs \<times> byte list option) option \<times> cbs" where
  "CBS_get_asn1_implicit_string env inp outer_tag inner_tag =
     (if CBS_peek_asn1_tag inp outer_tag then
        (case CBS_get_asn1 inp outer_tag of (r, inp) \<Rightarrow> (map_option (\<lambda>out. (out, None)) r, inp))
      else
        (case CBB_init env (of_nat (length inp)) of
           None \<Rightarrow> (None, inp)
         | Some result \<Rightarrow>
             (case CBS_get_asn1 inp (outer_tag OR CBS_ASN1_CONSTRUCTED) of
                (None, inp) \<Rightarrow> (None, inp)
              | (Some child, inp) \<Rightarrow>
                  (case implicit_chunks env inner_tag child result of
                     (False, _) \<Rightarrow> (None, inp)
                   | (True, result) \<Rightarrow>
                       (map_option (\<lambda>storage. (storage, Some storage)) (CBB_finish env True result), inp)))))"

section \<open>Trees of elements\<close>

text \<open>A primitive element, and a constructed one with or without a definite length.\<close>

datatype ber = Prim u32 "byte list" | Constr u32 bool "ber list"

fun ber_octets :: "ber \<Rightarrow> byte list" and forest_octets :: "ber list \<Rightarrow> byte list" where
  "ber_octets (Prim t d) = element (t, d)"
| "ber_octets (Constr t indef xs) =
     (if indef then tag_octets t @ [0x80] @ forest_octets xs @ [0, 0] else element (t, forest_octets xs))"
| "forest_octets [] = []"
| "forest_octets (x # xs) = ber_octets x @ forest_octets xs"

text \<open>\<open>st\<close> is the tag of the string that the element is a fragment of, 0 when there is none.\<close>

definition string_in :: "u32 \<Rightarrow> u32 \<Rightarrow> u32" where
  "string_in st t = (if st \<noteq> 0 then st else if is_string_type t then t AND NOT CBS_ASN1_CONSTRUCTED else 0)"

fun ber_ok :: "u32 \<Rightarrow> ber \<Rightarrow> bool" and forest_ok :: "u32 \<Rightarrow> ber list \<Rightarrow> bool" where
  "ber_ok st (Prim t d) \<longleftrightarrow>
     t AND CBS_ASN1_CONSTRUCTED = 0 \<and> length d < 2 ^ 32 \<and> \<not> (t = 0 \<and> d = []) \<and> (st \<noteq> 0 \<longrightarrow> t = st)"
| "ber_ok st (Constr t indef xs) \<longleftrightarrow>
     t AND CBS_ASN1_CONSTRUCTED \<noteq> 0 \<and> (\<not> indef \<longrightarrow> length (forest_octets xs) < 2 ^ 32) \<and>
     (st \<noteq> 0 \<longrightarrow> t AND NOT CBS_ASN1_CONSTRUCTED = st) \<and> forest_ok (string_in st t) xs"
| "forest_ok st [] \<longleftrightarrow> True"
| "forest_ok st (x # xs) \<longleftrightarrow> ber_ok st x \<and> forest_ok st xs"

fun ber_height :: "ber \<Rightarrow> nat" and forest_height :: "ber list \<Rightarrow> nat" where
  "ber_height (Prim t d) = 0"
| "ber_height (Constr t indef xs) = forest_height xs + 1"
| "forest_height [] = 0"
| "forest_height (x # xs) = max (ber_height x) (forest_height xs)"

text \<open>The pieces of a string, from left to right, and the contents of the string that they stand for. The pieces
  of a BIT STRING each begin with their count of unused bits, of which the last one counts (X.690, 8.6.4).\<close>

fun ber_pieces :: "ber \<Rightarrow> byte list list" and forest_pieces :: "ber list \<Rightarrow> byte list list" where
  "ber_pieces (Prim t d) = [d]"
| "ber_pieces (Constr t indef xs) = forest_pieces xs"
| "forest_pieces [] = []"
| "forest_pieces (x # xs) = ber_pieces x @ forest_pieces xs"

definition bits_joined :: "byte list list \<Rightarrow> byte list" where
  "bits_joined ds = (if ds = [] then [0] else take 1 (last ds) @ concat (map (drop 1) ds))"

definition string_contents :: "u32 \<Rightarrow> byte list list \<Rightarrow> byte list" where
  "string_contents t ds = (if t = CBS_ASN1_BITSTRING then bits_joined ds else concat ds)"

text \<open>The DER form: definite lengths, and every string in one piece. \<open>None\<close> when a length is out of range.\<close>

fun ber_der :: "ber \<Rightarrow> byte list option" and forest_der :: "ber list \<Rightarrow> byte list option" where
  "ber_der (Prim t d) = der t d"
| "ber_der (Constr t indef xs) =
     (if is_string_type t then
        der (t AND NOT CBS_ASN1_CONSTRUCTED) (string_contents (t AND NOT CBS_ASN1_CONSTRUCTED) (forest_pieces xs))
      else Option.bind (forest_der xs) (der t))"
| "forest_der [] = Some []"
| "forest_der (x # xs) = cat (ber_der x) (forest_der xs)"

text \<open>What the code writes: the pieces of every string one after the other.\<close>

fun ber_fragments :: "ber \<Rightarrow> byte list" and forest_fragments :: "ber list \<Rightarrow> byte list" where
  "ber_fragments (Prim t d) = d"
| "ber_fragments (Constr t indef xs) = forest_fragments xs"
| "forest_fragments [] = []"
| "forest_fragments (x # xs) = ber_fragments x @ forest_fragments xs"

fun ber_joined :: "ber \<Rightarrow> byte list option" and forest_joined :: "ber list \<Rightarrow> byte list option" where
  "ber_joined (Prim t d) = der t d"
| "ber_joined (Constr t indef xs) =
     (if is_string_type t then der (t AND NOT CBS_ASN1_CONSTRUCTED) (forest_fragments xs)
      else Option.bind (forest_joined xs) (der t))"
| "forest_joined [] = Some []"
| "forest_joined (x # xs) = cat (ber_joined x) (forest_joined xs)"


lemma fragments_pieces:
  "ber_fragments x = concat (ber_pieces x)" "forest_fragments xs = concat (forest_pieces xs)"
  by (induction x and xs rule: ber_pieces_forest_pieces.induct) simp_all



section \<open>The conversion of a tree\<close>

text \<open>What is written for a tree, and that it is the DER form.\<close>

fun ber_write :: "allocator \<Rightarrow> nat \<Rightarrow> u32 \<Rightarrow> ber \<Rightarrow> cbb_st \<Rightarrow> bool \<times> cbb_st"
  and forest_write :: "allocator \<Rightarrow> nat \<Rightarrow> u32 \<Rightarrow> ber list \<Rightarrow> cbb_st \<Rightarrow> bool \<times> cbb_st" where
  "ber_write env k st (Prim t d) =
     and_then (open_contents env k st t) (and_then (CBB_add_bytes env (out_contents st k) d) (CBB_flush env k))"
| "ber_write env k st (Constr t indef xs) =
     and_then (open_contents env k st t)
       (and_then (forest_write env (out_contents st k) (child_string_tag st t) xs) (CBB_flush env k))"
| "forest_write env k st [] = Pair True"
| "forest_write env k st (x # xs) = and_then (ber_write env k st x) (forest_write env k st xs)"

lemma string_type_nz: "is_string_type t \<Longrightarrow> t AND NOT CBS_ASN1_CONSTRUCTED \<noteq> 0"
  by (auto simp: is_string_type_def CBS_ASN1_BITSTRING_def CBS_ASN1_OCTETSTRING_def CBS_ASN1_UTF8STRING_def
      CBS_ASN1_NUMERICSTRING_def CBS_ASN1_PRINTABLESTRING_def CBS_ASN1_T61STRING_def CBS_ASN1_VIDEOTEXSTRING_def
      CBS_ASN1_IA5STRING_def CBS_ASN1_GRAPHICSTRING_def CBS_ASN1_VISIBLESTRING_def CBS_ASN1_GENERALSTRING_def
      CBS_ASN1_UNIVERSALSTRING_def CBS_ASN1_BMPSTRING_def)

lemma child_tag_string_in: "t AND CBS_ASN1_CONSTRUCTED \<noteq> 0 \<Longrightarrow> child_string_tag st t = string_in st t"
  by (simp add: child_string_tag_def string_in_def starts_string_def out_tag_def)

lemma writes_contents:
  assumes g: "writes env (out_contents st k) g e"
  shows "writes env k (and_then (open_contents env k st t) (and_then g (CBB_flush env k)))
    (if st \<noteq> 0 then e else Option.bind e (der (out_tag t)))"
proof (cases "st = 0")
  case True
  then have "writes env (k + 1) g e" using g by (simp add: out_contents_def)
  from writes_and_then [OF writes_asn1 [OF this, of "out_tag t"] writes_flush] True show ?thesis
    by (simp add: open_contents_def and_then_assoc)
next
  case False
  then have "writes env k g e" using g by (simp add: out_contents_def)
  from writes_and_then [OF writes_skip writes_and_then [OF this writes_flush]] False show ?thesis
    by (simp add: open_contents_def)
qed

lemma writes_ber:
  "ber_ok st x \<Longrightarrow> writes env k (ber_write env k st x) (if st \<noteq> 0 then Some (ber_fragments x) else ber_joined x)"
  "forest_ok st xs \<Longrightarrow> writes env k (forest_write env k st xs) (if st \<noteq> 0 then Some (forest_fragments xs) else forest_joined xs)"
proof (induction st x and st xs arbitrary: k and k rule: ber_ok_forest_ok.induct)
  case (1 st t d)
  then have "length d < 2 ^ 64" "out_tag t = t" by (simp_all add: out_tag_def starts_string_def)
  then show ?case using writes_contents [OF writes_bytes, where d1 = d and t = t and st = st and k = k and env = env] by (cases "st = 0") simp_all
next
  case (2 st t indef xs)
  then have "child_string_tag st t = string_in st t" by (simp add: child_tag_string_in)
  then have g: "writes env (out_contents st k) (forest_write env (out_contents st k) (child_string_tag st t) xs)
      (if string_in st t \<noteq> 0 then Some (forest_fragments xs) else forest_joined xs)"
    using 2 by simp
  have o: "out_tag t = (if is_string_type t then t AND NOT CBS_ASN1_CONSTRUCTED else t)"
    using 2 by (simp add: out_tag_def starts_string_def)
  show ?case
    using writes_contents [OF g, where t = t] string_type_nz [of t]
    by (auto simp: string_in_def o split: if_splits)
next
  case (3 st)
  show ?case using writes_skip by simp
next
  case (4 st x xs)
  then show ?case using writes_and_then [of env k "ber_write env k st x" _ "forest_write env k st xs"] by fastforce
qed

section \<open>The conversion follows the tree\<close>

lemma is_eoc_iff: "is_eoc h d \<longleftrightarrow> h = 2 \<and> d = [0, 0]"
  using memcmp_0 [of d "[0, 0]"] by (auto simp: is_eoc_def)

lemma element_0: "element (0, []) = [0, 0]"
  by (simp add: element_def asn1_header_def tag_octets_def length_octets_def)

lemma element_eq_eoc: "element (t, d) = [0, 0] \<longleftrightarrow> t = 0 \<and> d = []"
proof
  assume e: "element (t, d) = [0, 0]"
  have "length d < 2 ^ 32"
    using arg_cong [OF e, of length] by (simp add: element_def)
  then show "t = 0 \<and> d = []"
    using asn1.enc_inj [of "(t, d)" "(0, [])"] e element_0 by simp
qed (simp add: element_0)

lemma element_not_indefinite:
  assumes "unat h + length d = length (element (t, d))"
  shows "\<not> indefinite h (element (t, d))"
proof
  assume "indefinite h (element (t, d))"
  then have i: "d = []" "element (t, d) ! (unat h - 1) = 0x80" using assms by (simp_all add: indefinite_def)
  have e: "element (t, d) = tag_octets t @ [0]" by (simp add: i(1) element_def asn1_header_def length_octets_def)
  then have "unat h - 1 = length (tag_octets t)" using assms i(1) by simp
  then show False using i(2) e by simp
qed

lemma read_element:
  assumes "length d < 2 ^ 32"
  obtains h where "CBS_get_any_ber_asn1_element (element (t, d) @ c) = (Some (element (t, d), t, h), c)"
    "\<not> indefinite h (element (t, d))" "CBS_skip (element (t, d)) h = (True, d)" "element (t, d) \<noteq> []"
proof -
  let ?e = "element (t, d)"
  define h where "h = (of_nat (length ?e - length d) :: size_t)"
  have le: "length ?e = length (asn1_header t (length d)) + length d" by (simp add: element_def)
  then have h: "unat h + length d = length ?e"
    using length_asn1_header(2) [of t "length d"] by (simp add: h_def unat_of_nat_size)
  have "CBS_get_any_asn1_element (?e @ c) = (Some (?e, t, h), c)" using assms h by (subst any_element_iff) auto
  moreover have "?e \<noteq> []" using le length_asn1_header(1) [of t "length d"] by auto
  ultimately show thesis
    using that any_ber_element_definite element_skip [OF refl h] element_not_indefinite [OF h] by blast
qed

text \<open>The step of the loop on an element of either kind.\<close>

lemma convert_definite:
  assumes d: "length d < 2 ^ 32" "\<not> (t = 0 \<and> d = [])" and st: "st \<noteq> 0 \<longrightarrow> t AND NOT CBS_ASN1_CONSTRUCTED = st"
    and depth: "depth \<le> kMaxDepth"
  shows "cbs_convert_ber env k (element (t, d) @ c) st l depth s =
    (case and_then (open_contents env k st t)
        (and_then
          (\<lambda>s. if t AND CBS_ASN1_CONSTRUCTED \<noteq> 0
               then (case cbs_convert_ber env (out_contents st k) d (child_string_tag st t) False (depth + 1) s of
                       (ok, _, s) \<Rightarrow> (ok, s))
               else CBB_add_bytes env (out_contents st k) d s)
          (CBB_flush env k)) s of
       (False, s') \<Rightarrow> (False, c, s')
     | (True, s') \<Rightarrow> cbs_convert_ber env k c st l depth s')"
proof -
  let ?e = "element (t, d)"
  obtain h where g: "CBS_get_any_ber_asn1_element (?e @ c) = (Some (?e, t, h), c)"
    and indef: "\<not> indefinite h ?e" and skip: "CBS_skip ?e h = (True, d)" and ne: "?e @ c \<noteq> []"
    using read_element [OF d(1)] by (metis append_is_Nil_conv)
  have eoc: "\<not> is_eoc h ?e" using d(2) by (simp add: is_eoc_iff element_eq_eoc)
  let ?body = "\<lambda>s. if t AND CBS_ASN1_CONSTRUCTED \<noteq> 0
      then (case cbs_convert_ber env (out_contents st k) d (child_string_tag st t) False (depth + 1) s of (ok, _, s) \<Rightarrow> (ok, s))
      else CBB_add_bytes env (out_contents st k) d s"
  have nd: "\<not> kMaxDepth < depth" "\<not> (st \<noteq> 0 \<and> t AND NOT CBS_ASN1_CONSTRUCTED \<noteq> st)" using depth st by auto
  obtain ok1 s1 where o: "open_contents env k st t s = (ok1, s1)" by (rule prod.exhaust)
  obtain ok2 s2 where b: "?body s1 = (ok2, s2)" by (rule prod.exhaust)
  obtain ok3 s3 where f: "CBB_flush env k s2 = (ok3, s3)" by (rule prod.exhaust)
  have "cbs_convert_ber env k (?e @ c) st l depth s =
      (if ok1 \<and> ok2 \<and> ok3 then cbs_convert_ber env k c st l depth s3
       else (False, c, if \<not> ok1 then s1 else if \<not> ok2 then s2 else s3))"
    unfolding cbs_convert_ber.simps [of env k "?e @ c"] if_not_P [OF nd(1)] if_not_P [OF ne] g prod.case option.case
      if_not_P [OF eoc] if_not_P [OF nd(2)] o if_not_P [OF indef] skip bool.case b f
    by (cases ok1; cases ok2; cases ok3) (simp_all only: bool.case b prod.case f simp_thms if_True if_False)
  then show ?thesis
    unfolding and_then_def o prod.case
    by (cases ok1; cases ok2; cases ok3) (simp_all only: bool.case b prod.case f simp_thms if_True if_False)
qed

lemma convert_header:
  assumes t: "t AND CBS_ASN1_CONSTRUCTED \<noteq> 0" and st: "st \<noteq> 0 \<longrightarrow> t AND NOT CBS_ASN1_CONSTRUCTED = st"
    and depth: "depth \<le> kMaxDepth"
  shows "cbs_convert_ber env k (tag_octets t @ 0x80 # c) st l depth s =
    (case open_contents env k st t s of
       (False, s') \<Rightarrow> (False, c, s')
     | (True, s') \<Rightarrow>
         (case cbs_convert_ber env (out_contents st k) c (child_string_tag st t) True (depth + 1) s' of
            (False, c, s') \<Rightarrow> (False, c, s')
          | (True, c, s') \<Rightarrow>
              (case CBB_flush env k s' of
                 (False, s') \<Rightarrow> (False, c, s')
               | (True, s') \<Rightarrow> cbs_convert_ber env k c st l depth s')))"
proof -
  obtain h where h: "unat h = length (tag_octets t) + 1"
    "CBS_get_any_ber_asn1_element (tag_octets t @ 0x80 # c) = (Some (tag_octets t @ [0x80], t, h), c)"
    by (rule any_ber_element_header [OF t])
  have eoc: "\<not> is_eoc h (tag_octets t @ [0x80])" by (auto simp: is_eoc_iff)
  have "0 < unat h" using h(1) by simp
  then have "h > 0" by (simp add: word_less_nat_alt)
  then have indef: "indefinite h (tag_octets t @ [0x80])" using h(1) by (simp add: indefinite_def)
  show ?thesis
    using depth st by (subst cbs_convert_ber.simps) (auto simp: h(2) eoc indef split: prod.splits bool.splits)
qed

lemma convert_eoc: "depth \<le> kMaxDepth \<Longrightarrow> cbs_convert_ber env k (0 # 0 # c) st l depth s = (l, c, s)"
proof -
  assume d: "depth \<le> kMaxDepth"
  have "CBS_get_any_asn1_element (element (0, []) @ c) = (Some (element (0, []), 0, 2), c)"
    by (subst any_element_iff) (auto simp: element_0)
  then have "CBS_get_any_ber_asn1_element (0 # 0 # c) = (Some ([0, 0], 0, 2), c)"
    using any_ber_element_definite by (simp add: element_0)
  then show ?thesis using d by (subst cbs_convert_ber.simps) (simp add: is_eoc_iff)
qed

lemma convert_nil: "depth \<le> kMaxDepth \<Longrightarrow> cbs_convert_ber env k [] st l depth s = (\<not> l, [], s)"
  by (subst cbs_convert_ber.simps) simp

lemma primitive_tag: "t AND CBS_ASN1_CONSTRUCTED = 0 \<Longrightarrow> t AND NOT CBS_ASN1_CONSTRUCTED = t"
proof -
  have "t = (t AND CBS_ASN1_CONSTRUCTED) OR (t AND NOT CBS_ASN1_CONSTRUCTED)" by (rule bit_eqI) (auto simp: bit_simps)
  then show "t AND CBS_ASN1_CONSTRUCTED = 0 \<Longrightarrow> ?thesis" by simp
qed

lemma convert_follows:
  "ber_ok st x \<Longrightarrow> depth + ber_height x \<le> kMaxDepth \<Longrightarrow>
     \<exists>r. cbs_convert_ber env k (ber_octets x @ c) st l depth s =
       (case ber_write env k st x s of
          (False, s') \<Rightarrow> (False, r, s')
        | (True, s') \<Rightarrow> cbs_convert_ber env k c st l depth s')"
  "forest_ok st xs \<Longrightarrow> depth + forest_height xs \<le> kMaxDepth \<Longrightarrow>
     \<exists>r. cbs_convert_ber env k (forest_octets xs @ c) st l depth s =
       (case forest_write env k st xs s of
          (False, s') \<Rightarrow> (False, r, s')
        | (True, s') \<Rightarrow> cbs_convert_ber env k c st l depth s')"
proof (induction st x and st xs arbitrary: depth k c l s and depth k c l s rule: ber_ok_forest_ok.induct)
  case (1 st t d)
  then have "cbs_convert_ber env k (element (t, d) @ c) st l depth s =
      (case ber_write env k st (Prim t d) s of
         (False, s') \<Rightarrow> (False, c, s')
       | (True, s') \<Rightarrow> cbs_convert_ber env k c st l depth s')"
    using convert_definite [of d t st depth env k c l s] primitive_tag [of t] by auto
  then show ?case by (intro exI [of _ c]) simp
next
  case (2 st t indef xs)
  let ?k = "out_contents st k" and ?t = "child_string_tag st t"
  have t: "t AND CBS_ASN1_CONSTRUCTED \<noteq> 0" "st \<noteq> 0 \<longrightarrow> t AND NOT CBS_ASN1_CONSTRUCTED = st" "t \<noteq> 0" using 2(2) by auto
  have ok: "forest_ok ?t xs" using 2(2) child_tag_string_in [OF t(1)] by simp
  have depth: "depth \<le> kMaxDepth" "depth + 1 + forest_height xs \<le> kMaxDepth" "depth + 1 \<le> kMaxDepth" using 2(3) by auto
  note IH = 2(1) [unfolded child_tag_string_in [OF t(1), symmetric], OF ok depth(2)]
  show ?case
  proof (cases indef)
    case False
    have inner: "(case cbs_convert_ber env ?k (forest_octets xs) ?t False (depth + 1) s of (ok, _, s) \<Rightarrow> (ok, s)) =
        forest_write env ?k ?t xs s" for s
      using IH [of ?k "[]" False s] convert_nil [OF depth(3)]
      by (cases "forest_write env ?k ?t xs s"; cases "fst (forest_write env ?k ?t xs s)") auto
    have "cbs_convert_ber env k (element (t, forest_octets xs) @ c) st l depth s =
        (case ber_write env k st (Constr t indef xs) s of
           (False, s') \<Rightarrow> (False, c, s')
         | (True, s') \<Rightarrow> cbs_convert_ber env k c st l depth s')"
      using convert_definite [of "forest_octets xs" t st depth env k c l s] t 2(2) False depth(1) by (simp add: inner [simplified])
    then show ?thesis using False by (intro exI [of _ c]) simp
  next
    case True
    have inner: "\<exists>r. cbs_convert_ber env ?k (forest_octets xs @ 0 # 0 # c) ?t True (depth + 1) s =
        (case forest_write env ?k ?t xs s of (False, s') \<Rightarrow> (False, r, s') | (True, s') \<Rightarrow> (True, c, s'))" for s
      using IH [of ?k "0 # 0 # c" True s] unfolding convert_eoc [OF depth(3)] .
    have e: "ber_octets (Constr t indef xs) @ c = tag_octets t @ 0x80 # forest_octets xs @ 0 # 0 # c" using True by simp
    show ?thesis
    proof (cases "open_contents env k st t s")
      case (Pair ok1 s1)
      obtain ok2 s2 where w: "forest_write env ?k ?t xs s1 = (ok2, s2)" by (rule prod.exhaust)
      obtain r where r: "cbs_convert_ber env ?k (forest_octets xs @ 0 # 0 # c) ?t True (depth + 1) s1 =
          (if ok2 then (True, c, s2) else (False, r, s2))"
        using inner [of s1] w by (auto split: bool.splits)
      show ?thesis
        unfolding e convert_header [OF t(1,2) depth(1)]
        by (rule exI [of _ "if ok1 \<and> \<not> ok2 then r else if ok1 then c else forest_octets xs @ 0 # 0 # c"])
          (cases ok1; cases ok2; simp add: Pair w r [simplified] and_then_def split: prod.splits bool.splits)
    qed
  qed
next
  case (3 st)
  show ?case by simp
next
  case (4 st x xs)
  have ok: "ber_ok st x" "forest_ok st xs" "depth + ber_height x \<le> kMaxDepth" "depth + forest_height xs \<le> kMaxDepth"
    using 4(3,4) by auto
  obtain ok1 s1 where w: "ber_write env k st x s = (ok1, s1)" by (rule prod.exhaust)
  obtain r where r: "cbs_convert_ber env k (ber_octets x @ forest_octets xs @ c) st l depth s =
      (case ber_write env k st x s of
         (False, s') \<Rightarrow> (False, r, s')
       | (True, s') \<Rightarrow> cbs_convert_ber env k (forest_octets xs @ c) st l depth s')"
    using 4(1) [OF ok(1,3)] by blast
  obtain r' where r': "cbs_convert_ber env k (forest_octets xs @ c) st l depth s1 =
      (case forest_write env k st xs s1 of
         (False, s') \<Rightarrow> (False, r', s')
       | (True, s') \<Rightarrow> cbs_convert_ber env k c st l depth s')"
    using 4(2) [OF ok(2,4)] by blast
  show ?case
    by (rule exI [of _ "if ok1 then r' else r"]) (cases ok1; simp add: r r' w and_then_def)
qed





section \<open>The walk\<close>

text \<open>What \<open>ber_found\<close> is after the walk over a forest: what comes later can reset it.\<close>

fun found_in :: "ber list \<Rightarrow> bool \<Rightarrow> bool" where
  "found_in [] b = b"
| "found_in (Prim t d # xs) b = found_in xs b"
| "found_in (Constr t indef ys # xs) b =
     (if indef \<or> is_string_type t then True else found_in xs (found_in ys False))"

lemma find_ber_forest:
  "forest_ok 0 xs \<Longrightarrow> depth + forest_height xs \<le> kMaxDepth \<Longrightarrow>
     find_ber_loop (forest_octets xs) b depth = (True, found_in xs b)"
proof (induction xs b arbitrary: depth rule: found_in.induct)
  case (1 b)
  show ?case by (subst find_ber_loop.simps) simp
next
  case (2 t d xs b)
  have ok: "\<not> (t = 0 \<and> d = [])" "length d < 2 ^ 32" "t AND CBS_ASN1_CONSTRUCTED = 0" using 2(2) by auto
  obtain h where g: "CBS_get_any_ber_asn1_element (element (t, d) @ forest_octets xs) = (Some (element (t, d), t, h), forest_octets xs)"
    "\<not> indefinite h (element (t, d))" "element (t, d) \<noteq> []"
    using read_element [OF ok(2)] by metis
  have "find_ber_loop (forest_octets xs) b depth = (True, found_in xs b)" using 2 by simp
  then show ?case
    using g(3) ok(3) by (subst find_ber_loop.simps) (simp add: g(1,2))
next
  case (3 t indef ys xs b)
  have t: "t AND CBS_ASN1_CONSTRUCTED \<noteq> 0" and ok: "forest_ok (string_in 0 t) ys" "forest_ok 0 xs" using 3(3) by auto
  have depth: "depth + 1 + forest_height ys \<le> kMaxDepth" "depth + forest_height xs \<le> kMaxDepth" using 3(4) by auto
  show ?case
  proof (cases indef)
    case True
    obtain h where h: "unat h = length (tag_octets t) + 1"
      "CBS_get_any_ber_asn1_element (tag_octets t @ 0x80 # forest_octets ys @ 0 # 0 # forest_octets xs) =
        (Some (tag_octets t @ [0x80], t, h), forest_octets ys @ 0 # 0 # forest_octets xs)"
      by (rule any_ber_element_header [OF t])
    have "0 < unat h" using h(1) by simp
    then have "h > 0" by (simp add: word_less_nat_alt)
    then have "indefinite h (tag_octets t @ [0x80])" using h(1) by (simp add: indefinite_def)
    then show ?thesis using True by (subst find_ber_loop.simps) (simp add: h(2))
  next
    case False
    then have len: "length (forest_octets ys) < 2 ^ 32" using 3(3) by simp
    let ?e = "element (t, forest_octets ys)"
    obtain h where g: "CBS_get_any_ber_asn1_element (?e @ forest_octets xs) = (Some (?e, t, h), forest_octets xs)"
      "\<not> indefinite h ?e" "CBS_skip ?e h = (True, forest_octets ys)" "?e \<noteq> []"
      using read_element [OF len] by metis
    show ?thesis
    proof (cases "is_string_type t")
      case True
      then show ?thesis using g(4) t False by (subst find_ber_loop.simps) (simp add: g(1,2))
    next
      case s: False
      then have "forest_ok 0 ys" using ok(1) by (simp add: string_in_def)
      then have "find_ber_loop (forest_octets ys) False (depth + 1) = (True, found_in ys False)"
        using 3(1) [OF _ _ depth(1)] False s by simp
      then have y: "cbs_find_ber (forest_octets ys) b (depth + 1) = (True, found_in ys False)" for b
        using depth(1) by (simp add: cbs_find_ber.simps)
      have x: "find_ber_loop (forest_octets xs) (found_in ys False) depth = (True, found_in xs (found_in ys False))"
        using 3(2) [OF _ ok(2) depth(2)] False s by simp
      show ?thesis using g(4) t False s x y [simplified] by (subst find_ber_loop.simps) (simp add: g(1-3))
    qed
  qed
qed

text \<open>Where the walk sees BER: at a level of its own, or in the last constructed element of a level.\<close>

fun outer_ber :: "ber \<Rightarrow> bool" where
  "outer_ber (Prim t d) \<longleftrightarrow> False"
| "outer_ber (Constr t indef xs) \<longleftrightarrow> indef \<or> is_string_type t"

fun primitive :: "ber \<Rightarrow> bool" where
  "primitive (Prim t d) \<longleftrightarrow> True"
| "primitive (Constr t indef xs) \<longleftrightarrow> False"



lemma found_primitive: "list_all primitive zs \<Longrightarrow> found_in zs b = b"
  by (induction zs b rule: found_in.induct) auto

lemma found_in_last:
  "list_all primitive zs \<Longrightarrow>
     found_in (xs @ Constr t indef ys # zs) b \<longleftrightarrow> (\<exists>x \<in> set xs. outer_ber x) \<or> indef \<or> is_string_type t \<or> found_in ys False"
  by (induction xs b rule: found_in.induct) (auto simp: found_primitive)


section \<open>The whole function\<close>

lemma convert_document:
  assumes xs: "forest_ok 0 xs" "forest_height xs \<le> kMaxDepth" and cbb: "CBB_init env n = Some s"
  shows "(case cbs_convert_ber env 0 (forest_octets xs) 0 False 0 s of
      (False, _, _) \<Rightarrow> finish_with env True (forest_write env 0 0 xs) s = None
    | (True, inp, s') \<Rightarrow> inp = [] \<and> finish_with env True (forest_write env 0 0 xs) s = CBB_finish env True s')"
proof -
  obtain r where r: "cbs_convert_ber env 0 (forest_octets xs) 0 False 0 s =
      (case forest_write env 0 0 xs s of (False, s') \<Rightarrow> (False, r, s') | (True, s') \<Rightarrow> (True, [], s'))"
    using convert_follows(2) [OF xs(1), of 0 env 0 "[]" False s, unfolded convert_nil [OF le0] not_False_eq_True] xs(2) by auto
  show ?thesis unfolding r finish_with_def by (auto split: prod.splits bool.splits)
qed


lemma ber_to_der_complete:
  assumes xs: "forest_ok 0 xs" "forest_height xs \<le> kMaxDepth" and "willing env"
    and out: "forest_joined xs = Some out" "length out < 2 ^ 64"
  shows "CBS_asn1_ber_to_der env (forest_octets xs) =
    (if found_in xs False then (Some (out, Some out), [])
     else case CBS_get_any_asn1_element (forest_octets xs) of (r, c) \<Rightarrow> (map_option (\<lambda>(out, _, _). (out, None)) r, c))"
proof -
  have f: "cbs_find_ber (forest_octets xs) False 0 = (True, found_in xs False)"
    using find_ber_forest [OF xs(1), of 0 False] xs(2) by (simp add: cbs_find_ber.simps)
  obtain s where s: "CBB_init env (of_nat (length (forest_octets xs))) = Some s"
    using assms(3) by (auto simp: CBB_init_def willing_def)
  note i = init_state [OF s]
  have "limit (base s) = 2 ^ 64 - 1" using i(5) by (simp add: limit_def)
  then have "finish_with env True (forest_write env 0 0 xs) s = Some out"
    using finish_with_view(2) [OF writes_ber(2) [OF xs(1), of env 0] i(1-4), of True] assms(3) out by simp
  then have "case cbs_convert_ber env 0 (forest_octets xs) 0 False 0 s of
      (False, _, _) \<Rightarrow> False | (True, inp, s') \<Rightarrow> inp = [] \<and> CBB_finish env True s' = Some out"
    using convert_document [OF xs s] by (auto split: prod.splits bool.splits)
  then obtain s' where c: "cbs_convert_ber env 0 (forest_octets xs) 0 False 0 s = (True, [], s')" "CBB_finish env True s' = Some out"
    by (auto split: prod.splits bool.splits)
  show ?thesis
    by (cases "found_in xs False") (simp_all add: CBS_asn1_ber_to_der_def f s c)
qed

text \<open>A document that is DER already.\<close>

fun plain :: "ber \<Rightarrow> bool" and all_plain :: "ber list \<Rightarrow> bool" where
  "plain (Prim t d) \<longleftrightarrow> True"
| "plain (Constr t indef xs) \<longleftrightarrow> \<not> indef \<and> \<not> is_string_type t \<and> all_plain xs"
| "all_plain [] \<longleftrightarrow> True"
| "all_plain (x # xs) \<longleftrightarrow> plain x \<and> all_plain xs"

lemma all_plain_not_found: "all_plain xs \<Longrightarrow> \<not> found_in xs False"
  by (induction xs "False" rule: found_in.induct) simp_all

text \<open>Only such a document is its own DER form.\<close>

lemma element_not_header:
  assumes "length d < 2 ^ 32" "t AND CBS_ASN1_CONSTRUCTED \<noteq> 0"
  shows "element (t, d) @ a \<noteq> tag_octets t @ 0x80 # c"
proof
  assume e: "element (t, d) @ a = tag_octets t @ 0x80 # c"
  obtain h where h: "unat h = length (tag_octets t) + 1"
    "CBS_get_any_ber_asn1_element (tag_octets t @ 0x80 # c) = (Some (tag_octets t @ [0x80], t, h), c)"
    by (rule any_ber_element_header [OF assms(2)])
  obtain k where k: "CBS_get_any_ber_asn1_element (element (t, d) @ a) = (Some (element (t, d), t, k), a)"
    "\<not> indefinite k (element (t, d))"
    using read_element [OF assms(1)] by metis
  have "element (t, d) = tag_octets t @ [0x80]" "k = h" using h(2) k(1) e by simp_all
  moreover have "0 < unat h" using h(1) by simp
  then have "h > 0" by (simp add: word_less_nat_alt)
  ultimately show False using k(2) h(1) by (simp add: indefinite_def)
qed

lemma element_prefix:
  "length d < 2 ^ 32 \<Longrightarrow> length e < 2 ^ 32 \<Longrightarrow> element (t, d) @ a = element (t, e) @ b \<Longrightarrow> d = e"
  using asn1.prefix_free [of "(t, d)" "(t, e)" a b] by simp

lemma own_der_plain:
  "ber_ok st x \<Longrightarrow> st = 0 \<Longrightarrow> ber_der x = Some out \<Longrightarrow> out @ a = ber_octets x @ b \<Longrightarrow> plain x \<and> out = ber_octets x"
  "forest_ok st xs \<Longrightarrow> st = 0 \<Longrightarrow> forest_der xs = Some out \<Longrightarrow> out = forest_octets xs \<Longrightarrow> all_plain xs"
proof (induction st x and st xs arbitrary: out a b and out rule: ber_ok_forest_ok.induct)
  case (1 st t d)
  then show ?case by (simp add: der_def split: if_splits)
next
  case (2 st t indef xs)
  have t: "t AND CBS_ASN1_CONSTRUCTED \<noteq> 0" using 2(2) by simp
  show ?case
  proof (cases "is_string_type t")
    case True
    let ?u = "t AND NOT CBS_ASN1_CONSTRUCTED"
    obtain d where "out = element (?u, d)" using 2(4) True by (auto simp: der_def split: if_splits)
    then have "tag_octets ?u @ length_octets (length d) @ d @ a = out @ a" by (simp add: element_def asn1_header_def)
    moreover obtain c where "ber_octets (Constr t indef xs) @ b = tag_octets t @ c"
      by (cases indef) (auto simp: element_def asn1_header_def)
    ultimately have "?u = t" using 2(5) asn1_tag.prefix_free [where x = ?u and y = t and c = "length_octets (length d) @ d @ a" and d = c] by simp
    moreover have "?u AND CBS_ASN1_CONSTRUCTED = 0" by (rule bit_eqI) (auto simp: bit_simps)
    ultimately show ?thesis using t by simp
  next
    case s: False
    then obtain d where d: "forest_der xs = Some d" "out = element (t, d)" "length d < 2 ^ 32"
      using 2(4) by (auto simp: der_def Option.bind_eq_Some_conv split: if_splits)
    have i: "\<not> indef" using element_not_header [OF d(3) t, of a "forest_octets xs @ 0 # 0 # b"] 2(5) d(2) by auto
    then have "d = forest_octets xs" using element_prefix [OF d(3), of "forest_octets xs" t a b] 2(2,5) d(2) by simp
    then show ?thesis using 2(1) [OF _ _ d(1)] 2(2,3) s i d(2) by (simp add: string_in_def)
  qed
next
  case (3 st)
  show ?case by simp
next
  case (4 st x xs)
  obtain o1 o2 where o: "ber_der x = Some o1" "forest_der xs = Some o2" "out = o1 @ o2"
    using 4(5) by (auto simp: cat_def Option.bind_eq_Some_conv)
  have x: "plain x \<and> o1 = ber_octets x" using 4(1) [OF _ 4(4) o(1), of o2 "forest_octets xs"] 4(3,6) o(3) by simp
  then have "all_plain xs" using 4(2) [OF _ 4(4) o(2)] 4(3,6) o(3) by simp
  then show ?case using x by simp
qed


lemma ber_to_der_not_found:
  assumes ok: "forest_ok 0 (x # xs)" "forest_height (x # xs) \<le> kMaxDepth"
    and n: "\<not> found_in (x # xs) False" "\<not> outer_ber x"
  shows "CBS_asn1_ber_to_der env (forest_octets (x # xs)) = (Some (ber_octets x, None), forest_octets xs)"
proof -
  have f: "cbs_find_ber (forest_octets (x # xs)) False 0 = (True, False)"
    using find_ber_forest [OF ok(1), of 0 False] ok(2) n(1) by (simp add: cbs_find_ber.simps)
  obtain t d where x: "ber_octets x = element (t, d)" "length d < 2 ^ 32"
    using ok(1) n(2) by (cases x) auto
  define h where "h = (of_nat (length (element (t, d)) - length d) :: size_t)"
  have "unat h + length d = length (element (t, d))"
    using length_asn1_header(2) [of t "length d"] by (simp add: h_def element_def unat_of_nat_size)
  then have "CBS_get_any_asn1_element (forest_octets (x # xs)) = (Some (ber_octets x, t, h), forest_octets xs)"
    using x by (subst any_element_iff) auto
  then show ?thesis using f by (simp add: CBS_asn1_ber_to_der_def)
qed


text \<open>The bits of a BIT STRING: its first octet is the number of bits that do not count in the last one.\<close>

definition octet_bits :: "byte \<Rightarrow> bool list" where
  "octet_bits b = map (bit b) (rev [0..<8])"

fun bit_string_bits :: "byte list \<Rightarrow> bool list" where
  "bit_string_bits [] = []"
| "bit_string_bits (unused # d) = take (8 * length d - unat unused) (concat (map octet_bits d))"

text \<open>Pieces of a BIT STRING: only in the last one bits may be unused.\<close>

definition bit_string_pieces :: "byte list list \<Rightarrow> bool" where
  "bit_string_pieces ds \<longleftrightarrow>
     (\<forall>d \<in> set ds. d \<noteq> []) \<and> (\<forall>d \<in> set (butlast ds). hd d = 0) \<and> unat (hd (last ds)) \<le> 8 * (length (last ds) - 1)"

lemma length_octets_bits [simp]: "length (concat (map octet_bits d)) = 8 * length d"
  by (induction d) (simp_all add: octet_bits_def)

lemma bits_whole: "hd d = 0 \<Longrightarrow> d \<noteq> [] \<Longrightarrow> bit_string_bits d = concat (map octet_bits (tl d))"
  by (cases d) simp_all

lemma bits_joined_bits:
  assumes "ds \<noteq> []" "bit_string_pieces ds"
  shows "bit_string_bits (bits_joined ds) = concat (map bit_string_bits ds)"
proof -
  obtain es u e where ds: "ds = es @ [u # e]"
    using assms by (metis append_butlast_last_id bit_string_pieces_def last_in_set neq_Nil_conv)
  let ?f = "concat (map (drop 1) es)"
  have u: "unat u \<le> 8 * length e" using assms(2) ds by (simp add: bit_string_pieces_def)
  have "\<forall>d \<in> set es. d \<noteq> [] \<and> hd d = 0" using assms(2) ds by (simp add: bit_string_pieces_def)
  then have "concat (map bit_string_bits es) = concat (map octet_bits ?f)"
    by (induction es) (simp_all add: bits_whole drop_Suc)
  moreover have "bits_joined ds = u # ?f @ e" by (simp add: bits_joined_def ds)
  moreover have "8 * (length ?f + length e) - unat u = 8 * length ?f + (8 * length e - unat u)" using u by simp
  ultimately show ?thesis by (simp add: ds take_add [symmetric])
qed

lemma bits_concat_differ:
  assumes "2 \<le> length ds" "bit_string_pieces ds"
  shows "bit_string_bits (concat ds) \<noteq> concat (map bit_string_bits ds)"
proof -
  obtain d es where ds: "ds = d # es" "es \<noteq> []" using assms(1) by (cases ds; cases "tl ds") auto
  then have d: "d \<noteq> []" "hd d = 0" "\<forall>e \<in> set es. e \<noteq> []" using assms(2) by (auto simp: bit_string_pieces_def)
  have bound: "length (bit_string_bits e) \<le> 8 * (length e - 1)" for e by (cases e) simp_all
  have "length (concat (map bit_string_bits es)) < 8 * length (concat es)"
    using ds(2) d(3)
  proof (induction es rule: list_nonempty_induct)
    case (single e)
    then show ?case using bound [of e] by (cases e) auto
  next
    case (cons e es)
    then show ?case using bound [of e] by simp
  qed
  moreover have "length (bit_string_bits (concat ds)) = 8 * (length d - 1) + 8 * length (concat es)"
    using d(1,2) by (cases d) (simp_all add: ds)
  moreover have "length (bit_string_bits d) = 8 * (length d - 1)" using d(1,2) by (cases d) simp_all
  ultimately show ?thesis by (metis (no_types, lifting) add_less_cancel_left concat.simps(2) ds(1) length_append less_irrefl list.simps(9))
qed

section \<open>Implicitly tagged strings\<close>

definition chunks :: "u32 \<Rightarrow> byte list list \<Rightarrow> byte list" where
  "chunks t ds = concat (map (\<lambda>d. element (t, d)) ds)"

lemma implicit_chunks_sound:
  "implicit_chunks env t c s = (True, s') \<Longrightarrow> \<exists>ds. c = chunks t ds \<and> (\<forall>d \<in> set ds. length d < 2 ^ 32)"
proof (induction env t c s rule: implicit_chunks.induct)
  case (1 env t c s)
  show ?case
  proof (cases "c = []")
    case False
    obtain d c1 s1 where g: "CBS_get_asn1 c t = (Some d, c1)" "CBB_add_bytes env 0 d s = (True, s1)"
      "implicit_chunks env t c1 s1 = (True, s')"
      using 1(2) False by (subst (asm) implicit_chunks.simps) (auto split: prod.splits option.splits bool.splits)
    then obtain ds where "c1 = chunks t ds" "\<forall>d \<in> set ds. length d < 2 ^ 32"
      using 1(1) [OF False g(1) [symmetric] refl g(2) [symmetric] refl] by blast
    then show ?thesis using g(1) by (intro exI [of _ "d # ds"]) (simp add: chunks_def asn1_iff)
  qed (auto simp: chunks_def intro: exI [of _ "[]"])
qed

lemma writes_chunks:
  "\<forall>d \<in> set ds. length d < 2 ^ 32 \<Longrightarrow> writes env 0 (implicit_chunks env t (chunks t ds)) (Some (concat ds))"
proof (induction ds)
  case Nil
  have "implicit_chunks env t (chunks t []) = Pair True" by (rule ext) (subst implicit_chunks.simps, simp add: chunks_def)
  then show ?case using writes_skip by simp
next
  case (Cons d ds)
  have g: "CBS_get_asn1 (element (t, d) @ chunks t ds) t = (Some d, chunks t ds)" using Cons.prems by (simp add: asn1_iff)
  have ne: "element (t, d) \<noteq> []" using length_asn1_header(1) [of t "length d"] by (auto simp: element_def)
  have "implicit_chunks env t (chunks t (d # ds)) = and_then (CBB_add_bytes env 0 d) (implicit_chunks env t (chunks t ds))"
  proof (rule ext)
    fix s
    show "implicit_chunks env t (chunks t (d # ds)) s = and_then (CBB_add_bytes env 0 d) (implicit_chunks env t (chunks t ds)) s"
      using ne g by (subst implicit_chunks.simps) (simp add: chunks_def and_then_def split: prod.splits bool.splits)
  qed
  moreover have "length d < 2 ^ 64" using Cons.prems by simp
  ultimately show ?case using writes_and_then [OF writes_bytes Cons.IH, where d1 = d] Cons.prems by simp
qed

lemma constructed_nz: "CBS_ASN1_CONSTRUCTED \<noteq> 0"
  by (simp add: CBS_ASN1_CONSTRUCTED_def CBS_ASN1_TAG_SHIFT_def)

lemma peek_element: "CBS_peek_asn1_tag (element (t, d) @ c) u \<longleftrightarrow> t = u"
proof -
  have "element (t, d) @ c = tag_octets t @ length_octets (length d) @ d @ c" by (simp add: element_def asn1_header_def)
  then have "fst (parse_asn1_tag (element (t, d) @ c)) = Some t" by (simp add: parse_asn1_tag_octets)
  moreover have "element (t, d) \<noteq> []" using length_asn1_header(1) [of t "length d"] by (auto simp: element_def)
  ultimately show ?thesis by (simp add: CBS_peek_asn1_tag_def)
qed

lemma implicit_string_in_place:
  assumes "CBS_get_asn1_implicit_string env c outer inner = (Some (out, None), c')"
  shows "length out < 2 ^ 32 \<and> c = element (outer, out) @ c'"
proof (cases "CBS_peek_asn1_tag c outer")
  case True
  then have "CBS_get_asn1 c outer = (Some out, c')"
    using assms by (auto simp: CBS_get_asn1_implicit_string_def split: prod.splits)
  then show ?thesis by (simp add: asn1_iff)
next
  case False
  then show ?thesis
    using assms by (auto simp: CBS_get_asn1_implicit_string_def split: prod.splits option.splits bool.splits)
qed

lemma implicit_string_joined:
  assumes r: "CBS_get_asn1_implicit_string env c outer inner = (Some (out, Some storage), c')"
  shows "\<exists>ds. c = element (outer OR CBS_ASN1_CONSTRUCTED, chunks inner ds) @ c' \<and> storage = out \<and> out = concat ds"
proof -
  have "\<not> CBS_peek_asn1_tag c outer"
    using r by (auto simp: CBS_get_asn1_implicit_string_def split: prod.splits if_splits)
  note r = r [unfolded CBS_get_asn1_implicit_string_def if_not_P [OF this]]
  obtain s where s: "CBB_init env (of_nat (length c)) = Some s"
    by (cases "CBB_init env (of_nat (length c))") (use r in simp_all)
  obtain x c1 where x: "CBS_get_asn1 c (outer OR CBS_ASN1_CONSTRUCTED) = (x, c1)" by (rule prod.exhaust)
  obtain child where child: "x = Some child" by (cases x) (use r in \<open>simp_all add: s x\<close>)
  obtain ok s' where i: "implicit_chunks env inner child s = (ok, s')" by (rule prod.exhaust)
  have "ok \<and> c1 = c' \<and> CBB_finish env True s' = Some out \<and> storage = out"
    using r unfolding s x child i option.case prod.case by (cases ok; cases "CBB_finish env True s'") simp_all
  then have s: "CBB_init env (of_nat (length c)) = Some s"
    "CBS_get_asn1 c (outer OR CBS_ASN1_CONSTRUCTED) = (Some child, c')"
    "implicit_chunks env inner child s = (True, s')" "CBB_finish env True s' = Some out" "storage = out"
    using s x child i by simp_all
  obtain ds where ds: "child = chunks inner ds" "\<forall>d \<in> set ds. length d < 2 ^ 32"
    using implicit_chunks_sound [OF s(3)] by blast
  have "finish_with env True (implicit_chunks env inner (chunks inner ds)) s = Some out"
    using s(3,4) by (simp add: finish_with_def ds(1))
  then have "out = concat ds" by (rule finish_new(1) [OF writes_chunks [OF ds(2)] s(1)])
  then show ?thesis using s(2,5) ds(1) by (auto simp: asn1_iff)
qed

lemma implicit_string_complete:
  assumes ne: "t \<noteq> outer" and t: "t = outer OR CBS_ASN1_CONSTRUCTED" and w: "willing env"
    and ds: "\<forall>d \<in> set ds. length d < 2 ^ 32" "length (chunks inner ds) < 2 ^ 32"
  shows "CBS_get_asn1_implicit_string env (element (t, chunks inner ds) @ c') outer inner = (Some (concat ds, Some (concat ds)), c')"
proof -
  let ?c = "element (t, chunks inner ds) @ c'"
  obtain s where s: "CBB_init env (of_nat (length ?c)) = Some s" using w by (auto simp: CBB_init_def willing_def)
  have "length (concat ds) \<le> length (chunks inner ds)" by (induction ds) (simp_all add: chunks_def element_def)
  then have "length (concat ds) < 2 ^ 64" using ds(2) by simp
  then have "finish_with env True (implicit_chunks env inner (chunks inner ds)) s = Some (concat ds)"
    by (rule finish_new(2) [OF writes_chunks [OF ds(1)] s w])
  then obtain s' where f: "implicit_chunks env inner (chunks inner ds) s = (True, s')" "CBB_finish env True s' = Some (concat ds)"
    by (auto simp: finish_with_def split: prod.splits bool.splits)
  have g: "CBS_get_asn1 ?c t = (Some (chunks inner ds), c')" using ds(2) by (simp add: asn1_iff)
  have "\<not> CBS_peek_asn1_tag ?c outer" using ne by (simp add: peek_element)
  then show ?thesis using s g f by (simp add: CBS_get_asn1_implicit_string_def t [symmetric])
qed

section \<open>Properties\<close>


text \<open>Trees to try it on: an OCTET STRING in two pieces, of indefinite length; an empty one inside two
  SEQUENCEs, with an empty SEQUENCE after it; a BIT STRING in two pieces.\<close>

abbreviation octet_pieces :: ber where
  "octet_pieces \<equiv> Constr 0x20000004 True [Prim 4 [1, 2], Prim 4 [3]]"

abbreviation octet_lost :: ber where
  "octet_lost \<equiv> Constr 0x20000010 False [Constr 0x20000010 False [Constr 0x20000004 False []], Constr 0x20000010 False []]"

abbreviation bit_pieces :: ber where
  "bit_pieces \<equiv> Constr 0x20000003 True [Prim 3 [0, 0xaa], Prim 3 [0, 0xbb]]"

lemma example_tags:
  "is_string_type 0x20000004" "is_string_type 0x20000003" "\<not> is_string_type 0x20000010"
  "3 AND CBS_ASN1_CONSTRUCTED = 0" "4 AND CBS_ASN1_CONSTRUCTED = 0" "5 AND CBS_ASN1_CONSTRUCTED = 0"
  "0x20000003 AND CBS_ASN1_CONSTRUCTED \<noteq> 0" "0x20000004 AND CBS_ASN1_CONSTRUCTED \<noteq> 0" "0x20000010 AND CBS_ASN1_CONSTRUCTED \<noteq> 0"
  "0x20000003 AND NOT CBS_ASN1_CONSTRUCTED = 3" "0x20000004 AND NOT CBS_ASN1_CONSTRUCTED = 4"
  by code_simp+

lemma example_octets:
  "element (4, []) = [4, 0]" "element (4, [1, 2, 3]) = [4, 3, 1, 2, 3]" "element (3, [0, 0xaa, 0xbb]) = [3, 3, 0, 0xaa, 0xbb]" "element (3, [0, 0xaa, 0, 0xbb]) = [3, 4, 0, 0xaa, 0, 0xbb]"
  "element (0x20000004, []) = [0x24, 0]" "element (0x20000010, []) = [0x30, 0]"
  "element (0x20000010, [4, 0]) = [0x30, 2, 4, 0]" "element (0x20000010, [0x24, 0]) = [0x30, 2, 0x24, 0]"
  "element (0x20000010, [0x30, 2, 4, 0]) = [0x30, 4, 0x30, 2, 4, 0]"
  "element (0x20000010, [0x30, 2, 4, 0, 0x30, 0]) = [0x30, 6, 0x30, 2, 4, 0, 0x30, 0]"
  "element (0x20000010, [0x30, 2, 0x24, 0]) = [0x30, 4, 0x30, 2, 0x24, 0]"
  "element (0x20000010, [0x30, 2, 0x24, 0, 0x30, 0]) = [0x30, 6, 0x30, 2, 0x24, 0, 0x30, 0]"
  "element (3, [0, 0xaa]) = [3, 2, 0, 0xaa]" "element (3, [0, 0xbb]) = [3, 2, 0, 0xbb]" "tag_octets 0x20000003 = [0x23]"
  by code_simp+

lemma example_trees:
  "x \<in> {octet_pieces, octet_lost, bit_pieces} \<Longrightarrow> forest_ok 0 [x] \<and> forest_height [x] \<le> kMaxDepth"
  by (auto simp: string_in_def example_tags example_octets kMaxDepth_def)

lemma willing_generous: "willing generous"
  by (simp add: willing_def generous_def)


text \<open>C36: The walk forgets what it has found: \<open>cbs_find_ber\<close> sets \<open>*ber_found\<close> to 0 whenever it enters an
  element, so that a constructed element without BER hides the BER in those before it. A constructed element
  of definite length, whose last constructed element \<open>u\<close> holds no BER and which has BER inside the elements
  \<open>xs\<close> before that, is returned as it is, although it is not its own DER form.\<close>

theorem CBS_asn1_ber_to_der_misses:
  assumes "x = Constr t False (xs @ Constr u False ys # zs)" "forest_ok 0 [x]" "forest_height [x] \<le> kMaxDepth"
    and "\<not> is_string_type t" "\<not> is_string_type u" "all_plain ys" "list_all primitive zs"
    and "\<not> all_plain xs" "\<forall>y \<in> set xs. \<not> outer_ber y"
  shows "CBS_asn1_ber_to_der env (ber_octets x) = (Some (ber_octets x, None), []) \<and> ber_der x \<noteq> Some (ber_octets x)"
proof
  have "\<not> found_in (xs @ Constr u False ys # zs) False"
    using found_in_last [OF assms(7)] all_plain_not_found [OF assms(6)] assms(5,9) by blast
  then have "\<not> found_in [x] False" "\<not> outer_ber x" using assms(1,4) by simp_all
  then show "CBS_asn1_ber_to_der env (ber_octets x) = (Some (ber_octets x, None), [])"
    using ber_to_der_not_found [of x "[]"] assms(2,3) by simp
  have "all_plain (xs @ vs) \<longleftrightarrow> all_plain xs \<and> all_plain vs" for vs by (induction xs) simp_all
  then have "\<not> plain x" using assms(1,8) by simp
  then show "ber_der x \<noteq> Some (ber_octets x)"
    using own_der_plain(1) [of 0 x "ber_octets x" "[]" "[]"] assms(2) by auto
qed

text \<open>A SEQUENCE of a SEQUENCE with a constructed string, and an empty SEQUENCE.\<close>

theorem CBS_asn1_ber_to_der_misses_witness:
  "CBS_asn1_ber_to_der generous [0x30, 6, 0x30, 2, 0x24, 0, 0x30, 0] =
     (Some ([0x30, 6, 0x30, 2, 0x24, 0, 0x30, 0], None), []) \<and>
   ber_der octet_lost = Some [0x30, 6, 0x30, 2, 4, 0, 0x30, 0] \<and> ber_octets octet_lost = [0x30, 6, 0x30, 2, 0x24, 0, 0x30, 0]"
proof -
  have o: "ber_octets octet_lost = [0x30, 6, 0x30, 2, 0x24, 0, 0x30, 0]" by (simp add: example_octets)
  have d: "ber_der octet_lost = Some [0x30, 6, 0x30, 2, 4, 0, 0x30, 0]"
    by (simp add: example_tags example_octets der_def string_contents_def CBS_ASN1_BITSTRING_def)
  have "CBS_asn1_ber_to_der generous (ber_octets octet_lost) = (Some (ber_octets octet_lost, None), [])"
    using CBS_asn1_ber_to_der_misses [where x = octet_lost and env = generous and ys = "[]" and zs = "[]"
        and xs = "[Constr 0x20000010 False [Constr 0x20000004 False []]]"]
      example_trees [of octet_lost] by (simp add: example_tags)
  then show ?thesis using o d by simp
qed

text \<open>C37: A constructed BIT STRING in two or more pieces is not converted to the string it stands for: the contents
  of its pieces are joined with their counts of unused bits. The DER form has the bits of the pieces one
  after the other; the string that the code writes has others.\<close>

theorem CBS_asn1_ber_to_der_bit_string:
  assumes "willing env" "2 \<le> length ds" "bit_string_pieces ds"
    and "x = Constr (CBS_ASN1_BITSTRING OR CBS_ASN1_CONSTRUCTED) indef (map (Prim CBS_ASN1_BITSTRING) ds)"
    and "length (forest_octets (map (Prim CBS_ASN1_BITSTRING) ds)) < 2 ^ 32"
  shows "(let out = element (CBS_ASN1_BITSTRING, concat ds)
      in CBS_asn1_ber_to_der env (ber_octets x) = (Some (out, Some out), [])) \<and>
    bit_string_bits (concat ds) \<noteq> concat (map bit_string_bits ds) \<and>
    (\<exists>d. ber_der x = Some (element (CBS_ASN1_BITSTRING, d)) \<and> bit_string_bits d = concat (map bit_string_bits ds))"
proof -
  let ?b = CBS_ASN1_BITSTRING
  let ?t = "?b OR CBS_ASN1_CONSTRUCTED"
  have t: "is_string_type ?t" "?t AND NOT CBS_ASN1_CONSTRUCTED = ?b" "?t AND CBS_ASN1_CONSTRUCTED \<noteq> 0"
    "?b AND CBS_ASN1_CONSTRUCTED = 0" "?b \<noteq> 0" by code_simp+
  have p: "forest_pieces (map (Prim ?b) ds) = ds" by (induction ds) simp_all
  have "length (concat ds) + 2 * length ds \<le> length (forest_octets (map (Prim ?b) ds))"
  proof (induction ds)
    case (Cons d ds)
    then show ?case using length_asn1_header(1) [of ?b "length d"] by (simp add: element_def)
  qed simp
  then have len: "length (concat ds) + 4 < 2 ^ 32" using assms(2,5) by linarith
  have "length (forest_octets (map (Prim ?b) ds)) < 2 ^ 32 \<Longrightarrow> forest_ok ?b (map (Prim ?b) ds)"
    by (induction ds) (auto simp: t element_def)
  then have ok: "forest_ok 0 [x]" using assms(4,5) t by (simp add: string_in_def)
  have "forest_height (map (Prim ?b) ds) = 0" by (induction ds) simp_all
  then have h: "forest_height [x] \<le> kMaxDepth" by (simp add: assms(4) kMaxDepth_def)
  have j: "forest_joined [x] = Some (element (?b, concat ds))" using len by (simp add: assms(4) t der_def fragments_pieces p)
  have f: "found_in [x] False" by (simp add: assms(4) t)
  have "length (element (?b, concat ds)) < 2 ^ 64" using length_asn1_header(2) [of ?b "length (concat ds)"] len by (simp add: element_def)
  then have c: "CBS_asn1_ber_to_der env (ber_octets x) = (Some (element (?b, concat ds), Some (element (?b, concat ds))), [])"
    using ber_to_der_complete [OF ok h assms(1) j] f by simp
  have ne: "ds \<noteq> []" using assms(2) by auto
  have "length (bits_joined ds) \<le> length (concat ds)"
    using ne by (induction ds rule: list_nonempty_induct) (auto simp: bits_joined_def min_def)
  then have "ber_der x = Some (element (?b, bits_joined ds))" using len by (simp add: assms(4) t der_def p string_contents_def)
  then show ?thesis using c bits_joined_bits [OF ne assms(3)] bits_concat_differ [OF assms(2,3)] by (simp add: Let_def) blast
qed

text \<open>Two pieces of one octet each become one string of three octets.\<close>

theorem CBS_asn1_ber_to_der_bit_string_witness:
  "CBS_asn1_ber_to_der generous [0x23, 0x80, 3, 2, 0, 0xaa, 3, 2, 0, 0xbb, 0, 0] =
     (Some ([3, 4, 0, 0xaa, 0, 0xbb], Some [3, 4, 0, 0xaa, 0, 0xbb]), []) \<and>
   bit_string_bits [0, 0xaa, 0, 0xbb] \<noteq> bit_string_bits [0, 0xaa] @ bit_string_bits [0, 0xbb] \<and>
   ber_der bit_pieces = Some [3, 3, 0, 0xaa, 0xbb]"
proof -
  let ?ds = "[[0, 0xaa], [0, 0xbb]] :: byte list list"
  have o: "ber_octets bit_pieces = [0x23, 0x80, 3, 2, 0, 0xaa, 3, 2, 0, 0xbb, 0, 0]" by (simp add: example_octets)
  have x: "bit_pieces = Constr (CBS_ASN1_BITSTRING OR CBS_ASN1_CONSTRUCTED) True (map (Prim CBS_ASN1_BITSTRING) ?ds)" by code_simp
  have l: "length (forest_octets (map (Prim CBS_ASN1_BITSTRING) ?ds)) < 2 ^ 32" by (simp add: CBS_ASN1_BITSTRING_def example_octets)
  have "bit_string_pieces ?ds" by (simp add: bit_string_pieces_def)
  note r = CBS_asn1_ber_to_der_bit_string [OF willing_generous _ this x l]
  have "ber_der bit_pieces = Some [3, 3, 0, 0xaa, 0xbb]"
    by (simp add: example_tags example_octets der_def string_contents_def CBS_ASN1_BITSTRING_def bits_joined_def)
  then show ?thesis using r unfolding o by (simp add: CBS_ASN1_BITSTRING_def example_octets Let_def)
qed

text \<open>C30: \<open>CBS_get_asn1_implicit_string\<close> with tags of primitive types accepts an element with the outer tag, whose
  contents it returns in place, and one with that tag and the constructed bit, when it holds elements
  with the inner tag: then it returns their contents joined, in new memory. It accepts nothing else.\<close>

theorem CBS_get_asn1_implicit_string_joins:
  assumes "outer AND CBS_ASN1_CONSTRUCTED = 0"
  shows "(CBS_get_asn1_implicit_string env c outer inner = (Some (out, None), c') \<longleftrightarrow>
      length out < 2 ^ 32 \<and> c = element (outer, out) @ c') \<and>
    (CBS_get_asn1_implicit_string env c outer inner = (Some (out, Some storage), c') \<longrightarrow>
      (\<exists>ds. c = element (outer OR CBS_ASN1_CONSTRUCTED, chunks inner ds) @ c' \<and> storage = out \<and> out = concat ds)) \<and>
    (willing env \<longrightarrow> (\<forall>d \<in> set ds. length d < 2 ^ 32) \<longrightarrow> length (chunks inner ds) < 2 ^ 32 \<longrightarrow>
      CBS_get_asn1_implicit_string env (element (outer OR CBS_ASN1_CONSTRUCTED, chunks inner ds) @ c') outer inner =
        (Some (concat ds, Some (concat ds)), c'))"
proof (intro conjI impI iffI)
  let ?t = "outer OR CBS_ASN1_CONSTRUCTED"
  have "?t AND CBS_ASN1_CONSTRUCTED = CBS_ASN1_CONSTRUCTED" by (rule bit_eqI) (auto simp: bit_simps)
  then have ne: "?t \<noteq> outer" using assms constructed_nz by metis
  show "length out < 2 ^ 32" "c = element (outer, out) @ c'"
    if r: "CBS_get_asn1_implicit_string env c outer inner = (Some (out, None), c')"
    using implicit_string_in_place [OF r] by simp_all
  show "CBS_get_asn1_implicit_string env c outer inner = (Some (out, None), c')"
    if "length out < 2 ^ 32 \<and> c = element (outer, out) @ c'"
    using that asn1_iff [of c outer out c'] peek_element [of outer out c' outer]
    by (simp add: CBS_get_asn1_implicit_string_def)
  show "\<exists>ds. c = element (?t, chunks inner ds) @ c' \<and> storage = out \<and> out = concat ds"
    if r: "CBS_get_asn1_implicit_string env c outer inner = (Some (out, Some storage), c')"
    by (rule implicit_string_joined [OF r])
  show "CBS_get_asn1_implicit_string env (element (?t, chunks inner ds) @ c') outer inner = (Some (concat ds, Some (concat ds)), c')"
    if "willing env" "\<forall>d \<in> set ds. length d < 2 ^ 32" "length (chunks inner ds) < 2 ^ 32"
    by (rule implicit_string_complete [OF ne refl that])
qed

text \<open>\<open>[0] IMPLICIT OCTET STRING\<close>, in one piece and in two.\<close>

theorem CBS_get_asn1_implicit_string_joins_witness:
  "CBS_get_asn1_implicit_string generous [0x80, 2, 7, 8] 0x80000000 4 = (Some ([7, 8], None), []) \<and>
   CBS_get_asn1_implicit_string generous [0xa0, 6, 4, 1, 7, 4, 1, 8, 9] 0x80000000 4 = (Some ([7, 8], Some [7, 8]), [9])"
proof
  have o: "0x80000000 AND CBS_ASN1_CONSTRUCTED = 0" by code_simp
  have "element (0x80000000, [7, 8]) = [0x80, 2, 7, 8]" by code_simp
  then show "CBS_get_asn1_implicit_string generous [0x80, 2, 7, 8] 0x80000000 4 = (Some ([7, 8], None), [])"
    using CBS_get_asn1_implicit_string_joins [OF o, of generous "[0x80, 2, 7, 8]" 4 "[7, 8]" "[]"] by simp
  have e: "chunks 4 [[7], [8]] = [4, 1, 7, 4, 1, 8]" by code_simp
  moreover have "element (0x80000000 OR CBS_ASN1_CONSTRUCTED, [4, 1, 7, 4, 1, 8]) = [0xa0, 6, 4, 1, 7, 4, 1, 8]" by code_simp
  ultimately show "CBS_get_asn1_implicit_string generous [0xa0, 6, 4, 1, 7, 4, 1, 8, 9] 0x80000000 4 = (Some ([7, 8], Some [7, 8]), [9])"
    using CBS_get_asn1_implicit_string_joins [OF o, where env = generous and inner = 4 and ds = "[[7], [8]]" and c' = "[9]"] willing_generous
    by simp
qed

end
