(* ===== verification/Crypto_Unicode.thy ===== *)
theory Crypto_Unicode
  imports Crypto_Document
begin

text \<open>
  Characters in byte strings: \<^verbatim>\<open>ios/Pods/BoringSSL-GRPC/src/crypto/bytestring/unicode.c\<close>. Each of the four
  encodings, UTF-8, Latin-1, UCS-2 and UTF-32, is an instance of the interface \<open>codec\<close>: its decoder
  reads exactly what the standard assigns to the code points that the encoding has, and its encoder
  writes it.
\<close>

section \<open>The code\<close>

definition is_valid_code_point :: "u32 \<Rightarrow> bool" where
  "is_valid_code_point v \<longleftrightarrow>
     \<not> (v > 0x10ffff \<or> v AND 0xfffe = 0xfffe \<or> (v \<ge> 0xfdd0 \<and> v \<le> 0xfdef) \<or> (v \<ge> 0xd800 \<and> v \<le> 0xdfff))"

definition BOTTOM_BITS :: "nat \<Rightarrow> byte" where
  "BOTTOM_BITS n = ucast (push_bit n 1 - 1 :: u32)"

definition TOP_BITS :: "nat \<Rightarrow> byte" where
  "TOP_BITS n = NOT (BOTTOM_BITS (8 - n))"

fun get_continuation :: "nat \<Rightarrow> cbs \<Rightarrow> u32 \<Rightarrow> u32 option \<times> cbs" where
  "get_continuation 0 c v = (Some v, c)"
| "get_continuation (Suc n) c v =
     (case CBS_get_u8 c of
        (None, c) \<Rightarrow> (None, c)
      | (Some b, c) \<Rightarrow>
          if b AND TOP_BITS 2 \<noteq> TOP_BITS 1 then (None, c)
          else get_continuation n c (push_bit 6 v OR ucast (b AND BOTTOM_BITS 6)))"

definition cbs_get_utf8 :: "cbs \<Rightarrow> u32 option \<times> cbs" where
  "cbs_get_utf8 c =
     (case CBS_get_u8 c of
        (None, c) \<Rightarrow> (None, c)
      | (Some b, c) \<Rightarrow>
          let rest = (\<lambda>v len lower_bound.
                case get_continuation len c v of
                  (None, c) \<Rightarrow> (None, c)
                | (Some v, c) \<Rightarrow> if \<not> is_valid_code_point v \<or> v < lower_bound then (None, c) else (Some v, c))
          in
            if b \<le> 0x7f then (Some (ucast b), c)
            else if b AND TOP_BITS 3 = TOP_BITS 2 then rest (ucast (b AND BOTTOM_BITS 5)) 1 0x80
            else if b AND TOP_BITS 4 = TOP_BITS 3 then rest (ucast (b AND BOTTOM_BITS 4)) 2 0x800
            else if b AND TOP_BITS 5 = TOP_BITS 4 then rest (ucast (b AND BOTTOM_BITS 3)) 3 0x10000
            else (None, c))"

definition cbs_get_latin1 :: "cbs \<Rightarrow> u32 option \<times> cbs" where
  "cbs_get_latin1 c = (case CBS_get_u8 c of (b, c) \<Rightarrow> (map_option ucast b, c))"

definition cbs_get_ucs2_be :: "cbs \<Rightarrow> u32 option \<times> cbs" where
  "cbs_get_ucs2_be c =
     (case CBS_get_u16 c of
        (None, c) \<Rightarrow> (None, c)
      | (Some v, c) \<Rightarrow> if is_valid_code_point (ucast v) then (Some (ucast v), c) else (None, c))"

definition cbs_get_utf32_be :: "cbs \<Rightarrow> u32 option \<times> cbs" where
  "cbs_get_utf32_be c =
     (case CBS_get_u32 c of
        (None, c) \<Rightarrow> (None, c)
      | (Some v, c) \<Rightarrow> if is_valid_code_point v then (Some v, c) else (None, c))"

definition cbb_get_utf8_len :: "u32 \<Rightarrow> size_t" where
  "cbb_get_utf8_len u = (if u \<le> 0x7f then 1 else if u \<le> 0x7ff then 2 else if u \<le> 0xffff then 3 else 4)"

definition cbb_add_utf8 :: "allocator \<Rightarrow> nat \<Rightarrow> u32 \<Rightarrow> cbb_st \<Rightarrow> bool \<times> cbb_st" where
  "cbb_add_utf8 env k u =
     (let tail = (\<lambda>i. CBB_add_u8 env k (TOP_BITS 1 OR (ucast (drop_bit i u) AND BOTTOM_BITS 6))) in
      if \<not> is_valid_code_point u then Pair False
      else if u \<le> 0x7f then CBB_add_u8 env k (ucast u)
      else if u \<le> 0x7ff then and_then (CBB_add_u8 env k (TOP_BITS 2 OR ucast (drop_bit 6 u))) (tail 0)
      else if u \<le> 0xffff then
        and_then (CBB_add_u8 env k (TOP_BITS 3 OR ucast (drop_bit 12 u))) (and_then (tail 6) (tail 0))
      else if u \<le> 0x10ffff then
        and_then (CBB_add_u8 env k (TOP_BITS 4 OR ucast (drop_bit 18 u)))
          (and_then (tail 12) (and_then (tail 6) (tail 0)))
      else Pair False)"

definition cbb_add_latin1 :: "allocator \<Rightarrow> nat \<Rightarrow> u32 \<Rightarrow> cbb_st \<Rightarrow> bool \<times> cbb_st" where
  "cbb_add_latin1 env k u = (if u \<le> 0xff then CBB_add_u8 env k (ucast u) else Pair False)"

definition cbb_add_ucs2_be :: "allocator \<Rightarrow> nat \<Rightarrow> u32 \<Rightarrow> cbb_st \<Rightarrow> bool \<times> cbb_st" where
  "cbb_add_ucs2_be env k u =
     (if u \<le> 0xffff \<and> is_valid_code_point u then CBB_add_u16 env k (ucast u) else Pair False)"

definition cbb_add_utf32_be :: "allocator \<Rightarrow> nat \<Rightarrow> u32 \<Rightarrow> cbb_st \<Rightarrow> bool \<times> cbb_st" where
  "cbb_add_utf32_be env k u = (if is_valid_code_point u then CBB_add_u32 env k u else Pair False)"

section \<open>UTF-8\<close>

text \<open>The table of the standard, on numbers.\<close>

definition trail :: "nat \<Rightarrow> byte" where
  "trail v = of_nat (128 + v mod 64)"

definition utf8 :: "nat \<Rightarrow> byte list" where
  "utf8 v =
     (if v < 0x80 then [of_nat v]
      else if v < 0x800 then [of_nat (192 + v div 64), trail v]
      else if v < 0x10000 then [of_nat (224 + v div 4096), trail (v div 64), trail v]
      else [of_nat (240 + v div 262144), trail (v div 4096), trail (v div 64), trail v])"

lemma bits_values:
  "BOTTOM_BITS 3 = 7" "BOTTOM_BITS 4 = 15" "BOTTOM_BITS 5 = 31" "BOTTOM_BITS 6 = 63"
  "TOP_BITS 1 = 0x80" "TOP_BITS 2 = 0xc0" "TOP_BITS 3 = 0xe0" "TOP_BITS 4 = 0xf0" "TOP_BITS 5 = 0xf8"
  by code_simp+

lemma unat_low_bits: "unat ((b :: byte) AND mask k) = unat b mod 2 ^ k"
  by (simp only: take_bit_eq_mask [symmetric] unsigned_take_bit_eq) (simp add: take_bit_eq_mod)

lemma high_bits:
  fixes b :: byte
  assumes "drop_bit k (push_bit k x) = x"
  shows "b AND NOT (mask k) = push_bit k x \<longleftrightarrow> unat b div 2 ^ k = unat x"
proof -
  have "b AND NOT (mask k) = push_bit k (drop_bit k b)" by (rule bit_eqI) (auto simp: bit_simps)
  moreover have drop_push: "drop_bit k (push_bit k (drop_bit k b)) = drop_bit k b"
    by (rule bit_eqI) (auto simp: bit_simps dest: bit_imp_le_length)
  ultimately have "b AND NOT (mask k) = push_bit k x \<longleftrightarrow> drop_bit k b = x"
    using assms drop_push by metis
  also have "\<dots> \<longleftrightarrow> unat b div 2 ^ k = unat x"
    by (simp only: word_eq_iff_unsigned [where ?'a = nat] unsigned_drop_bit_eq) (simp add: drop_bit_eq_div take_bit_nat_eq_self [of "unat b" 8] unat_byte_less [simplified])
  finally show ?thesis .
qed

lemma lead_tests:
  fixes b :: byte
  shows "b AND TOP_BITS 2 = TOP_BITS 1 \<longleftrightarrow> unat b div 64 = 2"
    "b AND TOP_BITS 3 = TOP_BITS 2 \<longleftrightarrow> unat b div 32 = 6"
    "b AND TOP_BITS 4 = TOP_BITS 3 \<longleftrightarrow> unat b div 16 = 14"
    "b AND TOP_BITS 5 = TOP_BITS 4 \<longleftrightarrow> unat b div 8 = 30"
    "unat (b AND BOTTOM_BITS 3) = unat b mod 8" "unat (b AND BOTTOM_BITS 4) = unat b mod 16"
    "unat (b AND BOTTOM_BITS 5) = unat b mod 32" "unat (b AND BOTTOM_BITS 6) = unat b mod 64"
proof -
  have m: "BOTTOM_BITS 3 = mask 3" "BOTTOM_BITS 4 = mask 4" "BOTTOM_BITS 5 = mask 5" "BOTTOM_BITS 6 = mask 6"
    "TOP_BITS 2 = NOT (mask 6)" "TOP_BITS 3 = NOT (mask 5)" "TOP_BITS 4 = NOT (mask 4)" "TOP_BITS 5 = NOT (mask 3)"
    "TOP_BITS 1 = push_bit 6 2" "TOP_BITS 2 = push_bit 5 6" "TOP_BITS 3 = push_bit 4 14" "TOP_BITS 4 = push_bit 3 30"
    by code_simp+
  show "unat (b AND BOTTOM_BITS 3) = unat b mod 8" "unat (b AND BOTTOM_BITS 4) = unat b mod 16"
    "unat (b AND BOTTOM_BITS 5) = unat b mod 32" "unat (b AND BOTTOM_BITS 6) = unat b mod 64"
    by (simp_all only: m(1-4) unat_low_bits) simp_all
  have x: "drop_bit 6 (push_bit 6 2) = (2 :: byte)" "drop_bit 5 (push_bit 5 6) = (6 :: byte)"
    "drop_bit 4 (push_bit 4 14) = (14 :: byte)" "drop_bit 3 (push_bit 3 30) = (30 :: byte)"
    by code_simp+
  show "b AND TOP_BITS 2 = TOP_BITS 1 \<longleftrightarrow> unat b div 64 = 2"
    using high_bits [OF x(1), of b] by (simp only: m(5,9)) simp
  show "b AND TOP_BITS 3 = TOP_BITS 2 \<longleftrightarrow> unat b div 32 = 6"
    using high_bits [OF x(2), of b] by (simp only: m(6,10)) simp
  show "b AND TOP_BITS 4 = TOP_BITS 3 \<longleftrightarrow> unat b div 16 = 14"
    using high_bits [OF x(3), of b] by (simp only: m(7,11)) simp
  show "b AND TOP_BITS 5 = TOP_BITS 4 \<longleftrightarrow> unat b div 8 = 30"
    using high_bits [OF x(4), of b] by (simp only: m(8,12)) simp
qed

lemma unat_trail: "unat (trail v) = 128 + v mod 64"
  using mod_less_divisor [of 64 v] by (simp add: trail_def unat_of_nat_byte del: of_nat_add)

lemma trail_mod: "(128 + v mod 64) mod 64 = v mod (64 :: nat)"
  using mod_mult_self1 [of "v mod 64" 2 64] by (simp add: add.commute)

lemma trail_byte: "unat b div 64 = 2 \<Longrightarrow> unat b mod 64 = v mod 64 \<Longrightarrow> b = trail v"
  by (simp add: word_eq_iff_unsigned [where ?'a = nat] unat_trail) (metis div_mult_mod_eq mult_2 numeral_Bit0_eq_double)

lemma continuation_step:
  assumes "unat (v :: u32) < 2 ^ 26"
  shows "unat (push_bit 6 v OR ucast (b AND BOTTOM_BITS 6 :: byte)) = 64 * unat v + unat b mod 64"
proof -
  have "BOTTOM_BITS 6 = mask 6" by code_simp
  then have "push_bit 6 v OR ucast (b AND BOTTOM_BITS 6) = push_bit 6 v + ucast (b AND BOTTOM_BITS 6)"
    by (intro disjunctive_add [symmetric]) (auto simp: bit_simps)
  moreover have "unat (push_bit 6 v) = 64 * unat v" using assms by (simp add: push_bit_eq_mult unat_word_ariths)
  moreover have "unat (ucast (b AND BOTTOM_BITS 6) :: u32) = unat b mod 64"
    by (subst unat_ucast_up) (simp_all add: lead_tests(8))
  moreover have "64 * unat v + unat b mod 64 < 4294967296"
    using assms mod_less_divisor [of 64 "unat b"] by (simp del: mod_less_divisor)
  ultimately show ?thesis by (simp add: unat_word_ariths)
qed

lemma get_continuation_trails:
  "(unat v + 1) * 64 ^ n \<le> 2 ^ 32 \<Longrightarrow> get_continuation n c v = (Some w, c') \<Longrightarrow>
     c = map (\<lambda>i. trail (unat w div 64 ^ i)) (rev [0..<n]) @ c' \<and> unat w div 64 ^ n = unat v"
proof (induction n arbitrary: c v)
  case (Suc n)
  obtain b c1 where c: "c = b # c1" using Suc.prems(2) by (cases c) simp_all
  let ?v = "push_bit 6 v OR ucast (b AND BOTTOM_BITS 6) :: u32"
  have b: "unat b div 64 = 2" "get_continuation n c1 ?v = (Some w, c')"
    using Suc.prems(2) c lead_tests(1) [of b] by (simp_all split: if_splits)
  have "(unat v + 1) * 64 * 1 \<le> (unat v + 1) * 64 * 64 ^ n" by (intro mult_le_mono2) simp
  also have "\<dots> \<le> 2 ^ 32" using Suc.prems(1) by (simp only: power_Suc mult.assoc)
  finally have "unat v < 2 ^ 26" by simp
  note v = continuation_step [OF this, of b]
  have "(unat ?v + 1) * 64 ^ n \<le> ((unat v + 1) * 64) * 64 ^ n"
    unfolding v using mod_less_divisor [of 64 "unat b"] by (intro mult_le_mono1) (simp del: mod_less_divisor)
  also have "\<dots> \<le> 2 ^ 32" using Suc.prems(1) by (simp only: power_Suc mult.assoc)
  finally have "(unat ?v + 1) * 64 ^ n \<le> 2 ^ 32" .
  note ih = Suc.IH [OF this b(2), unfolded v]
  have "unat w div 64 ^ Suc n = unat w div 64 ^ n div 64" by (simp add: div_mult2_eq mult.commute [of "64"])
  also have "\<dots> = unat v" using ih by simp
  finally have "unat w div 64 ^ Suc n = unat v" .
  moreover have "b = trail (unat w div 64 ^ n)" using ih by (intro trail_byte b(1)) simp
  ultimately show ?case using ih c by simp
qed simp

lemma get_continuation_complete:
  "(unat v + 1) * 64 ^ n \<le> 2 ^ 32 \<Longrightarrow> unat w div 64 ^ n = unat v \<Longrightarrow>
     get_continuation n (map (\<lambda>i. trail (unat w div 64 ^ i)) (rev [0..<n]) @ c) v = (Some w, c)"
proof (induction n arbitrary: v)
  case 0
  then show ?case by (simp add: word_eq_iff_unsigned [where ?'a = nat])
next
  case (Suc n)
  let ?b = "trail (unat w div 64 ^ n)"
  let ?v = "push_bit 6 v OR ucast (?b AND BOTTOM_BITS 6) :: u32"
  have "(unat v + 1) * 64 * 1 \<le> (unat v + 1) * 64 * 64 ^ n" by (intro mult_le_mono2) simp
  also have "\<dots> \<le> 2 ^ 32" using Suc.prems(1) by (simp only: power_Suc mult.assoc)
  finally have "unat v < 2 ^ 26" by simp
  from continuation_step [OF this, of ?b] have v: "unat ?v = 64 * unat v + unat w div 64 ^ n mod 64"
    by (simp add: unat_trail trail_mod)
  have "(unat ?v + 1) * 64 ^ n \<le> ((unat v + 1) * 64) * 64 ^ n"
    unfolding v using mod_less_divisor [of 64 "unat w div 64 ^ n"] by (intro mult_le_mono1) (simp del: mod_less_divisor)
  also have "\<dots> \<le> 2 ^ 32" using Suc.prems(1) by (simp only: power_Suc mult.assoc)
  finally have le: "(unat ?v + 1) * 64 ^ n \<le> 2 ^ 32" .
  have "unat w div 64 ^ Suc n = unat w div 64 ^ n div 64" by (simp add: div_mult2_eq mult.commute [of "64"])
  then have "unat w div 64 ^ n = unat ?v"
    unfolding v using Suc.prems(2) mult_div_mod_eq [of 64 "unat w div 64 ^ n"] by simp
  note ih = Suc.IH [OF le this]
  have "unat ?b div 64 = 2" using mod_less_divisor [of 64 "unat w div 64 ^ n"] by (simp add: unat_trail del: mod_less_divisor)
  then have "?b AND TOP_BITS 2 = TOP_BITS 1" by (simp only: lead_tests(1))
  then show ?case using ih by simp
qed

text \<open>The code points that a text may have, as the standard gives them: none past the last plane, no surrogate and
  no noncharacter.\<close>

definition code_point :: "nat \<Rightarrow> bool" where
  "code_point v \<longleftrightarrow>
     v \<le> 0x10ffff \<and> \<not> (0xd800 \<le> v \<and> v \<le> 0xdfff) \<and> \<not> (0xfdd0 \<le> v \<and> v \<le> 0xfdef) \<and>
     v mod 0x10000 \<noteq> 0xfffe \<and> v mod 0x10000 \<noteq> 0xffff"

lemma noncharacter_bits: "(v :: u32) AND 0xfffe = 0xfffe \<longleftrightarrow> unat v mod 0x10000 = 0xfffe \<or> unat v mod 0x10000 = 0xffff"
proof -
  have e: "(0xfffe :: u32) = push_bit 1 (mask 15)" by code_simp
  have "v AND push_bit 1 (mask 15) = push_bit 1 (take_bit 15 (drop_bit 1 v))"
    by (rule bit_word_eqI) (simp only: bit_push_bit_iff bit_and_iff bit_mask_iff bit_take_bit_iff bit_drop_bit_eq comp_apply le_add_diff_inverse possible_bit_word, auto)
  then have "v AND 0xfffe = push_bit 1 (take_bit 15 (drop_bit 1 v))" by (simp only: e)
  moreover have "unat (push_bit 1 (take_bit 15 (drop_bit 1 v))) = 2 * (unat v div 2 mod 2 ^ 15)"
  proof -
    have "2 * (unat v div 2 mod 2 ^ 15) < 2 ^ 32"
      using mod_less_divisor [of "2 ^ 15" "unat v div 2"] by (simp del: mod_less_divisor)
    moreover have "unat v mod 2 ^ 32 = unat v" using unsigned_less [of v, where ?'a = nat] by simp
    ultimately show ?thesis
      unfolding unsigned_push_bit_eq unsigned_take_bit_eq unsigned_drop_bit_eq
      by (simp add: take_bit_eq_mod push_bit_eq_mult drop_bit_eq_div)
  qed
  ultimately have "v AND 0xfffe = 0xfffe \<longleftrightarrow> 2 * (unat v div 2 mod 2 ^ 15) = 0xfffe"
    by (simp add: word_eq_iff_unsigned [where ?'a = nat])
  also have "unat v div 2 mod 2 ^ 15 = unat v mod 0x10000 div 2"
    using mod_mult2_eq [of "unat v" 2 "2 ^ 15"] by simp
  finally show ?thesis by auto
qed
lemma is_valid_iff: "is_valid_code_point v \<longleftrightarrow> code_point (unat v)"
  unfolding is_valid_code_point_def code_point_def noncharacter_bits by (auto simp: word_less_nat_alt word_le_nat_alt not_less)

lemma valid_less: "is_valid_code_point v \<Longrightarrow> unat v \<le> 0x10ffff"
  by (simp add: is_valid_code_point_def word_less_nat_alt word_le_nat_alt)

lemma small_valid: "unat v < 0x100 \<Longrightarrow> is_valid_code_point v"
  using word_and_le2 [of v "0xfffe"]
  by (auto simp: is_valid_code_point_def word_less_nat_alt word_le_nat_alt not_less)

lemma get_utf8_sound:
  assumes "cbs_get_utf8 c = (Some v, c')"
  shows "is_valid_code_point v \<and> c = utf8 (unat v) @ c'"
proof -
  obtain b c1 where c: "c = b # c1" using assms by (cases c) (simp_all add: cbs_get_utf8_def)
  have b8: "unat b < 256" by (rule unat_byte_less)
  have lead: "b = of_nat (m + unat v div 64 ^ n)" if "unat v div 64 ^ n = unat b mod d" "unat b div d = q" "m = q * d" for m n d q
    using that by (metis div_mult_mod_eq of_nat_unat ucast_id)
  have upt: "rev [0..<1] = [0]" "rev [0..<2] = [1, 0]" "rev [0..<3] = [2, 1, 0]" by (simp_all add: upt_rec)
  consider (one) "b \<le> 0x7f" "v = ucast b" "c' = c1"
    | (two) "unat b div 32 = 6" "get_continuation 1 c1 (ucast (b AND BOTTOM_BITS 5)) = (Some v, c')" "is_valid_code_point v" "0x80 \<le> v"
    | (three) "unat b div 16 = 14" "get_continuation 2 c1 (ucast (b AND BOTTOM_BITS 4)) = (Some v, c')" "is_valid_code_point v" "0x800 \<le> v"
    | (four) "unat b div 8 = 30" "get_continuation 3 c1 (ucast (b AND BOTTOM_BITS 3)) = (Some v, c')" "is_valid_code_point v" "0x10000 \<le> v"
    using assms by (auto simp: cbs_get_utf8_def c Let_def lead_tests not_less split: if_splits prod.splits option.splits)
  then show ?thesis
  proof cases
    case one
    then have "unat v < 0x80" by (simp add: unat_ucast_up word_le_nat_alt)
    then show ?thesis using one small_valid [of v] by (simp add: c utf8_def unat_ucast_up)
  next
    case two
    have u: "unat (ucast (b AND BOTTOM_BITS 5) :: u32) = unat b mod 32" by (subst unat_ucast_up) (simp_all add: lead_tests)
    have "(unat (ucast (b AND BOTTOM_BITS 5) :: u32) + 1) * 64 ^ 1 \<le> 2 ^ 32"
      using mod_less_divisor [of 32 "unat b"] by (simp add: u del: mod_less_divisor)
    note g = get_continuation_trails [OF this two(2), unfolded u]
    have "unat v div 64 = unat b mod 32" using g by simp
    then have "unat v < 0x800"
      using mod_less_divisor [of 32 "unat b"] by (simp add: div_less_iff_less_mult)
    then show ?thesis
      using g two lead [of 1 32 6 192] by (simp add: c utf8_def word_le_nat_alt upt)
  next
    case three
    have u: "unat (ucast (b AND BOTTOM_BITS 4) :: u32) = unat b mod 16" by (subst unat_ucast_up) (simp_all add: lead_tests)
    have "(unat (ucast (b AND BOTTOM_BITS 4) :: u32) + 1) * 64 ^ 2 \<le> 2 ^ 32"
      using mod_less_divisor [of 16 "unat b"] by (simp add: u del: mod_less_divisor)
    note g = get_continuation_trails [OF this three(2), unfolded u]
    have "unat v div 4096 < 16" using g mod_less_divisor [of 16 "unat b"] by simp
    then have "unat v < 0x10000" by (simp add: div_less_iff_less_mult)
    then show ?thesis
      using g three lead [of 2 16 14 224] by (simp add: c utf8_def word_le_nat_alt upt)
  next
    case four
    have u: "unat (ucast (b AND BOTTOM_BITS 3) :: u32) = unat b mod 8" by (subst unat_ucast_up) (simp_all add: lead_tests)
    have "(unat (ucast (b AND BOTTOM_BITS 3) :: u32) + 1) * 64 ^ 3 \<le> 2 ^ 32"
      using mod_less_divisor [of 8 "unat b"] by (simp add: u del: mod_less_divisor)
    note g = get_continuation_trails [OF this four(2), unfolded u]
    then show ?thesis
      using four lead [of 3 8 30 240] by (simp add: c utf8_def word_le_nat_alt upt)
  qed
qed

text \<open>The first byte of an encoding of \<open>n + 1\<close> bytes.\<close>

lemma lead_byte:
  assumes "m = q * d" "x < d" "q * d + d \<le> 256"
  shows "unat (of_nat (m + x) :: byte) div d = q" "unat (of_nat (m + x) :: byte) mod d = x"
  using assms by (simp_all add: unat_of_nat_byte del: of_nat_add of_nat_mult)

lemma get_utf8_multi:
  assumes v: "is_valid_code_point v"
  shows "unat b div 32 = 6 \<Longrightarrow> 0x80 \<le> unat v \<Longrightarrow>
      get_continuation 1 c (ucast (b AND BOTTOM_BITS 5)) = (Some v, c') \<Longrightarrow> cbs_get_utf8 (b # c) = (Some v, c')"
    "unat b div 16 = 14 \<Longrightarrow> 0x800 \<le> unat v \<Longrightarrow>
      get_continuation 2 c (ucast (b AND BOTTOM_BITS 4)) = (Some v, c') \<Longrightarrow> cbs_get_utf8 (b # c) = (Some v, c')"
    "unat b div 8 = 30 \<Longrightarrow> 0x10000 \<le> unat v \<Longrightarrow>
      get_continuation 3 c (ucast (b AND BOTTOM_BITS 3)) = (Some v, c') \<Longrightarrow> cbs_get_utf8 (b # c) = (Some v, c')"
proof -
  have d: "unat b div 32 = unat b div 16 div 2" "unat b div 16 = unat b div 8 div 2" by (simp_all flip: div_mult2_eq)
  have one: "\<not> b \<le> 0x7f" if "128 \<le> unat b" using that by (simp add: word_le_nat_alt)
  show "unat b div 32 = 6 \<Longrightarrow> 0x80 \<le> unat v \<Longrightarrow>
      get_continuation 1 c (ucast (b AND BOTTOM_BITS 5)) = (Some v, c') \<Longrightarrow> cbs_get_utf8 (b # c) = (Some v, c')"
    using one v d by (simp add: cbs_get_utf8_def lead_tests Let_def word_less_nat_alt del: get_continuation.simps)
  show "unat b div 16 = 14 \<Longrightarrow> 0x800 \<le> unat v \<Longrightarrow>
      get_continuation 2 c (ucast (b AND BOTTOM_BITS 4)) = (Some v, c') \<Longrightarrow> cbs_get_utf8 (b # c) = (Some v, c')"
    using one v d by (simp add: cbs_get_utf8_def lead_tests Let_def word_less_nat_alt del: get_continuation.simps)
  show "unat b div 8 = 30 \<Longrightarrow> 0x10000 \<le> unat v \<Longrightarrow>
      get_continuation 3 c (ucast (b AND BOTTOM_BITS 3)) = (Some v, c') \<Longrightarrow> cbs_get_utf8 (b # c) = (Some v, c')"
    using one v d by (simp add: cbs_get_utf8_def lead_tests Let_def word_less_nat_alt del: get_continuation.simps)
qed

lemma get_utf8_complete:
  assumes v: "is_valid_code_point v"
  shows "cbs_get_utf8 (utf8 (unat v) @ c) = (Some v, c)"
proof -
  have upt: "rev [0..<1] = [0]" "rev [0..<2] = [1, 0]" "rev [0..<3] = [2, 1, 0]" by (simp_all add: upt_rec)
  have top: "unat v \<le> 0x10ffff" by (rule valid_less [OF v])
  consider (one) "unat v < 0x80" | (two) "0x80 \<le> unat v" "unat v < 0x800"
    | (three) "0x800 \<le> unat v" "unat v < 0x10000" | (four) "0x10000 \<le> unat v" by linarith
  then show ?thesis
  proof cases
    case one
    define b where "b = (of_nat (unat v) :: byte)"
    have "unat b = unat v" unfolding b_def unat_of_nat_byte using one by simp
    then have "b \<le> 0x7f" "ucast b = v"
      using one by (simp_all add: word_le_nat_alt word_eq_iff_unsigned [where ?'a = nat] unat_ucast_up)
    moreover have "utf8 (unat v) = [b]" using one by (simp only: utf8_def b_def if_True)
    ultimately show ?thesis by (simp add: cbs_get_utf8_def)
  next
    case two
    define b where "b = (of_nat (192 + unat v div 64) :: byte)"
    have b: "unat b div 32 = 6" "unat b mod 32 = unat v div 64"
      unfolding b_def using lead_byte [of 192 6 32 "unat v div 64"] two by (simp_all add: div_less_iff_less_mult)
    have u: "unat (ucast (b AND BOTTOM_BITS 5) :: u32) = unat b mod 32" by (subst unat_ucast_up) (simp_all add: lead_tests)
    have "get_continuation 1 (map (\<lambda>i. trail (unat v div 64 ^ i)) (rev [0..<1]) @ c) (ucast (b AND BOTTOM_BITS 5)) = (Some v, c)"
      by (rule get_continuation_complete) (use two in \<open>simp_all add: u b(2) div_le_dividend\<close>)
    moreover have "utf8 (unat v) = b # map (\<lambda>i. trail (unat v div 64 ^ i)) (rev [0..<1])"
      using two by (simp add: utf8_def b_def upt)
    ultimately show ?thesis using get_utf8_multi(1) [OF v b(1)] two by simp
  next
    case three
    define b where "b = (of_nat (224 + unat v div 4096) :: byte)"
    have b: "unat b div 16 = 14" "unat b mod 16 = unat v div 4096"
      unfolding b_def using lead_byte [of 224 14 16 "unat v div 4096"] three by (simp_all add: div_less_iff_less_mult)
    have u: "unat (ucast (b AND BOTTOM_BITS 4) :: u32) = unat b mod 16" by (subst unat_ucast_up) (simp_all add: lead_tests)
    have "get_continuation 2 (map (\<lambda>i. trail (unat v div 64 ^ i)) (rev [0..<2]) @ c) (ucast (b AND BOTTOM_BITS 4)) = (Some v, c)"
      by (rule get_continuation_complete) (use mod_less_divisor [of 16 "unat b"] in \<open>simp_all add: u del: mod_less_divisor\<close>, simp add: b(2))
    moreover have "utf8 (unat v) = b # map (\<lambda>i. trail (unat v div 64 ^ i)) (rev [0..<2])"
      using three by (simp add: utf8_def b_def upt)
    ultimately show ?thesis using get_utf8_multi(2) [OF v b(1)] three by simp
  next
    case four
    define b where "b = (of_nat (240 + unat v div 262144) :: byte)"
    have b: "unat b div 8 = 30" "unat b mod 8 = unat v div 262144"
      unfolding b_def using lead_byte [of 240 30 8 "unat v div 262144"] top by (simp_all add: div_less_iff_less_mult)
    have u: "unat (ucast (b AND BOTTOM_BITS 3) :: u32) = unat b mod 8" by (subst unat_ucast_up) (simp_all add: lead_tests)
    have "get_continuation 3 (map (\<lambda>i. trail (unat v div 64 ^ i)) (rev [0..<3]) @ c) (ucast (b AND BOTTOM_BITS 3)) = (Some v, c)"
      by (rule get_continuation_complete) (use mod_less_divisor [of 8 "unat b"] in \<open>simp_all add: u del: mod_less_divisor\<close>, simp add: b(2))
    moreover have "utf8 (unat v) = b # map (\<lambda>i. trail (unat v div 64 ^ i)) (rev [0..<3])"
      using four by (simp add: utf8_def b_def upt)
    ultimately show ?thesis using get_utf8_multi(3) [OF v b(1)] four by simp
  qed
qed

section \<open>The decoders\<close>

lemma unat_ucast_less: "unat w < 2 ^ LENGTH('b) \<Longrightarrow> unat (ucast w :: 'b::len word) = unat w"
  by (simp add: unsigned_ucast_eq take_bit_nat_eq_self)

interpretation utf8: codec "\<lambda>v. utf8 (unat v)" is_valid_code_point cbs_get_utf8
  using get_utf8_complete get_utf8_sound by unfold_locales simp_all

interpretation latin1: codec "\<lambda>v. [ucast v]" "\<lambda>v. v \<le> 0xff" cbs_get_latin1
proof
  have up: "(ucast (ucast v :: byte) :: u32) = v" if "v \<le> 0xff" for v :: u32
    using that by (simp add: word_eq_iff_unsigned [where ?'a = nat] word_le_nat_alt unat_ucast_less)
  show "cbs_get_latin1 ([ucast v] @ c) = (Some v, c)" if "v \<le> 0xff" for v c
    using that by (simp add: cbs_get_latin1_def up)
  show "v \<le> 0xff \<and> c = [ucast v] @ c'" if "cbs_get_latin1 c = (Some v, c')" for c v c'
  proof (cases c)
    case (Cons b c1)
    have "(ucast b :: u32) \<le> 0xff" using unat_byte_less [of b] by (simp add: word_le_nat_alt unat_ucast_up)
    moreover have "ucast (ucast b :: u32) = b"
      using unat_byte_less [of b] by (simp add: word_eq_iff_unsigned [where ?'a = nat] unat_ucast_less)
    ultimately show ?thesis using that Cons by (auto simp: cbs_get_latin1_def)
  qed (use that in \<open>simp add: cbs_get_latin1_def\<close>)
qed

interpretation ucs2: codec "\<lambda>v. be_bytes 2 (unat v)" "\<lambda>v. v \<le> 0xffff \<and> is_valid_code_point v" cbs_get_ucs2_be
proof
  have g: "cbs_get_u c 2 = (Some w, c') \<longleftrightarrow> unat w < 65536 \<and> c = be_bytes 2 (unat w) @ c'" for c w c'
    using cbs_get_u_be [of 2 c w c'] by simp
  show "cbs_get_ucs2_be (be_bytes 2 (unat v) @ c) = (Some v, c)" if "v \<le> 0xffff \<and> is_valid_code_point v" for v c
  proof -
    have v: "unat v < 65536" using that by (simp add: word_le_nat_alt)
    then have "cbs_get_u (be_bytes 2 (unat v) @ c) 2 = (Some (ucast v), c)" by (simp add: g unat_ucast_up)
    moreover have "(ucast (ucast (ucast v :: u64) :: 16 word) :: u32) = v"
      using v by (simp add: word_eq_iff_unsigned [where ?'a = nat] unat_ucast_less)
    ultimately show ?thesis using that by (simp add: cbs_get_ucs2_be_def CBS_get_u16_def)
  qed
  show "(v \<le> 0xffff \<and> is_valid_code_point v) \<and> c = be_bytes 2 (unat v) @ c'" if "cbs_get_ucs2_be c = (Some v, c')" for c v c'
  proof -
    note dec = that
    obtain w c1 where w: "cbs_get_u c 2 = (Some w, c1)"
      using dec by (cases "cbs_get_u c 2"; cases "fst (cbs_get_u c 2)") (auto simp: cbs_get_ucs2_be_def CBS_get_u16_def)
    then have "v = ucast (ucast w :: 16 word)" "c1 = c'" "is_valid_code_point v"
      using that by (auto simp: cbs_get_ucs2_be_def CBS_get_u16_def split: if_splits)
    moreover have "unat (ucast (ucast w :: 16 word) :: u32) = unat w"
      using w by (simp add: g unat_ucast_less)
    ultimately show ?thesis using w by (simp add: g word_le_nat_alt)
  qed
qed

interpretation utf32: codec "\<lambda>v. be_bytes 4 (unat v)" is_valid_code_point cbs_get_utf32_be
proof
  have g: "cbs_get_u c 4 = (Some w, c') \<longleftrightarrow> unat w < 4294967296 \<and> c = be_bytes 4 (unat w) @ c'" for c w c'
    using cbs_get_u_be [of 4 c w c'] by simp
  show "cbs_get_utf32_be (be_bytes 4 (unat v) @ c) = (Some v, c)" if "is_valid_code_point v" for v c
  proof -
    have v: "unat v < 4294967296" using unat_u32_less [of v] by simp
    then have "cbs_get_u (be_bytes 4 (unat v) @ c) 4 = (Some (ucast v), c)" by (simp add: g unat_ucast_up)
    moreover have "(ucast (ucast v :: u64) :: u32) = v"
      using v by (simp add: word_eq_iff_unsigned [where ?'a = nat] unat_ucast_less)
    ultimately show ?thesis using that by (simp add: cbs_get_utf32_be_def CBS_get_u32_def)
  qed
  show "is_valid_code_point v \<and> c = be_bytes 4 (unat v) @ c'" if "cbs_get_utf32_be c = (Some v, c')" for c v c'
  proof -
    note dec = that
    obtain w c1 where w: "cbs_get_u c 4 = (Some w, c1)"
      using dec by (cases "cbs_get_u c 4"; cases "fst (cbs_get_u c 4)") (auto simp: cbs_get_utf32_be_def CBS_get_u32_def)
    then have "v = ucast w" "c1 = c'" "is_valid_code_point v"
      using that by (auto simp: cbs_get_utf32_be_def CBS_get_u32_def split: if_splits)
    moreover have "unat (ucast w :: u32) = unat w"
      using w by (simp add: g unat_ucast_less)
    ultimately show ?thesis using w by (simp add: g)
  qed
qed

section \<open>The encoders\<close>

fun add_all :: "('a \<Rightarrow> cbb_st \<Rightarrow> bool \<times> cbb_st) \<Rightarrow> 'a list \<Rightarrow> cbb_st \<Rightarrow> bool \<times> cbb_st" where
  "add_all add [] = Pair True"
| "add_all add (x # xs) = and_then (add x) (add_all add xs)"

text \<open>What an encoder does with the values that its encoding has, and with the others.\<close>

locale encoder = codec +
  fixes add :: "allocator \<Rightarrow> nat \<Rightarrow> 'a \<Rightarrow> cbb_st \<Rightarrow> bool \<times> cbb_st"
  assumes add_valid: "valid x \<Longrightarrow> writes env k (add env k x) (Some (enc x))"
    and add_invalid: "\<not> valid x \<Longrightarrow> add env k x s = (False, s)"
begin

lemma writes_all: "\<forall>x \<in> set xs. valid x \<Longrightarrow> writes env k (add_all (add env k) xs) (Some (concat (map enc xs)))"
proof (induction xs)
  case (Cons x xs)
  have "writes env k (add env k x) (Some (enc x))" using Cons.prems by (intro add_valid) simp
  then show ?case using writes_and_then Cons by fastforce
qed (simp add: writes_skip)

lemma add_all_valid: "add_all (add env k) xs s = (True, s') \<Longrightarrow> \<forall>x \<in> set xs. valid x"
proof (induction xs arbitrary: s)
  case (Cons x xs)
  obtain ok s1 where r: "add env k x s = (ok, s1)" by (rule prod.exhaust)
  then have "ok" "add_all (add env k) xs s1 = (True, s')"
    using Cons.prems by (cases ok; simp add: and_then_def)+
  then show ?case using Cons.IH r add_invalid [of x env k s] by auto
qed simp

end

lemma or_lead: "unat (x :: byte) < 2 ^ k \<Longrightarrow> push_bit k q OR x = push_bit k q + x"
proof -
  assume "unat x < 2 ^ k"
  then have "take_bit k x = x" by (simp add: word_eq_iff_unsigned [where ?'a = nat] unsigned_take_bit_eq take_bit_nat_eq_self)
  then have "\<not> bit x n" if "k \<le> n" for n using that by (metis bit_take_bit_iff not_le)
  then show ?thesis by (intro disjunctive_add [symmetric]) (auto simp: bit_simps)
qed

lemma top_bits: "TOP_BITS 1 = push_bit 6 2" "TOP_BITS 2 = push_bit 5 6" "TOP_BITS 3 = push_bit 4 14" "TOP_BITS 4 = push_bit 3 30"
  by code_simp+

lemma unat_drop: "unat (drop_bit i u) = unat u div 2 ^ i"
  by (simp only: unsigned_drop_bit_eq) (simp add: drop_bit_eq_div take_bit_nat_eq_self div_less_dividend unat_u32_less [simplified])

lemma add_lead:
  assumes "unat u div 2 ^ i < 2 ^ k" "k \<le> 8"
  shows "push_bit k q OR ucast (drop_bit i (u :: u32)) = push_bit k q + (of_nat (unat u div 2 ^ i) :: byte)"
proof -
  have "(2 :: nat) ^ k \<le> 2 ^ 8" using assms(2) by (intro power_increasing) simp_all
  then have "unat (ucast (drop_bit i u) :: byte) = unat u div 2 ^ i"
    using assms by (simp add: unat_ucast_less unat_drop)
  then show ?thesis using or_lead [of "ucast (drop_bit i u)" k q] assms(1) by (metis of_nat_unat ucast_id)
qed

lemma add_trail: "TOP_BITS 1 OR (ucast (drop_bit i u) AND BOTTOM_BITS 6) = trail (unat (u :: u32) div 2 ^ i)"
proof -
  let ?x = "ucast (drop_bit i u) AND BOTTOM_BITS 6 :: byte"
  have "unat (ucast (drop_bit i u) :: byte) mod 64 = unat u div 2 ^ i mod 64"
    by (simp add: unsigned_ucast_eq unat_drop take_bit_eq_mod mod_mod_cancel)
  then have x: "unat ?x = unat u div 2 ^ i mod 64" by (simp add: lead_tests(8))
  then have "unat ?x < 2 ^ 6" using mod_less_divisor [of 64] by simp
  then have "TOP_BITS 1 OR ?x = push_bit 6 2 + ?x" unfolding top_bits(1) by (rule or_lead)
  also have "\<dots> = 128 + of_nat (unat ?x)" by (simp only: of_nat_unat ucast_id) (simp add: push_bit_eq_mult)
  also have "\<dots> = trail (unat u div 2 ^ i)" unfolding x by (simp add: trail_def)
  finally show ?thesis .
qed

lemma writes_utf8:
  assumes v: "is_valid_code_point u"
  shows "writes env k (cbb_add_utf8 env k u) (Some (utf8 (unat u)))"
proof -
  note top = valid_less [OF v]
  note t = add_trail [of 0 u, simplified] add_trail [of 6 u, simplified] add_trail [of 12 u, simplified]
  note le = word_le_nat_alt [of u]
  note w = writes_cong [OF writes_and_then [OF writes_u8 writes_u8]]
    writes_cong [OF writes_and_then [OF writes_u8 writes_and_then [OF writes_u8 writes_u8]]]
    writes_cong [OF writes_and_then [OF writes_u8 writes_and_then [OF writes_u8 writes_and_then [OF writes_u8 writes_u8]]]]
  consider "unat u < 0x80" | "0x80 \<le> unat u" "unat u < 0x800" | "0x800 \<le> unat u" "unat u < 0x10000" | "0x10000 \<le> unat u"
    by linarith
  then show ?thesis
  proof cases
    case 1
    then have "(ucast u :: byte) = of_nat (unat u)" by simp
    then show ?thesis using 1 v writes_u8 [of env k "ucast u"] by (simp add: cbb_add_utf8_def utf8_def le)
  next
    case 2
    then have "TOP_BITS 2 OR ucast (drop_bit 6 u) = of_nat (192 + unat u div 64)"
      using add_lead [of u 6 5 6] by (simp add: top_bits(2) div_less_iff_less_mult push_bit_eq_mult)
    then show ?thesis using 2 v by (simp add: cbb_add_utf8_def utf8_def le t) (rule w(1), simp)
  next
    case 3
    then have "TOP_BITS 3 OR ucast (drop_bit 12 u) = of_nat (224 + unat u div 4096)"
      using add_lead [of u 12 4 14] by (simp add: top_bits(3) div_less_iff_less_mult push_bit_eq_mult)
    then show ?thesis using 3 v by (simp add: cbb_add_utf8_def utf8_def le t) (rule w(2), simp)
  next
    case 4
    then have "TOP_BITS 4 OR ucast (drop_bit 18 u) = of_nat (240 + unat u div 262144)"
      using add_lead [of u 18 3 30] top by (simp add: top_bits(4) div_less_iff_less_mult push_bit_eq_mult)
    then show ?thesis using 4 v top by (simp add: cbb_add_utf8_def utf8_def le t) (rule w(3), simp)
  qed
qed

interpretation utf8: encoder "\<lambda>v. utf8 (unat v)" is_valid_code_point cbs_get_utf8 cbb_add_utf8
proof
  fix u env k s
  show "\<not> is_valid_code_point u \<Longrightarrow> cbb_add_utf8 env k u s = (False, s)" by (simp add: cbb_add_utf8_def)
  show "is_valid_code_point u \<Longrightarrow> writes env k (cbb_add_utf8 env k u) (Some (utf8 (unat u)))"
    by (rule writes_utf8)
qed

interpretation latin1: encoder "\<lambda>v. [ucast v]" "\<lambda>v. v \<le> 0xff" cbs_get_latin1 cbb_add_latin1
  by unfold_locales (simp_all add: cbb_add_latin1_def writes_u8)

interpretation ucs2: encoder "\<lambda>v. be_bytes 2 (unat v)" "\<lambda>v. v \<le> 0xffff \<and> is_valid_code_point v" cbs_get_ucs2_be cbb_add_ucs2_be
proof
  fix u env k s
  show "\<not> (u \<le> 0xffff \<and> is_valid_code_point u) \<Longrightarrow> cbb_add_ucs2_be env k u s = (False, s)"
    by (auto simp: cbb_add_ucs2_be_def)
  have "unat (ucast u :: 16 word) = unat u" if "u \<le> 0xffff"
    using that by (simp add: unat_ucast_less word_le_nat_alt)
  then show "u \<le> 0xffff \<and> is_valid_code_point u \<Longrightarrow> writes env k (cbb_add_ucs2_be env k u) (Some (be_bytes 2 (unat u)))"
    using writes_u16 [of env k "ucast u"] by (simp add: cbb_add_ucs2_be_def)
qed

interpretation utf32: encoder "\<lambda>v. be_bytes 4 (unat v)" is_valid_code_point cbs_get_utf32_be cbb_add_utf32_be
  by unfold_locales (simp_all add: cbb_add_utf32_be_def writes_u32)

lemma length_utf8: "is_valid_code_point u \<Longrightarrow> length (utf8 (unat u)) = unat (cbb_get_utf8_len u)"
  by (simp add: utf8_def cbb_get_utf8_len_def word_le_nat_alt)

section \<open>UTF-8 is what the standard says\<close>

text \<open>C19: The UTF-8 decoder accepts the table's encoding of the code points that the standard allows and nothing
  else: no overlong form, no surrogate, no noncharacter and nothing past the last plane. The encoder refuses
  the other values without touching the buffer, and its length function counts its bytes.\<close>

theorem utf8_standard:
  "(cbs_get_utf8 c = (Some v, c') \<longleftrightarrow> code_point (unat v) \<and> c = utf8 (unat v) @ c') \<and>
   (if code_point (unat v)
    then writes env k (cbb_add_utf8 env k v) (Some (utf8 (unat v))) \<and> length (utf8 (unat v)) = unat (cbb_get_utf8_len v)
    else cbb_add_utf8 env k v s = (False, s))"
  unfolding is_valid_iff [symmetric]
  using utf8.dec_iff [of c v c'] utf8.add_valid utf8.add_invalid length_utf8 by simp

end
