(* ===== verification/Crypto_Mbstring.thy ===== *)
theory Crypto_Mbstring
  imports Crypto_Unicode
begin

text \<open>
  \<^verbatim>\<open>ios/Pods/BoringSSL-GRPC/src/crypto/asn1/a_mbstr.c\<close> and the strings it fills, of
  \<^verbatim>\<open>asn1_lib.c\<close>: a text in one of four encodings is copied into an ASN.1 string of the least type
  that can hold it. The copy reads with the decoders of \<open>Crypto_Unicode\<close>, writes with its encoders and
  finishes the buffer of \<open>Crypto_Cbb\<close>.
\<close>

section \<open>Constants\<close>

definition V_ASN1_OCTET_STRING :: int where "V_ASN1_OCTET_STRING = 4"
definition V_ASN1_UTF8STRING :: int where "V_ASN1_UTF8STRING = 12"
definition V_ASN1_PRINTABLESTRING :: int where "V_ASN1_PRINTABLESTRING = 19"
definition V_ASN1_T61STRING :: int where "V_ASN1_T61STRING = 20"
definition V_ASN1_IA5STRING :: int where "V_ASN1_IA5STRING = 22"
definition V_ASN1_UNIVERSALSTRING :: int where "V_ASN1_UNIVERSALSTRING = 28"
definition V_ASN1_BMPSTRING :: int where "V_ASN1_BMPSTRING = 30"

definition B_ASN1_NUMERICSTRING :: u64 where "B_ASN1_NUMERICSTRING = 0x0001"
definition B_ASN1_PRINTABLESTRING :: u64 where "B_ASN1_PRINTABLESTRING = 0x0002"
definition B_ASN1_T61STRING :: u64 where "B_ASN1_T61STRING = 0x0004"
definition B_ASN1_IA5STRING :: u64 where "B_ASN1_IA5STRING = 0x0010"
definition B_ASN1_UNIVERSALSTRING :: u64 where "B_ASN1_UNIVERSALSTRING = 0x0100"
definition B_ASN1_BMPSTRING :: u64 where "B_ASN1_BMPSTRING = 0x0800"
definition B_ASN1_UTF8STRING :: u64 where "B_ASN1_UTF8STRING = 0x2000"

definition MBSTRING_UTF8 :: int where "MBSTRING_UTF8 = 0x1000"
definition MBSTRING_ASC :: int where "MBSTRING_ASC = 0x1001"
definition MBSTRING_BMP :: int where "MBSTRING_BMP = 0x1002"
definition MBSTRING_UNIV :: int where "MBSTRING_UNIV = 0x1004"

definition DIRSTRING_TYPE :: u64 where
  "DIRSTRING_TYPE = B_ASN1_PRINTABLESTRING OR B_ASN1_T61STRING OR B_ASN1_BMPSTRING OR B_ASN1_UTF8STRING"


definition INT_MAX :: int where
  "INT_MAX = 2 ^ 31 - 1"

section \<open>Strings\<close>

text \<open>\<open>s_data\<close> is the allocated block, \<open>None\<close> for \<open>NULL\<close>.\<close>

record asn1_string =
  s_length :: int
  s_type :: int
  s_data :: "byte list option"
  s_flags :: int

definition ASN1_STRING_type_new :: "allocator \<Rightarrow> int \<Rightarrow> asn1_string option" where
  "ASN1_STRING_type_new env t =
     (if \<not> allots env 24 then None
      else Some \<lparr>s_length = 0, s_type = t, s_data = None, s_flags = 0\<rparr>)"

definition ASN1_STRING_new :: "allocator \<Rightarrow> asn1_string option" where
  "ASN1_STRING_new env = ASN1_STRING_type_new env V_ASN1_OCTET_STRING"

definition block_of :: "asn1_string \<Rightarrow> byte list" where
  "block_of str = (case s_data str of None \<Rightarrow> [] | Some d \<Rightarrow> d)"

text \<open>A block of \<open>n\<close> bytes whose beginning is what \<open>OPENSSL_realloc\<close> kept of the old one.\<close>

definition resized :: "allocator \<Rightarrow> nat \<Rightarrow> byte list \<Rightarrow> byte list" where
  "resized env n old = take n old @ map (fresh_cell env) [length old..<n]"

text \<open>The source is what \<open>_data\<close> points to, \<open>None\<close> for \<open>NULL\<close>; a negative length measures it. The
  result is \<open>None\<close> when the source is read outside. The size is computed in an \<open>int\<close>.\<close>

definition c_strlen :: "byte list \<Rightarrow> nat option" where
  "c_strlen d = (if 0 \<in> set d then Some (length (takeWhile (\<lambda>b. b \<noteq> 0) d)) else None)"

definition as_int :: "int \<Rightarrow> int" where
  "as_int n = sint (of_int n :: 32 word)"

definition string_store :: "allocator \<Rightarrow> asn1_string \<Rightarrow> byte list option \<Rightarrow> int \<Rightarrow> (bool \<times> asn1_string) option" where
  "string_store env str src cnt =
     (let n = (of_int (as_int (cnt + 1)) :: size_t);
          grow = s_length str \<le> cnt \<or> s_data str = None
      in
        if grow \<and> \<not> allots env n then Some (False, str)
        else
          let block = (if grow then resized env (unat n) (block_of str) else block_of str);
              str = str\<lparr>s_length := cnt\<rparr>
          in case src of
               None \<Rightarrow> Some (True, str\<lparr>s_data := Some block\<rparr>)
             | Some d \<Rightarrow>
                 if cnt < 0 \<or> length d < nat cnt \<or> length block < nat cnt + 1 then None
                 else Some (True, str\<lparr>s_data := Some (write_at block 0 (take (nat cnt) d @ [0]))\<rparr>))"

definition ASN1_STRING_set :: "allocator \<Rightarrow> asn1_string \<Rightarrow> byte list option \<Rightarrow> int \<Rightarrow> (bool \<times> asn1_string) option" where
  "ASN1_STRING_set env str src cnt =
     (if cnt < 0 then
        (case src of
           None \<Rightarrow> Some (False, str)
         | Some d \<Rightarrow>
             (case c_strlen d of
                None \<Rightarrow> None
              | Some n \<Rightarrow> string_store env str src (as_int (int n))))
      else string_store env str src cnt)"

definition ASN1_STRING_set0 :: "asn1_string \<Rightarrow> byte list option \<Rightarrow> int \<Rightarrow> asn1_string" where
  "ASN1_STRING_set0 str d cnt = str\<lparr>s_data := d, s_length := cnt\<rparr>"

definition ASN1_STRING_copy :: "allocator \<Rightarrow> asn1_string \<Rightarrow> asn1_string option \<Rightarrow> (bool \<times> asn1_string) option" where
  "ASN1_STRING_copy env dst str =
     (case str of
        None \<Rightarrow> Some (False, dst)
      | Some str \<Rightarrow>
          (case ASN1_STRING_set env (dst\<lparr>s_type := s_type str\<rparr>) (s_data str) (s_length str) of
             None \<Rightarrow> None
           | Some (False, dst) \<Rightarrow> Some (False, dst)
           | Some (True, dst) \<Rightarrow> Some (True, dst\<lparr>s_flags := s_flags str\<rparr>)))"

definition ASN1_STRING_dup :: "allocator \<Rightarrow> asn1_string option \<Rightarrow> asn1_string option option" where
  "ASN1_STRING_dup env str =
     (if str = None then Some None
      else
        (case ASN1_STRING_new env of
           None \<Rightarrow> Some None
         | Some ret \<Rightarrow>
             (case ASN1_STRING_copy env ret str of
                None \<Rightarrow> None
              | Some (False, _) \<Rightarrow> Some None
              | Some (True, ret) \<Rightarrow> Some (Some ret))))"

definition ASN1_STRING_cmp :: "asn1_string \<Rightarrow> asn1_string \<Rightarrow> int" where
  "ASN1_STRING_cmp a b =
     (let i = s_length a - s_length b in
      if i = 0 then
        (let i = memcmp (take (nat (s_length a)) (block_of a)) (take (nat (s_length a)) (block_of b)) in
         if i = 0 then s_type a - s_type b else i)
      else i)"

section \<open>The copy\<close>

datatype mb_error =
  Malloc_failure | Internal_error | Unknown_format | Illegal_characters | String_too_short | String_too_long
| Invalid_bmpstring | Invalid_universalstring | Invalid_utf8string

text \<open>What \<open>out\<close> is: \<open>NULL\<close>, or the address of a pointer that is \<open>NULL\<close>, that points to a string, or
  that points to a string that has been released.\<close>

datatype out_param = No_out | Null_string | String asn1_string | Released

text \<open>\<open>strchr\<close> also finds the terminator of the string it searches.\<close>

definition strchr_found :: "string \<Rightarrow> int \<Rightarrow> bool" where
  "strchr_found s ch \<longleftrightarrow> ch \<in> set (map of_char s @ [0])"

definition is_printable :: "u32 \<Rightarrow> bool" where
  "is_printable v =
     (if v > 0x7f then False
      else
        let ch = uint v in
        if of_char CHR ''a'' \<le> ch \<and> ch \<le> of_char CHR ''z'' then True
        else if of_char CHR ''A'' \<le> ch \<and> ch \<le> of_char CHR ''Z'' then True
        else if of_char CHR ''0'' \<le> ch \<and> ch \<le> of_char CHR ''9'' then True
        else ch = of_char CHR '' '' \<or> strchr_found ([CHR 0x27] @ ''()+,-./:=?'') ch)"

definition decode_func :: "int \<Rightarrow> cbs \<Rightarrow> u32 option \<times> cbs" where
  "decode_func inform =
     (if inform = MBSTRING_BMP then cbs_get_ucs2_be
      else if inform = MBSTRING_UNIV then cbs_get_utf32_be
      else if inform = MBSTRING_UTF8 then cbs_get_utf8
      else cbs_get_latin1)"

definition decode_error :: "int \<Rightarrow> mb_error option" where
  "decode_error inform =
     (if inform = MBSTRING_BMP then Some Invalid_bmpstring
      else if inform = MBSTRING_UNIV then Some Invalid_universalstring
      else if inform = MBSTRING_UTF8 then Some Invalid_utf8string
      else if inform = MBSTRING_ASC then Some Internal_error
      else None)"

text \<open>Which output types are still possible after a character.\<close>

definition without :: "u64 \<Rightarrow> bool \<Rightarrow> u64 \<Rightarrow> u64" where
  "without flag bad m = (if m AND flag \<noteq> 0 \<and> bad then m AND NOT flag else m)"

definition restrict_mask :: "u32 \<Rightarrow> u64 \<Rightarrow> u64" where
  "restrict_mask c m =
     without B_ASN1_BMPSTRING (c > 0xffff)
       (without B_ASN1_T61STRING (c > 0xff)
         (without B_ASN1_IA5STRING (c > 127)
           (without B_ASN1_PRINTABLESTRING (\<not> is_printable c) m)))"

lemma decode_func_cases:
  "decode_func inform = cbs_get_ucs2_be \<or> decode_func inform = cbs_get_utf32_be \<or>
   decode_func inform = cbs_get_utf8 \<or> decode_func inform = cbs_get_latin1"
  by (simp add: decode_func_def)

lemma decode_shrinks:
  assumes "decode_func inform c = (Some v, c')"
  shows "length c' < length c"
  using utf8.dec_sound [of c v c'] latin1.dec_sound [of c v c'] ucs2.dec_sound [of c v c'] utf32.dec_sound [of c v c']
    length_be_bytes [of 2 "unat v"] length_be_bytes [of 4 "unat v"]
    length_utf8 [of v] decode_func_cases [of inform] assms
  by (elim disjE) (simp_all add: cbb_get_utf8_len_def split: if_splits)

text \<open>The first pass: the types left, the number of characters and the length of their UTF-8.\<close>

function mb_scan :: "int \<Rightarrow> mb_error \<Rightarrow> cbs \<Rightarrow> u64 \<Rightarrow> size_t \<Rightarrow> size_t \<Rightarrow> mb_error + (u64 \<times> size_t \<times> size_t)" where
  "mb_scan inform error c mask0 nchar utf8_len =
     (if c = [] then Inr (mask0, nchar, utf8_len)
      else
        (case decode_func inform c of
           (None, _) \<Rightarrow> Inl error
         | (Some v, c') \<Rightarrow>
             if nchar = 0 \<and> (inform = MBSTRING_BMP \<or> inform = MBSTRING_UNIV) \<and> v = 0xfeff then Inl Illegal_characters
             else
               let mask1 = restrict_mask v mask0 in
               if mask1 = 0 then Inl Illegal_characters
               else mb_scan inform error c' mask1 (nchar + 1) (utf8_len + cbb_get_utf8_len v)))"
  by pat_completeness auto
termination
  by (relation "measure (\<lambda>(inform, error, c, mask0, nchar, utf8_len). length c)") (auto dest: decode_shrinks [OF sym])

declare mb_scan.simps [simp del]

text \<open>The output type, its form and the estimate of its size.\<close>

definition choose_type :: "u64 \<Rightarrow> size_t \<Rightarrow> size_t \<Rightarrow> int \<times> int \<times> size_t" where
  "choose_type mask0 nchar utf8_len =
     (if mask0 AND B_ASN1_PRINTABLESTRING \<noteq> 0 then (V_ASN1_PRINTABLESTRING, MBSTRING_ASC, nchar)
      else if mask0 AND B_ASN1_IA5STRING \<noteq> 0 then (V_ASN1_IA5STRING, MBSTRING_ASC, nchar)
      else if mask0 AND B_ASN1_T61STRING \<noteq> 0 then (V_ASN1_T61STRING, MBSTRING_ASC, nchar)
      else if mask0 AND B_ASN1_BMPSTRING \<noteq> 0 then (V_ASN1_BMPSTRING, MBSTRING_BMP, 2 * nchar)
      else if mask0 AND B_ASN1_UNIVERSALSTRING \<noteq> 0 then (V_ASN1_UNIVERSALSTRING, MBSTRING_UNIV, 4 * nchar)
      else (V_ASN1_UTF8STRING, MBSTRING_UTF8, utf8_len))"

definition encode_func :: "int \<Rightarrow> allocator \<Rightarrow> nat \<Rightarrow> u32 \<Rightarrow> cbb_st \<Rightarrow> bool \<times> cbb_st" where
  "encode_func outform =
     (if outform = MBSTRING_BMP then cbb_add_ucs2_be
      else if outform = MBSTRING_UNIV then cbb_add_utf32_be
      else if outform = MBSTRING_UTF8 then cbb_add_utf8
      else cbb_add_latin1)"

text \<open>The second pass.\<close>

function mb_transcode :: "allocator \<Rightarrow> int \<Rightarrow> int \<Rightarrow> cbs \<Rightarrow> cbb_st \<Rightarrow> bool \<times> cbb_st" where
  "mb_transcode env inform outform c s =
     (if c = [] then (True, s)
      else
        (case decode_func inform c of
           (None, _) \<Rightarrow> (False, s)
         | (Some v, c') \<Rightarrow>
             (case encode_func outform env 0 v s of
                (False, s) \<Rightarrow> (False, s)
              | (True, s) \<Rightarrow> mb_transcode env inform outform c' s)))"
  by pat_completeness auto
termination
  by (relation "measure (\<lambda>(env, inform, outform, c, s). length c)") (auto dest: decode_shrinks [OF sym])

declare mb_transcode.simps [simp del]

text \<open>The input is the memory at \<open>in\<close>; reading past it is \<open>None\<close>, as is a call with a released string.\<close>

definition mb_input :: "byte list \<Rightarrow> int \<Rightarrow> byte list option" where
  "mb_input src cnt =
     (case (if cnt = -1 then map_option (\<lambda>n. as_int (int n)) (c_strlen src) else Some cnt) of
        None \<Rightarrow> None
      | Some n \<Rightarrow> if n < 0 \<or> int (length src) < n then None else Some (take (nat n) src))"

text \<open>The string that receives the copy, and what \<open>out\<close> is when the copy fails.\<close>

definition mb_dest :: "allocator \<Rightarrow> out_param \<Rightarrow> int \<Rightarrow> asn1_string option" where
  "mb_dest env out str_type =
     (case out of
        String dest \<Rightarrow>
          (let dest = (if s_data dest \<noteq> None then dest\<lparr>s_length := 0, s_data := None\<rparr> else dest) in
           Some (dest\<lparr>s_type := str_type\<rparr>))
      | _ \<Rightarrow> ASN1_STRING_type_new env str_type)"

definition mb_failed :: "out_param \<Rightarrow> asn1_string \<Rightarrow> out_param" where
  "mb_failed out dest = (if out = Null_string then Released else String dest)"

definition mb_fill ::
  "allocator \<Rightarrow> out_param \<Rightarrow> asn1_string \<Rightarrow> byte list \<Rightarrow> int \<Rightarrow> int \<Rightarrow> size_t \<Rightarrow> (mb_error + int) \<times> out_param" where
  "mb_fill env out dest inp inform outform size_estimate =
     (case CBB_init env (size_estimate + 1) of
        None \<Rightarrow> (Inl Malloc_failure, mb_failed out dest)
      | Some cbb \<Rightarrow>
          (case finish_with env True (and_then (mb_transcode env inform outform inp) (CBB_add_u8 env 0 0)) cbb of
             None \<Rightarrow> (Inl Internal_error, mb_failed out dest)
           | Some d \<Rightarrow>
               if length d < 1 \<or> int (length d) > INT_MAX then (Inl Internal_error, mb_failed out dest)
               else
                 (Inr (s_type dest), String (dest\<lparr>s_length := int (length d) - 1, s_data := Some d\<rparr>))))"

text \<open>What is done with the input once its length is known.\<close>

definition mb_copy ::
  "allocator \<Rightarrow> out_param \<Rightarrow> byte list \<Rightarrow> int \<Rightarrow> u64 \<Rightarrow> int \<Rightarrow> int \<Rightarrow> (mb_error + int) \<times> out_param" where
  "mb_copy env out inp inform mask0 minsize maxsize =
     (case decode_error inform of
        None \<Rightarrow> (Inl Unknown_format, out)
      | Some error \<Rightarrow>
          (case mb_scan inform error inp (if mask0 = 0 then DIRSTRING_TYPE else mask0) 0 0 of
             Inl e \<Rightarrow> (Inl e, out)
           | Inr (mask1, nchar, utf8_len) \<Rightarrow>
               if minsize > 0 \<and> nchar < of_int minsize then (Inl String_too_short, out)
               else if maxsize > 0 \<and> nchar > of_int maxsize then (Inl String_too_long, out)
               else
                 (case choose_type mask1 nchar utf8_len of
                    (str_type, outform, size_estimate) \<Rightarrow>
                      if out = No_out then (Inr str_type, out)
                      else
                        (case mb_dest env out str_type of
                           None \<Rightarrow> (Inl Malloc_failure, out)
                         | Some dest \<Rightarrow>
                             if inform = outform then
                               (case ASN1_STRING_set env dest (Some inp) (int (length inp)) of
                                  Some (True, dest) \<Rightarrow> (Inr str_type, String dest)
                                | _ \<Rightarrow> (Inl Malloc_failure, String dest))
                             else mb_fill env out dest inp inform outform size_estimate))))"

definition ASN1_mbstring_ncopy ::
  "allocator \<Rightarrow> out_param \<Rightarrow> byte list \<Rightarrow> int \<Rightarrow> int \<Rightarrow> u64 \<Rightarrow> int \<Rightarrow> int \<Rightarrow> ((mb_error + int) \<times> out_param) option" where
  "ASN1_mbstring_ncopy env out src cnt inform mask0 minsize maxsize =
     (if out = Released then None
      else map_option (\<lambda>inp. mb_copy env out inp inform mask0 minsize maxsize) (mb_input src cnt))"

definition ASN1_mbstring_copy ::
  "allocator \<Rightarrow> out_param \<Rightarrow> byte list \<Rightarrow> int \<Rightarrow> int \<Rightarrow> u64 \<Rightarrow> ((mb_error + int) \<times> out_param) option" where
  "ASN1_mbstring_copy env out src cnt inform mask0 = ASN1_mbstring_ncopy env out src cnt inform mask0 0 0"

section \<open>What the copy is\<close>




















lemma find_NoneD: "find P xs = None \<Longrightarrow> x \<in> set xs \<Longrightarrow> \<not> P x"
  by (induction xs) (auto split: if_splits)
















lemma set_prefix:
  assumes "s_data dest = None" "int n < INT_MAX" "n \<le> length d"
  shows "ASN1_STRING_set env dest (Some d) (int n) =
    Some (if allots env (of_nat (n + 1))
          then (True, dest\<lparr>s_length := int n, s_data := Some (take n d @ [0])\<rparr>) else (False, dest))"
proof -
  have l: "int n + 1 < 2 ^ 31" using assms(2) by (simp add: INT_MAX_def)
  have a: "as_int (int n + 1) = int (n + 1)"
    unfolding as_int_def sint_sbintrunc' by (subst signed_take_bit_int_eq_self) (use l in simp_all)
  have n: "unat (of_nat (n + 1) :: size_t) = n + 1"
    unfolding unsigned_of_nat by (subst take_bit_nat_eq_self) (use l in simp_all)
  have b: "block_of dest = []" using assms(1) by (simp add: block_of_def)
  have r: "length (resized env (n + 1) []) = n + 1" by (simp add: resized_def)
  have w: "write_at (resized env (n + 1) []) 0 (take n d @ [0]) = take n d @ [0]"
    using r assms(3) by (simp add: write_at_def)
  show ?thesis
    unfolding ASN1_STRING_set_def string_store_def a of_int_of_nat_eq Let_def n b
    using assms(1,3) r w by simp
qed

lemma set_fresh:
  assumes "s_data dest = None" "int (length inp) < INT_MAX"
  shows "ASN1_STRING_set env dest (Some inp) (int (length inp)) =
    Some (if allots env (of_nat (length inp + 1))
          then (True, dest\<lparr>s_length := int (length inp), s_data := Some (inp @ [0])\<rparr>) else (False, dest))"
  using set_prefix [OF assms] by simp

lemma dest_fresh:
  "mb_dest env out t = Some dest \<Longrightarrow> s_data dest = None \<and> s_type dest = t"
  by (auto simp: mb_dest_def ASN1_STRING_type_new_def Let_def split: out_param.splits if_splits)

lemma dest_emptied:
  "mb_dest env out t = Some dest \<Longrightarrow>
     s_length dest = (case out of String s \<Rightarrow> if s_data s = None then s_length s else 0 | _ \<Rightarrow> 0)"
  by (auto simp: mb_dest_def ASN1_STRING_type_new_def Let_def split: out_param.splits if_splits)







lemma input_length: "mb_input src cnt = Some inp \<Longrightarrow> length inp \<le> length src"
  by (auto simp: mb_input_def split: option.splits if_splits)



section \<open>Properties\<close>




lemma fill_failure:
  "mb_fill env out dest inp inform f n = (Inl e, out') \<Longrightarrow> e \<in> {Malloc_failure, Internal_error} \<and> out' = mb_failed out dest"
  by (auto simp: mb_fill_def split: option.splits if_splits)

lemma copy_failure:
  assumes c: "mb_copy env out inp inform m minsize maxsize = (Inl e, out')" and l: "int (length inp) < INT_MAX"
    and out: "out' \<noteq> out" "out \<noteq> Released"
  shows "e \<in> {Malloc_failure, Internal_error} \<and>
    (out = Null_string \<and> out' = Released \<or>
     (\<exists>s. out' = String s \<and> s_data s = None \<and>
       (case out of String s0 \<Rightarrow> s_length s = (if s_data s0 = None then s_length s0 else 0)
        | _ \<Rightarrow> s_length s = 0 \<and> e = Malloc_failure)))"
proof -
  obtain error where error: "decode_error inform = Some error"
    using c out by (cases "decode_error inform") (simp_all add: mb_copy_def)
  note c = c [unfolded mb_copy_def error option.case]
  obtain m1 nchar u8 where scan: "mb_scan inform error inp (if m = 0 then DIRSTRING_TYPE else m) 0 0 = Inr (m1, nchar, u8)"
    using c out by (cases "mb_scan inform error inp (if m = 0 then DIRSTRING_TYPE else m) 0 0") auto
  obtain t f n where ch: "choose_type m1 nchar u8 = (t, f, n)" by (rule prod_cases3)
  note c = c [unfolded scan sum.case prod.case ch]
  obtain dest where dest: "mb_dest env out t = Some dest"
    using c out by (cases "mb_dest env out t") (auto split: if_splits)
  have d: "s_data dest = None" using dest_fresh [OF dest] by simp
  have out0: "out \<noteq> No_out" by (cases out) (use c out dest in \<open>auto split: if_splits\<close>)
  note n = dest_emptied [OF dest]
  have r: "(if inform = f
      then (case ASN1_STRING_set env dest (Some inp) (int (length inp)) of
              Some (True, dest) \<Rightarrow> (Inr t, String dest) | _ \<Rightarrow> (Inl Malloc_failure, String dest))
      else mb_fill env out dest inp inform f n) = (Inl e, out')"
    using c out unfolding dest option.case by (auto split: if_splits)
  show ?thesis
  proof (cases "inform = f")
    case True
    then have "e = Malloc_failure" "out' = String dest" using r by (auto simp: set_fresh [OF d l] split: if_splits)
    then show ?thesis using d n by (cases out) simp_all
  next
    case False
    then have "mb_fill env out dest inp inform f n = (Inl e, out')" using r by simp
    from fill_failure [OF this] d n out0 out(2) show ?thesis by (cases out) (auto simp: mb_failed_def)
  qed
qed





text \<open>C29: When the copy fails, the caller's string is as it was unless memory ran out or the output
  grew past an \<open>int\<close>. Then a given string has lost its contents and has length 0, and a pointer that was \<open>NULL\<close> is left
  with the address of the string that was allocated for it, which has been released unless it was to
  receive the input as it is.\<close>

theorem ASN1_mbstring_ncopy_failure:
  assumes c: "ASN1_mbstring_ncopy env out src cnt inform m minsize maxsize = Some (Inl e, out')"
    and l: "int (length src) < INT_MAX" and out: "out' \<noteq> out"
  shows "e \<in> {Malloc_failure, Internal_error} \<and>
    (out = Null_string \<and> out' = Released \<or>
     (\<exists>s. out' = String s \<and> s_data s = None \<and>
       (case out of String s0 \<Rightarrow> s_length s = (if s_data s0 = None then s_length s0 else 0)
        | _ \<Rightarrow> s_length s = 0 \<and> e = Malloc_failure)))"
proof -
  obtain inp where i: "mb_input src cnt = Some inp" "mb_copy env out inp inform m minsize maxsize = (Inl e, out')"
    using c by (auto simp: ASN1_mbstring_ncopy_def split: if_splits)
  have "int (length inp) < INT_MAX" using input_length [OF i(1)] l by simp
  moreover have "out \<noteq> Released" using c by (auto simp: ASN1_mbstring_ncopy_def)
  ultimately show ?thesis using copy_failure [OF i(2) _ out] by blast
qed

text \<open>With memory for the string only, converting a letter leaves a pointer to a released string.\<close>

lemma ASN1_mbstring_ncopy_failure_witness:
  "ASN1_mbstring_ncopy \<lparr>allots = \<lambda>n. n = 24, fresh_cell = \<lambda>_. 7\<rparr> Null_string [0x41] 1 MBSTRING_UTF8 0 0 0 =
     Some (Inl Malloc_failure, Released) \<and> Malloc_failure \<in> {Malloc_failure, Internal_error}"
proof -
  have c: "ASN1_mbstring_ncopy \<lparr>allots = \<lambda>n. n = 24, fresh_cell = \<lambda>_. 7\<rparr> Null_string [0x41] 1 MBSTRING_UTF8 0 0 0 =
     Some (Inl Malloc_failure, Released)" by code_simp
  show ?thesis using c ASN1_mbstring_ncopy_failure [OF c] by (simp add: INT_MAX_def)
qed

text \<open>What a PrintableString may hold: \<open>strchr\<close> finds the terminator of the punctuation, so a NUL is a
  printable character.\<close>

lemma NUL_is_printable: "is_printable 0"
  by code_simp

lemma NUL_in_PrintableString:
  "ASN1_mbstring_ncopy \<lparr>allots = \<lambda>_. True, fresh_cell = \<lambda>_. 7\<rparr> Null_string [0x41, 0, 0x42] 3 MBSTRING_UTF8 0 0 0 =
     Some (Inr V_ASN1_PRINTABLESTRING,
       String \<lparr>s_length = 3, s_type = V_ASN1_PRINTABLESTRING, s_data = Some [0x41, 0, 0x42, 0], s_flags = 0\<rparr>)"
  by code_simp

text \<open>A mask that allows only NumericString gives a UTF8String.\<close>

lemma NumericString_mask:
  "ASN1_mbstring_ncopy \<lparr>allots = \<lambda>_. True, fresh_cell = \<lambda>_. 7\<rparr> No_out [0x31] 1 MBSTRING_ASC B_ASN1_NUMERICSTRING 0 0 =
     Some (Inr V_ASN1_UTF8STRING, No_out)"
  by code_simp

section \<open>Copies of strings\<close>

text \<open>A duplicate compares equal and keeps the flags.\<close>

lemma ASN1_STRING_dup_equal:
  assumes d: "s_data s = Some d" "s_length s = int n" "n \<le> length d" "int n < INT_MAX" and w: "willing env"
  shows "\<exists>r. ASN1_STRING_dup env (Some s) = Some (Some r) \<and> ASN1_STRING_cmp s r = 0 \<and> s_flags r = s_flags s"
proof -
  show ?thesis
    using d w by (auto simp: ASN1_STRING_dup_def ASN1_STRING_new_def ASN1_STRING_type_new_def ASN1_STRING_copy_def willing_def
      set_prefix ASN1_STRING_cmp_def Let_def block_of_def memcmp_0)
qed

end
