(* ===== verification/Spec2Isabelle.thy ===== *)
theory Spec2Isabelle
  imports Pb_Common Pb_Wire Pb_Encode_Message Pb_Decode_Static Pb_Required Base64_Codec
    Crypto_Common Crypto_Mem Crypto_Stack Crypto_Lhash Crypto_Refcount Crypto_Pool Crypto_Cbb_Safe
    Crypto_Ber Crypto_Mbstring
begin

text \<open>
  Verification of C code that the karupasu iOS application links in. The application itself
  (\<^verbatim>\<open>ios/karupasu\<close>) is Swift; what is written in C comes with its pods, under \<^verbatim>\<open>ios/Pods\<close>. Two of
  them carry the bytes of everything the application exchanges with its backend, and run on input that
  comes from the network: nanopb, the Protocol Buffers codec of Firebase, and BoringSSL, the TLS and
  cryptography library of gRPC. Modelled are nanopb as a whole, and of BoringSSL the layer the rest of
  that library stands on: byte strings and their ASN.1, Base64, containers, memory, shared buffers.

  \<^bold>\<open>Conventions\<close> (\<open>Prelude\<close>). Integers keep their width as words, and wrap. A pointer is an \<open>int\<close>, 0 is
  \<open>NULL\<close>, memory maps addresses to bytes; the data model is LP64 and little-endian, as on iOS. Effects are
  passed explicitly: a function of the code takes the state it uses and returns it with its result. A
  C function that stores a result and returns whether it did gives an option. \<open>None\<close> of a whole run is
  a run without a meaning in C: a fault, a failed assertion, or a loop that does not end. What the code
  calls outside of it is a parameter: \<open>malloc\<close>, the decisions and fresh cells of the allocator
  (\<open>grants\<close>, \<open>allocator\<close>), \<open>qsort\<close>, the callbacks and descriptor tables of nanopb's clients.

  \<^bold>\<open>nanopb\<close> (\<^verbatim>\<open>ios/Pods/nanopb\<close>).
  \<^item> \<open>Pb_Types\<close>, \<open>Pb_Common\<close>: \<^verbatim>\<open>pb.h\<close> and the field iterator of \<^verbatim>\<open>pb_common.c\<close>. Every state of the iterator is
    determined by its position (\<open>iter_at\<close>), and the search for a tag ends from every position.
  \<^item> \<open>Pb_Ostream\<close>, \<open>Pb_Encode\<close>: the streams, the wire encoders and the message encoder of \<^verbatim>\<open>pb_encode.c\<close>.
    \<open>Pb_Encode_Spec\<close> and \<open>Pb_Encode_Message\<close> say what a message stands for (\<open>message_den\<close>), that \<open>pb_encode\<close>
    writes just that (\<open>denotes\<close>), and that nothing leaves the buffer (\<open>out_inv\<close>).
  \<^item> \<open>Pb_Istream\<close>, \<open>Pb_Wire\<close>: the streams and wire decoders of \<^verbatim>\<open>pb_decode.c\<close>, which read back what the encoders
    write. The contract of such a pair is the locale \<open>wire_codec\<close>, interpreted for six wire types.
  \<^item> \<open>Pb_Decode\<close>, \<open>Pb_Decode_Message\<close>: the message decoder, with oneofs, extensions, callbacks, defaults,
    release. \<open>Pb_Decode_Safe\<close> and \<open>Pb_Decode_Static\<close> show that on any input it returns, reads its input
    only and writes the message only, for a message that is allocated statically (\<open>static_desc\<close>).
    \<open>Pb_Required\<close>: the check of the required fields on the words of \<open>fields_seen\<close>.

  \<^bold>\<open>BoringSSL\<close> (\<^verbatim>\<open>ios/Pods/BoringSSL-GRPC/src/crypto\<close>).
  \<^item> \<open>Crypto_Common\<close>: the constant-time helpers of \<^verbatim>\<open>internal.h\<close>, collected as equations in \<open>ct_simps\<close>.
    \<open>Base64\<close> uses them; \<open>Base64_Codec\<close> is its proof against RFC 4648 (\<open>b64\<close>), for blocks and for streams.
  \<^item> \<open>Crypto_Mem\<close>: \<^verbatim>\<open>mem.c\<close>. \<open>Crypto_Stack\<close>: \<^verbatim>\<open>stack/stack.c\<close> as a sequence, its searches by a comparison
    (locale \<open>stack_order\<close>, interpreted on the comparison of \<^verbatim>\<open>x509/by_dir.c\<close>), and its use from both ends
    (locale \<open>deque\<close>).
  \<^item> \<open>Crypto_Lhash\<close>: \<^verbatim>\<open>lhash/lhash.c\<close> as a finite map. The locale \<open>lhash_key\<close> is what it needs of hash and
    comparison, \<open>dictionary\<close> what its clients get; both hold of the table of the buffer pool.
  \<^item> \<open>Crypto_Refcount\<close>: \<^verbatim>\<open>refcount_c11.c\<close> under any interleaving of threads. \<open>Crypto_Pool\<close>: \<^verbatim>\<open>pool/pool.c\<close> on
    top of the table and the counts, again under any interleaving; a section under its lock is one step.
  \<^item> \<open>Crypto_Cbs\<close>: the parsers of \<^verbatim>\<open>bytestring/cbs.c\<close>. \<open>Crypto_Der\<close> states the encodings of X.690 and that the
    parsers read exactly them (locale \<open>codec\<close>, interpreted for base 128, tags and elements).
  \<^item> \<open>Crypto_Cbb\<close>: the builder of \<^verbatim>\<open>bytestring/cbb.c\<close>; a live \<open>CBB\<close> is named by its depth in the chain of
    children. \<open>Crypto_Build\<close> is the abstract state, the string with the open prefixes filled in, and the
    contract \<open>writes\<close> of a step; \<open>Crypto_Document\<close> meets it with every operation, and with documents that
    are built and read back. \<open>Crypto_Int64\<close>, \<open>Crypto_Oid\<close> and \<open>Crypto_Set_Of\<close> are the larger values;
    \<open>Crypto_Cbb_Safe\<close> is about all sequences of calls.
  \<^item> \<open>Crypto_Ber\<close>: \<^verbatim>\<open>bytestring/ber.c\<close>, which reads BER with the parsers and writes DER with the builder,
    against trees of elements (\<open>ber\<close>), their octets and their DER form (\<open>forest_der\<close>), which the code
    writes unless a BIT STRING is in several pieces, or the walk has forgotten the BER it found (\<open>ber_seen\<close>).
  \<^item> \<open>Crypto_Unicode\<close>: \<^verbatim>\<open>bytestring/unicode.c\<close>. Its four encodings are instances of \<open>codec\<close> and of \<open>encoder\<close>,
    which adds the writer to it; the code points are those of the standard (\<open>code_point\<close>). \<open>Crypto_Mbstring\<close>: \<^verbatim>\<open>asn1/a_mbstr.c\<close> and the strings of \<^verbatim>\<open>asn1/asn1_lib.c\<close>,
    where they meet: a text is copied from one of the encodings to the first ASN.1 type in the order of
    preference that the mask permits and that has all its characters (\<open>least_type\<close>).

  \<^bold>\<open>Bounds and fuel\<close>. The encoder and decoder of nanopb recurse through submessages; they take fuel, one unit
  per level, and more than the nesting depth of the descriptors (\<open>static_desc d\<close>, \<open>d < n\<close>) is shown to be
  enough. Loops over extension lists take fuel for the same reason: a callback could make the list
  cyclic. \<open>pb_field_iter_find\<close>, \<open>strlen\<close> and \<open>OPENSSL_strcasecmp\<close> are partial functions; the search is shown to
  return. All other loops are total. Sizes are bounded only by the width of \<open>size_t\<close>.

  \<^bold>\<open>Not modelled\<close>. In the modelled files: reads through \<open>NULL\<close> in the encoder, where the message is the
  caller's; a \<open>NULL\<close> table handed to the functions of \<^verbatim>\<open>lhash.c\<close>; what the callback of \<open>lh_doall_arg\<close> may
  do to the table; the branches of other build settings. Of BoringSSL: arithmetic, ciphers, digests,
  X.509 and TLS, which are algorithms and protocols with proofs of their own, in part in assembly or
  C++; input and output, locks and thread-local state. Of the other pods: Objective-C, C++ and Swift,
  and generated tables.
\<close>

end
